(* ===== verification/Prelude.thy ===== *)
theory Prelude
  imports Main "HOL-Library.Word"
begin

text \<open>
  Shared vocabulary of the development: the machine integer types of the C code, byte
  buffers with the three primitive accesses every component is built from (a chunk, an
  overlay, a fixed-width little-endian load or store), and the collections of
  simplification rules the component theories extend.

  A byte buffer is used for memory blocks and for file contents alike.
  \<open>overlay f off d\<close> is the effect of \<open>memcpy(f + off, d, n)\<close> on a memory block and of
  \<open>fseek(f, off); fwrite(d)\<close> on a file: bytes beyond the end are created, a gap is
  filled with zeros. The targets of the library (Xtensa and RISC-V) are little-endian,
  and so are the loads and stores.
\<close>

unbundle bit_operations_syntax

named_theorems buf_simps \<open>rewriting of chunks, overlays, loads and stores\<close>
named_theorems u_simps \<open>machine words read as natural numbers\<close>

section \<open>Types\<close>

type_synonym u8 = "8 word"
type_synonym u16 = "16 word"
type_synonym i16 = "16 word" \<comment> \<open>read with \<open>sint\<close> where the sign matters\<close>
type_synonym u32 = "32 word"
type_synonym u64 = "64 word"

type_synonym bytes = "u8 list"
type_synonym cstr = "u8 list" \<comment> \<open>a C string without its terminating NUL\<close>

section \<open>Byte buffers\<close>

definition chunk :: "bytes \<Rightarrow> nat \<Rightarrow> nat \<Rightarrow> bytes" where
  "chunk f off n = take n (drop off f)"

definition overlay :: "bytes \<Rightarrow> nat \<Rightarrow> bytes \<Rightarrow> bytes" where
  "overlay f off d =
     (if d = [] then f
      else take off f @ replicate (off - length f) 0 @ d @ drop (off + length d) f)"

definition le16 :: "u16 \<Rightarrow> bytes" where
  "le16 v = [ucast v, ucast (drop_bit 8 v)]"

definition le32 :: "u32 \<Rightarrow> bytes" where
  "le32 v = [ucast v, ucast (drop_bit 8 v), ucast (drop_bit 16 v), ucast (drop_bit 24 v)]"

fun of_le16 :: "bytes \<Rightarrow> u16" where
  "of_le16 [a, b] = ucast a OR push_bit 8 (ucast b)"
| "of_le16 _ = 0"

fun of_le32 :: "bytes \<Rightarrow> u32" where
  "of_le32 [a, b, c, d] =
     ucast a OR push_bit 8 (ucast b) OR push_bit 16 (ucast c) OR push_bit 24 (ucast d)"
| "of_le32 _ = 0"

definition ld8 :: "bytes \<Rightarrow> nat \<Rightarrow> u8" where
  "ld8 f off = (if off < length f then f ! off else 0)"

definition ld16 :: "bytes \<Rightarrow> nat \<Rightarrow> u16" where
  "ld16 f off = of_le16 (chunk f off 2)"

definition ld32 :: "bytes \<Rightarrow> nat \<Rightarrow> u32" where
  "ld32 f off = of_le32 (chunk f off 4)"

definition st16 :: "bytes \<Rightarrow> nat \<Rightarrow> u16 \<Rightarrow> bytes" where
  "st16 f off v = overlay f off (le16 v)"

definition st32 :: "bytes \<Rightarrow> nat \<Rightarrow> u32 \<Rightarrow> bytes" where
  "st32 f off v = overlay f off (le32 v)"

text \<open>
  \<open>strncpy(dst, src, n)\<close>: at most \<open>n\<close> bytes of the string, the rest of the \<open>n\<close> bytes
  zeroed. \<open>cstr_of\<close> reads a NUL-terminated string back out of a fixed array.
\<close>

definition strncpy_bytes :: "nat \<Rightarrow> cstr \<Rightarrow> bytes" where
  "strncpy_bytes n s = take n s @ replicate (n - length s) 0"

definition cstr_of :: "bytes \<Rightarrow> cstr" where
  "cstr_of bs = takeWhile (\<lambda>b. b \<noteq> 0) bs"

section \<open>Chunks and overlays\<close>

lemma length_chunk [buf_simps]: "length (chunk f off n) = min n (length f - off)"
  by (simp add: chunk_def)

lemma length_le16 [simp]: "length (le16 v) = 2"
  by (simp add: le16_def)

lemma length_le32 [simp]: "length (le32 v) = 4"
  by (simp add: le32_def)

lemma le16_neq_Nil [simp]: "le16 v \<noteq> []"
  by (simp add: le16_def)

lemma le32_neq_Nil [simp]: "le32 v \<noteq> []"
  by (simp add: le32_def)

lemma overlay_Nil [simp]: "overlay f off [] = f"
  by (simp add: overlay_def)

lemma length_overlay [buf_simps]:
  "length (overlay f off d) = (if d = [] then length f else max (length f) (off + length d))"
  by (auto simp: overlay_def)

lemma nth_chunk: "i < n \<Longrightarrow> off + i < length f \<Longrightarrow> chunk f off n ! i = f ! (off + i)"
  by (simp add: chunk_def)

lemma nth_overlay:
  assumes "i < length (overlay f off d)"
  shows "overlay f off d ! i =
    (if off \<le> i \<and> i < off + length d then d ! (i - off)
     else if i < length f then f ! i else 0)"
proof (cases "d = []")
  case True
  with assms show ?thesis by auto
next
  case False
  with assms have len: "i < max (length f) (off + length d)"
    by (simp add: length_overlay)
  consider "i < off" | "off \<le> i" "i < off + length d" | "off + length d \<le> i"
    by linarith
  then show ?thesis
    using False len by cases (auto simp: overlay_def nth_append min_def)
qed

lemma chunk_overlay_same [buf_simps]:
  "length d = n \<Longrightarrow> chunk (overlay f off d) off n = d"
  by (auto simp: chunk_def overlay_def)

lemma chunk_overlay_disjoint:
  assumes "off' + n \<le> length f" and "off' + n \<le> off \<or> off + length d \<le> off'"
  shows "chunk (overlay f off d) off' n = chunk f off' n"
proof (rule nth_equalityI)
  show "length (chunk (overlay f off d) off' n) = length (chunk f off' n)"
    using assms by (auto simp: length_chunk length_overlay)
  fix i
  assume "i < length (chunk (overlay f off d) off' n)"
  then have i: "i < n" by (simp add: length_chunk)
  have len: "off' + i < length (overlay f off d)"
    using i assms(1) by (auto simp: length_overlay)
  show "chunk (overlay f off d) off' n ! i = chunk f off' n ! i"
    using i assms len by (auto simp: nth_chunk nth_overlay)
qed

lemma chunk_overlay_inside:
  assumes "a + n \<le> length d"
  shows "chunk (overlay f off d) (off + a) n = chunk d a n"
proof (cases "d = []")
  case True
  with assms show ?thesis by (simp add: chunk_def)
next
  case False
  have "off + a - (min (length f) off + (off - length f)) = a"
    by (cases "off \<le> length f") (auto simp: min_def)
  with False assms show ?thesis by (simp add: chunk_def overlay_def)
qed

lemma chunk_chunk: "a + n \<le> m \<Longrightarrow> chunk (chunk f off m) a n = chunk f (off + a) n"
  by (simp add: chunk_def drop_take min_def add.commute)

lemma chunk_full [simp]: "length f = n \<Longrightarrow> chunk f 0 n = f"
  by (simp add: chunk_def)

lemma chunk_append_adjacent:
  "chunk f a m @ chunk f (a + m) n = chunk f a (m + n)"
  by (simp add: chunk_def take_add add.commute)

section \<open>Little-endian loads and stores\<close>

lemma of_le16_le16 [simp]: "of_le16 (le16 v) = v"
  by (rule bit_word_eqI) (use less_diff_conv2 in \<open>auto simp: le16_def bit_simps\<close>)

lemma of_le32_le32 [simp]: "of_le32 (le32 v) = v"
proof (rule bit_word_eqI)
  fix n
  assume "n < LENGTH(32)"
  then consider "n < 8" | "8 \<le> n" "n < 16" | "16 \<le> n" "n < 24" | "24 \<le> n" "n < 32"
    by (simp add: not_less) linarith
  then show "bit (of_le32 (le32 v)) n = bit v n"
    by cases (auto simp: le32_def bit_simps)
qed

lemma bit_byte_high [simp]: "8 \<le> n \<Longrightarrow> \<not> bit (b :: u8) n"
  by (auto dest: bit_imp_le_length)

lemma le16_of_le16: "length bs = 2 \<Longrightarrow> le16 (of_le16 bs) = bs"
proof -
  assume "length bs = 2"
  then obtain a b where bs: "bs = [a, b]"
    by (auto simp: numeral_2_eq_2 length_Suc_conv)
  have "ucast (ucast a OR push_bit 8 (ucast b) :: u16) = a"
    by (rule bit_word_eqI) (auto simp: bit_simps)
  moreover have "ucast (drop_bit 8 (ucast a OR push_bit 8 (ucast b) :: u16)) = b"
    by (rule bit_word_eqI) (auto simp: bit_simps)
  ultimately show ?thesis by (simp only: bs le16_def of_le16.simps)
qed

lemma le32_of_le32: "length bs = 4 \<Longrightarrow> le32 (of_le32 bs) = bs"
proof -
  assume "length bs = 4"
  then obtain a b c d where bs: "bs = [a, b, c, d]"
    by (auto simp: eval_nat_numeral length_Suc_conv)
  let ?w = "ucast a OR push_bit 8 (ucast b) OR push_bit 16 (ucast c) OR push_bit 24 (ucast d) :: u32"
  have "ucast ?w = a"
    by (rule bit_word_eqI) (auto simp: bit_simps)
  moreover have "ucast (drop_bit 8 ?w) = b"
    by (rule bit_word_eqI) (auto simp: bit_simps)
  moreover have "ucast (drop_bit 16 ?w) = c"
    by (rule bit_word_eqI) (auto simp: bit_simps)
  moreover have "ucast (drop_bit 24 ?w) = d"
    by (rule bit_word_eqI) (auto simp: bit_simps)
  ultimately show ?thesis by (simp only: bs le32_def of_le32.simps)
qed

section \<open>Loads after stores\<close>

lemma ld16_overlay_same [buf_simps]: "ld16 (overlay f off (le16 v)) off = v"
  by (simp add: ld16_def chunk_overlay_same)

lemma ld32_overlay_same [buf_simps]: "ld32 (overlay f off (le32 v)) off = v"
  by (simp add: ld32_def chunk_overlay_same)

lemma ld16_st16_same [buf_simps]: "ld16 (st16 f off v) off = v"
  by (simp add: st16_def ld16_overlay_same)

lemma ld32_st32_same [buf_simps]: "ld32 (st32 f off v) off = v"
  by (simp add: st32_def ld32_overlay_same)

lemma ld16_overlay_disjoint:
  "off' + 2 \<le> length f \<Longrightarrow> off' + 2 \<le> off \<or> off + length d \<le> off' \<Longrightarrow>
   ld16 (overlay f off d) off' = ld16 f off'"
  by (simp add: ld16_def chunk_overlay_disjoint)

lemma ld32_overlay_disjoint:
  "off' + 4 \<le> length f \<Longrightarrow> off' + 4 \<le> off \<or> off + length d \<le> off' \<Longrightarrow>
   ld32 (overlay f off d) off' = ld32 f off'"
  by (simp add: ld32_def chunk_overlay_disjoint)

lemma ld16_overlay_inside:
  "a + 2 \<le> length d \<Longrightarrow> ld16 (overlay f off d) (off + a) = ld16 d a"
  by (simp add: ld16_def chunk_overlay_inside)

lemma ld32_overlay_inside:
  "a + 4 \<le> length d \<Longrightarrow> ld32 (overlay f off d) (off + a) = ld32 d a"
  by (simp add: ld32_def chunk_overlay_inside)

lemma ld16_chunk: "a + 2 \<le> m \<Longrightarrow> ld16 (chunk f off m) a = ld16 f (off + a)"
  by (simp add: ld16_def chunk_chunk)

lemma ld32_chunk: "a + 4 \<le> m \<Longrightarrow> ld32 (chunk f off m) a = ld32 f (off + a)"
  by (simp add: ld32_def chunk_chunk)

lemma length_st16 [buf_simps]: "length (st16 f off v) = max (length f) (off + 2)"
  by (simp add: st16_def length_overlay)

lemma length_st32 [buf_simps]: "length (st32 f off v) = max (length f) (off + 4)"
  by (simp add: st32_def length_overlay)

section \<open>Words as natural numbers\<close>

lemma unat_u16_u32 [u_simps]: "unat (ucast (x :: u16) :: u32) = unat x"
  using unsigned_less [of x, where ?'a = nat]
  by (simp add: unsigned_ucast_eq take_bit_nat_eq_self)

lemma unat_u8_u32 [u_simps]: "unat (ucast (x :: u8) :: u32) = unat x"
  using unsigned_less [of x, where ?'a = nat]
  by (simp add: unsigned_ucast_eq take_bit_nat_eq_self)

lemma unat_u8_u16 [u_simps]: "unat (ucast (x :: u8) :: u16) = unat x"
  using unsigned_less [of x, where ?'a = nat]
  by (simp add: unsigned_ucast_eq take_bit_nat_eq_self)

lemma unat_u32_u16: "unat (x :: u32) < 65536 \<Longrightarrow> unat (ucast x :: u16) = unat x"
  by (simp add: unsigned_ucast_eq take_bit_nat_eq_self)

lemmas [u_simps] = unat_mod unat_div word_less_nat_alt word_le_nat_alt

lemma unat_add_no_wrap: "unat (a :: u32) + unat b < 4294967296 \<Longrightarrow> unat (a + b) = unat a + unat b"
  by (simp add: unat_word_ariths)

lemma unat_mult_no_wrap: "unat (a :: u32) * unat b < 4294967296 \<Longrightarrow> unat (a * b) = unat a * unat b"
  by (simp add: unat_word_ariths)

lemma unat_sub_no_wrap: "unat (b :: u32) \<le> unat a \<Longrightarrow> unat (a - b) = unat a - unat b"
  by (simp add: unat_sub word_le_nat_alt)

lemma unat_inc_no_wrap: "unat (a :: u32) + 1 < 4294967296 \<Longrightarrow> unat (a + 1) = unat a + 1"
  by (simp add: unat_word_ariths)

lemma unat_u32_bound: "unat (a :: u32) < 4294967296"
  using unsigned_less [of a, where ?'a = nat] by simp

lemma of_le32_inj: "length a = 4 \<Longrightarrow> length b = 4 \<Longrightarrow> of_le32 a = of_le32 b \<Longrightarrow> a = b"
  by (metis le32_of_le32)

lemma of_le16_inj: "length a = 2 \<Longrightarrow> length b = 2 \<Longrightarrow> of_le16 a = of_le16 b \<Longrightarrow> a = b"
  by (metis le16_of_le16)

end
