(* ===== verification/Platform.thy ===== *)
theory Platform
  imports Prelude
begin

text \<open>
  The platform the library runs on: the C library's files, the ESP-IDF heap, the FreeRTOS
  mutex and the application's free-space callback. All of it is code outside the
  repository, so it appears as one explicit \<open>world\<close> that every operation receives and
  returns:

  \<^item> \<open>fs\<close> and \<open>dirs\<close> are the file system as the process sees it (a path maps to the
    bytes of the file). \<open>fread\<close> after \<open>fseek\<close> succeeds exactly when the whole range is
    inside the file and \<open>read_fault\<close> does not hold of it; \<open>fwrite\<close> after \<open>fseek\<close> overlays the
    bytes. The read faults are an arbitrary predicate on path, offset and size. No operation
    changes it, so it is fixed during a call of the library; between calls it may change.
  \<^item> \<open>io_script\<close> lists how the next fallible file operations end: \<open>IoOk\<close>, or
    \<open>IoFail k e\<close>, which sets \<open>errno\<close> to \<open>e\<close> after the first \<open>k\<close> bytes reached the file, or,
    for a write, \<open>IoLost k\<close>: \<open>fwrite\<close> accepts the data and reports success, but only the first
    \<open>k\<close> bytes reach the file, because the \<open>fflush\<close>, \<open>fsync\<close> or \<open>fclose\<close> behind it fails and its
    result is not checked. An exhausted script means that every further operation succeeds.
  \<^item> \<open>spiram_free\<close> is the free external memory the heap reports;
    \<open>heap_script\<close>, \<open>lock_script\<close> and \<open>free_script\<close> play the same part for memory
    allocation, for taking the handle mutex, and for \<open>free_space_cb()\<close>.

  A theorem about an arbitrary script holds for every finite pattern of failures. A world is
  \<open>sound\<close> when it reports every failure to the code: reads inside a file succeed, and accepted
  data reaches the file; opens, writes, checked flushes, renames, allocations and locks may still fail.
  The functional theorems assume a \<open>quiet\<close> world, in which nothing fails at all.
\<close>

datatype esp_err =
    ESP_OK
  | ESP_FAIL
  | ESP_ERR_NO_MEM
  | ESP_ERR_INVALID_ARG
  | ESP_ERR_INVALID_STATE
  | ESP_ERR_NOT_FOUND
  | ESP_ERR_TIMEOUT

datatype errno = ENOSPC | EIO

datatype io_outcome = IoOk | IoFail nat errno | IoLost nat

text \<open>
  The outcome of \<open>TSDB_LOCK_OPEN_OR_RETURN\<close>: the mutex was taken and the handle is still
  the same open one, the take timed out, or the handle was closed or recycled while the
  task was blocked.
\<close>

datatype lock_outcome = LockOk | LockTimeout | LockStale

type_synonym path = string

record world =
  fs :: "path \<Rightarrow> bytes option"
  dirs :: "path \<Rightarrow> bool"
  read_fault :: "path \<Rightarrow> nat \<Rightarrow> nat \<Rightarrow> bool"
  io_script :: "io_outcome list"
  heap_script :: "bool list"
  lock_script :: "lock_outcome list"
  free_script :: "u64 list"
  spiram_free :: u32

definition lossless :: "io_outcome \<Rightarrow> bool" where
  "lossless r = (case r of IoLost _ \<Rightarrow> False | _ \<Rightarrow> True)"

definition no_faults :: "path \<Rightarrow> nat \<Rightarrow> nat \<Rightarrow> bool" where
  "no_faults p off n \<longleftrightarrow> False"

definition sound :: "world \<Rightarrow> bool" where
  "sound w \<longleftrightarrow> read_fault w = no_faults \<and> list_all lossless (io_script w)"

definition quiet :: "world \<Rightarrow> bool" where
  "quiet w \<longleftrightarrow> read_fault w = no_faults \<and> io_script w = [] \<and> heap_script w = [] \<and> lock_script w = []"

definition next_io :: "world \<Rightarrow> io_outcome \<times> world" where
  "next_io w = (case io_script w of [] \<Rightarrow> (IoOk, w) | r # rs \<Rightarrow> (r, w\<lparr>io_script := rs\<rparr>))"

definition malloc_ok :: "world \<Rightarrow> bool \<times> world" where
  "malloc_ok w = (case heap_script w of [] \<Rightarrow> (True, w) | r # rs \<Rightarrow> (r, w\<lparr>heap_script := rs\<rparr>))"

definition next_lock :: "world \<Rightarrow> lock_outcome \<times> world" where
  "next_lock w = (case lock_script w of [] \<Rightarrow> (LockOk, w) | r # rs \<Rightarrow> (r, w\<lparr>lock_script := rs\<rparr>))"

definition free_space_now :: "world \<Rightarrow> u64 \<times> world" where
  "free_space_now w = (case free_script w of [] \<Rightarrow> (- 1, w) | r # rs \<Rightarrow> (r, w\<lparr>free_script := rs\<rparr>))"

text \<open>Contents and updates of a file.\<close>

definition content :: "world \<Rightarrow> path \<Rightarrow> bytes" where
  "content w p = (case fs w p of None \<Rightarrow> [] | Some f \<Rightarrow> f)"

definition put_file :: "world \<Rightarrow> path \<Rightarrow> bytes \<Rightarrow> world" where
  "put_file w p f = w\<lparr>fs := (fs w)(p := Some f)\<rparr>"

definition parent_dir :: "path \<Rightarrow> path" where
  "parent_dir p = rev (drop 1 (dropWhile (\<lambda>c. c \<noteq> CHR ''/'') (rev p)))"

text \<open>\<open>fopen(p, "r+b")\<close> and \<open>fopen(p, "rb")\<close>: the file has to exist.\<close>

definition fopen_existing :: "world \<Rightarrow> path \<Rightarrow> bool \<times> world" where
  "fopen_existing w p = (case next_io w of (r, w') \<Rightarrow> (r = IoOk \<and> fs w p \<noteq> None, w'))"

text \<open>\<open>fopen(p, "wb")\<close> and \<open>fopen(p, "w+b")\<close>: truncates or creates, in an existing directory.\<close>

definition fopen_trunc :: "world \<Rightarrow> path \<Rightarrow> bool \<times> world" where
  "fopen_trunc w p =
     (case next_io w of (r, w') \<Rightarrow>
        if r = IoOk \<and> dirs w (parent_dir p) then (True, put_file w' p []) else (False, w'))"

definition fread_at :: "world \<Rightarrow> path \<Rightarrow> nat \<Rightarrow> nat \<Rightarrow> bytes option" where
  "fread_at w p off n =
     (if off + n \<le> length (content w p) \<and> \<not> read_fault w p off n then Some (chunk (content w p) off n) else None)"

definition fwrite_at :: "world \<Rightarrow> path \<Rightarrow> nat \<Rightarrow> bytes \<Rightarrow> errno option \<times> world" where
  "fwrite_at w p off d =
     (case next_io w of (r, w') \<Rightarrow>
        case r of
          IoOk \<Rightarrow> (None, put_file w' p (overlay (content w' p) off d))
        | IoFail k e \<Rightarrow>
            (Some e, put_file w' p (overlay (content w' p) off (take (min k (length d - 1)) d)))
        | IoLost k \<Rightarrow> (None, put_file w' p (overlay (content w' p) off (take k d))))"

text \<open>\<open>fread\<close> of up to \<open>n\<close> bytes whose short count the code accepts; a fault delivers nothing.\<close>

definition fread_upto :: "world \<Rightarrow> path \<Rightarrow> nat \<Rightarrow> nat \<Rightarrow> bytes" where
  "fread_upto w p off n = (if read_fault w p off n then [] else chunk (content w p) off n)"

text \<open>
  A checked \<open>fflush\<close>, \<open>fsync\<close> or \<open>fclose\<close>. An unchecked one has no result; what it loses is
  the outcome \<open>IoLost\<close> of the write before it.
\<close>

definition io_checked :: "world \<Rightarrow> bool \<times> world" where
  "io_checked w = (case next_io w of (r, w') \<Rightarrow> (r = IoOk, w'))"

text \<open>\<open>fwrite\<close> and a checked \<open>fflush\<close>, which reports data that did not arrive.\<close>

definition fwrite_checked :: "world \<Rightarrow> path \<Rightarrow> nat \<Rightarrow> bytes \<Rightarrow> errno option \<times> bool \<times> world" where
  "fwrite_checked w p off d =
     (case fwrite_at w p off d of (e, w1) \<Rightarrow>
      case io_checked w1 of (flushed, w2) \<Rightarrow> (e, flushed \<and> lossless (fst (next_io w)), w2))"

definition unlink_file :: "world \<Rightarrow> path \<Rightarrow> bool \<times> world" where
  "unlink_file w p =
     (case next_io w of (r, w') \<Rightarrow>
        if r = IoOk \<and> fs w p \<noteq> None then (True, w'\<lparr>fs := (fs w')(p := None)\<rparr>) else (False, w'))"

definition rename_file :: "world \<Rightarrow> path \<Rightarrow> path \<Rightarrow> bool \<times> world" where
  "rename_file w a b =
     (case next_io w of (r, w') \<Rightarrow>
        if r = IoOk \<and> fs w a \<noteq> None
        then (True, w'\<lparr>fs := (fs w')(b := fs w a, a := None)\<rparr>) else (False, w'))"

definition mkdir_path :: "world \<Rightarrow> path \<Rightarrow> world" where
  "mkdir_path w p =
     (case next_io w of (r, w') \<Rightarrow>
        if r = IoOk \<and> dirs w (parent_dir p) then w'\<lparr>dirs := (dirs w')(p := True)\<rparr> else w')"

text \<open>\<open>rmdir\<close> fails on a directory that still holds a file; only the slot files are ever put there.\<close>

definition rmdir_path :: "world \<Rightarrow> path \<Rightarrow> path list \<Rightarrow> world" where
  "rmdir_path w p entries =
     (case next_io w of (r, w') \<Rightarrow>
        if r = IoOk \<and> (\<forall>e\<in>set entries. fs w e = None)
        then w'\<lparr>dirs := (dirs w')(p := False)\<rparr> else w')"

section \<open>A quiet world\<close>

named_theorems quiet_simps \<open>the platform's operations in a world where nothing fails\<close>

lemma quiet_next [quiet_simps]:
  "quiet w \<Longrightarrow> next_io w = (IoOk, w)"
  "quiet w \<Longrightarrow> malloc_ok w = (True, w)"
  "quiet w \<Longrightarrow> next_lock w = (LockOk, w)"
  by (simp_all add: quiet_def next_io_def malloc_ok_def next_lock_def)

lemma quiet_put_file [quiet_simps]: "quiet (put_file w p f) = quiet w"
  by (simp add: quiet_def put_file_def)

lemma quiet_fs [quiet_simps]: "quiet (w\<lparr>fs := g\<rparr>) = quiet w"
  by (simp add: quiet_def)

lemma quiet_dirs [quiet_simps]: "quiet (w\<lparr>dirs := g\<rparr>) = quiet w"
  by (simp add: quiet_def)

lemma quiet_fwrite_at [quiet_simps]:
  "quiet w \<Longrightarrow> fwrite_at w p off d = (None, put_file w p (overlay (content w p) off d))"
  by (simp add: fwrite_at_def quiet_next)

lemma quiet_fopen [quiet_simps]:
  "quiet w \<Longrightarrow> fopen_existing w p = (fs w p \<noteq> None, w)"
  "quiet w \<Longrightarrow> fopen_trunc w p =
     (if dirs w (parent_dir p) then (True, put_file w p []) else (False, w))"
  by (simp_all add: fopen_existing_def fopen_trunc_def quiet_next)

lemma quiet_io_checked [quiet_simps]: "quiet w \<Longrightarrow> io_checked w = (True, w)"
  by (simp add: io_checked_def quiet_next)

lemma quiet_fwrite_checked [quiet_simps]:
  "quiet w \<Longrightarrow> fwrite_checked w p off d = (None, True, put_file w p (overlay (content w p) off d))"
  by (simp add: fwrite_checked_def quiet_fwrite_at quiet_put_file quiet_io_checked quiet_next lossless_def)

lemma quiet_free_space_now: "quiet w \<Longrightarrow> quiet (snd (free_space_now w))"
  by (auto simp: quiet_def free_space_now_def split: list.splits)

lemma content_put_file [simp]:
  "content (put_file w p f) q = (if q = p then f else content w q)"
  by (simp add: content_def put_file_def)

lemma fs_put_file [simp]: "fs (put_file w p f) q = (if q = p then Some f else fs w q)"
  by (simp add: put_file_def)

lemma dirs_put_file [simp]: "dirs (put_file w p f) = dirs w"
  by (simp add: put_file_def)

lemma read_fault_put_file [simp]: "read_fault (put_file w p f) = read_fault w"
  by (simp add: put_file_def)

lemma fread_at_put_file_other [simp]:
  "p \<noteq> q \<Longrightarrow> fread_at (put_file w p f) q off n = fread_at w q off n"
  by (simp add: fread_at_def)

section \<open>A sound world\<close>

named_theorems sound_keeps \<open>the operations of the platform keep a world sound\<close>

lemma lossless_simps [simp]: "lossless IoOk" "lossless (IoFail k e)" "\<not> lossless (IoLost k)"
  by (simp_all add: lossless_def)

lemma no_faults [simp]: "\<not> no_faults p off n"
  by (simp add: no_faults_def)

lemma quiet_sound [simp, intro]: "quiet w \<Longrightarrow> sound w"
  by (simp add: quiet_def sound_def)

lemma sound_read: "sound w \<Longrightarrow> \<not> read_fault w p off n"
  by (simp add: sound_def)

lemma sound_put_file [simp]: "sound (put_file w p f) = sound w"
  by (simp add: sound_def put_file_def)

lemma sound_update [simp]:
  "sound (w\<lparr>fs := g\<rparr>) = sound w" "sound (w\<lparr>dirs := d\<rparr>) = sound w" "sound (w\<lparr>heap_script := hs\<rparr>) = sound w"
  "sound (w\<lparr>lock_script := ls\<rparr>) = sound w" "sound (w\<lparr>free_script := us\<rparr>) = sound w"
  by (simp_all add: sound_def)

lemma sound_next_io [sound_keeps]: "next_io w = (r, w') \<Longrightarrow> sound w \<Longrightarrow> sound w' \<and> lossless r"
  by (auto simp: sound_def next_io_def lossless_def split: list.splits)

lemma sound_scripts [sound_keeps]:
  "malloc_ok w = (b, w') \<Longrightarrow> sound w \<Longrightarrow> sound w'"
  "next_lock w = (l, w') \<Longrightarrow> sound w \<Longrightarrow> sound w'"
  "free_space_now w = (u, w') \<Longrightarrow> sound w \<Longrightarrow> sound w'"
  by (auto simp: malloc_ok_def next_lock_def free_space_now_def split: list.splits)

lemma sound_fwrite_at [sound_keeps]: "fwrite_at w p off d = (r, w') \<Longrightarrow> sound w \<Longrightarrow> sound w'"
  by (auto simp: fwrite_at_def dest: sound_next_io split: prod.splits io_outcome.splits)

lemma sound_files [sound_keeps]:
  "fopen_existing w p = (ok, w') \<Longrightarrow> sound w \<Longrightarrow> sound w'"
  "fopen_trunc w p = (ok, w') \<Longrightarrow> sound w \<Longrightarrow> sound w'"
  "io_checked w = (ok, w') \<Longrightarrow> sound w \<Longrightarrow> sound w'"
  "unlink_file w p = (ok, w') \<Longrightarrow> sound w \<Longrightarrow> sound w'"
  "rename_file w p q = (ok, w') \<Longrightarrow> sound w \<Longrightarrow> sound w'"
  by (auto simp: fopen_existing_def fopen_trunc_def io_checked_def unlink_file_def rename_file_def
      dest: sound_next_io split: prod.splits if_splits)

lemma sound_dir_ops [sound_keeps]:
  "sound w \<Longrightarrow> sound (mkdir_path w p)" "sound w \<Longrightarrow> sound (rmdir_path w p es)"
  by (auto simp: mkdir_path_def rmdir_path_def dest: sound_next_io split: prod.splits)

lemma fread_at_sound:
  "sound w \<Longrightarrow> fread_at w p off n = (if off + n \<le> length (content w p) then Some (chunk (content w p) off n) else None)"
  by (simp add: fread_at_def sound_def)

lemma fread_upto_sound: "sound w \<Longrightarrow> fread_upto w p off n = chunk (content w p) off n"
  by (simp add: fread_upto_def sound_def)

text \<open>A write puts a prefix of the data into the file, and all of it when a sound world reports success.\<close>

lemma fwrite_at_prefix:
  assumes "fwrite_at w p off d = (r, w')"
  obtains j where "j \<le> length d" "content w' p = overlay (content w p) off (take j d)"
    "r = None \<Longrightarrow> sound w \<Longrightarrow> j = length d" "\<And>q. q \<noteq> p \<Longrightarrow> fs w' q = fs w q" "fs w' p \<noteq> None"
    "dirs w' = dirs w" "read_fault w' = read_fault w"
proof -
  obtain o' w1 where io: "next_io w = (o', w1)" by fastforce
  then have f: "fs w1 = fs w" "dirs w1 = dirs w" "read_fault w1 = read_fault w"
    by (auto simp: next_io_def split: list.splits)
  show ?thesis
  proof (cases o')
    case IoOk
    with assms io f that [of "length d"] show ?thesis by (auto simp: fwrite_at_def content_def put_file_def)
  next
    case (IoFail k e)
    with assms io f that [of "min k (length d - 1)"] show ?thesis
      by (auto simp: fwrite_at_def content_def put_file_def)
  next
    case (IoLost k)
    have "\<not> sound w" using sound_next_io [OF io] IoLost by (auto simp: lossless_def)
    moreover have "take (min k (length d)) d = take k d" by (simp add: min_def)
    ultimately show ?thesis
      using assms io f IoLost that [of "min k (length d)"] by (auto simp: fwrite_at_def content_def put_file_def)
  qed
qed

text \<open>
  A failing write leaves a prefix of the data behind: the file keeps every byte outside the
  written range, whatever the outcome.
\<close>

lemma fwrite_at_frame:
  assumes "fwrite_at w p off d = (r, w')" and "off' + n \<le> length (content w p)"
    and "off' + n \<le> off \<or> off + length d \<le> off'"
  shows "chunk (content w' p) off' n = chunk (content w p) off' n"
proof -
  from assms(1) obtain j where j: "j \<le> length d" "content w' p = overlay (content w p) off (take j d)"
    by (rule fwrite_at_prefix)
  moreover have "off' + n \<le> off \<or> off + length (take j d) \<le> off'"
    using assms(3) by (auto simp: min_def)
  ultimately show ?thesis
    using assms(2) by (auto intro!: chunk_overlay_disjoint)
qed

lemma fwrite_at_other:
  "fwrite_at w p off d = (r, w') \<Longrightarrow> q \<noteq> p \<Longrightarrow> content w' q = content w q"
  by (auto simp: fwrite_at_def next_io_def content_def put_file_def
      split: list.splits io_outcome.splits)

end
