(* ===== verification/Tsdb_Format.thy ===== *)
theory Tsdb_Format
  imports Platform
begin

text \<open>
  The file header of the on-disk format (\<open>include/esp_tsdb.h\<close>, \<open>src/tsdb_internal.h\<close>):
  its fields and 584-byte packed image, the cross-field sanity check of
  \<open>tsdb_core.c\<close>, and the position of a data block in the file.

  The lemmas show that the image is a faithful encoding in both directions (a header
  written and read back is the same header; an image read and written back is the same
  bytes) and what geometry a sane header guarantees.
\<close>

section \<open>Constants\<close>

abbreviation (input) TSDB_MAX_PARAMS :: nat where "TSDB_MAX_PARAMS \<equiv> 64"
abbreviation (input) TSDB_MAGIC :: u32 where "TSDB_MAGIC \<equiv> 0x45545344"
abbreviation (input) TSDB_VERSION :: u32 where "TSDB_VERSION \<equiv> 3"
abbreviation (input) TSDB_VERSION_WIDE :: u32 where "TSDB_VERSION_WIDE \<equiv> 4"
abbreviation (input) TSDB_BLOCK_SIZE :: nat where "TSDB_BLOCK_SIZE \<equiv> 1024"
abbreviation (input) TSDB_V4_EXT_NAMES_OFFSET :: nat where "TSDB_V4_EXT_NAMES_OFFSET \<equiv> 584"
abbreviation (input) TSDB_V4_EXT_NAME_LEN :: nat where "TSDB_V4_EXT_NAME_LEN \<equiv> 20"
abbreviation (input) TSDB_V4_INDEX_OFFSET :: u32 where "TSDB_V4_INDEX_OFFSET \<equiv> 2048"
abbreviation (input) TSDB_OVERFLOW_MAGIC :: u32 where "TSDB_OVERFLOW_MAGIC \<equiv> 0x4F564652"
abbreviation (input) TSDB_MAX_EXTRA_PARAMS :: nat where "TSDB_MAX_EXTRA_PARAMS \<equiv> 48"
abbreviation (input) TSDB_OVERFLOW_HEADER_SIZE :: u32 where "TSDB_OVERFLOW_HEADER_SIZE \<equiv> 1024"
abbreviation (input) BLKT_MAGIC :: u32 where "BLKT_MAGIC \<equiv> 0x424C4B54"
abbreviation (input) INDEX_ENTRY_SIZE :: u32 where "INDEX_ENTRY_SIZE \<equiv> 8"
abbreviation (input) TSDB_HDR_SIZE :: nat where "TSDB_HDR_SIZE \<equiv> 584"
abbreviation (input) TSDB_HDR_PRE_LEN :: nat where "TSDB_HDR_PRE_LEN \<equiv> 58"
abbreviation (input) TSDB_HDR_POST_OFF :: nat where "TSDB_HDR_POST_OFF \<equiv> 570"
abbreviation (input) TSDB_HDR_POST_LEN :: nat where "TSDB_HDR_POST_LEN \<equiv> 14"

section \<open>The header\<close>

text \<open>
  \<open>param_names\<close> is the array \<open>char[16][32]\<close> as the 512 bytes it occupies, \<open>reserved2\<close>
  its two bytes.
\<close>

record tsdb_header =
  magic :: u32
  version :: u32
  num_params :: u8
  param_size :: u8
  record_size :: u16
  records_per_block :: u16
  max_records :: u32
  total_records :: u32
  oldest_record_idx :: u32
  newest_record_idx :: u32
  oldest_timestamp :: u32
  newest_timestamp :: u32
  index_offset :: u32
  index_entries :: u32
  index_stride :: u32
  total_writes :: u32
  total_evictions :: u32
  param_names :: bytes
  base_params :: u8
  extra_param_count :: u8
  overflow_record_size :: u16
  overflow_offset :: u32
  first_overflow_record_idx :: u32
  reserved2 :: bytes

definition header_wf :: "tsdb_header \<Rightarrow> bool" where
  "header_wf h \<longleftrightarrow> length (param_names h) = 512 \<and> length (reserved2 h) = 2"

text \<open>\<open>memset(&header, 0, sizeof(header))\<close>.\<close>

definition zero_header :: tsdb_header where
  "zero_header = \<lparr> magic = 0, version = 0, num_params = 0, param_size = 0, record_size = 0,
     records_per_block = 0, max_records = 0, total_records = 0, oldest_record_idx = 0,
     newest_record_idx = 0, oldest_timestamp = 0, newest_timestamp = 0, index_offset = 0,
     index_entries = 0, index_stride = 0, total_writes = 0, total_evictions = 0,
     param_names = replicate 512 0, base_params = 0, extra_param_count = 0,
     overflow_record_size = 0, overflow_offset = 0, first_overflow_record_idx = 0,
     reserved2 = replicate 2 0 \<rparr>"

text \<open>
  The packed struct as bytes: the fields before \<open>param_names\<close>, the names, the fields after
  them. The two outer parts are what a compact sidecar slot stores.
\<close>

definition header_pre :: "tsdb_header \<Rightarrow> bytes" where
  "header_pre h =
     le32 (magic h) @ le32 (version h) @ [num_params h, param_size h] @
     le16 (record_size h) @ le16 (records_per_block h) @
     le32 (max_records h) @ le32 (total_records h) @
     le32 (oldest_record_idx h) @ le32 (newest_record_idx h) @
     le32 (oldest_timestamp h) @ le32 (newest_timestamp h) @
     le32 (index_offset h) @ le32 (index_entries h) @ le32 (index_stride h) @
     le32 (total_writes h) @ le32 (total_evictions h)"

definition header_post :: "tsdb_header \<Rightarrow> bytes" where
  "header_post h =
     [base_params h, extra_param_count h] @ le16 (overflow_record_size h) @
     le32 (overflow_offset h) @ le32 (first_overflow_record_idx h) @ reserved2 h"

definition encode_header :: "tsdb_header \<Rightarrow> bytes" where
  "encode_header h = header_pre h @ param_names h @ header_post h"

definition decode_parts :: "bytes \<Rightarrow> bytes \<Rightarrow> bytes \<Rightarrow> tsdb_header" where
  "decode_parts a names b = \<lparr>
     magic = ld32 a 0, version = ld32 a 4, num_params = ld8 a 8, param_size = ld8 a 9,
     record_size = ld16 a 10, records_per_block = ld16 a 12,
     max_records = ld32 a 14, total_records = ld32 a 18,
     oldest_record_idx = ld32 a 22, newest_record_idx = ld32 a 26,
     oldest_timestamp = ld32 a 30, newest_timestamp = ld32 a 34,
     index_offset = ld32 a 38, index_entries = ld32 a 42, index_stride = ld32 a 46,
     total_writes = ld32 a 50, total_evictions = ld32 a 54,
     param_names = names,
     base_params = ld8 b 0, extra_param_count = ld8 b 1, overflow_record_size = ld16 b 2,
     overflow_offset = ld32 b 4, first_overflow_record_idx = ld32 b 8,
     reserved2 = chunk b 12 2 \<rparr>"

definition decode_header :: "bytes \<Rightarrow> tsdb_header" where
  "decode_header bs =
     decode_parts (chunk bs 0 TSDB_HDR_PRE_LEN) (chunk bs 58 512)
       (chunk bs TSDB_HDR_POST_OFF TSDB_HDR_POST_LEN)"

text \<open>The cross-field check on a header whose magic is right.\<close>

definition tsdb_header_is_sane :: "tsdb_header \<Rightarrow> bool" where
  "tsdb_header_is_sane h =
     (let expected_rs = 4 + ucast (num_params h) * 2 :: u16;
          max_rpb = 1016 div expected_rs :: u16
      in if num_params h = 0 \<or> num_params h > 64 then False
      else if num_params h > 16 \<and> version h < TSDB_VERSION_WIDE then False
      else if base_params h \<noteq> 0 \<and> base_params h > num_params h then False
      else if param_size h \<noteq> 0 \<and> param_size h \<noteq> 2 then False
      else if record_size h \<noteq> 0 \<and> record_size h \<noteq> expected_rs then False
      else if records_per_block h = 0 \<or> records_per_block h > max_rpb then False
      else if index_offset h < 512 \<or> index_offset h > 0x10000 then False
      else if index_entries h > 0x100000 then False
      else if index_stride h = 0 then False
      else if max_records h > 100000000 then False
      else if max_records h > 0 \<and> total_records h > max_records h * 2 then False
      else if extra_param_count h > 0 \<and> extra_param_count h > 48 then False
      else if extra_param_count h > 0 \<and>
              (overflow_record_size h = 0 \<or> overflow_record_size h > 1024) then False
      else True)"

section \<open>Position of a block in the file\<close>

definition tsdb_calc_block_offset :: "tsdb_header \<Rightarrow> u32 \<Rightarrow> u32" where
  "tsdb_calc_block_offset h block_num =
     (let data_offset = index_offset h + index_entries h * INDEX_ENTRY_SIZE
      in data_offset + block_num * 1024)"

text \<open>\<open>TSDB_CALC_MAX_RECORDS(storage_bytes, num_params)\<close>, evaluated on unsigned 32-bit operands.\<close>

definition TSDB_CALC_MAX_RECORDS :: "u32 \<Rightarrow> u32 \<Rightarrow> u32" where
  "TSDB_CALC_MAX_RECORDS storage_bytes np = (storage_bytes - 2048) div (4 + np * 2)"

section \<open>The header image\<close>

lemma length_header_pre [simp]: "length (header_pre h) = 58"
  by (simp add: header_pre_def)

lemma length_header_post [simp]: "header_wf h \<Longrightarrow> length (header_post h) = 14"
  by (simp add: header_post_def header_wf_def)

lemma length_encode_header: "header_wf h \<Longrightarrow> length (encode_header h) = TSDB_HDR_SIZE"
  by (simp add: encode_header_def header_wf_def header_post_def)

lemma header_wf_zero [simp]: "header_wf zero_header"
  by (simp add: header_wf_def zero_header_def)

lemma ld8_append: "ld8 (xs @ ys) off =
   (if off < length xs then ld8 xs off else ld8 ys (off - length xs))"
  by (auto simp: ld8_def nth_append)

lemma chunk_append_right: "length xs \<le> off \<Longrightarrow> chunk (xs @ ys) off n = chunk ys (off - length xs) n"
  by (simp add: chunk_def)

lemma chunk_append_left: "off + n \<le> length xs \<Longrightarrow> chunk (xs @ ys) off n = chunk xs off n"
  by (simp add: chunk_def)

lemma ld16_append:
  "length xs \<le> off \<Longrightarrow> ld16 (xs @ ys) off = ld16 ys (off - length xs)"
  "off = 0 \<Longrightarrow> ld16 (le16 v @ ys) off = v"
  "ld16 (le16 v) 0 = v"
  by (simp_all add: ld16_def chunk_append_right chunk_append_left)

lemma ld32_append:
  "length xs \<le> off \<Longrightarrow> ld32 (xs @ ys) off = ld32 ys (off - length xs)"
  "off = 0 \<Longrightarrow> ld32 (le32 v @ ys) off = v"
  "ld32 (le32 v) 0 = v"
  by (simp_all add: ld32_def chunk_append_right chunk_append_left)

lemma ld_Cons_numeral:
  "ld32 (x # xs) (numeral k) = ld32 xs (pred_numeral k)"
  "ld16 (x # xs) (numeral k) = ld16 xs (pred_numeral k)"
  "ld8 (x # xs) (numeral k) = ld8 xs (pred_numeral k)"
  "ld8 (x # xs) 0 = x"
  "ld8 (x # xs) (Suc 0) = ld8 xs 0"
  "ld16 (x # xs) (Suc 0) = ld16 xs 0"
  by (simp_all add: ld32_def ld16_def ld8_def chunk_def numeral_eq_Suc)

lemma chunk_Cons_numeral: "chunk (x # xs) (numeral k) n = chunk xs (pred_numeral k) n"
  by (simp add: chunk_def numeral_eq_Suc)

lemmas image_simps = ld32_append ld16_append ld8_append ld_Cons_numeral

lemma decode_parts_encode:
  assumes "header_wf h"
  shows "decode_parts (header_pre h) names (header_post h) = h\<lparr>param_names := names\<rparr>"
proof -
  have r: "chunk (header_post h) 12 2 = reserved2 h"
    using assms
    by (simp add: header_wf_def header_post_def chunk_append_right chunk_Cons_numeral)
  show ?thesis
    unfolding decode_parts_def r
    by (rule tsdb_header.equality) (simp_all add: header_pre_def header_post_def image_simps)
qed

lemma decode_encode_header:
  assumes "header_wf h"
  shows "decode_header (encode_header h) = h"
proof -
  have "chunk (encode_header h) 0 58 = header_pre h"
    by (simp add: encode_header_def chunk_append_left)
  moreover have "chunk (encode_header h) 58 512 = param_names h"
    using assms by (simp add: encode_header_def chunk_append_right chunk_append_left header_wf_def)
  moreover have "chunk (encode_header h) 570 14 = header_post h"
    using assms by (simp add: encode_header_def chunk_append_right header_wf_def header_post_def)
  ultimately show ?thesis
    using decode_parts_encode [OF assms, of "param_names h"] by (simp add: decode_header_def)
qed

lemma le32_ld32: "off + 4 \<le> length f \<Longrightarrow> le32 (ld32 f off) = chunk f off 4"
  by (simp add: ld32_def le32_of_le32 length_chunk)

lemma le16_ld16: "off + 2 \<le> length f \<Longrightarrow> le16 (ld16 f off) = chunk f off 2"
  by (simp add: ld16_def le16_of_le16 length_chunk)

lemma ld8_chunk: "off < length f \<Longrightarrow> [ld8 f off] = chunk f off 1"
  by (simp add: ld8_def chunk_def take_Suc hd_drop_conv_nth)

lemma chunk_pair:
  "b = a + m \<Longrightarrow> chunk f a m @ chunk f b n = chunk f a (m + n)"
  "b = a + m \<Longrightarrow> chunk f a m @ chunk f b n @ r = chunk f a (m + n) @ r"
  by (simp_all add: chunk_append_adjacent [symmetric])

lemma ld8_pair: "off + 1 < length f \<Longrightarrow> b = off + 1 \<Longrightarrow> [ld8 f off, ld8 f b] = chunk f off 2"
proof -
  assume b: "off + 1 < length f" "b = off + 1"
  then have "[ld8 f off] @ [ld8 f b] = chunk f off 1 @ chunk f (off + 1) 1"
    by (simp only: ld8_chunk)
  also have "\<dots> = chunk f off 2"
    by (simp only: chunk_append_adjacent one_add_one)
  finally show ?thesis by simp
qed

lemma header_pre_decode: "length a = 58 \<Longrightarrow> header_pre (decode_parts a n b) = a"
  by (simp add: header_pre_def decode_parts_def le32_ld32 le16_ld16 chunk_pair
      ld8_pair [simplified] flip: append_Cons append.simps(2))

lemma header_post_decode: "length b = 14 \<Longrightarrow> header_post (decode_parts a n b) = b"
  by (simp add: header_post_def decode_parts_def le32_ld32 le16_ld16 chunk_pair
      ld8_pair [simplified])

lemma encode_decode_header:
  assumes "length bs = TSDB_HDR_SIZE"
  shows "encode_header (decode_header bs) = bs"
proof -
  have "encode_header (decode_header bs) = chunk bs 0 58 @ chunk bs 58 512 @ chunk bs 570 14"
    using assms
    by (simp add: encode_header_def decode_header_def header_pre_decode header_post_decode
        length_chunk) (simp add: decode_parts_def)
  also have "\<dots> = bs"
    using assms by (simp add: chunk_pair)
  finally show ?thesis .
qed

lemma header_wf_decode [simp]: "length bs = TSDB_HDR_SIZE \<Longrightarrow> header_wf (decode_header bs)"
  by (simp add: header_wf_def decode_header_def decode_parts_def length_chunk)

end
