(* ===== verification/Tsdb_Block.thy ===== *)
theory Tsdb_Block
  imports Tsdb_Format
begin

text \<open>
  The 1024-byte data block (\<open>include/esp_tsdb.h\<close>): the columnar layout as the
  \<open>TSDB_BLOCK_*\<close> macros compute it at run time from \<open>records_per_block\<close>.

  The lemmas show that every cell a macro addresses lies inside the block for a geometry
  that fits, and that different cells never overlap. The locale \<open>row_store\<close> states the
  interface the write path and the migration rely on (a block is an array of rows), and
  its interpretation discharges it for the columnar layout.
\<close>

section \<open>Data blocks\<close>

text \<open>The access macros, on the raw 1024-byte buffer; \<open>rpb\<close> is \<open>records_per_block\<close>.\<close>

definition TSDB_BLOCK_MAGIC :: "bytes \<Rightarrow> u32" where
  "TSDB_BLOCK_MAGIC buf = ld32 buf 0"

definition TSDB_BLOCK_COUNT :: "bytes \<Rightarrow> u16" where
  "TSDB_BLOCK_COUNT buf = ld16 buf 4"

definition ts_off :: "nat \<Rightarrow> nat" where
  "ts_off r = 8 + r * 4"

definition param_off :: "nat \<Rightarrow> nat \<Rightarrow> nat \<Rightarrow> nat" where
  "param_off rpb p r = 8 + rpb * 4 + p * rpb * 2 + r * 2"

definition TSDB_BLOCK_TS :: "bytes \<Rightarrow> nat \<Rightarrow> u32" where
  "TSDB_BLOCK_TS buf r = ld32 buf (ts_off r)"

definition TSDB_BLOCK_PARAM :: "bytes \<Rightarrow> nat \<Rightarrow> nat \<Rightarrow> nat \<Rightarrow> i16" where
  "TSDB_BLOCK_PARAM buf rpb p r = ld16 buf (param_off rpb p r)"

definition set_block_magic :: "bytes \<Rightarrow> u32 \<Rightarrow> bytes" where
  "set_block_magic buf v = st32 buf 0 v"

definition set_block_count :: "bytes \<Rightarrow> u16 \<Rightarrow> bytes" where
  "set_block_count buf v = st16 buf 4 v"

definition set_block_ts :: "bytes \<Rightarrow> nat \<Rightarrow> u32 \<Rightarrow> bytes" where
  "set_block_ts buf r v = st32 buf (ts_off r) v"

definition set_block_param :: "bytes \<Rightarrow> nat \<Rightarrow> nat \<Rightarrow> nat \<Rightarrow> i16 \<Rightarrow> bytes" where
  "set_block_param buf rpb p r v = st16 buf (param_off rpb p r) v"

text \<open>The loop that stores the values \<open>values[0..n)\<close> of one record in its column cells.\<close>

fun set_block_params :: "bytes \<Rightarrow> nat \<Rightarrow> nat \<Rightarrow> (nat \<Rightarrow> i16) \<Rightarrow> nat \<Rightarrow> bytes" where
  "set_block_params buf rpb r vals 0 = buf"
| "set_block_params buf rpb r vals (Suc i) =
     set_block_param (set_block_params buf rpb r vals i) rpb i r (vals i)"

text \<open>\<open>memset(block, 0, 1024)\<close> with the block magic.\<close>

definition fresh_block :: bytes where
  "fresh_block = set_block_count (set_block_magic (replicate TSDB_BLOCK_SIZE 0) BLKT_MAGIC) 0"


text \<open>One record of a block as a row, and storing a row.\<close>

type_synonym row = "u32 \<times> i16 list"

definition block_row :: "nat \<Rightarrow> nat \<Rightarrow> bytes \<Rightarrow> nat \<Rightarrow> row" where
  "block_row rpb np buf r =
     (TSDB_BLOCK_TS buf r, map (\<lambda>p. TSDB_BLOCK_PARAM buf rpb p r) [0..<np])"

definition put_row :: "nat \<Rightarrow> nat \<Rightarrow> bytes \<Rightarrow> nat \<Rightarrow> row \<Rightarrow> bytes" where
  "put_row rpb np buf r x =
     set_block_params (set_block_ts buf r (fst x)) rpb r (\<lambda>i. snd x ! i) np"

text \<open>The geometry fits a block: the columns end inside the 1024 bytes.\<close>

definition geom :: "nat \<Rightarrow> nat \<Rightarrow> bool" where
  "geom rpb np \<longleftrightarrow> 0 < rpb \<and> 8 + rpb * 4 + np * rpb * 2 \<le> TSDB_BLOCK_SIZE"

text \<open>Storing consecutive rows from position \<open>i\<close> on, with any single-row store.\<close>

fun fill_rows :: "('b \<Rightarrow> nat \<Rightarrow> 'r \<Rightarrow> 'b) \<Rightarrow> 'b \<Rightarrow> nat \<Rightarrow> 'r list \<Rightarrow> 'b" where
  "fill_rows put b i [] = b"
| "fill_rows put b i (x # xs) = fill_rows put (put b i x) (Suc i) xs"

section \<open>Cells stay inside the block and apart from each other\<close>

lemma ts_off_bound: "r < rpb \<Longrightarrow> ts_off r + 4 \<le> 8 + rpb * 4"
  by (simp add: ts_off_def)

lemma param_off_low: "8 + rpb * 4 \<le> param_off rpb p r"
  by (simp add: param_off_def)

lemma cell_less: "p < np \<Longrightarrow> r < rpb \<Longrightarrow> p * rpb + r < np * (rpb :: nat)"
proof -
  assume "p < np" "r < rpb"
  then have "p * rpb + r < (p + 1) * rpb" by simp
  also have "\<dots> \<le> np * rpb" using \<open>p < np\<close> by (intro mult_le_mono1) simp
  finally show ?thesis .
qed

lemma param_off_bound: "geom rpb np \<Longrightarrow> p < np \<Longrightarrow> r < rpb \<Longrightarrow> param_off rpb p r + 2 \<le> TSDB_BLOCK_SIZE"
  using cell_less [of p np r rpb] by (simp add: geom_def param_off_def algebra_simps)

lemma param_off_disjoint:
  assumes "r < rpb" "r' < rpb" "(p, r) \<noteq> (p', r')"
  shows "param_off rpb p r + 2 \<le> param_off rpb p' r' \<or>
         param_off rpb p' r' + 2 \<le> param_off rpb p r"
proof -
  have "p * rpb + r \<noteq> p' * rpb + r'"
  proof
    assume eq: "p * rpb + r = p' * rpb + r'"
    have "p = p'"
      using arg_cong [OF eq, of "\<lambda>x. x div rpb"] assms(1,2) by simp
    with eq assms(3) show False by simp
  qed
  then show ?thesis by (simp add: param_off_def algebra_simps) linarith
qed

section \<open>Reading after storing\<close>

lemma length_set_block [buf_simps]:
  "length buf = TSDB_BLOCK_SIZE \<Longrightarrow> length (set_block_magic buf m) = TSDB_BLOCK_SIZE"
  "length buf = TSDB_BLOCK_SIZE \<Longrightarrow> length (set_block_count buf c) = TSDB_BLOCK_SIZE"
  by (simp_all add: set_block_magic_def set_block_count_def length_st16 length_st32)

lemma length_set_block_ts:
  "length buf = TSDB_BLOCK_SIZE \<Longrightarrow> geom rpb np \<Longrightarrow> r < rpb \<Longrightarrow>
   length (set_block_ts buf r v) = TSDB_BLOCK_SIZE"
  using ts_off_bound [of r rpb] by (simp add: set_block_ts_def length_st32 geom_def)

lemma length_set_block_params:
  "length buf = TSDB_BLOCK_SIZE \<Longrightarrow> geom rpb np \<Longrightarrow> r < rpb \<Longrightarrow> n \<le> np \<Longrightarrow>
   length (set_block_params buf rpb r vals n) = TSDB_BLOCK_SIZE"
proof (induction n)
  case (Suc n)
  then show ?case
    using param_off_bound [of rpb np n r] by (simp add: set_block_param_def length_st16)
qed simp

lemma ld32_set_block_params:
  assumes "length buf = TSDB_BLOCK_SIZE" "geom rpb np" "r < rpb" "n \<le> np" "off + 4 \<le> 8 + rpb * 4"
  shows "ld32 (set_block_params buf rpb r vals n) off = ld32 buf off"
  using assms(4)
proof (induction n)
  case (Suc n)
  let ?b = "set_block_params buf rpb r vals n"
  have "length ?b = TSDB_BLOCK_SIZE"
    using assms Suc.prems by (simp add: length_set_block_params)
  moreover have "8 + rpb * 4 \<le> TSDB_BLOCK_SIZE"
    using assms(2) by (simp add: geom_def)
  ultimately have "ld32 (set_block_param ?b rpb n r (vals n)) off = ld32 ?b off"
    using param_off_low [of rpb n r] assms(5)
    by (simp add: set_block_param_def st16_def ld32_overlay_disjoint)
  with Suc show ?case by simp
qed simp

lemma ld16_set_block_params_low:
  assumes "length buf = TSDB_BLOCK_SIZE" "geom rpb np" "r < rpb" "n \<le> np" "off + 2 \<le> 8 + rpb * 4"
  shows "ld16 (set_block_params buf rpb r vals n) off = ld16 buf off"
  using assms(4)
proof (induction n)
  case (Suc n)
  let ?b = "set_block_params buf rpb r vals n"
  have "length ?b = TSDB_BLOCK_SIZE"
    using assms Suc.prems by (simp add: length_set_block_params)
  moreover have "8 + rpb * 4 \<le> TSDB_BLOCK_SIZE"
    using assms(2) by (simp add: geom_def)
  ultimately have "ld16 (set_block_param ?b rpb n r (vals n)) off = ld16 ?b off"
    using param_off_low [of rpb n r] assms(5)
    by (simp add: set_block_param_def st16_def ld16_overlay_disjoint)
  with Suc show ?case by simp
qed simp

lemma param_set_block_params:
  assumes "length buf = TSDB_BLOCK_SIZE" "geom rpb np" "r < rpb" "r' < rpb" "p < np" "n \<le> np"
  shows "TSDB_BLOCK_PARAM (set_block_params buf rpb r vals n) rpb p r' =
    (if r' = r \<and> p < n then vals p else TSDB_BLOCK_PARAM buf rpb p r')"
  using assms(6)
proof (induction n)
  case (Suc n)
  let ?b = "set_block_params buf rpb r vals n"
  have len: "length ?b = TSDB_BLOCK_SIZE"
    using assms Suc.prems by (simp add: length_set_block_params)
  show ?case
  proof (cases "(p, r') = (n, r)")
    case True
    then show ?thesis
      by (simp add: TSDB_BLOCK_PARAM_def set_block_param_def ld16_st16_same)
  next
    case False
    have "param_off rpb p r' + 2 \<le> length ?b"
      using len param_off_bound [OF assms(2,5,4)] by simp
    moreover have "param_off rpb p r' + 2 \<le> param_off rpb n r \<or>
        param_off rpb n r + 2 \<le> param_off rpb p r'"
      using param_off_disjoint [OF assms(4,3)] False by simp
    ultimately have "TSDB_BLOCK_PARAM (set_block_param ?b rpb n r (vals n)) rpb p r' =
        TSDB_BLOCK_PARAM ?b rpb p r'"
      by (simp add: TSDB_BLOCK_PARAM_def set_block_param_def st16_def ld16_overlay_disjoint)
    with Suc False show ?thesis by (auto simp: less_Suc_eq)
  qed
qed simp

lemma ts_set_block_ts:
  assumes "length buf = TSDB_BLOCK_SIZE" "geom rpb np" "r < rpb" "r' < rpb"
  shows "TSDB_BLOCK_TS (set_block_ts buf r v) r' = (if r' = r then v else TSDB_BLOCK_TS buf r')"
proof (cases "r' = r")
  case False
  have "ts_off r' + 4 \<le> length buf"
    using assms ts_off_bound [of r' rpb] by (simp add: geom_def)
  moreover have "ts_off r' + 4 \<le> ts_off r \<or> ts_off r + 4 \<le> ts_off r'"
    using False by (simp add: ts_off_def) linarith
  ultimately show ?thesis
    using False by (simp add: TSDB_BLOCK_TS_def set_block_ts_def st32_def ld32_overlay_disjoint)
qed (simp add: TSDB_BLOCK_TS_def set_block_ts_def ld32_st32_same)

lemma param_set_block_ts:
  assumes "length buf = TSDB_BLOCK_SIZE" "geom rpb np" "r < rpb" "r' < rpb" "p < np"
  shows "TSDB_BLOCK_PARAM (set_block_ts buf r v) rpb p r' = TSDB_BLOCK_PARAM buf rpb p r'"
  using assms ts_off_bound [of r rpb] param_off_low [of rpb p r'] param_off_bound [of rpb np p r']
  by (simp add: TSDB_BLOCK_PARAM_def set_block_ts_def st32_def ld16_overlay_disjoint)

section \<open>Rows of a block\<close>

lemma length_put_row:
  "geom rpb np \<Longrightarrow> length buf = TSDB_BLOCK_SIZE \<Longrightarrow> r < rpb \<Longrightarrow> length (put_row rpb np buf r x) = TSDB_BLOCK_SIZE"
  by (simp add: put_row_def length_set_block_params length_set_block_ts)

lemma block_row_put_row:
  assumes "geom rpb np" "length buf = TSDB_BLOCK_SIZE" "r < rpb" "r' < rpb" "length (snd x) = np"
  shows "block_row rpb np (put_row rpb np buf r x) r' = (if r' = r then x else block_row rpb np buf r')"
proof -
  let ?b = "set_block_ts buf r (fst x)"
  have len: "length ?b = TSDB_BLOCK_SIZE"
    using assms by (simp add: length_set_block_ts)
  have "TSDB_BLOCK_TS (put_row rpb np buf r x) r' = TSDB_BLOCK_TS ?b r'"
    using assms len ts_off_bound [of r' rpb]
    by (simp add: put_row_def TSDB_BLOCK_TS_def ld32_set_block_params)
  then have ts: "TSDB_BLOCK_TS (put_row rpb np buf r x) r' =
      (if r' = r then fst x else TSDB_BLOCK_TS buf r')"
    using assms by (simp add: ts_set_block_ts)
  have "TSDB_BLOCK_PARAM (put_row rpb np buf r x) rpb p r' =
      (if r' = r then snd x ! p else TSDB_BLOCK_PARAM buf rpb p r')" if "p < np" for p
    using assms len that
    by (simp add: put_row_def param_set_block_params param_set_block_ts)
  with ts assms(5) show ?thesis
    by (auto simp: block_row_def prod_eq_iff intro!: nth_equalityI)
qed

lemma magic_put_row:
  assumes "geom rpb np" "length buf = TSDB_BLOCK_SIZE" "r < rpb"
  shows "TSDB_BLOCK_MAGIC (put_row rpb np buf r x) = TSDB_BLOCK_MAGIC buf"
  using assms length_set_block_ts [of buf rpb np r "fst x"]
  by (simp add: put_row_def TSDB_BLOCK_MAGIC_def ld32_set_block_params)
    (simp add: set_block_ts_def st32_def ts_off_def ld32_overlay_disjoint)

lemma block_row_set_count:
  assumes "geom rpb np" "length buf = TSDB_BLOCK_SIZE" "r < rpb"
  shows "block_row rpb np (set_block_count buf c) r = block_row rpb np buf r"
proof -
  have "TSDB_BLOCK_PARAM (set_block_count buf c) rpb p r = TSDB_BLOCK_PARAM buf rpb p r"
    if "p < np" for p
    using assms that param_off_bound [of rpb np p r] param_off_low [of rpb p r]
    by (simp add: TSDB_BLOCK_PARAM_def set_block_count_def st16_def ld16_overlay_disjoint)
  then show ?thesis
    using assms ts_off_bound [of r rpb]
    by (simp add: block_row_def TSDB_BLOCK_TS_def set_block_count_def st16_def ts_off_def
        ld32_overlay_disjoint geom_def)
qed

lemma magic_set_count:
  "length buf = TSDB_BLOCK_SIZE \<Longrightarrow> TSDB_BLOCK_MAGIC (set_block_count buf c) = TSDB_BLOCK_MAGIC buf"
  by (simp add: TSDB_BLOCK_MAGIC_def set_block_count_def st16_def ld32_overlay_disjoint)

lemma length_fresh_block [simp]: "length fresh_block = TSDB_BLOCK_SIZE"
  by (simp add: fresh_block_def length_set_block)

lemma magic_fresh_block [simp]: "TSDB_BLOCK_MAGIC fresh_block = BLKT_MAGIC"
  by (simp add: fresh_block_def magic_set_count length_set_block)
    (simp add: TSDB_BLOCK_MAGIC_def set_block_magic_def ld32_st32_same)

section \<open>The interface: a block is an array of rows\<close>

locale row_store =
  fixes ok :: "'g \<Rightarrow> 'b \<Rightarrow> bool"
    and rows_per :: "'g \<Rightarrow> nat"
    and fits :: "'g \<Rightarrow> 'r \<Rightarrow> bool"
    and get :: "'g \<Rightarrow> 'b \<Rightarrow> nat \<Rightarrow> 'r"
    and put :: "'g \<Rightarrow> 'b \<Rightarrow> nat \<Rightarrow> 'r \<Rightarrow> 'b"
  assumes ok_put: "ok g b \<Longrightarrow> r < rows_per g \<Longrightarrow> fits g x \<Longrightarrow> ok g (put g b r x)"
    and get_put_same: "ok g b \<Longrightarrow> r < rows_per g \<Longrightarrow> fits g x \<Longrightarrow> get g (put g b r x) r = x"
    and get_put_other: "ok g b \<Longrightarrow> r < rows_per g \<Longrightarrow> fits g x \<Longrightarrow> r' < rows_per g \<Longrightarrow> r' \<noteq> r \<Longrightarrow>
      get g (put g b r x) r' = get g b r'"
begin

lemma ok_fill: "ok g b \<Longrightarrow> i + length xs \<le> rows_per g \<Longrightarrow> list_all (fits g) xs \<Longrightarrow>
  ok g (fill_rows (put g) b i xs)"
  by (induction xs arbitrary: b i) (simp_all add: ok_put)

lemma get_fill_below: "ok g b \<Longrightarrow> i + length xs \<le> rows_per g \<Longrightarrow> list_all (fits g) xs \<Longrightarrow> r < i \<Longrightarrow>
  get g (fill_rows (put g) b i xs) r = get g b r"
  by (induction xs arbitrary: b i) (simp_all add: ok_put get_put_other)

lemma get_fill: "ok g b \<Longrightarrow> i + length xs \<le> rows_per g \<Longrightarrow> list_all (fits g) xs \<Longrightarrow>
  map (get g (fill_rows (put g) b i xs)) [i..<i + length xs] = xs"
proof (induction xs arbitrary: b i)
  case (Cons x xs)
  let ?b = "put g b i x"
  have ok: "ok g ?b" using Cons.prems by (simp add: ok_put)
  have "map (get g (fill_rows (put g) ?b (Suc i) xs)) [Suc i..<Suc i + length xs] = xs"
    using Cons.IH [OF ok, of "Suc i"] Cons.prems by simp
  moreover have "get g (fill_rows (put g) ?b (Suc i) xs) i = x"
    using get_fill_below [OF ok, of "Suc i" xs i] Cons.prems by (simp add: get_put_same)
  moreover have "[i..<i + length (x # xs)] = i # [Suc i..<Suc i + length xs]"
    by (simp add: upt_conv_Cons del: upt_Suc)
  ultimately show ?case by (simp del: upt_Suc)
qed simp

end

interpretation columnar: row_store
  "\<lambda>(rpb, np) buf. geom rpb np \<and> length buf = TSDB_BLOCK_SIZE"
  "fst"
  "\<lambda>(rpb, np) x. length (snd x) = np"
  "\<lambda>(rpb, np) buf r. block_row rpb np buf r"
  "\<lambda>(rpb, np) buf r x. put_row rpb np buf r x"
  by unfold_locales (auto simp: length_put_row block_row_put_row)

section \<open>Sane headers have a geometry that fits\<close>

lemma sane_geom:
  assumes "tsdb_header_is_sane h"
  shows "geom (unat (records_per_block h)) (unat (num_params h))"
proof -
  let ?n = "unat (num_params h)" and ?r = "unat (records_per_block h)"
  have n: "0 < ?n" "?n \<le> 64"
    using assms
    by (auto simp: tsdb_header_is_sane_def Let_def word_less_nat_alt unat_gt_0 split: if_splits)
  have rs: "unat (4 + ucast (num_params h) * 2 :: u16) = 4 + 2 * ?n"
    using n by (simp add: unat_word_ariths unat_u8_u16)
  have "0 < ?r" "?r \<le> 1016 div (4 + 2 * ?n)"
    using assms rs
    by (auto simp: tsdb_header_is_sane_def Let_def word_less_nat_alt unat_div unat_gt_0
        split: if_splits)
  moreover have "1016 div (4 + 2 * ?n) * (4 + 2 * ?n) \<le> 1016"
    by (rule div_times_less_eq_dividend)
  ultimately have "?r * (4 + 2 * ?n) \<le> 1016"
    by (meson le_trans mult_le_mono1)
  with \<open>0 < ?r\<close> show ?thesis by (simp add: geom_def algebra_simps)
qed

end
