(* ===== verification/Tsdb_Buffer.thy ===== *)
theory Tsdb_Buffer
  imports Tsdb_Format
begin

text \<open>
  The buffer pool of \<open>src/tsdb_buffer.c\<close>: one contiguous allocation or up to 128 pages taken
  from a fragmented heap, a direct pointer into it when a region does not cross a page
  boundary, and copies that do cross page boundaries.

  The specification is one flat byte memory. The lemmas show that allocation either builds
  a well-formed pool or leaves no page behind, that every pointer handed out stays inside
  an allocated page, and that the paged copies are the flat copies (locale \<open>flat_memory\<close>).
\<close>

section \<open>State and operations\<close>

text \<open>\<open>size_t\<close> is 32 bits wide on the targets. \<open>None\<close> is a NULL page pointer.\<close>

abbreviation (input) TSDB_MAX_PAGES :: nat where "TSDB_MAX_PAGES \<equiv> 128"

record buffer_pool =
  pages :: "bytes option list"
  num_pages :: u8
  page_size :: u32
  total_size :: u32
  is_paged :: bool

datatype alloc_strategy = TSDB_ALLOC_INTERNAL_RAM | TSDB_ALLOC_PSRAM | TSDB_ALLOC_AUTO

datatype malloc_cap = MALLOC_CAP_8BIT | MALLOC_CAP_SPIRAM | MALLOC_CAP_INTERNAL

definition zero_pool :: buffer_pool where
  "zero_pool = \<lparr> pages = replicate TSDB_MAX_PAGES None, num_pages = 0, page_size = 0,
     total_size = 0, is_paged = False \<rparr>"

text \<open>
  The capabilities of the memory that is asked for; \<open>spiram\<close> is what
  \<open>heap_caps_get_free_size(MALLOC_CAP_SPIRAM)\<close> returns.
\<close>

definition alloc_caps :: "alloc_strategy \<Rightarrow> u32 \<Rightarrow> u32 \<Rightarrow> malloc_cap list" where
  "alloc_caps strategy spiram sz =
     (case strategy of
        TSDB_ALLOC_PSRAM \<Rightarrow> [MALLOC_CAP_SPIRAM]
      | TSDB_ALLOC_INTERNAL_RAM \<Rightarrow> [MALLOC_CAP_INTERNAL, MALLOC_CAP_8BIT]
      | TSDB_ALLOC_AUTO \<Rightarrow>
          (if spiram > sz then [MALLOC_CAP_SPIRAM]
           else [MALLOC_CAP_INTERNAL, MALLOC_CAP_8BIT]))"

text \<open>
  \<open>heap_caps_malloc(n, caps)\<close>. The contents of fresh memory are zero in the model; no
  operation of the library reads a buffer before it has stored a block there.
\<close>

definition heap_alloc :: "world \<Rightarrow> malloc_cap list \<Rightarrow> nat \<Rightarrow> bytes option \<times> world" where
  "heap_alloc w caps n = (case malloc_ok w of (ok, w') \<Rightarrow> (if ok then Some (replicate n 0) else None, w'))"

text \<open>
  The allocation loop, \<open>n\<close> pages still to go from page \<open>i\<close> on. On failure the pages already
  taken are freed and their pointers cleared; \<open>num_pages\<close> keeps the count reached.
\<close>

fun alloc_pages :: "malloc_cap list \<Rightarrow> nat \<Rightarrow> nat \<Rightarrow> buffer_pool \<Rightarrow> world \<Rightarrow> esp_err \<times> buffer_pool \<times> world" where
  "alloc_pages caps 0 i pool w = (ESP_OK, pool, w)"
| "alloc_pages caps (Suc n) i pool w =
     (case heap_alloc w caps (unat (page_size pool)) of
        (None, w') \<Rightarrow>
          (ESP_ERR_NO_MEM, pool\<lparr>pages := replicate i None @ drop i (pages pool)\<rparr>, w')
      | (Some pg, w') \<Rightarrow>
          alloc_pages caps n (Suc i)
            (pool\<lparr>pages := (pages pool)[i := Some pg], num_pages := num_pages pool + 1\<rparr>) w')"

definition tsdb_alloc_buffer_pool ::
  "buffer_pool option \<Rightarrow> u32 \<Rightarrow> bool \<Rightarrow> u32 \<Rightarrow> alloc_strategy \<Rightarrow> world \<Rightarrow> esp_err \<times> buffer_pool option \<times> world" where
  "tsdb_alloc_buffer_pool pool0 tsize use_paged psize strategy w =
     (case pool0 of
        None \<Rightarrow> (ESP_ERR_INVALID_ARG, None, w)
      | Some pl \<Rightarrow>
          if tsize = 0 then (ESP_ERR_INVALID_ARG, Some pl, w)
          else
            let pool = zero_pool\<lparr>page_size := (if psize > 0 then psize else 2048), total_size := tsize\<rparr>;
                caps = alloc_caps strategy (spiram_free w) tsize
            in if use_paged then
                 let pool = pool\<lparr>is_paged := True\<rparr>;
                     pages_needed = (tsize + page_size pool - 1) div page_size pool
                 in if unat pages_needed > TSDB_MAX_PAGES then (ESP_ERR_INVALID_ARG, Some pool, w)
                    else (case alloc_pages caps (unat pages_needed) 0 pool w of
                            (r, pool', w') \<Rightarrow> (r, Some pool', w'))
               else
                 (case heap_alloc w caps (unat tsize) of
                    (None, w') \<Rightarrow> (ESP_ERR_NO_MEM, Some pool, w')
                  | (Some pg, w') \<Rightarrow>
                      (ESP_OK, Some (pool\<lparr>pages := (pages pool)[0 := Some pg], num_pages := 1\<rparr>), w')))"

text \<open>The pool after \<open>tsdb_free_buffer_pool\<close>: every page freed, then the struct zeroed.\<close>

definition tsdb_free_buffer_pool :: "buffer_pool option \<Rightarrow> buffer_pool option" where
  "tsdb_free_buffer_pool pool = (case pool of None \<Rightarrow> None | Some _ \<Rightarrow> Some zero_pool)"

text \<open>A pointer into the pool is a page and an offset in it.\<close>

definition tsdb_get_buffer_ptr :: "buffer_pool option \<Rightarrow> u32 \<Rightarrow> u32 \<Rightarrow> (nat \<times> nat) option" where
  "tsdb_get_buffer_ptr pool0 offset sz =
     (case pool0 of
        None \<Rightarrow> None
      | Some pool \<Rightarrow>
          if num_pages pool = 0 then None
          else if offset + sz > total_size pool then None
          else if \<not> is_paged pool then Some (0, unat offset)
          else
            let page_idx = offset div page_size pool;
                page_offset = offset mod page_size pool
            in if page_offset + sz > page_size pool then None
               else Some (unat page_idx, unat page_offset))"

text \<open>
  The copy loops. The page size is never 0 in an allocated pool; the loop condition
  excludes it because the C code would divide by it.
\<close>

definition page_bytes :: "bytes option list \<Rightarrow> nat \<Rightarrow> bytes" where
  "page_bytes pgs i = (case pgs ! i of None \<Rightarrow> [] | Some b \<Rightarrow> b)"

function read_pages :: "bytes option list \<Rightarrow> nat \<Rightarrow> nat \<Rightarrow> nat \<Rightarrow> bytes" where
  "read_pages pgs psize cur remaining =
     (if remaining = 0 \<or> psize = 0 then []
      else
        let page_idx = cur div psize;
            page_offset = cur mod psize;
            chunk_size = min (psize - page_offset) remaining
        in chunk (page_bytes pgs page_idx) page_offset chunk_size @
           read_pages pgs psize (cur + chunk_size) (remaining - chunk_size))"
  by pat_completeness auto
termination
  by (relation "measure (\<lambda>(pgs, psize, cur, remaining). remaining)") auto

function write_pages :: "bytes option list \<Rightarrow> nat \<Rightarrow> nat \<Rightarrow> bytes \<Rightarrow> bytes option list" where
  "write_pages pgs psize cur src =
     (if src = [] \<or> psize = 0 then pgs
      else
        let page_idx = cur div psize;
            page_offset = cur mod psize;
            chunk_size = min (psize - page_offset) (length src)
        in write_pages
             (pgs[page_idx := Some (overlay (page_bytes pgs page_idx) page_offset (take chunk_size src))])
             psize (cur + chunk_size) (drop chunk_size src))"
  by pat_completeness auto
termination
  by (relation "measure (\<lambda>(pgs, psize, cur, src). length src)") auto

declare read_pages.simps [simp del] write_pages.simps [simp del]

text \<open>\<open>None\<close>: the call returned early and the destination is untouched.\<close>

definition tsdb_buffer_read :: "buffer_pool option \<Rightarrow> u32 \<Rightarrow> u32 \<Rightarrow> bytes option" where
  "tsdb_buffer_read pool0 offset sz =
     (case pool0 of
        None \<Rightarrow> None
      | Some pool \<Rightarrow>
          if sz = 0 then None
          else if offset + sz > total_size pool then None
          else if \<not> is_paged pool then Some (chunk (page_bytes (pages pool) 0) (unat offset) (unat sz))
          else Some (read_pages (pages pool) (unat (page_size pool)) (unat offset) (unat sz)))"

definition tsdb_buffer_write :: "buffer_pool option \<Rightarrow> u32 \<Rightarrow> bytes \<Rightarrow> buffer_pool option" where
  "tsdb_buffer_write pool0 offset src =
     (case pool0 of
        None \<Rightarrow> None
      | Some pool \<Rightarrow>
          if src = [] then Some pool
          else if offset + of_nat (length src) > total_size pool then Some pool
          else if \<not> is_paged pool then
            Some (pool\<lparr>pages := (pages pool)[0 := Some (overlay (page_bytes (pages pool) 0) (unat offset) src)]\<rparr>)
          else
            Some (pool\<lparr>pages := write_pages (pages pool) (unat (page_size pool)) (unat offset) src\<rparr>))"

section \<open>Well-formed pools and their flat memory\<close>

definition pool_mem :: "buffer_pool \<Rightarrow> bytes" where
  "pool_mem pool = concat (map (page_bytes (pages pool)) [0..<unat (num_pages pool)])"

definition page_len :: "buffer_pool \<Rightarrow> nat" where
  "page_len pool = (if is_paged pool then unat (page_size pool) else unat (total_size pool))"

definition pool_wf :: "buffer_pool \<Rightarrow> bool" where
  "pool_wf pool \<longleftrightarrow>
     length (pages pool) = TSDB_MAX_PAGES \<and> 0 < num_pages pool \<and> unat (num_pages pool) \<le> TSDB_MAX_PAGES \<and>
     0 < page_size pool \<and> (\<not> is_paged pool \<longrightarrow> num_pages pool = 1) \<and>
     (\<forall>i < unat (num_pages pool). \<exists>b. pages pool ! i = Some b \<and> length b = page_len pool) \<and>
     unat (total_size pool) \<le> unat (num_pages pool) * page_len pool"

section \<open>Flat view of equally long pages\<close>

definition flat :: "bytes option list \<Rightarrow> nat \<Rightarrow> bytes" where
  "flat pgs n = concat (map (page_bytes pgs) [0..<n])"

definition pages_ok :: "bytes option list \<Rightarrow> nat \<Rightarrow> nat \<Rightarrow> bool" where
  "pages_ok pgs n psize \<longleftrightarrow> n \<le> length pgs \<and> (\<forall>i<n. \<exists>b. pgs ! i = Some b \<and> length b = psize)"

lemma pages_ok_len: "pages_ok pgs n psize \<Longrightarrow> i < n \<Longrightarrow> length (page_bytes pgs i) = psize"
  by (auto simp: pages_ok_def page_bytes_def)

lemma length_flat: "pages_ok pgs n psize \<Longrightarrow> length (flat pgs n) = n * psize"
proof -
  assume ok: "pages_ok pgs n psize"
  have "length (concat (map (page_bytes pgs) [0..<m])) = m * psize" if "m \<le> n" for m
    using that by (induction m) (simp_all add: pages_ok_len [OF ok])
  then show ?thesis by (simp add: flat_def)
qed

lemma flat_split:
  assumes "pages_ok pgs n psize" "i < n"
  obtains A B where "flat pgs n = A @ page_bytes pgs i @ B" "length A = i * psize"
    "\<And>b. flat (pgs[i := Some b]) n = A @ b @ B"
proof
  let ?A = "flat pgs i" and ?B = "concat (map (page_bytes pgs) [Suc i..<n])"
  have upt: "[0..<n] = [0..<i] @ i # [Suc i..<n]"
    using assms(2) by (metis le_add_same_cancel1 less_imp_add_positive less_or_eq_imp_le
        upt_add_eq_append upt_conv_Cons zero_le)
  show "flat pgs n = ?A @ page_bytes pgs i @ ?B"
    by (simp add: flat_def upt del: upt_Suc)
  have "pages_ok pgs i psize"
    using assms by (auto simp: pages_ok_def)
  then show "length ?A = i * psize" by (rule length_flat)
  fix b
  have i: "i < length pgs" using assms by (simp add: pages_ok_def)
  have other: "map (page_bytes (pgs[i := Some b])) xs = map (page_bytes pgs) xs" if "i \<notin> set xs" for xs
    using that by (intro map_cong refl) (metis nth_list_update_neq page_bytes_def)
  show "flat (pgs[i := Some b]) n = ?A @ b @ ?B"
    using i by (simp add: flat_def upt other del: upt_Suc) (simp add: page_bytes_def)
qed

lemma chunk_flat:
  assumes "pages_ok pgs n psize" "i < n" "po + m \<le> psize"
  shows "chunk (flat pgs n) (i * psize + po) m = chunk (page_bytes pgs i) po m"
proof -
  obtain A B where AB: "flat pgs n = A @ page_bytes pgs i @ B" "length A = i * psize"
    using flat_split [OF assms(1,2)] by metis
  then show ?thesis
    using assms pages_ok_len [OF assms(1,2)]
    by (simp add: chunk_append_right chunk_append_left)
qed

lemma overlay_mid:
  "po + length d \<le> length P \<Longrightarrow> overlay (A @ P @ B) (length A + po) d = A @ overlay P po d @ B"
  by (simp add: overlay_def)

lemma overlay_flat:
  assumes "pages_ok pgs n psize" "i < n" "po + length d \<le> psize"
  shows "flat (pgs[i := Some (overlay (page_bytes pgs i) po d)]) n = overlay (flat pgs n) (i * psize + po) d"
proof -
  obtain A B where AB: "flat pgs n = A @ page_bytes pgs i @ B" "length A = i * psize"
    "\<And>b. flat (pgs[i := Some b]) n = A @ b @ B"
    using flat_split [OF assms(1,2)] by metis
  have "po + length d \<le> length (page_bytes pgs i)"
    using assms pages_ok_len [OF assms(1,2)] by simp
  from overlay_mid [OF this, of A B] show ?thesis
    by (simp add: AB)
qed

lemma pages_ok_update:
  "pages_ok pgs n psize \<Longrightarrow> i < n \<Longrightarrow> length b = psize \<Longrightarrow> pages_ok (pgs[i := Some b]) n psize"
  by (auto simp: pages_ok_def nth_list_update)

section \<open>The paged copies are flat copies\<close>

lemma page_step:
  assumes "0 < (psize::nat)" "0 < m"
  shows "cur = cur div psize * psize + cur mod psize"
    and "0 < min (psize - cur mod psize) m"
    and "cur mod psize + min (psize - cur mod psize) m \<le> psize"
    and "cur + m \<le> n * psize \<Longrightarrow> cur div psize < n"
proof -
  have lt: "cur mod psize < psize" using assms by simp
  show "cur = cur div psize * psize + cur mod psize" by simp
  show "0 < min (psize - cur mod psize) m" using lt assms by simp
  show "cur mod psize + min (psize - cur mod psize) m \<le> psize" using lt by simp
  assume "cur + m \<le> n * psize"
  then have "cur < n * psize" using assms by simp
  then show "cur div psize < n" by (simp add: less_mult_imp_div_less)
qed

lemma read_pages_flat:
  "pages_ok pgs n psize \<Longrightarrow> 0 < psize \<Longrightarrow> cur + remaining \<le> n * psize \<Longrightarrow>
   read_pages pgs psize cur remaining = chunk (flat pgs n) cur remaining"
proof (induction pgs psize cur remaining rule: read_pages.induct)
  case (1 pgs psize cur remaining)
  show ?case
  proof (cases "remaining = 0")
    case True
    then show ?thesis by (simp add: read_pages.simps chunk_def)
  next
    case False
    let ?c = "min (psize - cur mod psize) remaining"
    note st = page_step [OF 1(3), of remaining cur]
    have c: "?c \<le> remaining" by simp
    have IH: "read_pages pgs psize (cur + ?c) (remaining - ?c) =
        chunk (flat pgs n) (cur + ?c) (remaining - ?c)"
      using 1 False by (intro 1(1)) auto
    have "chunk (page_bytes pgs (cur div psize)) (cur mod psize) ?c = chunk (flat pgs n) cur ?c"
      using chunk_flat [OF 1(2) st(4) st(3)] 1(4) False by simp
    then have "read_pages pgs psize cur remaining =
        chunk (flat pgs n) cur ?c @ chunk (flat pgs n) (cur + ?c) (remaining - ?c)"
      using False 1(3) IH by (subst read_pages.simps) (simp add: Let_def)
    also have "\<dots> = chunk (flat pgs n) cur remaining"
      using c by (simp add: chunk_append_adjacent)
    finally show ?thesis .
  qed
qed

lemma overlay_overlay_adjacent:
  assumes "off + length a \<le> length f"
  shows "overlay (overlay f off a) (off + length a) b = overlay f off (a @ b)"
  using assms by (auto simp: overlay_def add.assoc add.commute add.left_commute)

lemma write_pages_flat:
  "pages_ok pgs n psize \<Longrightarrow> 0 < psize \<Longrightarrow> cur + length src \<le> n * psize \<Longrightarrow>
   pages_ok (write_pages pgs psize cur src) n psize \<and>
   length (write_pages pgs psize cur src) = length pgs \<and>
   flat (write_pages pgs psize cur src) n = overlay (flat pgs n) cur src"
proof (induction pgs psize cur src rule: write_pages.induct)
  case (1 pgs psize cur src)
  show ?case
  proof (cases "src = []")
    case True
    with 1(2) show ?thesis by (simp add: write_pages.simps)
  next
    case False
    let ?i = "cur div psize" and ?po = "cur mod psize"
    let ?c = "min (psize - ?po) (length src)"
    let ?pg = "overlay (page_bytes pgs ?i) ?po (take ?c src)"
    let ?pgs = "pgs[?i := Some ?pg]"
    have st: "?i < n" "?po + ?c \<le> psize" "?i * psize + ?po = cur"
      using page_step [OF 1(3), of "length src" cur] False 1(4) by auto
    have pg: "length ?pg = psize"
      using st pages_ok_len [OF 1(2) st(1)] by (simp add: length_overlay)
    have ok: "pages_ok ?pgs n psize"
      using 1(2) st(1) pg by (rule pages_ok_update)
    have unf: "write_pages pgs psize cur src = write_pages ?pgs psize (cur + ?c) (drop ?c src)"
      using False 1(3) by (subst write_pages.simps) (simp add: Let_def)
    have IH: "pages_ok (write_pages ?pgs psize (cur + ?c) (drop ?c src)) n psize \<and>
        length (write_pages ?pgs psize (cur + ?c) (drop ?c src)) = length ?pgs \<and>
        flat (write_pages ?pgs psize (cur + ?c) (drop ?c src)) n =
          overlay (flat ?pgs n) (cur + ?c) (drop ?c src)"
      using False 1(3,4) ok by (intro 1(1)) auto
    have "flat ?pgs n = overlay (flat pgs n) cur (take ?c src)"
      using overlay_flat [OF 1(2) st(1), of ?po "take ?c src"] st by simp
    moreover have "cur + length (take ?c src) \<le> length (flat pgs n)"
      using 1(4) length_flat [OF 1(2)] by simp
    ultimately show ?thesis
      using IH overlay_overlay_adjacent [of cur "take ?c src" "flat pgs n" "drop ?c src"]
      unfolding unf by simp
  qed
qed

section \<open>Allocation\<close>

lemma heap_alloc_Some: "heap_alloc w caps n = (Some b, w') \<Longrightarrow> length b = n"
  by (auto simp: heap_alloc_def split: prod.splits if_splits)

lemma alloc_pages_ok:
  assumes "alloc_pages caps n i pool w = (r, pool', w')"
    and "pages_ok (pages pool) i (unat (page_size pool))"
    and "length (pages pool) = TSDB_MAX_PAGES" and "i + n \<le> TSDB_MAX_PAGES"
    and "unat (num_pages pool) = i"
  shows "pool' = pool\<lparr>pages := pages pool', num_pages := num_pages pool'\<rparr> \<and>
    length (pages pool') = TSDB_MAX_PAGES \<and>
    (r = ESP_OK \<longrightarrow> pages_ok (pages pool') (i + n) (unat (page_size pool)) \<and>
       unat (num_pages pool') = i + n) \<and>
    (r \<noteq> ESP_OK \<longrightarrow> r = ESP_ERR_NO_MEM \<and>
       (\<exists>j. i \<le> j \<and> j < i + n \<and>
          (\<forall>k<j. pages pool' ! k = None) \<and> drop j (pages pool') = drop j (pages pool)))"
  using assms
proof (induction caps n i pool w rule: alloc_pages.induct)
  case (1 caps i pool w)
  then show ?case by simp
next
  case (2 caps n i pool w)
  show ?case
  proof (cases "heap_alloc w caps (unat (page_size pool))")
    case (Pair a w1)
    show ?thesis
    proof (cases a)
      case None
      with 2 Pair show ?thesis
        by (auto simp: nth_append intro!: exI [of _ i])
    next
      case (Some pg)
      let ?p = "pool\<lparr>pages := (pages pool)[i := Some pg], num_pages := num_pages pool + 1\<rparr>"
      have pg: "length pg = unat (page_size pool)"
        using Pair Some by (simp add: heap_alloc_Some)
      have ok: "pages_ok (pages ?p) (Suc i) (unat (page_size ?p))"
        using 2(3,4,5) pg by (auto simp: pages_ok_def nth_list_update less_Suc_eq)
      have "unat (num_pages pool) + 1 < 256" using 2(5,6) by simp
      then have np: "unat (num_pages pool + 1) = Suc i"
        using 2(6) by (simp add: unat_word_ariths)
      have "alloc_pages caps n (Suc i) ?p w1 = (r, pool', w')"
        using 2(2) Pair Some by simp
      from 2(1) [OF Pair [symmetric] Some this ok] show ?thesis
        using np 2(4,5) by (auto intro: Suc_leD)
    qed
  qed
qed

lemma pool_wf_pages:
  "pool_wf pool \<Longrightarrow> pages_ok (pages pool) (unat (num_pages pool)) (page_len pool)"
  by (auto simp: pool_wf_def pages_ok_def)

lemma pool_mem_flat: "pool_mem pool = flat (pages pool) (unat (num_pages pool))"
  by (simp add: pool_mem_def flat_def)

lemma pool_wf_len_pos: "pool_wf pool \<Longrightarrow> is_paged pool \<Longrightarrow> 0 < page_len pool"
  by (auto simp: pool_wf_def page_len_def word_less_nat_alt)

lemma pool_wf_unpaged:
  assumes "pool_wf pool" "\<not> is_paged pool"
  shows "unat (num_pages pool) = 1" "pool_mem pool = page_bytes (pages pool) 0"
    "length (page_bytes (pages pool) 0) = unat (total_size pool)"
proof -
  show 1: "unat (num_pages pool) = 1" using assms by (simp add: pool_wf_def)
  then show "pool_mem pool = page_bytes (pages pool) 0" by (simp add: pool_mem_def)
  show "length (page_bytes (pages pool) 0) = unat (total_size pool)"
    using pages_ok_len [OF pool_wf_pages [OF assms(1)], of 0] 1 assms(2) by (simp add: page_len_def)
qed

lemma length_pool_mem: "pool_wf pool \<Longrightarrow> unat (total_size pool) \<le> length (pool_mem pool)"
  using length_flat [OF pool_wf_pages] by (simp add: pool_mem_flat pool_wf_def)

text \<open>The number of pages covers the requested size.\<close>

lemma pages_needed_cover:
  fixes sz ps :: u32
  assumes "0 < unat sz" "0 < unat ps" "unat sz + unat ps \<le> 2 ^ 32"
  shows "unat sz \<le> unat ((sz + ps - 1) div ps) * unat ps" "0 < unat ((sz + ps - 1) div ps)"
proof -
  let ?need = "(sz + ps - 1) div ps"
  have "sz + ps - 1 = of_nat (unat sz + unat ps - 1)"
    using assms by (simp add: of_nat_diff)
  moreover have "unat sz + unat ps - 1 < 2 ^ 32"
    using assms by linarith
  ultimately have "unat (sz + ps - 1) = unat sz + unat ps - 1"
    by (simp add: unat_of_nat)
  then have need: "unat ?need = (unat sz + unat ps - 1) div unat ps"
    by (simp only: unat_div)
  have "(unat sz + unat ps - 1) mod unat ps < unat ps"
    using assms(2) by simp
  moreover have "(unat sz + unat ps - 1) div unat ps * unat ps + (unat sz + unat ps - 1) mod unat ps
      = unat sz + unat ps - 1"
    by (rule div_mult_mod_eq)
  ultimately show cover: "unat sz \<le> unat ?need * unat ps"
    unfolding need by linarith
  show "0 < unat ?need"
  proof (rule ccontr)
    assume "\<not> 0 < unat ?need"
    with cover have "unat sz \<le> 0 * unat ps" by (metis gr0I)
    with assms(1) show False by simp
  qed
qed

lemma alloc_pages_pool_wf:
  assumes "alloc_pages caps n 0 (zero_pool\<lparr>page_size := ps, total_size := sz, is_paged := True\<rparr>) w
      = (ESP_OK, pool, w')"
    and "0 < n" "n \<le> TSDB_MAX_PAGES" "0 < unat ps" "unat sz \<le> n * unat ps"
  shows "pool_wf pool \<and> total_size pool = sz \<and> is_paged pool"
proof -
  let ?p0 = "zero_pool\<lparr>page_size := ps, total_size := sz, is_paged := True\<rparr>"
  have res: "pool = ?p0\<lparr>pages := pages pool, num_pages := num_pages pool\<rparr>"
    "length (pages pool) = TSDB_MAX_PAGES" "pages_ok (pages pool) n (unat ps)"
    "unat (num_pages pool) = n"
    using alloc_pages_ok [OF assms(1)] assms(3) by (auto simp: zero_pool_def pages_ok_def)
  have f: "page_size pool = ps" "total_size pool = sz" "is_paged pool"
    using arg_cong [OF res(1), of page_size] arg_cong [OF res(1), of total_size]
      arg_cong [OF res(1), of is_paged] by simp_all
  then show ?thesis
    using res(2-4) assms(2-5)
    by (simp add: pool_wf_def page_len_def pages_ok_def word_less_nat_alt)
qed

lemma alloc_buffer_pool_wf:
  assumes "tsdb_alloc_buffer_pool p sz paged ps strategy w = (ESP_OK, p', w')"
    and "\<not> paged \<or> unat sz + unat (if ps > 0 then ps else 2048) \<le> 2 ^ 32"
  shows "\<exists>pool. p' = Some pool \<and> pool_wf pool \<and> total_size pool = sz \<and> is_paged pool = paged"
proof (cases paged)
  case False
  with assms(1) obtain pg w1 where pg: "heap_alloc w (alloc_caps strategy (spiram_free w) sz) (unat sz) = (Some pg, w1)"
    and sz: "sz \<noteq> 0"
    and p': "p' = Some (zero_pool\<lparr>page_size := (if ps > 0 then ps else 2048), total_size := sz,
      pages := (pages zero_pool)[0 := Some pg], num_pages := 1\<rparr>)"
    by (auto simp: tsdb_alloc_buffer_pool_def Let_def zero_pool_def
        split: option.splits if_splits prod.splits)
  have "length pg = unat sz" using pg by (rule heap_alloc_Some)
  then show ?thesis
    using False sz unfolding p'
    by (auto simp: pool_wf_def page_len_def zero_pool_def word_neq_0_conv)
next
  case True
  define P where "P = (if ps > 0 then ps else 2048 :: u32)"
  have P: "0 < unat P" by (auto simp: P_def word_less_nat_alt)
  have sz: "0 < unat sz"
    using assms(1) by (auto simp: tsdb_alloc_buffer_pool_def unat_gt_0 split: option.splits if_splits)
  obtain pool where al: "alloc_pages (alloc_caps strategy (spiram_free w) sz) (unat ((sz + P - 1) div P)) 0
        (zero_pool\<lparr>page_size := P, total_size := sz, is_paged := True\<rparr>) w = (ESP_OK, pool, w')"
    and p': "p' = Some pool" and n128: "unat ((sz + P - 1) div P) \<le> TSDB_MAX_PAGES"
    using assms(1) True unfolding tsdb_alloc_buffer_pool_def Let_def P_def [symmetric]
    by (auto split: option.splits if_splits prod.splits)
  have "unat sz + unat P \<le> 2 ^ 32" using assms(2) True by (simp add: P_def)
  from alloc_pages_pool_wf [OF al _ n128 P] pages_needed_cover [OF sz P this] show ?thesis
    using p' True by simp
qed

section \<open>Pointers stay inside the pages\<close>

lemma get_buffer_ptr_inside:
  assumes "pool_wf pool" "tsdb_get_buffer_ptr (Some pool) offset sz = Some (i, po)"
    and "unat offset + unat sz < 2 ^ 32" "0 < unat sz"
  shows "i < unat (num_pages pool) \<and> (\<exists>b. pages pool ! i = Some b \<and> po + unat sz \<le> length b) \<and>
    i * page_len pool + po = unat offset"
proof -
  have sum: "unat (offset + sz) = unat offset + unat sz"
    using assms(3) by (simp add: unat_word_ariths)
  have le: "unat offset + unat sz \<le> unat (total_size pool)"
    using assms(2) sum
    by (auto simp: tsdb_get_buffer_ptr_def word_less_nat_alt Let_def split: if_splits)
  show ?thesis
  proof (cases "is_paged pool")
    case False
    with assms(2) have "i = 0" "po = unat offset"
      by (auto simp: tsdb_get_buffer_ptr_def split: if_splits)
    moreover have "\<exists>b. pages pool ! 0 = Some b \<and> length b = unat (total_size pool)"
      using assms(1) False by (auto simp: pool_wf_def page_len_def)
    ultimately show ?thesis
      using pool_wf_unpaged(1) [OF assms(1) False] le by auto
  next
    case True
    let ?ps = "unat (page_size pool)"
    have ps: "0 < ?ps" using assms(1) by (simp add: pool_wf_def word_less_nat_alt)
    have i: "i = unat offset div ?ps" "po = unat offset mod ?ps"
      and fit: "\<not> offset mod page_size pool + sz > page_size pool"
      using assms(2) True
      by (auto simp: tsdb_get_buffer_ptr_def Let_def unat_div unat_mod split: if_splits)
    have po: "unat (offset mod page_size pool) = po" using i by (simp add: unat_mod)
    have "po \<le> unat offset" using i by simp
    then have "unat (offset mod page_size pool + sz) = po + unat sz"
      using assms(3) po by (simp add: unat_add_no_wrap)
    then have fit': "po + unat sz \<le> ?ps"
      using fit by (simp add: word_less_nat_alt)
    have "unat offset < unat (num_pages pool) * ?ps"
      using le assms(1,4) True by (simp add: pool_wf_def page_len_def)
    then have lt: "i < unat (num_pages pool)" unfolding i by (rule less_mult_imp_div_less)
    then have "\<exists>b. pages pool ! i = Some b \<and> length b = ?ps"
      using assms(1) True by (simp add: pool_wf_def page_len_def)
    with lt fit' show ?thesis
      using True by (auto simp: i page_len_def)
  qed
qed

section \<open>The interface: a flat byte memory\<close>

locale flat_memory =
  fixes ok :: "'s \<Rightarrow> bool"
    and mem :: "'s \<Rightarrow> bytes"
    and cap :: "'s \<Rightarrow> nat"
    and rd :: "'s \<Rightarrow> nat \<Rightarrow> nat \<Rightarrow> bytes option"
    and wr :: "'s \<Rightarrow> nat \<Rightarrow> bytes \<Rightarrow> 's"
  assumes cap_mem: "ok s \<Longrightarrow> cap s \<le> length (mem s)"
    and rd_mem: "ok s \<Longrightarrow> 0 < n \<Longrightarrow> off + n \<le> cap s \<Longrightarrow> rd s off n = Some (chunk (mem s) off n)"
    and ok_wr: "ok s \<Longrightarrow> off + length d \<le> cap s \<Longrightarrow> ok (wr s off d)"
    and cap_wr: "ok s \<Longrightarrow> off + length d \<le> cap s \<Longrightarrow> cap (wr s off d) = cap s"
    and mem_wr: "ok s \<Longrightarrow> off + length d \<le> cap s \<Longrightarrow> mem (wr s off d) = overlay (mem s) off d"
begin

lemma rd_wr_same:
  assumes "ok s" "d \<noteq> []" "off + length d \<le> cap s"
  shows "rd (wr s off d) off (length d) = Some d"
  using assms rd_mem [OF ok_wr [OF assms(1,3)], of "length d" off]
  by (simp add: cap_wr mem_wr chunk_overlay_same)

lemma rd_wr_other:
  assumes "ok s" "off + length d \<le> cap s" "0 < n" "off' + n \<le> cap s"
    and "off' + n \<le> off \<or> off + length d \<le> off'"
  shows "rd (wr s off d) off' n = rd s off' n"
proof -
  have "off' + n \<le> length (mem s)" using assms(4) cap_mem [OF assms(1)] by simp
  then show ?thesis
    using assms rd_mem [OF ok_wr [OF assms(1,2)], of n off']
    by (simp add: cap_wr mem_wr rd_mem chunk_overlay_disjoint)
qed

end

text \<open>The pool as that memory: the offsets of a call that fits are exact in 32 bits.\<close>

definition pool_rd :: "buffer_pool \<Rightarrow> nat \<Rightarrow> nat \<Rightarrow> bytes option" where
  "pool_rd pool off n = tsdb_buffer_read (Some pool) (of_nat off) (of_nat n)"

definition pool_wr :: "buffer_pool \<Rightarrow> nat \<Rightarrow> bytes \<Rightarrow> buffer_pool" where
  "pool_wr pool off d = the (tsdb_buffer_write (Some pool) (of_nat off) d)"

lemma fits_u32:
  assumes "off + n \<le> unat (t :: u32)"
  shows "unat (of_nat off :: u32) = off" "unat (of_nat n :: u32) = n"
    "\<not> of_nat off + of_nat n > t"
proof -
  have "off + n < 2 ^ 32" using assms unat_u32_bound [of t] by simp
  then show 1: "unat (of_nat off :: u32) = off" "unat (of_nat n :: u32) = n"
    by (simp_all add: unat_of_nat)
  then show "\<not> of_nat off + of_nat n > t"
    using assms \<open>off + n < 2 ^ 32\<close> by (simp add: word_less_nat_alt unat_add_no_wrap)
qed

lemma pool_rd_mem:
  assumes "pool_wf pool" "0 < n" "off + n \<le> unat (total_size pool)"
  shows "pool_rd pool off n = Some (chunk (pool_mem pool) off n)"
proof (cases "is_paged pool")
  case True
  have "off + n \<le> unat (num_pages pool) * unat (page_size pool)"
    using assms True by (simp add: pool_wf_def page_len_def)
  then have "read_pages (pages pool) (unat (page_size pool)) off n = chunk (pool_mem pool) off n"
    using read_pages_flat [OF pool_wf_pages [OF assms(1)]] pool_wf_len_pos [OF assms(1) True] True
    by (simp add: page_len_def pool_mem_flat)
  then show ?thesis
    using True assms(2) fits_u32 [OF assms(3)]
    by (auto simp: pool_rd_def tsdb_buffer_read_def word_eq_iff_unsigned)
next
  case False
  then show ?thesis
    using assms(2) fits_u32 [OF assms(3)] pool_wf_unpaged(2) [OF assms(1) False]
    by (auto simp: pool_rd_def tsdb_buffer_read_def)
qed

lemma pool_wr_mem:
  assumes "pool_wf pool" "off + length d \<le> unat (total_size pool)"
  shows "pool_wf (pool_wr pool off d) \<and> total_size (pool_wr pool off d) = total_size pool \<and>
    pool_mem (pool_wr pool off d) = overlay (pool_mem pool) off d"
proof (cases "d = []")
  case True
  with assms(1) show ?thesis by (simp add: pool_wr_def tsdb_buffer_write_def)
next
  case ne: False
  note fit = fits_u32 [OF assms(2)]
  note ok = pool_wf_pages [OF assms(1)]
  show ?thesis
  proof (cases "is_paged pool")
    case True
    let ?pgs = "write_pages (pages pool) (unat (page_size pool)) off d"
    have wr: "pool_wr pool off d = pool\<lparr>pages := ?pgs\<rparr>"
      using True ne fit by (simp add: pool_wr_def tsdb_buffer_write_def)
    have "off + length d \<le> unat (num_pages pool) * page_len pool"
      using assms by (simp add: pool_wf_def)
    from write_pages_flat [OF ok pool_wf_len_pos [OF assms(1) True] this]
    have "pages_ok ?pgs (unat (num_pages pool)) (page_len pool) \<and> length ?pgs = length (pages pool) \<and>
        flat ?pgs (unat (num_pages pool)) = overlay (pool_mem pool) off d"
      using True by (simp add: page_len_def pool_mem_flat)
    with assms(1) True show ?thesis
      unfolding wr by (simp add: pool_wf_def pages_ok_def page_len_def pool_mem_flat)
  next
    case False
    note un = pool_wf_unpaged [OF assms(1) False]
    let ?pg = "overlay (page_bytes (pages pool) 0) off d"
    have wr: "pool_wr pool off d = pool\<lparr>pages := (pages pool)[0 := Some ?pg]\<rparr>"
      using False ne fit by (simp add: pool_wr_def tsdb_buffer_write_def)
    have "length ?pg = page_len pool"
      using un assms(2) False by (simp add: length_overlay page_len_def)
    from pages_ok_update [OF ok _ this] un
    have "pages_ok ((pages pool)[0 := Some ?pg]) (unat (num_pages pool)) (page_len pool)" by simp
    moreover have "page_bytes ((pages pool)[0 := Some ?pg]) 0 = ?pg"
      using assms(1) by (simp add: page_bytes_def pool_wf_def)
    ultimately show ?thesis
      using assms(1) un False unfolding wr
      by (simp add: pool_wf_def pages_ok_def page_len_def pool_mem_def)
  qed
qed

interpretation pool_flat: flat_memory pool_wf pool_mem "\<lambda>p. unat (total_size p)" pool_rd pool_wr
  by unfold_locales (auto simp: length_pool_mem pool_rd_mem pool_wr_mem)

section \<open>The pool as a whole\<close>

lemma buffer_write_pool: "tsdb_buffer_write (Some pool) (of_nat off) d = Some (pool_wr pool off d)"
  by (auto simp: pool_wr_def tsdb_buffer_write_def)

text \<open>
  C28: An allocated pool is a well-formed byte memory, paged or not, for every allocation
  strategy and whatever allocations failed before: a write inside it keeps it well formed, is
  read back as it was written, and leaves every other range as it was, also across pages.
\<close>

theorem allocated_pool_is_memory:
  assumes "tsdb_alloc_buffer_pool p sz paged ps strategy w = (ESP_OK, p', w')"
    and "\<not> paged \<or> unat sz + unat (if ps > 0 then ps else 2048) \<le> 2 ^ 32"
    and "d \<noteq> []" "off + length d \<le> unat sz"
  shows "\<exists>pool'. tsdb_buffer_write p' (of_nat off) d = Some pool' \<and> pool_wf pool' \<and> total_size pool' = sz \<and>
    tsdb_buffer_read (Some pool') (of_nat off) (of_nat (length d)) = Some d \<and>
    (\<forall>off2 n. 0 < n \<longrightarrow> off2 + n \<le> unat sz \<longrightarrow> off2 + n \<le> off \<or> off + length d \<le> off2 \<longrightarrow>
      tsdb_buffer_read (Some pool') (of_nat off2) (of_nat n) = tsdb_buffer_read p' (of_nat off2) (of_nat n))"
proof -
  obtain pool where p: "p' = Some pool" "pool_wf pool" "total_size pool = sz"
    using alloc_buffer_pool_wf [OF assms(1,2)] by blast
  have fit: "off + length d \<le> unat (total_size pool)" using assms(4) p(3) by simp
  note same = pool_flat.rd_wr_same [OF p(2) assms(3) fit] and other = pool_flat.rd_wr_other [OF p(2) fit]
  show ?thesis
    using p same other pool_flat.ok_wr [OF p(2) fit] pool_flat.cap_wr [OF p(2) fit]
    by (intro exI [of _ "pool_wr pool off d"]) (simp add: buffer_write_pool pool_rd_def word_unat_eq_iff)
qed

lemma alloc_pages_two: "alloc_pages caps 2 i pool w = alloc_pages caps (Suc (Suc 0)) i pool w"
  by (simp only: numeral_2_eq_2)

text \<open>Two bytes across the border of two pages.\<close>

theorem allocated_pool_is_memory_witness:
  "\<exists>p' w' pool'. tsdb_alloc_buffer_pool (Some zero_pool) 4 True 2 TSDB_ALLOC_AUTO
      \<lparr> fs = Map.empty, dirs = (\<lambda>d. False), read_fault = no_faults, io_script = [], heap_script = [True, True], lock_script = [],
        free_script = [], spiram_free = 0 \<rparr> = (ESP_OK, p', w') \<and>
    tsdb_buffer_write p' 1 [7, 8] = Some pool' \<and> tsdb_buffer_read (Some pool') 1 2 = Some [7, 8]"
proof -
  let ?w = "\<lparr> fs = Map.empty, dirs = (\<lambda>d. False), read_fault = no_faults, io_script = [], heap_script = [True, True], lock_script = [],
      free_script = [], spiram_free = 0 \<rparr> :: world"
  have "unat (5 div 2 :: u32) = 2" by (simp add: unat_div)
  then have "fst (tsdb_alloc_buffer_pool (Some zero_pool) 4 True 2 TSDB_ALLOC_AUTO ?w) = ESP_OK"
    by (simp add: tsdb_alloc_buffer_pool_def Let_def heap_alloc_def malloc_ok_def alloc_pages_two split: prod.split)
  then obtain p' w' where a: "tsdb_alloc_buffer_pool (Some zero_pool) 4 True 2 TSDB_ALLOC_AUTO ?w = (ESP_OK, p', w')"
    by (metis fst_conv prod_cases3)
  show ?thesis using allocated_pool_is_memory [OF a, of "[7, 8]" 1] a by auto
qed

end
