(* ===== verification/Tsdb_Handle.thy ===== *)
theory Tsdb_Handle
  imports Tsdb_Block Tsdb_Buffer
begin

text \<open>
  The per-instance state \<open>struct tsdb_s\<close> (\<open>src/tsdb_internal.h\<close>), the lock helper, and the
  operations every other component uses to reach the file: reading and writing the header
  (\<open>src/tsdb_core.c\<close>) and a data block (\<open>src/tsdb_write.c\<close>).

  \<open>db_file\<close> is the path of the open stream, \<open>None\<close> for a NULL \<open>FILE *\<close>. The fields of the
  struct that the header has as well carry the prefix \<open>db_\<close>. The mutex itself is not a
  field: taking it consumes one \<open>lock_script\<close> outcome.

  The lemmas describe a block read and a block write in terms of the file's bytes, and
  show that a block write, even a torn one, changes no byte outside its block.
\<close>

record tsdb =
  db_file :: "path option"
  header :: tsdb_header
  filepath :: path
  is_open :: bool
  pool :: buffer_pool
  read_buffer_offset :: u32
  write_cache_offset :: u32
  query_buffer_offset :: u32
  stream_buffer_offset :: u32
  stream_buffer_size :: u32
  cached_block_num :: u32
  cache_dirty :: bool
  capacity_adapted :: bool
  in_file_header_stale :: bool
  sidecar_seq :: u32
  sidecar_slot :: u8
  legacy_slot :: u8
  legacy_seq :: u32
  legacy_mirrored :: bool
  side_dir_ready :: bool
  index_stale :: bool
  migrating :: bool
  closing :: bool
  generation :: u32
  has_free_space_cb :: bool
  min_free_bytes :: u32
  db_extra_param_count :: u8
  overflow_data_offset :: u32
  db_first_overflow_record_idx :: u32
  db_overflow_record_size :: u16

text \<open>
  \<open>TSDB_LOCK_OPEN_OR_RETURN(db, timeout, ESP_ERR_TIMEOUT)\<close>: \<open>None\<close> when the lock is held
  and the handle passed the re-check, otherwise the error the macro returns with.
\<close>

definition tsdb_lock_open :: "world \<Rightarrow> esp_err option \<times> world" where
  "tsdb_lock_open w =
     (case next_lock w of
        (LockOk, w') \<Rightarrow> (None, w')
      | (LockTimeout, w') \<Rightarrow> (Some ESP_ERR_TIMEOUT, w')
      | (LockStale, w') \<Rightarrow> (Some ESP_ERR_INVALID_STATE, w'))"

definition tsdb_read_header :: "path option \<Rightarrow> world \<Rightarrow> esp_err \<times> tsdb_header option" where
  "tsdb_read_header f w =
     (case f of
        None \<Rightarrow> (ESP_ERR_INVALID_ARG, None)
      | Some p \<Rightarrow>
          (case fread_at w p 0 TSDB_HDR_SIZE of
             None \<Rightarrow> (ESP_FAIL, None)
           | Some bs \<Rightarrow> (ESP_OK, Some (decode_header bs))))"

definition tsdb_write_header :: "path option \<Rightarrow> tsdb_header \<Rightarrow> world \<Rightarrow> esp_err \<times> world" where
  "tsdb_write_header f h w =
     (case f of
        None \<Rightarrow> (ESP_ERR_INVALID_ARG, w)
      | Some p \<Rightarrow>
          (case fwrite_at w p 0 (encode_header h) of
             (None, w') \<Rightarrow> (ESP_OK, w')
           | (Some e, w') \<Rightarrow> (ESP_FAIL, w')))"

text \<open>The block is returned when the read succeeds; on failure the caller's buffer is not used.\<close>

definition tsdb_read_block :: "tsdb \<Rightarrow> u32 \<Rightarrow> world \<Rightarrow> esp_err \<times> bytes option" where
  "tsdb_read_block db block_num w =
     (case db_file db of
        None \<Rightarrow> (ESP_ERR_INVALID_ARG, None)
      | Some p \<Rightarrow>
          (let block_offset = tsdb_calc_block_offset (header db) block_num
           in case fread_at w p (unat block_offset) TSDB_BLOCK_SIZE of
                None \<Rightarrow> (ESP_ERR_NOT_FOUND, None)
              | Some b \<Rightarrow> (ESP_OK, Some b)))"

definition tsdb_write_block :: "tsdb \<Rightarrow> u32 \<Rightarrow> bytes \<Rightarrow> world \<Rightarrow> esp_err \<times> world" where
  "tsdb_write_block db block_num block w =
     (case db_file db of
        None \<Rightarrow> (ESP_ERR_INVALID_ARG, w)
      | Some p \<Rightarrow>
          (let block_offset = tsdb_calc_block_offset (header db) block_num
           in case fwrite_at w p (unat block_offset) (take TSDB_BLOCK_SIZE block) of
                (None, w') \<Rightarrow> (ESP_OK, w')
              | (Some ENOSPC, w') \<Rightarrow> (ESP_ERR_NO_MEM, w')
              | (Some _, w') \<Rightarrow> (ESP_FAIL, w')))"

section \<open>Positions\<close>

text \<open>First byte of the data region, and of a block, without wrap-around.\<close>

definition data_start :: "tsdb_header \<Rightarrow> nat" where
  "data_start h = unat (index_offset h) + 8 * unat (index_entries h)"

definition block_pos :: "tsdb_header \<Rightarrow> nat \<Rightarrow> nat" where
  "block_pos h b = data_start h + 1024 * b"

lemma calc_block_offset_exact:
  assumes "block_pos h (unat b) < 2 ^ 32"
  shows "unat (tsdb_calc_block_offset h b) = block_pos h (unat b)"
proof -
  have l: "unat (index_offset h) + 8 * unat (index_entries h) + 1024 * unat b < 4294967296"
    using assms by (simp add: block_pos_def data_start_def)
  have 1: "unat (index_entries h * 8) = 8 * unat (index_entries h)"
    using l by (subst unat_mult_no_wrap) auto
  have 2: "unat (b * 1024) = 1024 * unat b"
    using l by (subst unat_mult_no_wrap) auto
  have 3: "unat (index_offset h + index_entries h * 8) = data_start h"
    using l 1 by (subst unat_add_no_wrap) (auto simp: data_start_def)
  have "unat (index_offset h + index_entries h * 8 + b * 1024) = data_start h + 1024 * unat b"
    using l 2 3 by (subst unat_add_no_wrap) (auto simp: data_start_def)
  then show ?thesis
    by (simp add: tsdb_calc_block_offset_def block_pos_def)
qed

section \<open>Block and header I/O\<close>

lemma read_block_Some:
  assumes "sound w" "db_file db = Some p" "block_pos (header db) (unat b) < 2 ^ 32"
    and "block_pos (header db) (unat b) + 1024 \<le> length (content w p)"
  shows "tsdb_read_block db b w =
    (ESP_OK, Some (chunk (content w p) (block_pos (header db) (unat b)) 1024))"
  using assms by (simp add: tsdb_read_block_def calc_block_offset_exact fread_at_sound)

lemma read_block_length:
  "tsdb_read_block db b w = (r, Some blk) \<Longrightarrow> length blk = TSDB_BLOCK_SIZE"
  by (auto simp: tsdb_read_block_def fread_at_def Let_def length_chunk
      split: option.splits if_splits)

lemma quiet_write_block:
  assumes "quiet w" "db_file db = Some p" "block_pos (header db) (unat b) < 2 ^ 32"
    and "length blk = TSDB_BLOCK_SIZE"
  shows "tsdb_write_block db b blk w =
    (ESP_OK, put_file w p (overlay (content w p) (block_pos (header db) (unat b)) blk))"
  using assms by (simp add: tsdb_write_block_def calc_block_offset_exact quiet_fwrite_at)

lemma quiet_write_header:
  assumes "quiet w"
  shows "tsdb_write_header (Some p) h w = (ESP_OK, put_file w p (overlay (content w p) 0 (encode_header h)))"
  using assms by (simp add: tsdb_write_header_def quiet_fwrite_at)

lemma quiet_lock_open [quiet_simps]: "quiet w \<Longrightarrow> tsdb_lock_open w = (None, w)"
  by (simp add: tsdb_lock_open_def quiet_next)

text \<open>Whatever the outcome of a block write, bytes outside the block are untouched.\<close>

lemma write_block_frame:
  assumes "tsdb_write_block db b blk w = (r, w')" "db_file db = Some p"
    and "block_pos (header db) (unat b) < 2 ^ 32" "length blk = TSDB_BLOCK_SIZE"
    and "off + n \<le> length (content w p)"
    and "off + n \<le> block_pos (header db) (unat b) \<or> block_pos (header db) (unat b) + 1024 \<le> off"
  shows "chunk (content w' p) off n = chunk (content w p) off n"
proof -
  obtain e where "fwrite_at w p (block_pos (header db) (unat b)) blk = (e, w')"
    using assms(1-4)
    by (auto simp: tsdb_write_block_def calc_block_offset_exact
        split: prod.splits option.splits errno.splits)
  from fwrite_at_frame [OF this assms(5)] assms(4,6) show ?thesis by simp
qed

end
