(* ===== verification/Tsdb_Index.thy ===== *)
theory Tsdb_Index
  imports Tsdb_Handle
begin

text \<open>
  The binary search on the sparse time index (\<open>src/tsdb_index.c\<close>). An entry \<open>k\<close> holds the
  timestamp of the record in slot \<open>k * index_stride\<close> and its block; unused entries are zero.

  The lemmas show that the search terminates and, on an index whose used entries ascend,
  returns the block of the last entry that is not later than the timestamp.
\<close>

section \<open>The search\<close>

text \<open>\<open>fseek\<close> and \<open>fread\<close> of one \<open>tsdb_index_entry_t\<close>: timestamp and block number.\<close>

definition read_index_entry :: "path \<Rightarrow> tsdb_header \<Rightarrow> int \<Rightarrow> world \<Rightarrow> (u32 \<times> u32) option" where
  "read_index_entry p h mid w =
     (let index_file_offset = index_offset h + word_of_int mid * INDEX_ENTRY_SIZE
      in case fread_at w p (unat index_file_offset) 8 of
           None \<Rightarrow> None
         | Some b \<Rightarrow> Some (ld32 b 0, ld32 b 4))"

text \<open>The loop; \<open>left\<close>, \<open>right\<close> and \<open>mid\<close> are \<open>int32_t\<close>, the division truncates.\<close>

function index_loop :: "path \<Rightarrow> tsdb_header \<Rightarrow> u32 \<Rightarrow> world \<Rightarrow> int \<Rightarrow> int \<Rightarrow> u32 \<Rightarrow> u32" where
  "index_loop p h timestamp w left right best_block =
     (if 0 \<le> left \<and> left \<le> right then
        (let mid = (left + right) div 2
         in case read_index_entry p h mid w of
              None \<Rightarrow> best_block
            | Some (ts, blk) \<Rightarrow>
                if ts = 0 then index_loop p h timestamp w left (mid - 1) best_block
                else if ts = timestamp then blk
                else if ts < timestamp then index_loop p h timestamp w (mid + 1) right blk
                else index_loop p h timestamp w left (mid - 1) best_block)
      else best_block)"
  by pat_completeness auto
termination
  by (relation "measure (\<lambda>(p, h, t, w, l, r, b). nat (r + 1 - l))") auto

declare index_loop.simps [simp del]

definition tsdb_find_block_for_timestamp ::
  "path option \<Rightarrow> tsdb_header option \<Rightarrow> u32 \<Rightarrow> world \<Rightarrow> esp_err \<times> u32 option" where
  "tsdb_find_block_for_timestamp fo ho timestamp w =
     (case (fo, ho) of
        (Some p, Some h) \<Rightarrow>
          if index_entries h = 0 then (ESP_OK, Some 0)
          else if records_per_block h = 0 then (ESP_FAIL, Some 0)
          else if timestamp < oldest_timestamp h
          then (ESP_OK, Some (oldest_record_idx h div ucast (records_per_block h)))
          else if timestamp > newest_timestamp h
          then (ESP_OK, Some (newest_record_idx h div ucast (records_per_block h)))
          else (ESP_OK, Some (index_loop p h timestamp w 0 (sint (index_entries h - 1)) 0))
      | _ \<Rightarrow> (ESP_ERR_INVALID_ARG, None))"

section \<open>Correctness of the search\<close>

text \<open>
  The index as a list of entries: \<open>es\<close> are the used ones, with ascending timestamps, the
  rest of the region is zero.
\<close>

definition index_holds :: "path \<Rightarrow> tsdb_header \<Rightarrow> world \<Rightarrow> (u32 \<times> u32) list \<Rightarrow> bool" where
  "index_holds p h w es \<longleftrightarrow>
     length es \<le> unat (index_entries h) \<and>
     (\<forall>k < unat (index_entries h). read_index_entry p h (int k) w =
        Some (if k < length es then es ! k else (0, 0))) \<and>
     sorted_wrt (\<lambda>a b. fst a < fst b) es \<and> (\<forall>e \<in> set es. fst e \<noteq> 0)"

text \<open>The block of the last entry whose timestamp is at most \<open>t\<close>; 0 when there is none.\<close>

definition last_block_le :: "u32 \<Rightarrow> (u32 \<times> u32) list \<Rightarrow> u32" where
  "last_block_le t es =
     (case rev (takeWhile (\<lambda>e. fst e \<le> t) es) of [] \<Rightarrow> 0 | e # _ \<Rightarrow> snd e)"

lemma last_block_le_at:
  assumes "sorted_wrt (\<lambda>a b. fst a < fst b) es" "n \<le> length es"
    and "\<forall>k < n. fst (es ! k) \<le> t" "n < length es \<Longrightarrow> t < fst (es ! n)"
  shows "last_block_le t es = (if n = 0 then 0 else snd (es ! (n - 1)))"
proof -
  have "takeWhile (\<lambda>e. fst e \<le> t) es = take n es"
    by (rule takeWhile_eq_take_P_nth) (use assms in \<open>auto simp: not_le\<close>)
  moreover have "rev (take n es) = es ! (n - 1) # rev (take (n - 1) es)" if "n \<noteq> 0"
    using that assms(2) by (cases n) (simp_all add: take_Suc_conv_app_nth)
  ultimately show ?thesis by (simp add: last_block_le_def)
qed

text \<open>
  The loop invariant: everything left of \<open>left\<close> is earlier than the timestamp and the last
  of it is the candidate, everything right of \<open>right\<close> is unused or later.
\<close>

definition search_inv :: "u32 \<Rightarrow> (u32 \<times> u32) list \<Rightarrow> nat \<Rightarrow> int \<Rightarrow> int \<Rightarrow> u32 \<Rightarrow> bool" where
  "search_inv t es n left right best \<longleftrightarrow>
     0 \<le> left \<and> left \<le> right + 1 \<and> right < int n \<and>
     left \<le> int (length es) \<and> (\<forall>k < nat left. fst (es ! k) < t) \<and>
     (\<forall>k. right < int k \<and> k < length es \<longrightarrow> t < fst (es ! k)) \<and>
     best = (if left = 0 then 0 else snd (es ! nat (left - 1)))"

text \<open>One probe of the loop, at entry \<open>k\<close>.\<close>

lemma index_loop_probe:
  assumes "index_holds p h w es" "0 \<le> left" "left \<le> right" "(left + right) div 2 = int k" "k < unat (index_entries h)"
  shows "index_loop p h t w left right best =
      (case (if k < length es then es ! k else (0, 0)) of (ts, blk) \<Rightarrow>
         if ts = 0 then index_loop p h t w left (int k - 1) best
         else if ts = t then blk
         else if ts < t then index_loop p h t w (int k + 1) right blk
         else index_loop p h t w left (int k - 1) best)"
proof -
  have "read_index_entry p h (int k) w = Some (if k < length es then es ! k else (0, 0))"
    using assms(1,5) by (simp add: index_holds_def)
  then show ?thesis using assms(2,3) by (subst index_loop.simps) (simp add: assms(4) Let_def)
qed

text \<open>What a probe says about the entries on its two sides.\<close>

lemma index_sides:
  assumes "index_holds p h w es" "k < length es"
  shows "fst (es ! k) < t \<Longrightarrow> j < Suc k \<Longrightarrow> fst (es ! j) < t"
    and "t < fst (es ! k) \<Longrightarrow> k \<le> j \<Longrightarrow> j < length es \<Longrightarrow> t < fst (es ! j)"
    and "fst (es ! k) = t \<Longrightarrow> last_block_le t es = snd (es ! k)"
    and "fst (es ! k) \<noteq> 0"
proof -
  have sorted: "sorted_wrt (\<lambda>a b. fst a < fst b) es" using assms(1) by (simp add: index_holds_def)
  then have mono: "fst (es ! i) < fst (es ! j)" if "i < j" "j < length es" for i j
    using that by (simp add: sorted_wrt_iff_nth_less)
  show "fst (es ! j) < t" if "fst (es ! k) < t" "j < Suc k"
    using that mono [of j k] assms(2) by (cases "j = k") auto
  show "t < fst (es ! j)" if "t < fst (es ! k)" "k \<le> j" "j < length es"
    using that mono [of k j] by (cases "j = k") auto
  show "fst (es ! k) \<noteq> 0" using assms by (simp add: index_holds_def)
  assume t: "fst (es ! k) = t"
  have "fst (es ! j) \<le> t" if "j < Suc k" for j
    using that mono [of j k] t assms(2) by (cases "j = k") auto
  then show "last_block_le t es = snd (es ! k)"
    using t assms(2) mono [of k "Suc k"] last_block_le_at [OF sorted, of "Suc k" t] by auto
qed

lemma index_loop_correct:
  assumes "index_holds p h w es" "n = unat (index_entries h)"
  shows "search_inv t es n left right best \<Longrightarrow>
    index_loop p h t w left right best = last_block_le t es"
proof (induction "nat (right + 1 - left)" arbitrary: left right best rule: less_induct)
  case less
  note inv = less.prems [unfolded search_inv_def]
  show ?case
  proof (cases "left \<le> right")
    case False
    have "sorted_wrt (\<lambda>a b. fst a < fst b) es" using assms(1) by (simp add: index_holds_def)
    then have "last_block_le t es = (if nat left = 0 then 0 else snd (es ! (nat left - 1)))"
      using inv False by (intro last_block_le_at) (auto intro: less_imp_le)
    with inv False show ?thesis by (simp add: index_loop.simps nat_diff_distrib)
  next
    case True
    define k where "k = nat ((left + right) div 2)"
    have mid: "(left + right) div 2 = int k" and k: "left \<le> int k" "int k \<le> right" "k < n"
      using inv True by (auto simp: k_def)
    note step = index_loop_probe [OF assms(1) inv [THEN conjunct1] True mid k(3) [unfolded assms(2)], of t best]
    have go_left: "index_loop p h t w left (int k - 1) best = last_block_le t es"
      if "\<forall>j. k \<le> j \<and> j < length es \<longrightarrow> t < fst (es ! j)"
    proof (rule less.hyps)
      show "search_inv t es n left (int k - 1) best"
        unfolding search_inv_def using inv that k by auto
    qed (use k in auto)
    note side = index_sides [OF assms(1), of k]
    consider (later) "k < length es \<longrightarrow> t < fst (es ! k)" | (exact) "k < length es" "fst (es ! k) = t"
      | (before) "k < length es" "fst (es ! k) < t"
      by fastforce
    then show ?thesis
    proof cases
      case later
      then have "\<forall>j. k \<le> j \<and> j < length es \<longrightarrow> t < fst (es ! j)" using side(2) by auto
      from go_left [OF this] later step show ?thesis by (cases "es ! k") auto
    next
      case exact
      with step side(3,4) show ?thesis by (simp split: prod.splits)
    next
      case before
      then have "search_inv t es n (int k + 1) right (snd (es ! k))"
        unfolding search_inv_def using inv k side(1) by (auto simp: nat_add_distrib)
      then have "index_loop p h t w (int k + 1) right (snd (es ! k)) = last_block_le t es"
        by (intro less.hyps) (use k in auto)
      with before step side(4) show ?thesis by (auto split: prod.splits)
    qed
  qed
qed

text \<open>
  C33: On an index whose used entries ascend in time, the binary search answers every timestamp
  between the oldest and the newest record with the block of the last entry that is not
  later than it (block 0 when every entry is later), the same as a scan of the entries.
\<close>

theorem find_block_correct:
  assumes "index_holds p h w es" "0 < index_entries h" "index_entries h \<le> 0x100000"
    and "records_per_block h \<noteq> 0" "oldest_timestamp h \<le> t" "t \<le> newest_timestamp h"
  shows "tsdb_find_block_for_timestamp (Some p) (Some h) t w = (ESP_OK, Some (last_block_le t es))"
proof -
  have "unat (index_entries h) \<le> 0x100000" "0 < unat (index_entries h)"
    using assms(2,3) by (simp_all add: word_le_nat_alt unat_gt_0)
  then have "uint (index_entries h - 1) = int (unat (index_entries h)) - 1"
    by (metis One_nat_def Suc_leI int_ops(2) of_nat_diff uint_nat unat_1 unat_sub word_le_nat_alt)
  moreover have "sint x = uint x" if "uint x < 2 ^ 31" for x :: u32
  proof -
    have "signed_take_bit 31 (uint x) = uint x"
      using that by (intro signed_take_bit_int_eq_self) (simp_all add: order_trans [OF _ uint_ge_0])
    then show ?thesis by (simp add: sint_uint)
  qed
  ultimately have "sint (index_entries h - 1) = int (unat (index_entries h)) - 1"
    using assms(3) by (simp add: word_le_def)
  then have "search_inv t es (unat (index_entries h)) 0 (sint (index_entries h - 1)) 0"
    using assms(1) \<open>0 < unat (index_entries h)\<close>
    unfolding search_inv_def index_holds_def by (auto simp del: of_nat_unat)
  from index_loop_correct [OF assms(1) refl this] show ?thesis
    using assms(2,4-6) by (auto simp: tsdb_find_block_for_timestamp_def)
qed

theorem find_block_correct_witness:
  "tsdb_find_block_for_timestamp (Some ''/i'')
     (Some (zero_header\<lparr>records_per_block := 4, index_entries := 3, index_stride := 8,
        oldest_timestamp := 10, newest_timestamp := 30\<rparr>)) 25
     \<lparr> fs = Map.empty(''/i'' \<mapsto> le32 10 @ le32 0 @ le32 20 @ le32 2 @ le32 0 @ le32 0), dirs = (\<lambda>_. True),
        read_fault = no_faults, io_script = [], heap_script = [], lock_script = [], free_script = [], spiram_free = 0 \<rparr> =
     (ESP_OK, Some 2)"
proof -
  let ?h = "zero_header\<lparr>records_per_block := 4, index_entries := 3, index_stride := 8,
        oldest_timestamp := 10, newest_timestamp := 30\<rparr>"
  let ?w = "\<lparr> fs = Map.empty(''/i'' \<mapsto> le32 10 @ le32 0 @ le32 20 @ le32 2 @ le32 0 @ le32 0), dirs = (\<lambda>_. True),
        read_fault = no_faults, io_script = [], heap_script = [], lock_script = [], free_script = [], spiram_free = 0 \<rparr>"
  have h: "index_offset ?h = 0" "index_entries ?h = 3" by (simp_all add: zero_header_def)
  have e: "read_index_entry ''/i'' ?h 0 ?w = Some (10, 0)" "read_index_entry ''/i'' ?h 1 ?w = Some (20, 2)"
    "read_index_entry ''/i'' ?h 2 ?w = Some (0, 0)"
    by (simp_all add: read_index_entry_def h fread_at_def content_def le32_def chunk_def ld32_def del: of_le32.simps)
      (simp_all add: le32_def [symmetric])
  have "k = 0 \<or> k = 1 \<or> k = 2" if "k < 3" for k :: nat using that by auto
  then have "index_holds ''/i'' ?h ?w [(10, 0), (20, 2)]"
    using e unfolding index_holds_def h(2) by (fastforce simp: less_Suc_eq)
  from find_block_correct [OF this, of 25] show ?thesis
    by (simp add: zero_header_def last_block_le_def)
qed

end
