(* ===== verification/Tsdb_Sidecar.thy ===== *)
theory Tsdb_Sidecar
  imports Tsdb_Handle
begin

text \<open>
  The sidecar header of \<open>src/tsdb_core.c\<close>: the CRC, the compact slots \<open><db>.d/h0\<close>,
  \<open><db>.d/h1\<close> written on every record (TSH2), the mirror slots \<open><db>.h0\<close>, \<open><db>.h1\<close> for
  older readers (TSH1), the choice of the authoritative slot on open, and folding the
  header (with a rebuilt sparse index) back into the file.

  The lemmas show that the CRC detects every corruption of a single byte, that a header
  stored by \<open>tsdb_sidecar_write\<close> is the one \<open>tsdb_sidecar_load\<close> returns, and that a torn
  slot write leaves the previous header readable.
\<close>

section \<open>CRC32\<close>

definition crc_bit :: "u32 \<Rightarrow> u32" where
  "crc_bit crc = drop_bit 1 crc XOR (0xEDB88320 AND (- (crc AND 1)))"

definition crc_byte :: "u32 \<Rightarrow> u8 \<Rightarrow> u32" where
  "crc_byte crc b = (crc_bit ^^ 8) (crc XOR ucast b)"

definition tsdb_crc32 :: "bytes \<Rightarrow> u32" where
  "tsdb_crc32 bs = NOT (foldl crc_byte 0xFFFFFFFF bs)"

section \<open>Slots\<close>

abbreviation (input) TSDB_SIDECAR_MAGIC :: u32 where "TSDB_SIDECAR_MAGIC \<equiv> 0x54534831"
abbreviation (input) TSDB_SIDECAR2_MAGIC :: u32 where "TSDB_SIDECAR2_MAGIC \<equiv> 0x54534832"
abbreviation (input) TSDB_SIDECAR_LEGACY_EVERY :: u32 where "TSDB_SIDECAR_LEGACY_EVERY \<equiv> 32"

definition slot_digit :: "u8 \<Rightarrow> string" where
  "slot_digit slot = (if slot AND 1 = 0 then ''0'' else ''1'')"

definition tsdb_legacy_path :: "path \<Rightarrow> u8 \<Rightarrow> path" where
  "tsdb_legacy_path fp slot = fp @ ''.h'' @ slot_digit slot"

definition tsdb_side_dir :: "path \<Rightarrow> path" where
  "tsdb_side_dir fp = fp @ ''.d''"

definition tsdb_side_path :: "path \<Rightarrow> u8 \<Rightarrow> path" where
  "tsdb_side_path fp slot = fp @ ''.d/h'' @ slot_digit slot"

text \<open>\<open>tsdb_sidecar_t\<close> (596 bytes) and \<open>tsdb_sidecar2_t\<close> (88 bytes) as bytes.\<close>

definition encode_sidecar :: "u32 \<Rightarrow> tsdb_header \<Rightarrow> bytes" where
  "encode_sidecar seq h =
     le32 TSDB_SIDECAR_MAGIC @ le32 seq @ le32 (tsdb_crc32 (encode_header h)) @ encode_header h"

definition encode_sidecar2 :: "u32 \<Rightarrow> u32 \<Rightarrow> tsdb_header \<Rightarrow> bytes" where
  "encode_sidecar2 seq lseq h =
     (let body = le32 lseq @ header_pre h @ header_post h
      in le32 TSDB_SIDECAR2_MAGIC @ le32 seq @ le32 (tsdb_crc32 body) @ body)"

text \<open>\<open>fopen(path, "wb")\<close>, one \<open>fwrite\<close>, \<open>fclose\<close>.\<close>

definition tsdb_write_small_file :: "path \<Rightarrow> bytes \<Rightarrow> world \<Rightarrow> bool \<times> world" where
  "tsdb_write_small_file p d w =
     (case fopen_trunc w p of
        (False, w1) \<Rightarrow> (False, w1)
      | (True, w1) \<Rightarrow>
          (case fwrite_at w1 p 0 d of (e, w2) \<Rightarrow>
             (case io_checked w2 of (closed, w3) \<Rightarrow> (e = None \<and> closed, w3))))"

section \<open>Writing the sidecar\<close>

definition tsdb_sidecar_write :: "tsdb \<Rightarrow> world \<Rightarrow> esp_err \<times> tsdb \<times> world" where
  "tsdb_sidecar_write db w =
     (let seq = sidecar_seq db + 1;
          db = db\<lparr>sidecar_seq := seq\<rparr>;
          w1 = (if side_dir_ready db then w else mkdir_path w (tsdb_side_dir (filepath db)));
          db = db\<lparr>side_dir_ready := True\<rparr>;
          s2 = encode_sidecar2 seq (legacy_seq db) (header db);
          db = db\<lparr>sidecar_slot := sidecar_slot db XOR 1\<rparr>
      in case tsdb_write_small_file (tsdb_side_path (filepath db) (sidecar_slot db)) s2 w1 of
           (ok, w2) \<Rightarrow>
             if \<not> ok \<or> \<not> legacy_mirrored db \<or> seq - legacy_seq db \<ge> TSDB_SIDECAR_LEGACY_EVERY
             then
               (let s1 = encode_sidecar seq (header db);
                    db = db\<lparr>legacy_slot := legacy_slot db XOR 1\<rparr>
                in case tsdb_write_small_file (tsdb_legacy_path (filepath db) (legacy_slot db)) s1 w2 of
                     (mirror_ok, w3) \<Rightarrow>
                       (if ok \<or> mirror_ok then ESP_OK else ESP_FAIL,
                        if mirror_ok then db\<lparr>legacy_seq := seq, legacy_mirrored := True\<rparr> else db,
                        w3))
             else (ESP_OK, db, w2))"

section \<open>Loading the sidecar\<close>

text \<open>One slot file: its sequence number and contents, if it is complete and its CRC matches.\<close>

definition parse_sidecar :: "bytes \<Rightarrow> (u32 \<times> tsdb_header) option" where
  "parse_sidecar bs =
     (if length bs < 596 \<or> ld32 bs 0 \<noteq> TSDB_SIDECAR_MAGIC then None
      else if tsdb_crc32 (chunk bs 12 TSDB_HDR_SIZE) \<noteq> ld32 bs 8 then None
      else Some (ld32 bs 4, decode_header (chunk bs 12 TSDB_HDR_SIZE)))"

definition parse_sidecar2 :: "bytes \<Rightarrow> (u32 \<times> u32 \<times> bytes \<times> bytes) option" where
  "parse_sidecar2 bs =
     (if length bs < 88 \<or> ld32 bs 0 \<noteq> TSDB_SIDECAR2_MAGIC then None
      else if tsdb_crc32 (chunk bs 12 76) \<noteq> ld32 bs 8 then None
      else Some (ld32 bs 4, ld32 bs 12, chunk bs 16 TSDB_HDR_PRE_LEN, chunk bs 74 TSDB_HDR_POST_LEN))"

text \<open>\<open>fopen(path, "rb")\<close>, \<open>fread\<close>, \<open>fclose\<close> of a slot.\<close>

definition read_slot :: "nat \<Rightarrow> (bytes \<Rightarrow> 'a option) \<Rightarrow> path \<Rightarrow> world \<Rightarrow> 'a option \<times> world" where
  "read_slot n parse p w =
     (case fopen_existing w p of (opened, w') \<Rightarrow>
        (if opened then Option.bind (fread_at w' p 0 n) parse else None, w'))"

text \<open>
  The loop over the two slots keeps the first valid one and replaces it by the second when
  that has the larger sequence number. The result carries the slot index.
\<close>

definition newer_slot :: "(u32 \<times> 'a) option \<Rightarrow> (u32 \<times> 'a) option \<Rightarrow> (u8 \<times> u32 \<times> 'a) option" where
  "newer_slot a b =
     (case (a, b) of
        (None, None) \<Rightarrow> None
      | (Some x, None) \<Rightarrow> Some (0, x)
      | (None, Some y) \<Rightarrow> Some (1, y)
      | (Some x, Some y) \<Rightarrow> if fst y > fst x then Some (1, y) else Some (0, x))"

definition tsdb_sidecar_load ::
  "tsdb \<Rightarrow> tsdb_header \<Rightarrow> world \<Rightarrow> esp_err \<times> tsdb_header option \<times> tsdb \<times> world" where
  "tsdb_sidecar_load db base w =
     (case read_slot 596 parse_sidecar (tsdb_legacy_path (filepath db) 0) w of (r0, w1) \<Rightarrow>
      case read_slot 596 parse_sidecar (tsdb_legacy_path (filepath db) 1) w1 of (r1, w2) \<Rightarrow>
      case read_slot 88 parse_sidecar2 (tsdb_side_path (filepath db) 0) w2 of (d0, w3) \<Rightarrow>
      case read_slot 88 parse_sidecar2 (tsdb_side_path (filepath db) 1) w3 of (d1, w4) \<Rightarrow>
        (let r = newer_slot r0 r1;
             d = newer_slot d0 d1;
             seq_r = (case r of None \<Rightarrow> 0 | Some (_, s, _) \<Rightarrow> s);
             seq_d = (case d of None \<Rightarrow> 0 | Some (_, s, _) \<Rightarrow> s);
             max_seq = (if seq_r > 0 then seq_r else 0);
             max_seq = (if seq_d > max_seq then seq_d else max_seq);
             db = db\<lparr>sidecar_seq := max_seq,
                     legacy_seq := seq_r,
                     legacy_slot := (case r of None \<Rightarrow> 0 | Some (s, _) \<Rightarrow> s),
                     sidecar_slot := (case d of None \<Rightarrow> 0 | Some (s, _) \<Rightarrow> s),
                     legacy_mirrored := False\<rparr>
         in case d of
              Some (_, _, lseq, pre, post) \<Rightarrow>
                (if (case r of Some _ \<Rightarrow> seq_r \<le> lseq | None \<Rightarrow> lseq = 0)
                 then (ESP_OK, Some (decode_parts pre (param_names base) post), db, w4)
                 else (case r of
                         Some (_, _, h) \<Rightarrow> (ESP_OK, Some h, db, w4)
                       | None \<Rightarrow> (ESP_ERR_NOT_FOUND, None, db, w4)))
            | None \<Rightarrow>
                (case r of
                   Some (_, _, h) \<Rightarrow> (ESP_OK, Some h, db, w4)
                 | None \<Rightarrow> (ESP_ERR_NOT_FOUND, None, db, w4))))"

definition tsdb_sidecar_remove :: "path \<Rightarrow> world \<Rightarrow> world" where
  "tsdb_sidecar_remove fp w =
     (let w1 = snd (unlink_file w (tsdb_side_path fp 0));
          w2 = snd (unlink_file w1 (tsdb_side_path fp 1));
          w3 = rmdir_path w2 (tsdb_side_dir fp) [tsdb_side_path fp 0, tsdb_side_path fp 1];
          w4 = snd (unlink_file w3 (tsdb_legacy_path fp 0))
      in snd (unlink_file w4 (tsdb_legacy_path fp 1)))"

section \<open>Folding the header back into the file\<close>

abbreviation (input) TSDB_FOLD_MAX_BYTES :: u32 where "TSDB_FOLD_MAX_BYTES \<equiv> 16384"

text \<open>Index entries \<open>0..k\<close> rebuilt into \<open>buf\<close> from the timestamps stored at the index slots.\<close>

fun tsdb_rebuild_index :: "tsdb_header \<Rightarrow> path \<Rightarrow> world \<Rightarrow> bytes \<Rightarrow> nat \<Rightarrow> bytes" where
  "tsdb_rebuild_index h p w buf 0 = buf"
| "tsdb_rebuild_index h p w buf (Suc k) =
     (let buf = tsdb_rebuild_index h p w buf k;
          slot = of_nat k * index_stride h;
          block = slot div ucast (records_per_block h);
          r = slot mod ucast (records_per_block h)
      in case fread_at w p (unat (tsdb_calc_block_offset h block + 8 + r * 4)) 4 of
           None \<Rightarrow> buf
         | Some ts \<Rightarrow> overlay buf (unat (index_offset h) + k * 8) (ts @ le32 block))"

text \<open>Number of index entries that are rebuilt, and the length of the single write.\<close>

definition fold_entries :: "tsdb \<Rightarrow> u32" where
  "fold_entries db =
     (let h = header db;
          written = (if max_records h > 0 \<and> total_records h > max_records h
                     then max_records h else total_records h)
      in if index_stale db \<and> index_stride h > 0 then
           (let entries = (written + index_stride h - 1) div index_stride h
            in if entries > index_entries h then index_entries h else entries)
         else 0)"

definition fold_len :: "tsdb \<Rightarrow> u32" where
  "fold_len db =
     (if fold_entries db \<noteq> 0
      then index_offset (header db) + fold_entries db * INDEX_ENTRY_SIZE else 0)"

text \<open>
  The temporary buffer: the first \<open>len\<close> bytes of the file (zeros beyond its end, or when they cannot be read), the
  rebuilt index, then \<open>memcpy(buf, h, sizeof(*h))\<close>. Only \<open>len\<close> bytes of it are written.
\<close>

definition fold_buffer :: "tsdb \<Rightarrow> path \<Rightarrow> world \<Rightarrow> bytes" where
  "fold_buffer db p w =
     (let len = unat (fold_len db);
          got = fread_upto w p 0 len;
          buf = got @ replicate (len - length got) 0;
          buf = tsdb_rebuild_index (header db) p w buf (unat (fold_entries db))
      in take len (overlay buf 0 (encode_header (header db))))"

definition tsdb_fold_header :: "tsdb \<Rightarrow> world \<Rightarrow> esp_err \<times> tsdb \<times> world" where
  "tsdb_fold_header db w =
     (case db_file db of
        None \<Rightarrow> (ESP_ERR_INVALID_ARG, db, w)
      | Some p \<Rightarrow>
          (case (if fold_len db > 0 \<and> fold_len db \<le> TSDB_FOLD_MAX_BYTES then malloc_ok w else (False, w)) of
             (have_buf, w1) \<Rightarrow>
          case (if have_buf then fwrite_checked w1 p 0 (fold_buffer db p w1)
                else fwrite_checked w1 p 0 (encode_header (header db))) of
             (e, flushed, w3) \<Rightarrow>
          case (if flushed then io_checked w3 else (False, w3)) of
             (synced, w4) \<Rightarrow>
               if e = None \<and> flushed \<and> synced then
                 (ESP_OK,
                  db\<lparr>in_file_header_stale := False, index_stale := False, side_dir_ready := False,
                     legacy_mirrored := False, legacy_seq := 0\<rparr>,
                  tsdb_sidecar_remove (filepath db) w4)
               else (ESP_FAIL, db, w4)))"

section \<open>Frames\<close>

text \<open>The slot files of a database.\<close>

definition side_files :: "path \<Rightarrow> path set" where
  "side_files fp = {tsdb_side_path fp 0, tsdb_side_path fp 1, tsdb_legacy_path fp 0, tsdb_legacy_path fp 1}"

lemma slot_paths:
  "tsdb_side_path fp s = tsdb_side_path fp 0 \<or> tsdb_side_path fp s = tsdb_side_path fp 1"
  "tsdb_legacy_path fp s = tsdb_legacy_path fp 0 \<or> tsdb_legacy_path fp s = tsdb_legacy_path fp 1"
  by (auto simp: tsdb_side_path_def tsdb_legacy_path_def slot_digit_def)

lemma side_path_in [simp]: "tsdb_side_path fp s \<in> side_files fp"
  using slot_paths(1) [of fp s] by (auto simp: side_files_def)

lemma legacy_path_in [simp]: "tsdb_legacy_path fp s \<in> side_files fp"
  using slot_paths(2) [of fp s] by (auto simp: side_files_def)

lemma db_file_not_side [simp]: "fp \<notin> side_files fp"
  by (simp add: side_files_def tsdb_side_path_def tsdb_legacy_path_def)

lemma next_io_fs: "next_io w = (r, w') \<Longrightarrow> fs w' = fs w \<and> dirs w' = dirs w"
  by (auto simp: next_io_def split: list.splits)

lemma write_small_file_other:
  "tsdb_write_small_file p d w = (r, w') \<Longrightarrow> q \<noteq> p \<Longrightarrow> fs w' q = fs w q"
  by (auto simp: tsdb_write_small_file_def fopen_trunc_def fwrite_at_def io_checked_def put_file_def
      dest!: next_io_fs split: prod.splits if_splits io_outcome.splits bool.splits)

lemma mkdir_path_fs [simp]: "fs (mkdir_path w p) = fs w"
  by (auto simp: mkdir_path_def dest: next_io_fs split: prod.splits)

text \<open>Writing the sidecar touches the slot files and the sidecar bookkeeping, nothing else.\<close>

lemma sidecar_write_db:
  assumes "tsdb_sidecar_write db w = (r, db', w')"
  obtains a b c d e g where
    "db' = db\<lparr>sidecar_seq := a, sidecar_slot := b, legacy_slot := c, legacy_seq := d,
             legacy_mirrored := e, side_dir_ready := g\<rparr>"
proof -
  have "db' = db\<lparr>sidecar_seq := sidecar_seq db', sidecar_slot := sidecar_slot db',
      legacy_slot := legacy_slot db', legacy_seq := legacy_seq db',
      legacy_mirrored := legacy_mirrored db', side_dir_ready := side_dir_ready db'\<rparr>"
    using assms by (auto simp: tsdb_sidecar_write_def Let_def split: prod.splits if_splits)
  then show ?thesis by (rule that)
qed

lemma sidecar_write_fs:
  assumes "tsdb_sidecar_write db w = (r, db', w')" "q \<notin> side_files (filepath db)"
  shows "fs w' q = fs w q"
proof -
  note other = write_small_file_other [of "tsdb_side_path (filepath db) s" for s]
    write_small_file_other [of "tsdb_legacy_path (filepath db) s" for s]
  have "q \<noteq> tsdb_side_path (filepath db) s" "q \<noteq> tsdb_legacy_path (filepath db) s" for s
    using assms(2) by auto
  with assms(1) show ?thesis
    by (auto simp: tsdb_sidecar_write_def Let_def other split: prod.splits if_splits)
qed

lemma quiet_mkdir_path [quiet_simps]: "quiet w \<Longrightarrow> quiet (mkdir_path w p)"
  by (simp add: mkdir_path_def quiet_next) (simp add: quiet_def)

lemma quiet_write_small_file [quiet_simps]:
  assumes "quiet w"
  shows "tsdb_write_small_file p d w =
    (if dirs w (parent_dir p) then (True, put_file w p d) else (False, w))"
proof -
  have "put_file (put_file w p []) p (overlay [] 0 d) = put_file w p d"
    by (simp add: put_file_def overlay_def)
  with assms show ?thesis
    by (simp add: tsdb_write_small_file_def quiet_fopen quiet_fwrite_at quiet_put_file quiet_io_checked)
qed

lemma quiet_sidecar_write:
  assumes "quiet w"
  shows "quiet (snd (snd (tsdb_sidecar_write db w)))"
proof -
  have q: "quiet v \<Longrightarrow> quiet (snd (tsdb_write_small_file p d v))" for v p d
    by (simp add: quiet_write_small_file quiet_put_file)
  show ?thesis
    unfolding tsdb_sidecar_write_def Let_def case_prod_beta
    using assms by (simp add: q quiet_mkdir_path)
qed

lemma content_cong: "fs w' q = fs w q \<Longrightarrow> content w' q = content w q"
  by (simp add: content_def)

section \<open>The CRC detects every change of one byte\<close>

lemma xor_cancel: "a XOR c = b XOR c \<Longrightarrow> a = b" for a b c :: u32
proof -
  assume "a XOR c = b XOR c"
  then have "(a XOR c) XOR c = (b XOR c) XOR c" by (rule arg_cong)
  then show "a = b" by (simp add: xor.assoc)
qed

lemma crc_bit_31: "bit (crc_bit c) 31 \<longleftrightarrow> bit c 0"
proof -
  have poly: "bit (0xEDB88320 :: u32) 31" by simp
  have top: "\<not> bit c 32" using bit_imp_le_length [of c 32] by auto
  have "bit (- (c AND 1)) 31 \<longleftrightarrow> bit c 0"
    by (cases "bit c 0") (simp_all add: and_one_eq bit_0 odd_iff_mod_2_eq_one even_iff_mod_2_eq_zero)
  with poly top show ?thesis
    by (simp add: crc_bit_def bit_xor_iff bit_and_iff bit_drop_bit_eq)
qed

lemma crc_bit_inj: "crc_bit c = crc_bit d \<Longrightarrow> c = d"
proof -
  assume eq: "crc_bit c = crc_bit d"
  then have b0: "bit c 0 = bit d 0" using crc_bit_31 by metis
  then have "c AND 1 = d AND 1"
    by (cases "bit c 0") (simp_all add: and_one_eq bit_0 odd_iff_mod_2_eq_one even_iff_mod_2_eq_zero)
  then have "drop_bit 1 c XOR (0xEDB88320 AND - (c AND 1)) = drop_bit 1 d XOR (0xEDB88320 AND - (c AND 1))"
    using eq by (simp add: crc_bit_def)
  then have "drop_bit 1 c = drop_bit 1 d"
    by (rule xor_cancel)
  then have "bit c (Suc n) = bit d (Suc n)" for n
    by (metis bit_drop_bit_eq comp_apply plus_1_eq_Suc)
  with b0 have "bit c n = bit d n" for n by (cases n) simp_all
  then show "c = d" by (intro bit_word_eqI) simp
qed

lemma crc_bits_inj: "(crc_bit ^^ n) c = (crc_bit ^^ n) d \<Longrightarrow> c = d"
  by (induction n) (auto dest: crc_bit_inj)

lemma crc_byte_inj_state: "crc_byte c b = crc_byte d b \<Longrightarrow> c = d"
  unfolding crc_byte_def by (drule crc_bits_inj) (rule xor_cancel)

lemma crc_byte_inj_byte: "crc_byte c a = crc_byte c b \<Longrightarrow> a = b"
proof -
  assume "crc_byte c a = crc_byte c b"
  then have "c XOR ucast a = c XOR (ucast b :: u32)"
    unfolding crc_byte_def by (rule crc_bits_inj)
  then have "ucast a XOR c = ucast b XOR c" by (simp only: xor.commute)
  then have "(ucast a :: u32) = ucast b" by (rule xor_cancel)
  then have "unat a = unat b" by (metis unat_u8_u32)
  then show "a = b" by (rule unsigned_word_eqI)
qed

lemma crc_fold_inj: "foldl crc_byte c bs = foldl crc_byte d bs \<Longrightarrow> c = d"
  by (induction bs arbitrary: c d) (auto dest: crc_byte_inj_state)

lemma crc32_one_byte:
  assumes "tsdb_crc32 (xs @ a # ys) = tsdb_crc32 (xs @ b # ys)"
  shows "a = b"
proof -
  let ?c = "foldl crc_byte 0xFFFFFFFF xs"
  from assms have "foldl crc_byte (crc_byte ?c a) ys = foldl crc_byte (crc_byte ?c b) ys"
    by (simp add: tsdb_crc32_def)
  then show ?thesis by (intro crc_byte_inj_byte [of ?c]) (rule crc_fold_inj)
qed

section \<open>Slots as the loader sees them\<close>

lemma length_encode_sidecar [simp]:
  "header_wf h \<Longrightarrow> length (encode_sidecar seq h) = 596"
  "header_wf h \<Longrightarrow> length (encode_sidecar2 seq lseq h) = 88"
  by (simp_all add: encode_sidecar_def encode_sidecar2_def Let_def length_encode_header)

lemma ld32_le32_at:
  "ld32 (le32 a @ xs) 0 = a"
  "ld32 (le32 a @ le32 b @ xs) 4 = b"
  "ld32 (le32 a @ le32 b @ le32 c @ xs) 8 = c"
  "ld32 (le32 a @ le32 b @ le32 c @ le32 d @ xs) 12 = d"
  by (simp_all add: ld32_append)

text \<open>A complete slot reads back what was written; a proper prefix of it is refused.\<close>

lemma parse_encode_sidecar:
  assumes "header_wf h"
  shows "parse_sidecar (encode_sidecar seq h) = Some (seq, h)"
proof -
  have "chunk (encode_sidecar seq h) 12 584 = encode_header h"
    using assms by (simp add: encode_sidecar_def chunk_append_right length_encode_header)
  with assms show ?thesis
    by (simp add: parse_sidecar_def) (simp add: encode_sidecar_def ld32_le32_at decode_encode_header)
qed

lemma parse_encode_sidecar2:
  assumes "header_wf h"
  shows "parse_sidecar2 (encode_sidecar2 seq lseq h) = Some (seq, lseq, header_pre h, header_post h)"
proof -
  let ?e = "encode_sidecar2 seq lseq h"
  have "chunk ?e 12 76 = le32 lseq @ header_pre h @ header_post h"
    using assms by (simp add: encode_sidecar2_def Let_def chunk_append_right)
  moreover have "chunk ?e 16 58 = header_pre h" "chunk ?e 74 14 = header_post h"
    using assms by (simp_all add: encode_sidecar2_def Let_def chunk_append_right chunk_append_left)
  ultimately show ?thesis
    using assms by (simp add: parse_sidecar2_def) (simp add: encode_sidecar2_def Let_def ld32_le32_at)
qed

lemma parse_short:
  "length bs < 596 \<Longrightarrow> parse_sidecar bs = None"
  "length bs < 88 \<Longrightarrow> parse_sidecar2 bs = None"
  by (simp_all add: parse_sidecar_def parse_sidecar2_def)

definition legacy_at :: "world \<Rightarrow> path \<Rightarrow> u8 \<Rightarrow> (u32 \<times> tsdb_header) option" where
  "legacy_at w fp i = Option.bind (fs w (tsdb_legacy_path fp i)) parse_sidecar"

definition compact_at :: "world \<Rightarrow> path \<Rightarrow> u8 \<Rightarrow> (u32 \<times> u32 \<times> bytes \<times> bytes) option" where
  "compact_at w fp i = Option.bind (fs w (tsdb_side_path fp i)) parse_sidecar2"

text \<open>
  What the loader decides, as a function of the newest slot of each kind: the compact one,
  unless a mirror is newer than the last mirror the compact slot knew of or the mirror it
  knew of is gone.
\<close>

definition choose_header ::
  "(u8 \<times> u32 \<times> tsdb_header) option \<Rightarrow> (u8 \<times> u32 \<times> u32 \<times> bytes \<times> bytes) option \<Rightarrow> bytes
    \<Rightarrow> tsdb_header option" where
  "choose_header r d names =
     (case d of
        Some (_, _, lseq, pre, post) \<Rightarrow>
          if (case r of Some (_, s, _) \<Rightarrow> s \<le> lseq | None \<Rightarrow> lseq = 0)
          then Some (decode_parts pre names post) else map_option (snd \<circ> snd) r
      | None \<Rightarrow> map_option (snd \<circ> snd) r)"

definition newest_legacy :: "world \<Rightarrow> path \<Rightarrow> (u8 \<times> u32 \<times> tsdb_header) option" where
  "newest_legacy w fp = newer_slot (legacy_at w fp 0) (legacy_at w fp 1)"

definition newest_compact :: "world \<Rightarrow> path \<Rightarrow> (u8 \<times> u32 \<times> u32 \<times> bytes \<times> bytes) option" where
  "newest_compact w fp = newer_slot (compact_at w fp 0) (compact_at w fp 1)"

definition stored_header :: "world \<Rightarrow> path \<Rightarrow> bytes \<Rightarrow> tsdb_header option" where
  "stored_header w fp names = choose_header (newest_legacy w fp) (newest_compact w fp) names"

text \<open>The parsers look at the bytes that are read, and refuse a shorter file.\<close>

lemma parse_chunk:
  "596 \<le> length bs \<Longrightarrow> parse_sidecar (chunk bs 0 596) = parse_sidecar bs"
  "88 \<le> length bs \<Longrightarrow> parse_sidecar2 (chunk bs 0 88) = parse_sidecar2 bs"
  by (simp_all add: parse_sidecar_def parse_sidecar2_def length_chunk ld32_chunk chunk_chunk)

lemma quiet_read_slot:
  assumes "quiet w"
  shows "read_slot 596 parse_sidecar p w = (Option.bind (fs w p) parse_sidecar, w)"
    and "read_slot 88 parse_sidecar2 p w = (Option.bind (fs w p) parse_sidecar2, w)"
  using assms
  by (cases "fs w p"; simp add: read_slot_def quiet_fopen fread_at_sound content_def parse_chunk parse_short)+

text \<open>With no read error the loader returns \<open>stored_header\<close> and positions the bookkeeping.\<close>

lemma quiet_sidecar_load:
  assumes "quiet w"
  shows "tsdb_sidecar_load db base w =
    (if stored_header w (filepath db) (param_names base) = None then ESP_ERR_NOT_FOUND else ESP_OK,
     stored_header w (filepath db) (param_names base),
     (let r = newest_legacy w (filepath db);
          d = newest_compact w (filepath db);
          seq_r = (case r of None \<Rightarrow> 0 | Some (_, s, _) \<Rightarrow> s);
          seq_d = (case d of None \<Rightarrow> 0 | Some (_, s, _) \<Rightarrow> s)
      in db\<lparr>sidecar_seq := max seq_r seq_d, legacy_seq := seq_r,
           legacy_slot := (case r of None \<Rightarrow> 0 | Some (s, _) \<Rightarrow> s),
           sidecar_slot := (case d of None \<Rightarrow> 0 | Some (s, _) \<Rightarrow> s),
           legacy_mirrored := False\<rparr>),
     w)"
proof -
  have m: "(if b > (if a > 0 then a else 0) then b else (if a > 0 then a else 0)) = max a b" for a b :: u32
    by (auto simp: max_def word_gt_0 not_less)
  note slots = quiet_read_slot [OF assms] newest_legacy_def [symmetric] newest_compact_def [symmetric]
    legacy_at_def [symmetric] compact_at_def [symmetric]
  show ?thesis
    unfolding tsdb_sidecar_load_def slots prod.case stored_header_def Let_def m
    by (cases "newest_legacy w (filepath db)"; cases "newest_compact w (filepath db)")
      (simp_all add: choose_header_def split: prod.split)
qed

lemma crc32_update:
  assumes "i < length bs" "b \<noteq> bs ! i"
  shows "tsdb_crc32 (bs[i := b]) \<noteq> tsdb_crc32 bs"
proof
  assume "tsdb_crc32 (bs[i := b]) = tsdb_crc32 bs"
  then have "tsdb_crc32 (take i bs @ b # drop (Suc i) bs) = tsdb_crc32 (take i bs @ bs ! i # drop (Suc i) bs)"
    using assms(1) by (metis id_take_nth_drop upd_conv_take_nth_drop)
  with assms(2) show False by (auto dest: crc32_one_byte)
qed

lemma chunk_update:
  "off \<le> i \<Longrightarrow> chunk (f[i := b]) off n = (chunk f off n)[i - off := b]"
  "i < off \<Longrightarrow> chunk (f[i := b]) off n = chunk f off n"
  "off + n \<le> i \<Longrightarrow> chunk (f[i := b]) off n = chunk f off n"
  by (simp_all add: chunk_def drop_update_swap take_update_swap list_update_beyond)

lemma ld32_update:
  assumes "off \<le> i" "i < off + 4" "off + 4 \<le> length f" "b \<noteq> f ! i"
  shows "ld32 (f[i := b]) off \<noteq> ld32 f off"
proof
  assume "ld32 (f[i := b]) off = ld32 f off"
  then have "chunk (f[i := b]) off 4 = chunk f off 4"
    using assms(3) by (intro of_le32_inj) (simp_all add: ld32_def length_chunk)
  then have "chunk (f[i := b]) off 4 ! (i - off) = chunk f off 4 ! (i - off)" by simp
  with assms show False by (simp add: nth_chunk)
qed

text \<open>
  C32: the slots are protected against corruption: whichever single byte of a slot file changes
  in its magic number, its CRC or the payload that the CRC covers, the loader refuses the slot,
  in the compact format and in the mirror format. The four bytes of the sequence number are
  not covered.
\<close>

theorem corrupt_slot_refused:
  assumes "header_wf h"
  shows "(i < 596 \<and> i \<notin> {4..7} \<and> b \<noteq> encode_sidecar seq h ! i \<longrightarrow>
      parse_sidecar ((encode_sidecar seq h)[i := b]) = None) \<and>
    (i < 88 \<and> i \<notin> {4..7} \<and> b \<noteq> encode_sidecar2 seq lseq h ! i \<longrightarrow>
      parse_sidecar2 ((encode_sidecar2 seq lseq h)[i := b]) = None)"
proof -
  have ld: "ld32 (f[i := b]) 8 = ld32 f 8" if "12 \<le> i" for f
    using that by (simp add: ld32_def chunk_update(3))
  {
    let ?e = "encode_sidecar seq h"
    assume i: "12 \<le> i" "i < 596" "b \<noteq> ?e ! i"
    have c: "chunk ?e 12 584 = encode_header h"
      using assms by (simp add: encode_sidecar_def chunk_append_right length_encode_header)
    have n: "encode_header h ! (i - 12) = ?e ! i"
      using i assms by (subst c [symmetric]) (simp add: nth_chunk)
    have "tsdb_crc32 ((encode_header h)[i - 12 := b]) \<noteq> tsdb_crc32 (encode_header h)"
      using i n length_encode_header [OF assms] by (intro crc32_update) auto
    moreover have "ld32 ?e 8 = tsdb_crc32 (encode_header h)"
      by (simp add: encode_sidecar_def ld32_le32_at)
    ultimately have "parse_sidecar (?e[i := b]) = None"
      using i c by (simp add: parse_sidecar_def ld chunk_update(1))
  }
  moreover {
    let ?e = "encode_sidecar2 seq lseq h" and ?p = "le32 lseq @ header_pre h @ header_post h"
    assume i: "12 \<le> i" "i < 88" "b \<noteq> ?e ! i"
    have c: "chunk ?e 12 76 = ?p"
      using assms by (simp add: encode_sidecar2_def Let_def chunk_append_right)
    have n: "?p ! (i - 12) = ?e ! i"
      using i assms by (subst c [symmetric]) (simp add: nth_chunk)
    have "tsdb_crc32 (?p[i - 12 := b]) \<noteq> tsdb_crc32 ?p"
      using i n assms by (intro crc32_update) auto
    moreover have "ld32 ?e 8 = tsdb_crc32 ?p"
      by (simp add: encode_sidecar2_def Let_def ld32_le32_at)
    ultimately have "parse_sidecar2 (?e[i := b]) = None"
      using i c by (simp add: parse_sidecar2_def ld chunk_update(1))
  }
  moreover {
    let ?e = "encode_sidecar seq h"
    assume i: "i < 4 \<or> 8 \<le> i \<and> i < 12" "b \<noteq> ?e ! i"
    have l: "length ?e = 596" "length (encode_header h) = 584" using assms by (simp_all add: length_encode_header)
    have "ld32 ?e 0 = TSDB_SIDECAR_MAGIC" "ld32 ?e 8 = tsdb_crc32 (chunk ?e 12 584)"
      using l by (simp_all add: encode_sidecar_def ld32_le32_at chunk_append_right)
    with i l have "parse_sidecar (?e[i := b]) = None"
      using ld32_update [of 0 i ?e b] ld32_update [of 8 i ?e b]
      by (auto simp: parse_sidecar_def chunk_update(2))
  }
  moreover {
    let ?e = "encode_sidecar2 seq lseq h"
    assume i: "i < 4 \<or> 8 \<le> i \<and> i < 12" "b \<noteq> ?e ! i"
    have l: "length ?e = 88" using assms by simp
    have "ld32 ?e 0 = TSDB_SIDECAR2_MAGIC" "ld32 ?e 8 = tsdb_crc32 (chunk ?e 12 76)"
      using assms by (simp_all add: encode_sidecar2_def Let_def ld32_le32_at chunk_append_right)
    with i l have "parse_sidecar2 (?e[i := b]) = None"
      using ld32_update [of 0 i ?e b] ld32_update [of 8 i ?e b]
      by (auto simp: parse_sidecar2_def chunk_update(2))
  }
  moreover have "i < 4 \<or> 8 \<le> i \<and> i < 12 \<or> 12 \<le> i \<or> i \<in> {4..7}" by auto
  ultimately show ?thesis by auto
qed

theorem corrupt_slot_refused_witness:
  "parse_sidecar ((encode_sidecar 7 zero_header)[100 := 1]) = None \<and>
   parse_sidecar2 ((encode_sidecar2 7 0 zero_header)[16 := 1]) = None"
  using corrupt_slot_refused [OF header_wf_zero, of 100 1 7 0]
    corrupt_slot_refused [OF header_wf_zero, of 16 1 7 0]
  by (simp add: encode_sidecar_def encode_sidecar2_def Let_def encode_header_def header_pre_def
      zero_header_def le32_def le16_def nth_append)

section \<open>A slot write, whatever fails\<close>

text \<open>
  The file is left as it was (not opened), holds a proper prefix (torn or lost), or is complete;
  success means complete, unless the data was lost after \<open>fwrite\<close> had accepted it.
\<close>

lemma write_small_file_outcome:
  assumes "tsdb_write_small_file p d w = (ok, w')" "d \<noteq> []"
  shows "(\<not> ok \<and> fs w' p = fs w p) \<or> (\<not> (ok \<and> sound w) \<and> (\<exists>k<length d. fs w' p = Some (take k d))) \<or>
    fs w' p = Some d"
proof -
  obtain opened w1 where 1: "fopen_trunc w p = (opened, w1)" by fastforce
  show ?thesis
  proof (cases opened)
    case False
    with assms 1 show ?thesis
      by (auto simp: tsdb_write_small_file_def fopen_trunc_def dest!: next_io_fs
          split: prod.splits if_splits)
  next
    case True
    obtain e w2 where 2: "fwrite_at w1 p 0 d = (e, w2)" by fastforce
    obtain c w3 where 3: "io_checked w2 = (c, w3)" by fastforce
    have emp: "content w1 p = []"
      using 1 True by (auto simp: fopen_trunc_def split: prod.splits if_splits)
    from 2 obtain j where j: "j \<le> length d" "content w2 p = overlay (content w1 p) 0 (take j d)"
      "e = None \<Longrightarrow> sound w1 \<Longrightarrow> j = length d" "fs w2 p \<noteq> None" by (rule fwrite_at_prefix) blast
    have "fs w3 p = fs w2 p" using 3 by (auto simp: io_checked_def dest: next_io_fs split: prod.splits)
    then have "fs w3 p = Some (take j d)" using j(2,4) emp by (auto simp: content_def overlay_def)
    moreover have "ok = (e = None \<and> c)" "w' = w3"
      using assms(1) 1 2 3 True by (simp_all add: tsdb_write_small_file_def)
    moreover have "sound w \<Longrightarrow> sound w1" by (rule sound_files(2) [OF 1])
    moreover have "j = length d \<or> j < length d" using j(1) by auto
    ultimately show ?thesis using j(3) by (cases "j = length d") auto
  qed
qed

lemma write_small_file_sound [sound_keeps]:
  "tsdb_write_small_file p d w = (ok, w') \<Longrightarrow> sound w \<Longrightarrow> sound w'"
  by (auto simp: tsdb_write_small_file_def dest: sound_keeps split: prod.splits bool.splits)

lemma sidecar_write_sound [sound_keeps]: "tsdb_sidecar_write db w = (r, db', w') \<Longrightarrow> sound w \<Longrightarrow> sound w'"
  by (auto simp: tsdb_sidecar_write_def Let_def sound_dir_ops dest!: write_small_file_sound split: prod.splits if_splits)

lemma slot_outcome:
  assumes "tsdb_write_small_file p d w = (ok, w')" "d \<noteq> []"
    and "\<And>k. k < length d \<Longrightarrow> parse (take k d) = None" "parse d = Some y"
  shows "Option.bind (fs w' p) parse \<in> {Option.bind (fs w p) parse, None, Some y}"
    and "ok \<Longrightarrow> sound w \<Longrightarrow> Option.bind (fs w' p) parse = Some y"
  using write_small_file_outcome [OF assms(1,2)] assms(3,4) by auto

lemma flip_slot: "s \<in> {0, 1} \<Longrightarrow> s XOR 1 = 1 - (s :: u8)"
  by auto

lemma slot_path_inj:
  assumes "s \<in> {0, 1}" "t \<in> {0, 1 :: u8}"
  shows "tsdb_side_path fp s = tsdb_side_path fp t \<longleftrightarrow> s = t"
    and "tsdb_legacy_path fp s = tsdb_legacy_path fp t \<longleftrightarrow> s = t"
    and "tsdb_side_path fp s \<noteq> tsdb_legacy_path fp t"
  using assms by (auto simp: tsdb_side_path_def tsdb_legacy_path_def slot_digit_def)

text \<open>
  Replacing the slot that is not the newest by its old value, by nothing or by a newer
  value: the newest slot is then the old one, or the new value.
\<close>

definition newest_is :: "u8 \<Rightarrow> u32 \<Rightarrow> (u8 \<times> u32 \<times> 'a) option \<Rightarrow> bool" where
  "newest_is s m n = (case n of None \<Rightarrow> True | Some (i, q, _) \<Rightarrow> i = s \<and> q \<le> m)"

lemma newer_update:
  assumes "s \<in> {0, 1}" "newest_is s m (newer_slot (f 0) (f 1))" "m < fst y"
    and "v \<in> {f (1 - s), None, Some y}" "g (1 - s) = v" "g s = f s"
  shows "newer_slot (g 0) (g 1) = (if v = Some y then Some (1 - s, y) else newer_slot (f 0) (f 1))"
proof -
  consider "s = 0" | "s = 1" using assms(1) by auto
  then show ?thesis
  proof cases
    case 1
    with assms show ?thesis
      by (cases "f 0"; cases "f 1"; cases y)
        (auto simp: newer_slot_def newest_is_def split: if_splits prod.splits)
  next
    case 2
    with assms show ?thesis
      by (cases "f 0"; cases "f 1"; cases y)
        (auto simp: newer_slot_def newest_is_def split: if_splits prod.splits)
  qed
qed

lemma compact_step:
  assumes "tsdb_write_small_file (tsdb_side_path fp (s XOR 1)) (encode_sidecar2 q l h) w = (ok, w')"
    and "header_wf h" "s \<in> {0, 1}" "newest_is s m (newest_compact w fp)" "m < q"
  shows "newest_compact w' fp \<in> {newest_compact w fp, Some (1 - s, q, l, header_pre h, header_post h)}"
    and "ok \<Longrightarrow> sound w \<Longrightarrow> newest_compact w' fp = Some (1 - s, q, l, header_pre h, header_post h)"
    and "newest_legacy w' fp = newest_legacy w fp"
proof -
  let ?d = "encode_sidecar2 q l h" and ?y = "(q, l, header_pre h, header_post h)"
  have t: "1 - s \<in> {0, 1}" "1 - s \<noteq> s" using assms(3) by auto
  note w = assms(1) [unfolded flip_slot [OF assms(3)]]
  have ne: "?d \<noteq> []" and short: "\<And>k. k < length ?d \<Longrightarrow> parse_sidecar2 (take k ?d) = None"
    using length_encode_sidecar(2) [OF assms(2), of q l] by (auto simp: parse_short simp del: length_encode_sidecar)
  note out = slot_outcome [OF w ne short parse_encode_sidecar2 [OF assms(2)], folded compact_at_def]
  have other: "fs w' p = fs w p" if "p \<noteq> tsdb_side_path fp (1 - s)" for p
    using write_small_file_other [OF w that] .
  have same: "compact_at w' fp s = compact_at w fp s"
    unfolding compact_at_def using other slot_path_inj(1) [OF assms(3) t(1)] t(2) by metis
  have rest: "legacy_at w' fp i = legacy_at w fp i" if "i \<in> {0, 1}" for i
    unfolding legacy_at_def using other slot_path_inj(3) [OF t(1) that] by metis
  have "newest_compact w' fp = (if compact_at w' fp (1 - s) = Some ?y then Some (1 - s, ?y) else newest_compact w fp)"
    unfolding newest_compact_def
    by (rule newer_update [OF assms(3) assms(4) [unfolded newest_compact_def]])
      (use assms(5) out(1) same in simp_all)
  then show "newest_compact w' fp \<in> {newest_compact w fp, Some (1 - s, ?y)}"
    and "ok \<Longrightarrow> sound w \<Longrightarrow> newest_compact w' fp = Some (1 - s, ?y)"
    using out(2) by auto
  show "newest_legacy w' fp = newest_legacy w fp"
    using rest by (simp add: newest_legacy_def)
qed

lemma legacy_step:
  assumes "tsdb_write_small_file (tsdb_legacy_path fp (s XOR 1)) (encode_sidecar q h) w = (ok, w')"
    and "header_wf h" "s \<in> {0, 1}" "newest_is s m (newest_legacy w fp)" "m < q"
  shows "newest_legacy w' fp \<in> {newest_legacy w fp, Some (1 - s, q, h)}"
    and "ok \<Longrightarrow> sound w \<Longrightarrow> newest_legacy w' fp = Some (1 - s, q, h)"
    and "newest_compact w' fp = newest_compact w fp"
proof -
  let ?d = "encode_sidecar q h"
  have t: "1 - s \<in> {0, 1}" "1 - s \<noteq> s" using assms(3) by auto
  note w = assms(1) [unfolded flip_slot [OF assms(3)]]
  have ne: "?d \<noteq> []" and short: "\<And>k. k < length ?d \<Longrightarrow> parse_sidecar (take k ?d) = None"
    using length_encode_sidecar(1) [OF assms(2), of q] by (auto simp: parse_short simp del: length_encode_sidecar)
  note out = slot_outcome [OF w ne short parse_encode_sidecar [OF assms(2)], folded legacy_at_def]
  have other: "fs w' p = fs w p" if "p \<noteq> tsdb_legacy_path fp (1 - s)" for p
    using write_small_file_other [OF w that] .
  have same: "legacy_at w' fp s = legacy_at w fp s"
    unfolding legacy_at_def using other slot_path_inj(2) [OF assms(3) t(1)] t(2) by metis
  have rest: "compact_at w' fp i = compact_at w fp i" if "i \<in> {0, 1}" for i
    unfolding compact_at_def using other slot_path_inj(3) [OF that t(1)] by metis
  have "newest_legacy w' fp = (if legacy_at w' fp (1 - s) = Some (q, h) then Some (1 - s, q, h) else newest_legacy w fp)"
    unfolding newest_legacy_def
    by (rule newer_update [OF assms(3) assms(4) [unfolded newest_legacy_def]])
      (use assms(5) out(1) same in simp_all)
  then show "newest_legacy w' fp \<in> {newest_legacy w fp, Some (1 - s, q, h)}"
    and "ok \<Longrightarrow> sound w \<Longrightarrow> newest_legacy w' fp = Some (1 - s, q, h)"
    using out(2) by auto
  show "newest_compact w' fp = newest_compact w fp"
    using rest by (simp add: newest_compact_def)
qed

section \<open>The sidecar protocol\<close>

text \<open>
  The bookkeeping points at the newest slot of each kind, the sequence numbers on disk do
  not exceed it, and the sequence does not wrap (one number per record).
\<close>

definition side_inv :: "tsdb \<Rightarrow> world \<Rightarrow> bool" where
  "side_inv db w \<longleftrightarrow>
     sidecar_slot db \<in> {0, 1} \<and> legacy_slot db \<in> {0, 1} \<and>
     newest_is (legacy_slot db) (legacy_seq db) (newest_legacy w (filepath db)) \<and>
     newest_is (sidecar_slot db) (sidecar_seq db) (newest_compact w (filepath db)) \<and>
     (newest_legacy w (filepath db) = None \<longrightarrow> legacy_seq db = 0) \<and>
     (case newest_compact w (filepath db) of None \<Rightarrow> True | Some (_, q, l, _) \<Rightarrow> l \<le> q) \<and>
     legacy_seq db \<le> sidecar_seq db \<and> sidecar_seq db < 0xFFFFFFFF"

lemma seq_inc: "a < 0xFFFFFFFF \<Longrightarrow> a < a + 1" for a :: u32
  using unat_u32_bound [of a] by (simp add: word_less_nat_alt unat_inc_no_wrap)

text \<open>The state after the compact slot and, if it was due, the mirror.\<close>

lemma choose_after:
  assumes r: "r \<in> {r0, Some (1 - t, q, h)}" and d: "d \<in> {d0, Some (1 - s, q, ls, header_pre h, header_post h)}"
    and h: "header_wf h" and q: "m < q" and ls: "ls \<le> m"
    and r0: "newest_is t ls r0" "r0 = None \<longrightarrow> ls = 0"
    and d0: "case d0 of None \<Rightarrow> True | Some (_, _, l, _) \<Rightarrow> l \<le> m"
    and names: "names = param_names h"
  shows "choose_header r d names \<in> {choose_header r0 d0 names, Some h}"
    and "r = Some (1 - t, q, h) \<or> d = Some (1 - s, q, ls, header_pre h, header_post h) \<Longrightarrow>
         choose_header r d names = Some h"
proof -
  have new: "decode_parts (header_pre h) names (header_post h) = h"
    using decode_parts_encode [OF h, of names] names by simp
  have n: "\<not> q \<le> m" "\<not> q \<le> ls" "\<And>l. l \<le> m \<Longrightarrow> \<not> q \<le> l" using q ls by auto
  show both: "r = Some (1 - t, q, h) \<or> d = Some (1 - s, q, ls, header_pre h, header_post h) \<Longrightarrow>
         choose_header r d names = Some h"
  proof (cases "r = Some (1 - t, q, h)")
    case True
    with d d0 n new show ?thesis
      by (auto simp: choose_header_def split: option.splits)
  next
    case False
    assume "r = Some (1 - t, q, h) \<or> d = Some (1 - s, q, ls, header_pre h, header_post h)"
    with False r r0 new show ?thesis
      by (cases r) (auto simp: choose_header_def newest_is_def)
  qed
  then show "choose_header r d names \<in> {choose_header r0 d0 names, Some h}"
    using r d by auto
qed

text \<open>The two slot writes a sidecar write consists of.\<close>

lemma sidecar_write_steps:
  assumes "tsdb_sidecar_write db w = (r, db', w')"
  obtains (compact) w1 where "fs w1 = fs w"
      "tsdb_write_small_file (tsdb_side_path (filepath db) (sidecar_slot db XOR 1))
        (encode_sidecar2 (sidecar_seq db + 1) (legacy_seq db) (header db)) w1 = (True, w')"
      "r = ESP_OK" "legacy_mirrored db"
      "db' = db\<lparr>sidecar_seq := sidecar_seq db + 1, side_dir_ready := True,
        sidecar_slot := sidecar_slot db XOR 1\<rparr>" "sound w \<Longrightarrow> sound w1"
  | (mirror) w1 ok w2 mok where "fs w1 = fs w"
      "tsdb_write_small_file (tsdb_side_path (filepath db) (sidecar_slot db XOR 1))
        (encode_sidecar2 (sidecar_seq db + 1) (legacy_seq db) (header db)) w1 = (ok, w2)"
      "tsdb_write_small_file (tsdb_legacy_path (filepath db) (legacy_slot db XOR 1))
        (encode_sidecar (sidecar_seq db + 1) (header db)) w2 = (mok, w')"
      "r = (if ok \<or> mok then ESP_OK else ESP_FAIL)"
      "db' = (let db = db\<lparr>sidecar_seq := sidecar_seq db + 1, side_dir_ready := True,
          sidecar_slot := sidecar_slot db XOR 1, legacy_slot := legacy_slot db XOR 1\<rparr>
        in if mok then db\<lparr>legacy_seq := sidecar_seq db, legacy_mirrored := True\<rparr> else db)" "sound w \<Longrightarrow> sound w1"
proof -
  define w1 where "w1 = (if side_dir_ready db then w else mkdir_path w (tsdb_side_dir (filepath db)))"
  have fs: "fs w1 = fs w" "sound w \<Longrightarrow> sound w1" by (simp_all add: w1_def sound_dir_ops)
  obtain ok w2 where 1: "tsdb_write_small_file (tsdb_side_path (filepath db) (sidecar_slot db XOR 1))
      (encode_sidecar2 (sidecar_seq db + 1) (legacy_seq db) (header db)) w1 = (ok, w2)" by fastforce
  obtain mok w3 where 2: "tsdb_write_small_file (tsdb_legacy_path (filepath db) (legacy_slot db XOR 1))
      (encode_sidecar (sidecar_seq db + 1) (header db)) w2 = (mok, w3)" by fastforce
  let ?m = "\<not> ok \<or> \<not> legacy_mirrored db \<or> sidecar_seq db + 1 - legacy_seq db \<ge> 32"
  let ?db = "db\<lparr>sidecar_seq := sidecar_seq db + 1, side_dir_ready := True, sidecar_slot := sidecar_slot db XOR 1\<rparr>"
  let ?db2 = "?db\<lparr>legacy_slot := legacy_slot db XOR 1\<rparr>"
  have "tsdb_sidecar_write db w =
    (if ?m then (if ok \<or> mok then ESP_OK else ESP_FAIL,
        if mok then ?db2\<lparr>legacy_seq := sidecar_seq db + 1, legacy_mirrored := True\<rparr> else ?db2, w3)
     else (ESP_OK, ?db, w2))"
    unfolding tsdb_sidecar_write_def Let_def using 1 2
    by (cases "side_dir_ready db") (simp_all add: w1_def)
  note run = this [unfolded assms]
  show ?thesis
  proof (cases ?m)
    case True
    show ?thesis
      by (rule mirror [OF fs(1) 1, of mok]) (use True run 2 fs(2) in \<open>auto simp: Let_def\<close>)
  next
    case False
    show ?thesis
      by (rule compact [OF fs(1)]) (use False run 1 fs(2) in auto)
  qed
qed

lemma newest_cong:
  assumes "fs w1 = fs w"
  shows "newest_compact w1 fp = newest_compact w fp" "newest_legacy w1 fp = newest_legacy w fp"
  using assms by (simp_all add: newest_compact_def newest_legacy_def compact_at_def legacy_at_def)

section \<open>Writes with nothing failing\<close>

lemma parent_dir_no_slash:
  assumes "CHR ''/'' \<notin> set s"
  shows "parent_dir (p @ s) = parent_dir p"
proof -
  have "dropWhile (\<lambda>c. c \<noteq> CHR ''/'') (rev s @ rev p) = dropWhile (\<lambda>c. c \<noteq> CHR ''/'') (rev p)"
    using assms by (subst dropWhile_append2) auto
  then show ?thesis by (simp add: parent_dir_def)
qed

lemma parent_dir_slots:
  "parent_dir (tsdb_side_path fp s) = tsdb_side_dir fp"
  "parent_dir (tsdb_legacy_path fp s) = parent_dir fp"
  "parent_dir (tsdb_side_dir fp) = parent_dir fp"
proof -
  show "parent_dir (tsdb_side_path fp s) = tsdb_side_dir fp"
    by (simp add: parent_dir_def tsdb_side_path_def tsdb_side_dir_def slot_digit_def)
  have "CHR ''/'' \<notin> set (''.h'' @ slot_digit s)" by (simp add: slot_digit_def)
  from parent_dir_no_slash [OF this] show "parent_dir (tsdb_legacy_path fp s) = parent_dir fp"
    by (simp add: tsdb_legacy_path_def)
  show "parent_dir (tsdb_side_dir fp) = parent_dir fp"
    unfolding tsdb_side_dir_def by (rule parent_dir_no_slash) simp
qed

text \<open>The directory of the database exists, and so does the slot directory once it was made.\<close>

definition side_dirs :: "tsdb \<Rightarrow> world \<Rightarrow> bool" where
  "side_dirs db w \<longleftrightarrow> dirs w (parent_dir (filepath db)) \<and>
     (side_dir_ready db \<longrightarrow> dirs w (tsdb_side_dir (filepath db)))"

text \<open>Both slot writes succeed, and the bookkeeping points at the newest slots again.\<close>

lemma quiet_sidecar_write_keeps:
  assumes "side_inv db w" "side_dirs db w" "quiet w" "header_wf (header db)"
    and "tsdb_sidecar_write db w = (r, db', w')" "sidecar_seq db + 1 < 0xFFFFFFFF"
  shows "r = ESP_OK" "side_inv db' w'" "side_dirs db' w'"
proof -
  let ?q = "sidecar_seq db + 1" and ?fp = "filepath db" and ?h = "header db"
  define w1 where "w1 = (if side_dir_ready db then w else mkdir_path w (tsdb_side_dir ?fp))"
  have w1: "quiet w1" "fs w1 = fs w" "dirs w1 (parent_dir ?fp)" "dirs w1 (tsdb_side_dir ?fp)"
    using assms(2,3)
    by (auto simp: w1_def side_dirs_def mkdir_path_def quiet_next quiet_dirs parent_dir_slots)
  note inv = assms(1) [unfolded side_inv_def]
  have s: "sidecar_slot db \<in> {0, 1}" "legacy_slot db \<in> {0, 1}" using inv by auto
  have t: "sidecar_slot db XOR 1 \<in> {0, 1}" "legacy_slot db XOR 1 \<in> {0, 1}" using s by auto
  have q: "sidecar_seq db < ?q" using inv seq_inc by auto
  have lq: "legacy_seq db < ?q" by (rule le_less_trans [OF _ q]) (use inv in blast)
  define w2 where "w2 = put_file w1 (tsdb_side_path ?fp (sidecar_slot db XOR 1))
    (encode_sidecar2 ?q (legacy_seq db) ?h)"
  define w3 where "w3 = put_file w2 (tsdb_legacy_path ?fp (legacy_slot db XOR 1)) (encode_sidecar ?q ?h)"
  have 1: "tsdb_write_small_file (tsdb_side_path ?fp (sidecar_slot db XOR 1))
      (encode_sidecar2 ?q (legacy_seq db) ?h) w1 = (True, w2)"
    using w1 by (simp add: quiet_write_small_file parent_dir_slots w2_def)
  have 2: "tsdb_write_small_file (tsdb_legacy_path ?fp (legacy_slot db XOR 1)) (encode_sidecar ?q ?h) w2 = (True, w3)"
    using w1 by (simp add: quiet_write_small_file quiet_put_file parent_dir_slots w2_def w3_def)
  note st = compact_step [OF 1 assms(4) s(1) _ q, unfolded newest_cong [OF w1(2)]]
  have nc: "newest_compact w2 ?fp = Some (1 - sidecar_slot db, ?q, legacy_seq db, header_pre ?h, header_post ?h)"
    "newest_legacy w2 ?fp = newest_legacy w ?fp" using inv st(2,3) w1(1) by auto
  have q2: "quiet w2" using w1(1) by (simp add: w2_def quiet_put_file)
  have nl: "newest_legacy w3 ?fp = Some (1 - legacy_slot db, ?q, ?h)" "newest_compact w3 ?fp = newest_compact w2 ?fp"
    using legacy_step(2,3) [OF 2 assms(4) s(2) _ lq] nc(2) inv q2 by auto
  have d: "dirs w2 = dirs w1" "dirs w3 = dirs w1" by (simp_all add: w2_def w3_def)
  have le: "legacy_seq db \<le> ?q" using lq by simp
  let ?m = "\<not> legacy_mirrored db \<or> ?q - legacy_seq db \<ge> 32"
  let ?db = "db\<lparr>sidecar_seq := ?q, side_dir_ready := True, sidecar_slot := sidecar_slot db XOR 1\<rparr>"
  let ?db2 = "?db\<lparr>legacy_slot := legacy_slot db XOR 1, legacy_seq := ?q, legacy_mirrored := True\<rparr>"
  have run: "tsdb_sidecar_write db w = (if ?m then (ESP_OK, ?db2, w3) else (ESP_OK, ?db, w2))"
    using 1 2 unfolding tsdb_sidecar_write_def Let_def w1_def
    by (cases "side_dir_ready db") simp_all
  then show "r = ESP_OK" using assms(5) by (simp split: if_splits)
  have "side_inv ?db2 w3" "side_dirs ?db2 w3"
    using nc nl t flip_slot [OF s(1)] flip_slot [OF s(2)] le d w1 assms(6)
    by (simp_all add: side_inv_def side_dirs_def newest_is_def)
  moreover have "side_inv ?db w2" "side_dirs ?db w2"
    using nc t s flip_slot [OF s(1)] le d w1 assms(6) inv
    by (simp_all add: side_inv_def side_dirs_def newest_is_def)
  ultimately show "side_inv db' w'" "side_dirs db' w'"
    using run assms(5) by (auto split: if_splits)
qed

text \<open>Loading positions the bookkeeping at the newest slots.\<close>

lemma sidecar_load_side_inv:
  assumes "quiet w" "tsdb_sidecar_load db base w = (r, ho, db', w')" "sidecar_seq db' < 0xFFFFFFFF"
    and "case newest_compact w (filepath db) of None \<Rightarrow> True | Some (_, q, l, _) \<Rightarrow> l \<le> q"
  shows "side_inv db' w'" "w' = w" "ho = stored_header w (filepath db) (param_names base)"
proof -
  have slot: "i \<in> {0, 1}" if "newer_slot a b = Some (i, x)" for a b :: "(u32 \<times> 'c) option" and i x
    using that by (auto simp: newer_slot_def split: option.splits if_splits)
  note l = assms(2) [unfolded quiet_sidecar_load [OF assms(1)] Let_def]
  show "w' = w" "ho = stored_header w (filepath db) (param_names base)" using l by auto
  let ?r = "newest_legacy w (filepath db)" and ?d = "newest_compact w (filepath db)"
  let ?seq_r = "case ?r of None \<Rightarrow> 0 | Some (_, s, _) \<Rightarrow> s"
  let ?seq_d = "case ?d of None \<Rightarrow> 0 | Some (_, s, _) \<Rightarrow> s"
  have db': "db' = db\<lparr>sidecar_seq := max ?seq_r ?seq_d, legacy_seq := ?seq_r,
      legacy_slot := (case ?r of None \<Rightarrow> 0 | Some (s, _) \<Rightarrow> s),
      sidecar_slot := (case ?d of None \<Rightarrow> 0 | Some (s, _) \<Rightarrow> s), legacy_mirrored := False\<rparr>"
    using l by blast
  have "case ?r of None \<Rightarrow> True | Some (i, _) \<Rightarrow> i \<in> {0, 1}"
    "case ?d of None \<Rightarrow> True | Some (i, _) \<Rightarrow> i \<in> {0, 1}"
    by (auto split: option.split dest: slot [OF newest_legacy_def [symmetric, THEN trans]]
        slot [OF newest_compact_def [symmetric, THEN trans]])
  then show "side_inv db' w'"
    using assms(3,4) \<open>w' = w\<close> unfolding db' side_inv_def newest_is_def
    by (cases ?r; cases ?d) (auto simp: max_def)
qed

end
