(* ===== verification/Tsdb_Ring.thy ===== *)
theory Tsdb_Ring
  imports Tsdb_Handle
begin

text \<open>
  The abstract view the write, query, recovery and migration components share: the data
  region of the file as an array of slots, the records still retained in it as a list in
  write order, and what a file update has to leave alone to keep them.

  Record number \<open>j\<close> (counted from the first record ever written) lives in slot
  \<open>j mod max_records\<close>, or in slot \<open>j\<close> of a file without a limit; the retained records are
  the last \<open>avail h\<close> ones.
\<close>

section \<open>Slots and retained records\<close>

abbreviation rpb :: "tsdb_header \<Rightarrow> nat" where "rpb h \<equiv> unat (records_per_block h)"
abbreviation nparams :: "tsdb_header \<Rightarrow> nat" where "nparams h \<equiv> unat (num_params h)"
abbreviation nrec :: "tsdb_header \<Rightarrow> nat" where "nrec h \<equiv> unat (total_records h)"
abbreviation cap :: "tsdb_header \<Rightarrow> nat" where "cap h \<equiv> unat (max_records h)"

definition slot_of :: "tsdb_header \<Rightarrow> nat \<Rightarrow> nat" where
  "slot_of h j = (if max_records h = 0 then j else j mod cap h)"

definition avail :: "tsdb_header \<Rightarrow> nat" where
  "avail h = (if max_records h = 0 then nrec h else min (nrec h) (cap h))"

definition slot_block :: "tsdb_header \<Rightarrow> bytes \<Rightarrow> nat \<Rightarrow> bytes" where
  "slot_block h f s = chunk f (block_pos h (s div rpb h)) TSDB_BLOCK_SIZE"

definition slot_row :: "tsdb_header \<Rightarrow> bytes \<Rightarrow> nat \<Rightarrow> row" where
  "slot_row h f s = block_row (rpb h) (nparams h) (slot_block h f s) (s mod rpb h)"

text \<open>A slot that can be read: its block is in the file, 32-bit offsets reach it, and it has the magic.\<close>

definition slot_ok :: "tsdb_header \<Rightarrow> bytes \<Rightarrow> nat \<Rightarrow> bool" where
  "slot_ok h f s \<longleftrightarrow>
     block_pos h (s div rpb h) + TSDB_BLOCK_SIZE \<le> length f \<and>
     block_pos h (s div rpb h) + TSDB_BLOCK_SIZE \<le> 2 ^ 32 \<and>
     TSDB_BLOCK_MAGIC (slot_block h f s) = BLKT_MAGIC"

definition retained :: "tsdb_header \<Rightarrow> bytes \<Rightarrow> row list" where
  "retained h f = map (\<lambda>j. slot_row h f (slot_of h j)) [nrec h - avail h..<nrec h]"

text \<open>The last \<open>n\<close> elements of a list: what a queue of capacity \<open>n\<close> holds.\<close>

definition last_n :: "nat \<Rightarrow> 'a list \<Rightarrow> 'a list" where
  "last_n n xs = drop (length xs - n) xs"

text \<open>A limit on the number of elements, \<open>None\<close> for an unlimited queue, and the order of limits.\<close>

fun within :: "nat option \<Rightarrow> 'a list \<Rightarrow> 'a list" where
  "within None xs = xs"
| "within (Some n) xs = last_n n xs"

fun limit_le :: "nat option \<Rightarrow> nat option \<Rightarrow> bool" where
  "limit_le _ None = True"
| "limit_le None (Some n) = False"
| "limit_le (Some m) (Some n) = (m \<le> n)"

definition limit_of :: "tsdb_header \<Rightarrow> nat option" where
  "limit_of h = (if max_records h = 0 then None else Some (cap h))"

text \<open>A file whose bytes are unchanged, at least where \<open>P\<close> holds.\<close>

definition keeps :: "(nat \<Rightarrow> bool) \<Rightarrow> bytes \<Rightarrow> bytes \<Rightarrow> bool" where
  "keeps P f f' \<longleftrightarrow> length f \<le> length f' \<and> (\<forall>i < length f. P i \<longrightarrow> f' ! i = f ! i)"

section \<open>Updates that keep bytes\<close>

lemma keeps_refl [simp]: "keeps P f f"
  by (simp add: keeps_def)

lemma keeps_trans: "keeps P f g \<Longrightarrow> keeps Q g k \<Longrightarrow> keeps (\<lambda>i. P i \<and> Q i) f k"
  by (auto simp: keeps_def)

lemma keeps_mono: "keeps P f g \<Longrightarrow> (\<And>i. Q i \<Longrightarrow> P i) \<Longrightarrow> keeps Q f g"
  by (auto simp: keeps_def)

lemma keeps_length: "keeps P f g \<Longrightarrow> length f \<le> length g"
  by (simp add: keeps_def)

lemma keeps_overlay: "keeps (\<lambda>i. i < off \<or> off + length d \<le> i \<or> (i < length f \<and> d ! (i - off) = f ! i))
    f (overlay f off d)"
proof -
  have "overlay f off d ! i = f ! i"
    if "i < length f" "i < off \<or> off + length d \<le> i \<or> d ! (i - off) = f ! i" for i
  proof -
    have "i < length (overlay f off d)" using that(1) by (auto simp: length_overlay)
    with that show ?thesis by (auto simp: nth_overlay)
  qed
  then show ?thesis by (auto simp: keeps_def length_overlay)
qed

lemma keeps_chunk:
  assumes "keeps P f g" "off + n \<le> length f" "\<And>i. off \<le> i \<Longrightarrow> i < off + n \<Longrightarrow> P i"
  shows "chunk g off n = chunk f off n"
proof (rule nth_equalityI)
  show "length (chunk g off n) = length (chunk f off n)"
    using assms(2) keeps_length [OF assms(1)] by (simp add: length_chunk)
  fix i
  assume "i < length (chunk g off n)"
  then have "i < n" by (simp add: length_chunk)
  moreover have "off + i < length g" using \<open>i < n\<close> assms(2) keeps_length [OF assms(1)] by simp
  ultimately show "chunk g off n ! i = chunk f off n ! i"
    using assms by (simp add: nth_chunk keeps_def)
qed

lemma fwrite_at_cases:
  assumes "fwrite_at w p off d = (r, w')"
  obtains k where "content w' p = overlay (content w p) off (take k d)" "r = None \<Longrightarrow> sound w \<Longrightarrow> length d \<le> k"
  using fwrite_at_prefix [OF assms] by (metis order_refl)

text \<open>A write, complete or torn, can only change bytes where the new data differs from the old.\<close>

lemma fwrite_at_keeps:
  assumes "fwrite_at w p off d = (r, w')"
  shows "keeps (\<lambda>i. i < off \<or> off + length d \<le> i \<or> d ! (i - off) = content w p ! i)
    (content w p) (content w' p)"
proof -
  obtain k where k: "content w' p = overlay (content w p) off (take k d)"
    using fwrite_at_cases [OF assms] .
  let ?f = "content w p"
  have "content w' p ! i = ?f ! i"
    if i: "i < length ?f" and P: "i < off \<or> off + length d \<le> i \<or> d ! (i - off) = ?f ! i" for i
  proof -
    have "i < off \<or> off + length (take k d) \<le> i \<or> (i < length ?f \<and> take k d ! (i - off) = ?f ! i)"
      using P i by (cases "i - off < k") auto
    with keeps_overlay [of off "take k d" ?f] i k show ?thesis by (auto simp: keeps_def)
  qed
  moreover have "length ?f \<le> length (content w' p)"
    by (simp add: k length_overlay)
  ultimately show ?thesis by (auto simp: keeps_def)
qed

lemma fwrite_at_keeps_outside:
  "fwrite_at w p off d = (r, w') \<Longrightarrow>
   keeps (\<lambda>i. i < off \<or> off + length d \<le> i) (content w p) (content w' p)"
  by (erule keeps_mono [OF fwrite_at_keeps]) auto

section \<open>Slots under updates\<close>

lemma slot_keeps:
  assumes "keeps P f g" "slot_ok h f s"
    and "\<And>i. block_pos h (s div rpb h) \<le> i \<Longrightarrow> i < block_pos h (s div rpb h) + TSDB_BLOCK_SIZE \<Longrightarrow> P i"
  shows "slot_ok h g s" "slot_row h g s = slot_row h f s"
proof -
  have "slot_block h g s = slot_block h f s"
    unfolding slot_block_def using assms(2)
    by (intro keeps_chunk [OF assms(1)]) (auto simp: slot_ok_def intro: assms(3))
  moreover have "length f \<le> length g" by (rule keeps_length [OF assms(1)])
  ultimately show "slot_ok h g s" "slot_row h g s = slot_row h f s"
    using assms(2) by (auto simp: slot_ok_def slot_row_def)
qed

text \<open>A torn write of a block keeps every cell that has the same value in the old and the new block.\<close>

lemma torn_cell:
  assumes "fwrite_at w p off d = (r, w')" "off + a + n \<le> length (content w p)" "a + n \<le> length d"
    and "chunk d a n = chunk (content w p) (off + a) n"
  shows "chunk (content w' p) (off + a) n = chunk (content w p) (off + a) n"
proof (rule keeps_chunk [OF fwrite_at_keeps [OF assms(1)] assms(2)])
  fix i
  assume i: "off + a \<le> i" "i < off + a + n"
  then have "chunk d a n ! (i - off - a) = chunk (content w p) (off + a) n ! (i - off - a)"
    using assms(4) by simp
  with i assms(2,3) have "d ! (i - off) = content w p ! i"
    by (simp add: nth_chunk)
  then show "i < off \<or> off + length d \<le> i \<or> d ! (i - off) = content w p ! i" by simp
qed

lemma torn_ld32:
  assumes "fwrite_at w p off d = (r, w')" "off + length d \<le> length (content w p)" "a + 4 \<le> length d"
    and "ld32 d a = ld32 (content w p) (off + a)"
  shows "ld32 (content w' p) (off + a) = ld32 (content w p) (off + a)"
proof -
  have "chunk d a 4 = chunk (content w p) (off + a) 4"
    using assms(2-4) by (intro of_le32_inj) (auto simp: ld32_def length_chunk)
  from torn_cell [OF assms(1) _ assms(3) this] assms(2,3) show ?thesis
    by (simp add: ld32_def)
qed

lemma torn_ld16:
  assumes "fwrite_at w p off d = (r, w')" "off + length d \<le> length (content w p)" "a + 2 \<le> length d"
    and "ld16 d a = ld16 (content w p) (off + a)"
  shows "ld16 (content w' p) (off + a) = ld16 (content w p) (off + a)"
proof -
  have "chunk d a 2 = chunk (content w p) (off + a) 2"
    using assms(2-4) by (intro of_le16_inj) (auto simp: ld16_def length_chunk)
  from torn_cell [OF assms(1) _ assms(3) this] assms(2,3) show ?thesis
    by (simp add: ld16_def)
qed

lemma block_row_cells:
  assumes "geom n m" "r < n" "length b = TSDB_BLOCK_SIZE" "length b' = TSDB_BLOCK_SIZE"
  shows "block_row n m b r = block_row n m b' r \<longleftrightarrow>
    ld32 b (ts_off r) = ld32 b' (ts_off r) \<and>
    (\<forall>q<m. ld16 b (param_off n q r) = ld16 b' (param_off n q r))"
  by (auto simp: block_row_def TSDB_BLOCK_TS_def TSDB_BLOCK_PARAM_def)

lemma torn_block_row:
  assumes "fwrite_at w p off d = (e, w')" "length d = TSDB_BLOCK_SIZE"
    and "off + TSDB_BLOCK_SIZE \<le> length (content w p)" "geom n m" "r < n"
    and "block_row n m d r = block_row n m (chunk (content w p) off TSDB_BLOCK_SIZE) r"
  shows "block_row n m (chunk (content w' p) off TSDB_BLOCK_SIZE) r =
    block_row n m (chunk (content w p) off TSDB_BLOCK_SIZE) r"
proof -
  let ?f = "content w p" and ?g = "content w' p"
  have len: "length ?f \<le> length ?g"
    by (rule keeps_length [OF fwrite_at_keeps [OF assms(1)]])
  have ts: "ts_off r + 4 \<le> 1024"
    using ts_off_bound [OF assms(5)] assms(4) by (simp add: geom_def)
  have cells: "ld32 d (ts_off r) = ld32 ?f (off + ts_off r)"
    "\<And>q. q < m \<Longrightarrow> ld16 d (param_off n q r) = ld16 ?f (off + param_off n q r)"
    using assms ts param_off_bound [OF assms(4) _ assms(5)]
    by (auto simp: block_row_cells length_chunk ld32_chunk ld16_chunk)
  have "ld32 ?g (off + ts_off r) = ld32 ?f (off + ts_off r)"
    using assms ts cells(1) by (intro torn_ld32 [OF assms(1)]) auto
  moreover have "ld16 ?g (off + param_off n q r) = ld16 ?f (off + param_off n q r)" if "q < m" for q
    using assms cells(2) that param_off_bound [OF assms(4) that assms(5)]
    by (intro torn_ld16 [OF assms(1)]) auto
  ultimately show ?thesis
    using assms(3-5) len ts param_off_bound [OF assms(4) _ assms(5)]
    by (simp add: block_row_cells length_chunk ld32_chunk ld16_chunk)
qed

lemma torn_block_magic:
  assumes "fwrite_at w p off d = (e, w')" "length d = TSDB_BLOCK_SIZE"
    and "off + TSDB_BLOCK_SIZE \<le> length (content w p)"
    and "TSDB_BLOCK_MAGIC d = TSDB_BLOCK_MAGIC (chunk (content w p) off TSDB_BLOCK_SIZE)"
  shows "TSDB_BLOCK_MAGIC (chunk (content w' p) off TSDB_BLOCK_SIZE) =
    TSDB_BLOCK_MAGIC (chunk (content w p) off TSDB_BLOCK_SIZE)"
  using assms torn_ld32 [OF assms(1), of 0]
  by (simp add: TSDB_BLOCK_MAGIC_def ld32_chunk)

lemma block_pos_apart:
  assumes "b \<noteq> b'"
  shows "block_pos h b + TSDB_BLOCK_SIZE \<le> block_pos h b' \<or> block_pos h b' + TSDB_BLOCK_SIZE \<le> block_pos h b"
  using assms by (auto simp: block_pos_def)

lemma data_start_le_block_pos [simp]: "data_start h \<le> block_pos h b"
  by (simp add: block_pos_def)

section \<open>Queues\<close>

lemma length_last_n [simp]: "length (last_n n xs) = min n (length xs)"
  by (simp add: last_n_def)

lemma last_n_all: "length xs \<le> n \<Longrightarrow> last_n n xs = xs"
  by (simp add: last_n_def)

lemma last_n_append: "m \<le> n \<Longrightarrow> last_n m (last_n n xs @ ys) = last_n m (xs @ ys)"
proof (cases "length xs \<le> n")
  case False
  assume "m \<le> n"
  with False have "length xs - (length xs - n) = n"
    "length xs + length ys - m = (n + length ys - m) + (length xs - n)" by auto
  with False show ?thesis by (simp add: last_n_def)
qed (simp add: last_n_all)

lemma within_append: "limit_le l k \<Longrightarrow> within l (within k xs @ ys) = within l (xs @ ys)"
  by (cases l; cases k) (simp_all add: last_n_append)

lemma limit_le_refl [simp]: "limit_le l l"
  by (cases l) simp_all

lemma limit_le_trans: "limit_le a b \<Longrightarrow> limit_le b c \<Longrightarrow> limit_le a c"
  by (cases a; cases b; cases c) simp_all

lemma last_n_map: "last_n n (map f xs) = map f (last_n n xs)"
  by (simp add: last_n_def drop_map)

lemma last_n_upt: "last_n n [a..<b] = [max a (b - n)..<b]"
proof -
  have "a + (b - a - n) = max a (b - n) \<or> b \<le> a" by arith
  then show ?thesis by (auto simp: last_n_def)
qed

lemma length_retained: "length (retained h f) = avail h"
  by (auto simp: retained_def avail_def)

section \<open>The ring invariant\<close>

text \<open>
  What every operation on an open database relies on and keeps: the geometry fits a block,
  the data region starts behind the header, the oldest record is where the ring arithmetic
  expects it, and every slot in use is readable.
\<close>

definition ring_hdr :: "tsdb_header \<Rightarrow> bool" where
  "ring_hdr h \<longleftrightarrow>
     header_wf h \<and> geom (rpb h) (nparams h) \<and> index_stride h \<noteq> 0 \<and> TSDB_HDR_SIZE \<le> data_start h \<and>
     unat (oldest_record_idx h) =
       (if max_records h = 0 \<or> nrec h < cap h then 0 else nrec h mod cap h)"

definition ring_inv :: "tsdb_header \<Rightarrow> bytes \<Rightarrow> bool" where
  "ring_inv h f \<longleftrightarrow> ring_hdr h \<and> (\<forall>s < avail h. slot_ok h f s)"

text \<open>
  The records in the order in which a query walks over them, from \<open>oldest_record_idx\<close> on. This
  is the list of retained records as long as the index is where \<open>ring_hdr\<close> expects it.
\<close>

definition ring_view :: "tsdb_header \<Rightarrow> bytes \<Rightarrow> row list" where
  "ring_view h f =
     map (\<lambda>k. slot_row h f (if max_records h = 0 then k else (unat (oldest_record_idx h) + k) mod cap h))
       [0..<avail h]"

lemma ring_view_retained:
  assumes "ring_hdr h"
  shows "ring_view h f = retained h f"
proof (rule nth_equalityI)
  show l: "length (ring_view h f) = length (retained h f)"
    by (simp add: ring_view_def retained_def avail_def)
  fix k
  assume "k < length (ring_view h f)"
  then have k: "k < avail h" by (simp add: ring_view_def)
  then have "retained h f ! k = slot_row h f (slot_of h (nrec h - avail h + k))"
    by (auto simp: retained_def avail_def)
  moreover have "ring_view h f ! k = slot_row h f (slot_of h (nrec h - avail h + k))"
  proof (cases "max_records h = 0 \<or> nrec h < cap h")
    case True
    with k assms show ?thesis by (auto simp: ring_view_def avail_def slot_of_def ring_hdr_def)
  next
    case False
    then have "unat (oldest_record_idx h) = nrec h mod cap h" "avail h = cap h" "cap h \<le> nrec h"
      using assms by (auto simp: ring_hdr_def avail_def)
    moreover have "(nrec h mod cap h + k) mod cap h = (nrec h - cap h + k) mod cap h"
    proof -
      have "(nrec h - cap h + k + cap h) mod cap h = (nrec h - cap h + k) mod cap h" by simp
      moreover have "nrec h - cap h + k + cap h = nrec h + k" using \<open>cap h \<le> nrec h\<close> by simp
      ultimately show ?thesis by (simp add: mod_add_left_eq)
    qed
    ultimately show ?thesis using False k by (simp add: ring_view_def slot_of_def)
  qed
  ultimately show "ring_view h f ! k = retained h f ! k" by simp
qed

text \<open>The overflow region, if there is one, lies behind the whole ring.\<close>

definition ovf_clear :: "tsdb \<Rightarrow> bool" where
  "ovf_clear db \<longleftrightarrow>
     (let h = header db
      in db_extra_param_count db = 0 \<or>
         (max_records h \<noteq> 0 \<and>
          block_pos h ((cap h - 1) div rpb h) + TSDB_BLOCK_SIZE \<le> unat (overflow_data_offset db)))"

definition db_inv :: "tsdb \<Rightarrow> world \<Rightarrow> bool" where
  "db_inv db w \<longleftrightarrow>
     db_file db = Some (filepath db) \<and> ring_inv (header db) (content w (filepath db)) \<and> ovf_clear db \<and> sound w"

text \<open>Headers that describe the same slots.\<close>

definition same_geom :: "tsdb_header \<Rightarrow> tsdb_header \<Rightarrow> bool" where
  "same_geom h k \<longleftrightarrow>
     index_offset k = index_offset h \<and> index_entries k = index_entries h \<and>
     records_per_block k = records_per_block h \<and> num_params k = num_params h \<and>
     index_stride k = index_stride h \<and> header_wf k = header_wf h"

lemma same_geom_simps:
  assumes "same_geom h k"
  shows "data_start k = data_start h" "block_pos k = block_pos h" "slot_ok k = slot_ok h"
    "slot_row k = slot_row h" "rpb k = rpb h" "nparams k = nparams h" "header_wf k = header_wf h"
    "index_stride k = index_stride h"
proof -
  show "data_start k = data_start h" "rpb k = rpb h" "nparams k = nparams h"
    "header_wf k = header_wf h" "index_stride k = index_stride h"
    using assms by (simp_all add: same_geom_def data_start_def)
  then show 1: "block_pos k = block_pos h" by (simp add: block_pos_def fun_eq_iff)
  then have 2: "slot_block k = slot_block h"
    using assms by (simp add: slot_block_def fun_eq_iff same_geom_def)
  show "slot_ok k = slot_ok h" "slot_row k = slot_row h"
    using assms 1 2 by (simp_all add: slot_ok_def slot_row_def fun_eq_iff same_geom_def)
qed

lemma same_geom_refl [simp]: "same_geom h h"
  by (simp add: same_geom_def)

lemma same_geom_trans: "same_geom h k \<Longrightarrow> same_geom k l \<Longrightarrow> same_geom h l"
  by (simp add: same_geom_def)

text \<open>Handles of the same file with the same slots, overflow region and control flags.\<close>

definition same_frame :: "tsdb \<Rightarrow> tsdb \<Rightarrow> bool" where
  "same_frame db db' \<longleftrightarrow>
     same_geom (header db) (header db') \<and> filepath db' = filepath db \<and> db_file db' = db_file db \<and>
     is_open db' = is_open db \<and> migrating db' = migrating db \<and> closing db' = closing db \<and>
     db_extra_param_count db' = db_extra_param_count db \<and>
     overflow_data_offset db' = overflow_data_offset db \<and>
     db_first_overflow_record_idx db' = db_first_overflow_record_idx db \<and>
     db_overflow_record_size db' = db_overflow_record_size db"

lemma same_frame_refl [simp]: "same_frame db db"
  by (simp add: same_frame_def)

lemma same_frame_trans: "same_frame a b \<Longrightarrow> same_frame b c \<Longrightarrow> same_frame a c"
  by (auto simp: same_frame_def intro: same_geom_trans)

lemma same_frame_geom: "same_frame a b \<Longrightarrow> same_geom (header a) (header b)"
  by (simp add: same_frame_def)

lemma cap_pos: "max_records h \<noteq> 0 \<Longrightarrow> 0 < cap h"
  by (simp add: unat_gt_0)

text \<open>Records in different places of the ring are in different slots.\<close>

lemma slot_of_less: "j < nrec h \<Longrightarrow> nrec h - avail h \<le> j \<Longrightarrow> slot_of h j < avail h"
  by (auto simp: slot_of_def avail_def min_def word_less_nat_alt unat_gt_0 mod_less_divisor split: if_splits)

lemma slot_of_neq:
  assumes "j < k" "max_records h = 0 \<or> k - j < cap h"
  shows "slot_of h j \<noteq> slot_of h k"
proof
  assume eq: "slot_of h j = slot_of h k"
  show False
  proof (cases "max_records h = 0")
    case True
    with eq assms(1) show False by (simp add: slot_of_def)
  next
    case False
    with eq have "j mod cap h = k mod cap h" by (simp add: slot_of_def)
    then have "cap h dvd k - j" using assms(1) by (metis less_imp_le_nat mod_eq_dvd_iff_nat)
    with assms False show False by (auto dest: dvd_imp_le)
  qed
qed

lemma retained_cong:
  assumes "avail k = avail h" "nrec k = nrec h"
    and "\<And>j. nrec h - avail h \<le> j \<Longrightarrow> j < nrec h \<Longrightarrow>
      slot_row k g (slot_of k j) = slot_row h f (slot_of h j)"
  shows "retained k g = retained h f"
  using assms by (simp add: retained_def)

text \<open>Storing the next record: the retained list gains it and, in a full ring, loses its first element.\<close>

lemma retained_append:
  assumes "same_geom h k" "nrec k = nrec h + 1" "max_records k = max_records h"
    and "\<And>j. nrec h + 1 - avail k \<le> j \<Longrightarrow> j < nrec h \<Longrightarrow>
      slot_row h g (slot_of h j) = slot_row h f (slot_of h j)"
    and "slot_row h g (slot_of h (nrec h)) = x"
  shows "retained k g = within (limit_of k) (retained h f @ [x])"
proof -
  let ?lo = "nrec h + 1 - avail k" and ?F = "\<lambda>j. if j = nrec h then x else slot_row h f (slot_of h j)"
  have row: "slot_row k = slot_row h" and slot: "slot_of k = slot_of h"
    using assms(1,3) by (simp_all add: same_geom_simps slot_of_def fun_eq_iff)
  have lo: "?lo \<le> nrec h"
    using assms(2,3) cap_pos [of h] by (auto simp: avail_def min_def)
  have "retained k g = map (\<lambda>j. slot_row h g (slot_of h j)) [?lo..<nrec h + 1]"
    using assms(2) by (simp add: retained_def row slot)
  also have "\<dots> = map ?F [?lo..<nrec h + 1]"
    using assms(4,5) by (intro map_cong refl) auto
  finally have new: "retained k g = map ?F [?lo..<nrec h + 1]" .
  have old: "retained h f @ [x] = map ?F [nrec h - avail h..<nrec h + 1]"
    by (auto simp: retained_def)
  have "[?lo..<nrec h + 1] = within (limit_of k) [nrec h - avail h..<nrec h + 1]"
    using lo assms(2,3)
    by (auto simp: limit_of_def last_n_upt avail_def min_def max_def simp del: upt_Suc)
  then show ?thesis
    unfolding new old by (simp add: limit_of_def last_n_map del: upt_Suc)
qed

section \<open>An empty database\<close>

text \<open>
  A freshly created file with one parameter, four records per block and a given capacity,
  used to instantiate the theorems.
\<close>

definition demo_header :: "u32 \<Rightarrow> tsdb_header" where
  "demo_header limit = zero_header\<lparr>magic := TSDB_MAGIC, version := TSDB_VERSION, num_params := 1,
     param_size := 2, record_size := 6, records_per_block := 4, max_records := limit,
     index_offset := 1024, index_entries := 1, index_stride := 4, base_params := 1\<rparr>"

definition demo_db :: "u32 \<Rightarrow> tsdb" where
  "demo_db limit = \<lparr> db_file = Some ''/a.db'', header = demo_header limit, filepath = ''/a.db'',
     is_open = True, pool = zero_pool, read_buffer_offset = 0, write_cache_offset = 1024,
     query_buffer_offset = 2048, stream_buffer_offset = 3072, stream_buffer_size = 1024,
     cached_block_num = - 1, cache_dirty = False, capacity_adapted = False,
     in_file_header_stale = False, sidecar_seq = 0, sidecar_slot = 0, legacy_slot = 0,
     legacy_seq = 0, legacy_mirrored = False, side_dir_ready = False, index_stale = False,
     migrating = False, closing = False, generation = 0, has_free_space_cb = False,
     min_free_bytes = 0, db_extra_param_count = 0, overflow_data_offset = 0,
     db_first_overflow_record_idx = 0, db_overflow_record_size = 0 \<rparr>"

definition demo_world :: "io_outcome list \<Rightarrow> world" where
  "demo_world script = \<lparr> fs = Map.empty(''/a.db'' \<mapsto> encode_header (demo_header 3)),
     dirs = (\<lambda>d. d = []), read_fault = no_faults, io_script = script, heap_script = [], lock_script = [],
     free_script = [], spiram_free = 0 \<rparr>"

lemma demo_inv: "list_all lossless script \<Longrightarrow> db_inv (demo_db limit) (demo_world script)"
  by (simp add: db_inv_def sound_def demo_world_def demo_db_def ring_inv_def ring_hdr_def demo_header_def avail_def
      ovf_clear_def geom_def data_start_def header_wf_def zero_header_def)

lemma demo_retained: "retained (demo_header limit) f = []"
  by (simp add: retained_def demo_header_def zero_header_def)

end
