(* ===== verification/Tsdb_Write.thy ===== *)
theory Tsdb_Write
  imports Tsdb_Sidecar Tsdb_Ring
begin

text \<open>
  The write path of \<open>src/tsdb_write.c\<close>: the free-space guard, the ring position of the next
  record, the read-modify-write of its block, the adaptive capacity on a full file system,
  the overflow values, the header update and the sidecar.

  The specification is a bounded queue: the retained records are a list, a write appends
  one record and, when the ring is full, drops the oldest. The lemmas show that
  \<open>tsdb_write_h\<close> refines it under every pattern of reported I/O failures it survives, that a
  failed or torn write damages no other retained record, and that the retry loop terminates.
\<close>

section \<open>Operations\<close>

text \<open>
  A block that the code assembles through the pointer \<open>tsdb_get_buffer_ptr\<close> returns is left
  in the pool; without a pointer it lives in a local variable.
\<close>

definition stage_block :: "tsdb \<Rightarrow> u32 \<Rightarrow> bytes \<Rightarrow> tsdb" where
  "stage_block db off blk =
     (case tsdb_get_buffer_ptr (Some (pool db)) off 1024 of
        None \<Rightarrow> db
      | Some _ \<Rightarrow>
          (case tsdb_buffer_write (Some (pool db)) off blk of
             None \<Rightarrow> db
           | Some pl \<Rightarrow> db\<lparr>pool := pl\<rparr>))"

text \<open>Two attempts to persist a new capacity; a failure is only logged.\<close>

definition persist_cap :: "tsdb \<Rightarrow> world \<Rightarrow> world" where
  "persist_cap db w =
     (case tsdb_write_header (db_file db) (header db) w of
        (r, w1) \<Rightarrow>
          if r \<noteq> ESP_OK then snd (tsdb_write_header (db_file db) (header db) w1) else w1)"

definition cap_at_total :: "tsdb \<Rightarrow> tsdb" where
  "cap_at_total db =
     db\<lparr>header := (header db)\<lparr>max_records := total_records (header db)\<rparr>, capacity_adapted := True\<rparr>"

definition free_space_guard :: "tsdb \<Rightarrow> world \<Rightarrow> tsdb \<times> world" where
  "free_space_guard db w =
     (let h = header db
      in if has_free_space_cb db \<and> min_free_bytes db > 0 \<and> \<not> capacity_adapted db \<and>
            max_records h > 0 \<and> total_records h > 0 \<and> total_records h < max_records h \<and>
            total_records h mod ucast (records_per_block h) = 0
         then
           (case free_space_now w of (free_now, w1) \<Rightarrow>
              if free_now < ucast (min_free_bytes db)
              then (let db' = cap_at_total db in (db', persist_cap db' w1))
              else (db, w1))
         else (db, w))"

text \<open>Ring position of the next record.\<close>

definition next_record_idx :: "tsdb_header \<Rightarrow> u32" where
  "next_record_idx h =
     (if max_records h = 0 then total_records h else total_records h mod max_records h)"

definition next_is_eviction :: "tsdb_header \<Rightarrow> bool" where
  "next_is_eviction h \<longleftrightarrow> max_records h \<noteq> 0 \<and> total_records h \<ge> max_records h"

definition evict_header :: "tsdb_header \<Rightarrow> tsdb_header" where
  "evict_header h =
     (if next_is_eviction h
      then h\<lparr>total_evictions := total_evictions h + 1,
             oldest_record_idx := (oldest_record_idx h + 1) mod max_records h\<rparr>
      else h)"

text \<open>The block read back, or a new one when it is missing or has no block magic.\<close>

definition existing_or_new :: "esp_err \<times> bytes option \<Rightarrow> bytes" where
  "existing_or_new r =
     (case r of
        (ESP_OK, Some b) \<Rightarrow> if TSDB_BLOCK_MAGIC b \<noteq> BLKT_MAGIC then fresh_block else b
      | _ \<Rightarrow> fresh_block)"

definition fill_block :: "tsdb_header \<Rightarrow> bytes \<Rightarrow> nat \<Rightarrow> u32 \<Rightarrow> i16 list \<Rightarrow> bytes" where
  "fill_block h blk off ts vals =
     (let raw = set_block_params (set_block_ts blk off ts) (unat (records_per_block h)) off
                  (\<lambda>i. vals ! i) (unat (num_params h))
      in if off \<ge> unat (TSDB_BLOCK_COUNT raw) then set_block_count raw (of_nat (off + 1)) else raw)"

definition write_overflow :: "tsdb \<Rightarrow> i16 list \<Rightarrow> world \<Rightarrow> world" where
  "write_overflow db vals w =
     (if db_extra_param_count db > 0 \<and> total_records (header db) \<ge> db_first_overflow_record_idx db then
        (let overflow_idx = total_records (header db) - db_first_overflow_record_idx db;
             ovf_offset = overflow_data_offset db + overflow_idx * ucast (db_overflow_record_size db);
             d = concat (map le16 (take (unat (db_extra_param_count db))
                                        (drop (unat (num_params (header db))) vals)))
         in case db_file db of None \<Rightarrow> w | Some p \<Rightarrow> snd (fwrite_at w p (unat ovf_offset) d))
      else w)"

text \<open>
  The header after a stored record; on eviction the new oldest timestamp is read back from
  the file through the read buffer.
\<close>

definition advance_header :: "tsdb \<Rightarrow> u32 \<Rightarrow> bool \<Rightarrow> u32 \<Rightarrow> world \<Rightarrow> tsdb" where
  "advance_header db record_idx is_eviction ts w =
     (let h = (header db)\<lparr>total_records := total_records (header db) + 1,
                          total_writes := total_writes (header db) + 1,
                          newest_record_idx := record_idx,
                          newest_timestamp := ts\<rparr>;
          db = db\<lparr>header := h\<rparr>
      in if is_eviction then
           (let oldest_block = oldest_record_idx h div ucast (records_per_block h);
                oldest_offset = ucast (oldest_record_idx h mod ucast (records_per_block h)) :: u16
            in case tsdb_read_block db oldest_block w of
                 (ESP_OK, Some b) \<Rightarrow>
                   (let db = stage_block db (read_buffer_offset db) b
                    in db\<lparr>header := h\<lparr>oldest_timestamp := TSDB_BLOCK_TS b (unat oldest_offset)\<rparr>\<rparr>)
               | _ \<Rightarrow> db)
         else if total_records h = 1 then db\<lparr>header := h\<lparr>oldest_timestamp := ts\<rparr>\<rparr>
         else db)"

definition mark_index :: "tsdb \<Rightarrow> u32 \<Rightarrow> tsdb" where
  "mark_index db record_idx =
     (let h = header db
      in if record_idx mod index_stride h = 0 \<and> record_idx div index_stride h < index_entries h
         then db\<lparr>index_stale := True\<rparr> else db)"

definition finish_write :: "tsdb \<Rightarrow> u32 \<Rightarrow> bool \<Rightarrow> u32 \<Rightarrow> i16 list \<Rightarrow> world \<Rightarrow> esp_err \<times> tsdb \<times> world" where
  "finish_write db record_idx is_eviction ts vals w =
     (let w = write_overflow db vals w;
          db = advance_header db record_idx is_eviction ts w;
          db = mark_index db record_idx
      in case tsdb_sidecar_write db w of
           (_, db, w) \<Rightarrow> (ESP_OK, db\<lparr>in_file_header_stale := True\<rparr>, w))"

text \<open>
  One pass from the label \<open>retry_write\<close>: \<open>Inl\<close> is the jump back to the label after the
  capacity was adapted, \<open>Inr\<close> the return.
\<close>

definition tsdb_write_attempt ::
  "tsdb \<Rightarrow> u32 \<Rightarrow> i16 list \<Rightarrow> world \<Rightarrow> (tsdb \<times> world) + (esp_err \<times> tsdb \<times> world)" where
  "tsdb_write_attempt db ts vals w =
     (let record_idx = next_record_idx (header db);
          is_eviction = next_is_eviction (header db);
          db = db\<lparr>header := evict_header (header db)\<rparr>;
          rpb = ucast (records_per_block (header db));
          block_num = record_idx div rpb;
          offset_in_block = ucast (record_idx mod rpb) :: u16;
          blk = fill_block (header db) (existing_or_new (tsdb_read_block db block_num w))
                  (unat offset_in_block) ts vals;
          db = stage_block db (write_cache_offset db) blk
      in case tsdb_write_block db block_num blk w of
           (ret, w1) \<Rightarrow>
             if ret = ESP_ERR_NO_MEM \<and> \<not> is_eviction \<and> \<not> capacity_adapted db \<and>
                total_records (header db) > 0
             then (let db' = cap_at_total db in Inl (db', persist_cap db' w1))
             else if ret \<noteq> ESP_OK then Inr (ret, db, w1)
             else Inr (finish_write db record_idx is_eviction ts vals w1))"

lemma cap_at_total_adapted [simp]: "capacity_adapted (cap_at_total db)"
  by (simp add: cap_at_total_def)

lemma stage_block_fields [simp]:
  "db_file (stage_block db off blk) = db_file db"
  "header (stage_block db off blk) = header db"
  "filepath (stage_block db off blk) = filepath db"
  "is_open (stage_block db off blk) = is_open db"
  "read_buffer_offset (stage_block db off blk) = read_buffer_offset db"
  "write_cache_offset (stage_block db off blk) = write_cache_offset db"
  "query_buffer_offset (stage_block db off blk) = query_buffer_offset db"
  "capacity_adapted (stage_block db off blk) = capacity_adapted db"
  "migrating (stage_block db off blk) = migrating db"
  "closing (stage_block db off blk) = closing db"
  "sidecar_seq (stage_block db off blk) = sidecar_seq db"
  "sidecar_slot (stage_block db off blk) = sidecar_slot db"
  "legacy_slot (stage_block db off blk) = legacy_slot db"
  "legacy_seq (stage_block db off blk) = legacy_seq db"
  "legacy_mirrored (stage_block db off blk) = legacy_mirrored db"
  "side_dir_ready (stage_block db off blk) = side_dir_ready db"
  "db_extra_param_count (stage_block db off blk) = db_extra_param_count db"
  "overflow_data_offset (stage_block db off blk) = overflow_data_offset db"
  "db_first_overflow_record_idx (stage_block db off blk) = db_first_overflow_record_idx db"
  "db_overflow_record_size (stage_block db off blk) = db_overflow_record_size db"
  by (simp_all add: stage_block_def split: option.splits)

lemma write_attempt_Inl:
  "tsdb_write_attempt db ts vals w = Inl (db', w') \<Longrightarrow>
   \<not> capacity_adapted db \<and> capacity_adapted db'"
  by (auto simp: tsdb_write_attempt_def Let_def split: prod.splits if_splits)

function tsdb_write_retry :: "tsdb \<Rightarrow> u32 \<Rightarrow> i16 list \<Rightarrow> world \<Rightarrow> esp_err \<times> tsdb \<times> world" where
  "tsdb_write_retry db ts vals w =
     (case tsdb_write_attempt db ts vals w of
        Inl (db', w') \<Rightarrow> tsdb_write_retry db' ts vals w'
      | Inr r \<Rightarrow> r)"
  by pat_completeness auto
termination
  by (relation "measure (\<lambda>(db, ts, vals, w). if capacity_adapted db then 0 else 1)")
    (auto dest: write_attempt_Inl)

declare tsdb_write_retry.simps [simp del]

text \<open>The body once the lock is held, and the whole operation. \<open>None\<close> is a NULL pointer.\<close>

definition write_locked :: "tsdb \<Rightarrow> u32 \<Rightarrow> i16 list \<Rightarrow> world \<Rightarrow> esp_err \<times> tsdb \<times> world" where
  "write_locked db ts vals w =
     (case free_space_guard db w of (db', w') \<Rightarrow> tsdb_write_retry db' ts vals w')"

definition tsdb_write_h ::
  "tsdb option \<Rightarrow> u32 \<Rightarrow> i16 list option \<Rightarrow> world \<Rightarrow> esp_err \<times> tsdb option \<times> world" where
  "tsdb_write_h dbo ts valso w =
     (case dbo of
        None \<Rightarrow> (ESP_ERR_INVALID_STATE, None, w)
      | Some db \<Rightarrow>
          if \<not> is_open db then (ESP_ERR_INVALID_STATE, Some db, w)
          else (case valso of
             None \<Rightarrow> (ESP_ERR_INVALID_ARG, Some db, w)
           | Some vals \<Rightarrow>
               if migrating db \<or> closing db then (ESP_ERR_INVALID_STATE, Some db, w)
               else (case tsdb_lock_open w of
                  (Some e, w1) \<Rightarrow> (e, Some db, w1)
                | (None, w1) \<Rightarrow>
                    (case write_locked db ts vals w1 of (r, db', w2) \<Rightarrow> (r, Some db', w2)))))"

fun write_batch_loop ::
  "tsdb option \<Rightarrow> (u32 \<times> i16 list option) list \<Rightarrow> world \<Rightarrow> esp_err \<times> tsdb option \<times> world" where
  "write_batch_loop dbo [] w = (ESP_OK, dbo, w)"
| "write_batch_loop dbo ((ts, vals) # rest) w =
     (case tsdb_write_h dbo ts vals w of (ret, dbo', w') \<Rightarrow>
        if ret \<noteq> ESP_OK then (ret, dbo', w') else write_batch_loop dbo' rest w')"

text \<open>The arrays \<open>timestamps\<close> and \<open>values\<close> are read up to \<open>count\<close>.\<close>

definition tsdb_write_batch_h ::
  "tsdb option \<Rightarrow> u32 list option \<Rightarrow> i16 list option list option \<Rightarrow> u32 \<Rightarrow> world \<Rightarrow>
   esp_err \<times> tsdb option \<times> world" where
  "tsdb_write_batch_h dbo tso valso count w =
     (case dbo of
        None \<Rightarrow> (ESP_ERR_INVALID_STATE, None, w)
      | Some db \<Rightarrow>
          if \<not> is_open db then (ESP_ERR_INVALID_STATE, Some db, w)
          else (case (tso, valso) of
             (Some tss, Some vals) \<Rightarrow>
               if count = 0 then (ESP_ERR_INVALID_ARG, Some db, w)
               else write_batch_loop (Some db) (zip (take (unat count) tss) (take (unat count) vals)) w
           | _ \<Rightarrow> (ESP_ERR_INVALID_ARG, Some db, w)))"

section \<open>The block that is written\<close>

lemma set_block_params_cong:
  "(\<And>i. i < n \<Longrightarrow> v i = v' i) \<Longrightarrow> set_block_params b m r v n = set_block_params b m r v' n"
  by (induction n) simp_all

lemma fill_block_put_row:
  assumes "nparams h \<le> length vals"
  shows "fill_block h blk r ts vals =
    (let raw = put_row (rpb h) (nparams h) blk r (ts, take (nparams h) vals)
     in if r \<ge> unat (TSDB_BLOCK_COUNT raw) then set_block_count raw (of_nat (r + 1)) else raw)"
proof -
  have "set_block_params b m r (\<lambda>i. vals ! i) (nparams h) =
      set_block_params b m r (\<lambda>i. take (nparams h) vals ! i) (nparams h)" for b m
    using assms by (intro set_block_params_cong) simp
  then show ?thesis by (simp add: fill_block_def put_row_def)
qed

lemma fill_block:
  assumes "geom (rpb h) (nparams h)" "length blk = TSDB_BLOCK_SIZE" "r < rpb h" "nparams h \<le> length vals"
  shows "length (fill_block h blk r ts vals) = TSDB_BLOCK_SIZE"
    and "TSDB_BLOCK_MAGIC (fill_block h blk r ts vals) = TSDB_BLOCK_MAGIC blk"
    and "r' < rpb h \<Longrightarrow> block_row (rpb h) (nparams h) (fill_block h blk r ts vals) r' =
      (if r' = r then (ts, take (nparams h) vals) else block_row (rpb h) (nparams h) blk r')"
  using assms
  by (simp_all add: fill_block_put_row Let_def length_put_row length_set_block magic_set_count
      magic_put_row block_row_set_count block_row_put_row)

lemma existing_or_new:
  "length (existing_or_new (tsdb_read_block db b w)) = TSDB_BLOCK_SIZE"
  "TSDB_BLOCK_MAGIC (existing_or_new (tsdb_read_block db b w)) = BLKT_MAGIC"
  using read_block_length [of db b w]
  by (auto simp: existing_or_new_def split: prod.splits option.splits esp_err.splits)

section \<open>One block write\<close>

text \<open>
  The read-modify-write of the block that holds slot \<open>t\<close>, whatever its outcome: every other
  readable slot keeps its record, and if it succeeds slot \<open>t\<close> holds the new record.
\<close>

lemma write_block_fwrite:
  assumes "tsdb_write_block db b blk w = (ret, w')" "db_file db = Some p"
    and "block_pos (header db) (unat b) < 2 ^ 32" "length blk = TSDB_BLOCK_SIZE"
  obtains e where "fwrite_at w p (block_pos (header db) (unat b)) blk = (e, w')"
    "ret = ESP_OK \<longleftrightarrow> e = None" "ret = ESP_ERR_NO_MEM \<longleftrightarrow> e = Some ENOSPC"
  using assms
  by (auto simp: tsdb_write_block_def calc_block_offset_exact
      split: prod.splits option.splits errno.splits)

lemma write_block_sound [sound_keeps]: "tsdb_write_block db b blk w = (ret, w') \<Longrightarrow> sound w \<Longrightarrow> sound w'"
  by (auto simp: tsdb_write_block_def Let_def dest: sound_fwrite_at split: option.splits prod.splits errno.splits)

lemma block_rmw:
  assumes r_def: "r = t mod rpb (header db)" and sound: "sound w"
    and h: "geom (rpb (header db)) (nparams (header db))" "nparams (header db) \<le> length vals"
    and p: "db_file db = Some p" "block_pos (header db) (unat b) + TSDB_BLOCK_SIZE \<le> 2 ^ 32"
    and b: "unat b = t div rpb (header db)"
    and blk: "blk = fill_block (header db) (existing_or_new (tsdb_read_block db b w)) r ts vals"
    and wr: "tsdb_write_block db b blk w = (ret, w')"
  shows "s \<noteq> t \<Longrightarrow> slot_ok (header db) (content w p) s \<Longrightarrow>
      slot_ok (header db) (content w' p) s \<and>
      slot_row (header db) (content w' p) s = slot_row (header db) (content w p) s"
    and "ret = ESP_OK \<Longrightarrow> slot_ok (header db) (content w' p) t \<and>
      slot_row (header db) (content w' p) t = (ts, take (nparams (header db)) vals)"
proof -
  let ?h = "header db" and ?f = "content w p" and ?g = "content w' p"
  let ?pos = "block_pos ?h (unat b)"
  have r: "r < rpb ?h" using h by (simp add: r_def geom_def)
  note fb = fill_block [OF h(1) existing_or_new(1) [of db b w] r h(2), where ts = ts, folded blk]
  obtain e where fw: "fwrite_at w p ?pos blk = (e, w')" and e: "ret = ESP_OK \<longleftrightarrow> e = None"
    using write_block_fwrite [OF wr p(1) _ fb(1)] p(2) by auto
  {
    assume s: "s \<noteq> t" "slot_ok ?h ?f s"
    show "slot_ok ?h ?g s \<and> slot_row ?h ?g s = slot_row ?h ?f s"
    proof (cases "s div rpb ?h = t div rpb ?h")
      case False
      have "i < ?pos \<or> ?pos + length blk \<le> i"
        if "block_pos ?h (s div rpb ?h) \<le> i" "i < block_pos ?h (s div rpb ?h) + TSDB_BLOCK_SIZE" for i
        using block_pos_apart [OF False, of ?h] that fb(1) b by auto
      then show ?thesis
        using slot_keeps [OF fwrite_at_keeps_outside [OF fw] s(2)] by blast
    next
      case True
      have s_off: "s mod rpb ?h < rpb ?h" "s mod rpb ?h \<noteq> r"
        using h s(1) True r_def by (auto simp: geom_def) (metis div_mult_mod_eq)
      have old: "slot_block ?h ?f s = chunk ?f ?pos TSDB_BLOCK_SIZE"
        "?pos + TSDB_BLOCK_SIZE \<le> length ?f" "TSDB_BLOCK_MAGIC (chunk ?f ?pos TSDB_BLOCK_SIZE) = BLKT_MAGIC"
        using s(2) b True by (simp_all add: slot_block_def slot_ok_def)
      have "existing_or_new (tsdb_read_block db b w) = chunk ?f ?pos TSDB_BLOCK_SIZE"
        using old p sound by (simp add: existing_or_new_def read_block_Some)
      then have "block_row (rpb ?h) (nparams ?h) blk (s mod rpb ?h) =
          block_row (rpb ?h) (nparams ?h) (chunk ?f ?pos TSDB_BLOCK_SIZE) (s mod rpb ?h)"
        and "TSDB_BLOCK_MAGIC blk = TSDB_BLOCK_MAGIC (chunk ?f ?pos TSDB_BLOCK_SIZE)"
        using fb(2,3) s_off by simp_all
      with torn_block_row [OF fw fb(1) old(2) h(1) s_off(1)] torn_block_magic [OF fw fb(1) old(2)]
        keeps_length [OF fwrite_at_keeps [OF fw]] s(2) old b True
      show ?thesis by (simp add: slot_ok_def slot_row_def slot_block_def)
    qed
  }
  {
    assume "ret = ESP_OK"
    then obtain k where "content w' p = overlay ?f ?pos (take k blk)" "length blk \<le> k"
      using fwrite_at_cases [OF fw] e sound by metis
    then have g: "?g = overlay ?f ?pos blk" by simp
    then have "slot_block ?h ?g t = blk"
      using b fb(1) by (simp add: slot_block_def chunk_overlay_same)
    moreover have "?pos + TSDB_BLOCK_SIZE \<le> length ?g"
      using g fb(1) by (auto simp: length_overlay)
    ultimately show "slot_ok ?h ?g t \<and> slot_row ?h ?g t = (ts, take (nparams ?h) vals)"
      using fb(2,3) r b p(2) existing_or_new(2) by (simp add: slot_ok_def slot_row_def r_def)
  }
qed

section \<open>The other steps keep the slots\<close>

lemma write_header_keeps:
  assumes "tsdb_write_header (Some p) h w = (r, w')" "header_wf h"
  shows "keeps (\<lambda>i. TSDB_HDR_SIZE \<le> i) (content w p) (content w' p)"
proof -
  obtain e where "fwrite_at w p 0 (encode_header h) = (e, w')"
    using assms(1) by (auto simp: tsdb_write_header_def split: prod.splits option.splits)
  from keeps_mono [OF fwrite_at_keeps_outside [OF this]] show ?thesis
    using length_encode_header [OF assms(2)] by auto
qed

lemma persist_cap_keeps:
  assumes "db_file db = Some p" "header_wf (header db)"
  shows "keeps (\<lambda>i. TSDB_HDR_SIZE \<le> i) (content w p) (content (persist_cap db w) p)"
proof -
  obtain r w1 where 1: "tsdb_write_header (Some p) (header db) w = (r, w1)" by fastforce
  obtain r' w2 where 2: "tsdb_write_header (Some p) (header db) w1 = (r', w2)" by fastforce
  note k1 = write_header_keeps [OF 1 assms(2)] and k2 = write_header_keeps [OF 2 assms(2)]
  have "keeps (\<lambda>i. TSDB_HDR_SIZE \<le> i) (content w p) (content w2 p)"
    by (rule keeps_mono [OF keeps_trans [OF k1 k2]]) simp
  with assms(1) 1 2 k1 show ?thesis by (simp add: persist_cap_def)
qed

lemma slot_keeps_data:
  assumes "keeps (\<lambda>i. TSDB_HDR_SIZE \<le> i) f g" "slot_ok h f s" "TSDB_HDR_SIZE \<le> data_start h"
  shows "slot_ok h g s \<and> slot_row h g s = slot_row h f s"
  using slot_keeps [OF assms(1,2)] assms(3) data_start_le_block_pos [of h "s div rpb h"] by auto

lemma length_concat_le16 [simp]: "length (concat (map le16 xs)) = 2 * length xs"
  by (induction xs) simp_all

text \<open>No wrap-around in the offset of the overflow values of the next record.\<close>

definition ovf_room :: "tsdb \<Rightarrow> bool" where
  "ovf_room db \<longleftrightarrow> db_extra_param_count db = 0 \<or>
     unat (overflow_data_offset db) +
     (nrec (header db) - unat (db_first_overflow_record_idx db)) * unat (db_overflow_record_size db) < 2 ^ 32"

lemma ovf_offset_ge:
  assumes "ovf_room db" "db_extra_param_count db \<noteq> 0"
    and "total_records (header db) \<ge> db_first_overflow_record_idx db"
  shows "unat (overflow_data_offset db) \<le>
    unat (overflow_data_offset db +
      (total_records (header db) - db_first_overflow_record_idx db) * ucast (db_overflow_record_size db))"
proof -
  let ?n = "total_records (header db) - db_first_overflow_record_idx db"
  have n: "unat ?n = nrec (header db) - unat (db_first_overflow_record_idx db)"
    using assms(3) by (simp add: unat_sub)
  have m: "unat (?n * ucast (db_overflow_record_size db)) = unat ?n * unat (db_overflow_record_size db)"
    using assms(1,2) n by (subst unat_mult_no_wrap) (auto simp: unat_u16_u32 ovf_room_def)
  show ?thesis
    using assms(1,2) n m by (subst unat_add_no_wrap) (auto simp: ovf_room_def)
qed

lemma write_overflow_keeps:
  assumes "db_file db = Some p" "ovf_room db"
  shows "keeps (\<lambda>i. db_extra_param_count db = 0 \<or> i < unat (overflow_data_offset db))
    (content w p) (content (write_overflow db vals w) p)"
proof (cases "db_extra_param_count db > 0 \<and> total_records (header db) \<ge> db_first_overflow_record_idx db")
  case True
  let ?off = "overflow_data_offset db +
      (total_records (header db) - db_first_overflow_record_idx db) * ucast (db_overflow_record_size db)"
  let ?d = "concat (map le16 (take (unat (db_extra_param_count db)) (drop (nparams (header db)) vals)))"
  have off: "unat (overflow_data_offset db) \<le> unat ?off"
    using ovf_offset_ge [OF assms(2)] True by auto
  obtain e w' where fw: "fwrite_at w p (unat ?off) ?d = (e, w')" by fastforce
  have "keeps (\<lambda>i. db_extra_param_count db = 0 \<or> i < unat (overflow_data_offset db))
      (content w p) (content w' p)"
    by (rule keeps_mono [OF fwrite_at_keeps_outside [OF fw]]) (use off True in auto)
  with True assms(1) fw show ?thesis by (simp add: write_overflow_def Let_def)
qed (auto simp: write_overflow_def)

lemma write_overflow_other: "q \<noteq> p \<Longrightarrow> db_file db = Some p \<Longrightarrow>
  content (write_overflow db vals w) q = content w q"
  by (auto simp: write_overflow_def Let_def split: option.splits prod.splits
      intro: fwrite_at_other [OF surjective_pairing])

lemma write_overflow_sound [sound_keeps]: "sound w \<Longrightarrow> sound (write_overflow db vals w)"
  by (auto simp: write_overflow_def Let_def split: option.splits intro: sound_fwrite_at [OF surjective_pairing])

lemma write_header_sound [sound_keeps]: "tsdb_write_header f h w = (r, w') \<Longrightarrow> sound w \<Longrightarrow> sound w'"
  by (auto simp: tsdb_write_header_def dest: sound_fwrite_at split: option.splits prod.splits)

lemma persist_cap_sound [sound_keeps]: "sound w \<Longrightarrow> sound (persist_cap db w)"
  by (auto simp: persist_cap_def dest: write_header_sound intro: write_header_sound [OF surjective_pairing]
      split: prod.splits)

section \<open>Completing a write\<close>

lemma same_pool: "\<exists>pl. db = db\<lparr>pool := pl\<rparr>"
  by (rule exI [of _ "pool db"]) simp

lemma stage_block_pool: "\<exists>pl. stage_block db off blk = db\<lparr>pool := pl\<rparr>"
  unfolding stage_block_def by (auto split: option.splits intro: same_pool)

lemma pool_header: "db\<lparr>pool := pl, header := h\<rparr> = db\<lparr>header := h, pool := pl\<rparr>"
  by simp

lemma advance_header_form:
  "\<exists>t pl. advance_header db ri ev ts w =
     db\<lparr>header := (header db)\<lparr>total_records := total_records (header db) + 1,
       total_writes := total_writes (header db) + 1, newest_record_idx := ri, newest_timestamp := ts,
       oldest_timestamp := t\<rparr>, pool := pl\<rparr>"
proof -
  let ?h = "(header db)\<lparr>total_records := total_records (header db) + 1,
     total_writes := total_writes (header db) + 1, newest_record_idx := ri, newest_timestamp := ts\<rparr>"
  let ?q = "tsdb_read_block (db\<lparr>header := ?h\<rparr>)
    (oldest_record_idx (header db) div ucast (records_per_block (header db))) w"
  consider (read) b where "ev" "?q = (ESP_OK, Some b)"
    | (unread) "ev" "\<And>b. ?q \<noteq> (ESP_OK, Some b)" | (grow) "\<not> ev"
    by blast
  then show ?thesis
  proof cases
    case read
    with stage_block_pool [of "db\<lparr>header := ?h\<rparr>" "read_buffer_offset db" b] show ?thesis
      by (elim exE) (rule exI, rule exI, simp add: advance_header_def Let_def pool_header)
  next
    case unread
    then have "advance_header db ri ev ts w = db\<lparr>header := ?h\<rparr>"
      by (auto simp: advance_header_def Let_def split: prod.splits esp_err.splits option.splits)
    then show ?thesis
      by (intro exI [of _ "oldest_timestamp (header db)"] exI [of _ "pool db"]) simp
  next
    case grow
    then show ?thesis
      by (intro exI [of _ "if total_records (header db) + 1 = 1 then ts else oldest_timestamp (header db)"]
          exI [of _ "pool db"]) (simp add: advance_header_def Let_def)
  qed
qed

lemma advance_header:
  obtains h pl where "advance_header db ri ev ts w = db\<lparr>header := h, pool := pl\<rparr>"
    "same_geom (header db) h" "total_records h = total_records (header db) + 1"
    "max_records h = max_records (header db)" "oldest_record_idx h = oldest_record_idx (header db)"
    "newest_timestamp h = ts" "newest_record_idx h = ri"
  using advance_header_form [of db ri ev ts w]
  by (elim exE) (rule that, assumption, simp_all add: same_geom_def header_wf_def)

lemma finish_write:
  assumes "finish_write db ri ev ts vals w = (r, db', w')"
  shows "r = ESP_OK"
    and "same_frame db db'"
    and "total_records (header db') = total_records (header db) + 1"
    and "max_records (header db') = max_records (header db)"
    and "oldest_record_idx (header db') = oldest_record_idx (header db)"
    and "content w' (filepath db) = content (write_overflow db vals w) (filepath db)"
    and "sound w \<Longrightarrow> sound w'"
proof -
  let ?w = "write_overflow db vals w"
  obtain h pl where ah: "advance_header db ri ev ts ?w = db\<lparr>header := h, pool := pl\<rparr>"
    "same_geom (header db) h" "total_records h = total_records (header db) + 1"
    "max_records h = max_records (header db)" "oldest_record_idx h = oldest_record_idx (header db)"
    by (rule advance_header)
  obtain x where mi: "mark_index (db\<lparr>header := h, pool := pl\<rparr>) ri = db\<lparr>header := h, pool := pl, index_stale := x\<rparr>"
    by (cases "ri mod index_stride h = 0 \<and> ri div index_stride h < index_entries h")
      (auto simp: mark_index_def Let_def intro: that [of "index_stale db"])
  obtain db1 where sw: "tsdb_sidecar_write (db\<lparr>header := h, pool := pl, index_stale := x\<rparr>) ?w = (fst (tsdb_sidecar_write (db\<lparr>header := h, pool := pl, index_stale := x\<rparr>) ?w), db1, w')"
    and r: "r = ESP_OK" and db': "db' = db1\<lparr>in_file_header_stale := True\<rparr>"
    using assms by (auto simp: finish_write_def Let_def ah(1) mi split: prod.splits)
  obtain a b c d e g where db1: "db1 = db\<lparr>header := h, pool := pl, index_stale := x, sidecar_seq := a,
      sidecar_slot := b, legacy_slot := c, legacy_seq := d, legacy_mirrored := e, side_dir_ready := g\<rparr>"
    using sidecar_write_db [OF sw] by metis
  show "r = ESP_OK" by (rule r)
  show "same_frame db db'" "total_records (header db') = total_records (header db) + 1"
    "max_records (header db') = max_records (header db)"
    "oldest_record_idx (header db') = oldest_record_idx (header db)"
    using ah by (simp_all add: db' db1 same_frame_def)
  show "content w' (filepath db) = content ?w (filepath db)"
    by (rule content_cong [OF sidecar_write_fs [OF sw]]) simp
  show "sound w \<Longrightarrow> sound w'"
    by (rule sidecar_write_sound [OF sw]) (rule write_overflow_sound)
qed

section \<open>One pass\<close>

text \<open>What the next write needs beyond the invariant: 32-bit offsets and counters that do not wrap.\<close>

definition room :: "tsdb \<Rightarrow> bool" where
  "room db \<longleftrightarrow>
     (let h = header db
      in nrec h + 1 < 2 ^ 32 \<and> block_pos h (slot_of h (nrec h) div rpb h) + TSDB_BLOCK_SIZE \<le> 2 ^ 32 \<and>
         ovf_room db)"

lemma evict_header [simp]:
  "same_geom h (evict_header h)" "total_records (evict_header h) = total_records h"
  "max_records (evict_header h) = max_records h" "slot_of (evict_header h) = slot_of h"
  "avail (evict_header h) = avail h"
  by (simp_all add: evict_header_def same_geom_def header_wf_def slot_of_def avail_def fun_eq_iff)

lemma next_record_idx: "unat (next_record_idx h) = slot_of h (nrec h)"
  by (simp add: next_record_idx_def slot_of_def unat_mod)

lemma next_is_eviction: "next_is_eviction h \<longleftrightarrow> max_records h \<noteq> 0 \<and> cap h \<le> nrec h"
  by (simp add: next_is_eviction_def word_le_nat_alt)

lemma block_io_cong:
  assumes "db_file db' = db_file db" "header db' = header db"
  shows "tsdb_read_block db' = tsdb_read_block db" "tsdb_write_block db' = tsdb_write_block db"
  using assms
  by (simp_all add: tsdb_read_block_def tsdb_write_block_def fun_eq_iff cong: option.case_cong)

text \<open>
  The pass taken apart: the state the block is written from, the outcome \<open>ret\<close> of that write,
  and what it did to the slots.
\<close>

definition evicted :: "tsdb \<Rightarrow> buffer_pool \<Rightarrow> tsdb" where
  "evicted db pl = db\<lparr>header := evict_header (header db), pool := pl\<rparr>"

definition after_block ::
  "tsdb \<Rightarrow> u32 \<Rightarrow> i16 list \<Rightarrow> buffer_pool \<Rightarrow> esp_err \<Rightarrow> world \<Rightarrow> (tsdb \<times> world) + (esp_err \<times> tsdb \<times> world)" where
  "after_block db ts vals pl ret w1 =
     (if ret = ESP_ERR_NO_MEM \<and> \<not> next_is_eviction (header db) \<and> \<not> capacity_adapted db \<and>
         total_records (header db) > 0
      then Inl (cap_at_total (evicted db pl), persist_cap (cap_at_total (evicted db pl)) w1)
      else if ret \<noteq> ESP_OK then Inr (ret, evicted db pl, w1)
      else Inr (finish_write (evicted db pl) (next_record_idx (header db)) (next_is_eviction (header db))
                  ts vals w1))"

definition slots_except :: "tsdb_header \<Rightarrow> nat \<Rightarrow> bytes \<Rightarrow> bytes \<Rightarrow> bool" where
  "slots_except h t f g \<longleftrightarrow>
     (\<forall>s. s \<noteq> t \<longrightarrow> slot_ok h f s \<longrightarrow> slot_ok h g s \<and> slot_row h g s = slot_row h f s)"

definition slot_holds :: "tsdb_header \<Rightarrow> bytes \<Rightarrow> nat \<Rightarrow> row \<Rightarrow> bool" where
  "slot_holds h g t x \<longleftrightarrow> slot_ok h g t \<and> slot_row h g t = x"

lemma attempt_elim:
  assumes inv: "db_inv db w" "room db" "nparams (header db) \<le> length vals"
  obtains pl ret w1 where "tsdb_write_attempt db ts vals w = after_block db ts vals pl ret w1"
    "slots_except (header db) (slot_of (header db) (nrec (header db)))
       (content w (filepath db)) (content w1 (filepath db))"
    "ret = ESP_OK \<longrightarrow> slot_holds (header db) (content w1 (filepath db))
       (slot_of (header db) (nrec (header db))) (ts, take (nparams (header db)) vals)" "sound w1"
proof -
  let ?h = "header db" and ?p = "filepath db"
  let ?t = "slot_of ?h (nrec ?h)"
  have sw: "sound w" using inv(1) by (simp add: db_inv_def)
  define db1 where "db1 = db\<lparr>header := evict_header ?h\<rparr>"
  define bn where "bn = next_record_idx ?h div ucast (records_per_block ?h)"
  define r where "r = unat (ucast (next_record_idx ?h mod ucast (records_per_block ?h)) :: u16)"
  define blk where "blk = fill_block (header db1) (existing_or_new (tsdb_read_block db1 bn w)) r ts vals"
  obtain pl where pl: "stage_block db1 (write_cache_offset db1) blk = db1\<lparr>pool := pl\<rparr>"
    using stage_block_pool by blast
  obtain ret w1 where wr: "tsdb_write_block db1 bn blk w = (ret, w1)" by fastforce
  have wr2: "tsdb_write_block (db1\<lparr>pool := pl\<rparr>) bn blk w = (ret, w1)"
    using wr block_io_cong(2) [of "db1\<lparr>pool := pl\<rparr>" db1] by simp
  have geo: "same_geom ?h (header db1)" by (simp add: db1_def)
  note gs = same_geom_simps [OF geo]
  have rpb_eq: "records_per_block (evict_header ?h) = records_per_block ?h"
    using evict_header(1) [of ?h] by (simp only: same_geom_def)
  have rh: "geom (rpb ?h) (nparams ?h)"
    using inv(1) by (simp add: db_inv_def ring_inv_def ring_hdr_def)
  have bn: "unat bn = ?t div rpb ?h"
    by (simp add: bn_def unat_div next_record_idx unat_u16_u32)
  have "?t mod rpb ?h < rpb ?h" "rpb ?h < 65536"
    using rh by (auto simp: geom_def)
  then have "?t mod rpb ?h < 65536" by (rule less_trans)
  then have r: "r = ?t mod rpb ?h"
    by (simp add: r_def unat_u32_u16 unat_mod next_record_idx unat_u16_u32)
  have att: "tsdb_write_attempt db ts vals w = after_block db ts vals pl ret w1"
    using pl wr2 unfolding tsdb_write_attempt_def Let_def blk_def r_def bn_def db1_def
    by (simp add: rpb_eq after_block_def evicted_def)
  note rmw = block_rmw [where db = db1 and t = ?t and r = r and b = bn and w = w and p = ?p
      and vals = vals and blk = blk and ts = ts and ret = ret and w' = w1, unfolded gs]
  have pre: "db_file db1 = Some ?p" "block_pos ?h (unat bn) + TSDB_BLOCK_SIZE \<le> 2 ^ 32"
    using inv bn by (simp_all add: db_inv_def db1_def room_def Let_def)
  show ?thesis
    using rmw [OF r sw rh inv(3) pre bn blk_def wr] write_block_sound [OF wr sw]
    by (intro that [OF att]) (auto simp: slots_except_def slot_holds_def)
qed

lemma evict_oldest:
  assumes "ring_hdr h"
  shows "unat (oldest_record_idx (evict_header h)) =
    (if max_records h = 0 \<or> nrec h + 1 < cap h then 0 else (nrec h + 1) mod cap h)"
proof (cases "next_is_eviction h")
  case True
  then have c: "max_records h \<noteq> 0" "cap h \<le> nrec h" by (simp_all add: next_is_eviction)
  then have o: "unat (oldest_record_idx h) = nrec h mod cap h"
    using assms by (simp add: ring_hdr_def)
  have "nrec h mod cap h < cap h" using cap_pos [OF c(1)] by simp
  then have "unat (oldest_record_idx h) + 1 < 4294967296"
    using o unat_u32_bound [of "max_records h"] by simp
  then have "unat (oldest_record_idx h + 1) = nrec h mod cap h + 1"
    using o by (simp add: unat_inc_no_wrap)
  then show ?thesis
    using True c by (simp add: evict_header_def unat_mod mod_Suc_eq)
next
  case False
  then have "max_records h = 0 \<or> nrec h + 1 < cap h \<or> nrec h + 1 = cap h"
    by (auto simp: next_is_eviction)
  then show ?thesis
    using assms False by (elim disjE) (simp_all add: evict_header_def next_is_eviction ring_hdr_def)
qed

lemma ring_hdr_next:
  assumes "ring_hdr h" "nrec h + 1 < 2 ^ 32" "same_geom h k" "total_records k = total_records h + 1"
    and "max_records k = max_records h" "oldest_record_idx k = oldest_record_idx (evict_header h)"
  shows "ring_hdr k"
proof -
  have "nrec k = nrec h + 1"
    using assms(2,4) by (simp add: unat_inc_no_wrap)
  then show ?thesis
    using assms evict_oldest [OF assms(1)] by (simp add: ring_hdr_def same_geom_simps [OF assms(3)])
qed

lemma avail_next:
  assumes "nrec k = nrec h + 1" "max_records k = max_records h" "s < avail k"
  shows "s = slot_of h (nrec h) \<or> s < avail h"
  using assms by (auto simp: avail_def slot_of_def min_def split: if_splits)

lemma block_pos_mono: "b \<le> b' \<Longrightarrow> block_pos h b \<le> block_pos h b'"
  by (simp add: block_pos_def)

lemma slot_keeps_overflow:
  assumes "ovf_clear db" "max_records (header db) \<noteq> 0 \<longrightarrow> s < cap (header db)"
    and "keeps (\<lambda>i. db_extra_param_count db = 0 \<or> i < unat (overflow_data_offset db)) f g"
    and "slot_ok (header db) f s"
  shows "slot_ok (header db) g s \<and> slot_row (header db) g s = slot_row (header db) f s"
proof -
  let ?h = "header db"
  have "db_extra_param_count db = 0 \<or>
      block_pos ?h (s div rpb ?h) + TSDB_BLOCK_SIZE \<le> unat (overflow_data_offset db)"
  proof (cases "db_extra_param_count db = 0")
    case False
    with assms(1,2) have "s \<le> cap ?h - 1"
      "block_pos ?h ((cap ?h - 1) div rpb ?h) + TSDB_BLOCK_SIZE \<le> unat (overflow_data_offset db)"
      by (auto simp: ovf_clear_def Let_def)
    with block_pos_mono [OF div_le_mono [OF this(1), of "rpb ?h"], of ?h] show ?thesis by simp
  qed simp
  with slot_keeps [OF assms(3,4)] show ?thesis by auto
qed

lemma same_frame_evicted: "same_frame db (evicted db pl)"
  by (simp add: evicted_def same_frame_def)

lemma same_frame_cap: "same_frame db (cap_at_total db)"
  by (simp add: cap_at_total_def same_frame_def same_geom_def header_wf_def)

lemma ovf_clear_frame:
  "same_frame db db' \<Longrightarrow> max_records (header db') = max_records (header db) \<Longrightarrow> ovf_clear db' = ovf_clear db"
  by (simp add: ovf_clear_def Let_def same_geom_simps [OF same_frame_geom]) (simp add: same_frame_def)

text \<open>The slots at the end of a pass whose block write succeeded.\<close>

lemma finish_slots:
  assumes inv: "db_inv db w" "room db"
    and others: "slots_except (header db) t (content w (filepath db)) (content w1 (filepath db))"
    and new: "slot_holds (header db) (content w1 (filepath db)) t x"
    and t: "t = slot_of (header db) (nrec (header db))"
    and fin: "finish_write (evicted db pl) ri ev ts vals w1 = (r, db', w')"
  shows "s < avail (header db) \<Longrightarrow> s \<noteq> t \<Longrightarrow> slot_ok (header db) (content w' (filepath db)) s \<and>
      slot_row (header db) (content w' (filepath db)) s = slot_row (header db) (content w (filepath db)) s"
    and "slot_holds (header db) (content w' (filepath db)) t x"
proof -
  let ?h = "header db" and ?p = "filepath db" and ?db = "evicted db pl"
  note gs = same_geom_simps [OF same_frame_geom [OF same_frame_evicted [of db pl]]]
  have e: "filepath ?db = ?p" "max_records (header ?db) = max_records ?h"
    by (simp_all add: evicted_def)
  have "ovf_clear ?db" "ovf_room ?db" "db_file ?db = Some ?p"
    using inv ovf_clear_frame [OF same_frame_evicted e(2)]
    by (simp_all add: db_inv_def room_def Let_def) (simp_all add: evicted_def ovf_room_def)
  note ovf = slot_keeps_overflow [OF this(1) _ write_overflow_keeps [OF this(3,2)], unfolded gs]
  have g: "content w' ?p = content (write_overflow ?db vals w1) ?p"
    using finish_write(6) [OF fin] e by simp
  have kept: "slot_ok ?h (content w' ?p) s \<and>
      slot_row ?h (content w' ?p) s = slot_row ?h (content w1 ?p) s"
    if "slot_ok ?h (content w1 ?p) s" "max_records ?h \<noteq> 0 \<longrightarrow> s < cap ?h" for s
    unfolding g using that e by (intro ovf) simp_all
  have "max_records ?h \<noteq> 0 \<longrightarrow> t < cap ?h"
    using cap_pos [of ?h] by (simp add: t slot_of_def)
  with kept new show "slot_holds ?h (content w' ?p) t x" by (simp add: slot_holds_def)
  assume s: "s < avail ?h" "s \<noteq> t"
  then have "max_records ?h \<noteq> 0 \<longrightarrow> s < cap ?h" "slot_ok ?h (content w ?p) s"
    using inv(1) by (auto simp: avail_def db_inv_def ring_inv_def)
  with kept others s(2) show "slot_ok ?h (content w' ?p) s \<and>
      slot_row ?h (content w' ?p) s = slot_row ?h (content w ?p) s"
    by (simp add: slots_except_def)
qed

text \<open>Advancing the header over a ring whose next slot holds the new record.\<close>

lemma ring_advance:
  assumes h: "ring_hdr h" "nrec h + 1 < 2 ^ 32" "same_geom h k" "total_records k = total_records h + 1"
      "max_records k = max_records h" "oldest_record_idx k = oldest_record_idx (evict_header h)"
    and old: "\<And>s. s < avail h \<Longrightarrow> s \<noteq> slot_of h (nrec h) \<Longrightarrow> slot_ok h g s \<and> slot_row h g s = slot_row h f s"
    and new: "slot_holds h g (slot_of h (nrec h)) x"
  shows "ring_inv k g" "retained k g = within (limit_of k) (retained h f @ [x])"
proof -
  have n: "nrec k = nrec h + 1" using h(2,4) by (simp add: unat_inc_no_wrap)
  have "slot_ok h g s" if "s < avail k" for s
    using avail_next [OF n h(5) that] old [of s] new by (auto simp: slot_holds_def)
  then show "ring_inv k g"
    using ring_hdr_next [OF h] by (simp add: ring_inv_def same_geom_simps [OF h(3)])
  have x: "slot_row h g (slot_of h (nrec h)) = x" using new by (simp add: slot_holds_def)
  show "retained k g = within (limit_of k) (retained h f @ [x])"
  proof (rule retained_append [OF h(3) n h(5) _ x])
    fix j
    assume j: "nrec h + 1 - avail k \<le> j" "j < nrec h"
    have "slot_of h j \<noteq> slot_of h (nrec h)"
      using j n h(5) cap_pos [of h] by (intro slot_of_neq) (auto simp: avail_def split: if_splits)
    moreover have "slot_of h j < avail h"
      using j n h(5) by (intro slot_of_less) (auto simp: avail_def split: if_splits)
    ultimately show "slot_row h g (slot_of h j) = slot_row h f (slot_of h j)"
      using old by blast
  qed
qed

lemma attempt_ok:
  assumes inv: "db_inv db w" "room db" "nparams (header db) \<le> length vals"
    and att: "tsdb_write_attempt db ts vals w = Inr (ESP_OK, db', w')"
  shows "db_inv db' w' \<and> same_frame db db' \<and>
    max_records (header db') = max_records (header db) \<and> nrec (header db') = nrec (header db) + 1 \<and>
    retained (header db') (content w' (filepath db)) =
      within (limit_of (header db')) (retained (header db) (content w (filepath db)) @ [(ts, take (nparams (header db)) vals)])"
proof -
  let ?h = "header db" and ?p = "filepath db"
  let ?t = "slot_of ?h (nrec ?h)" and ?x = "(ts, take (nparams ?h) vals)"
  obtain pl ret w1 where split: "tsdb_write_attempt db ts vals w = after_block db ts vals pl ret w1"
    and others: "slots_except ?h ?t (content w ?p) (content w1 ?p)"
    and new: "ret = ESP_OK \<longrightarrow> slot_holds ?h (content w1 ?p) ?t ?x" and sw: "sound w1"
    by (rule attempt_elim [OF inv, where ts = ts])
  have ret: "ret = ESP_OK" and fin: "finish_write (evicted db pl) (next_record_idx ?h)
      (next_is_eviction ?h) ts vals w1 = (ESP_OK, db', w')"
    using att split by (auto simp: after_block_def split: if_splits)
  note fw = finish_write [OF fin]
  have fr: "same_frame db db'" by (rule same_frame_trans [OF same_frame_evicted fw(2)])
  have k: "total_records (header db') = total_records ?h + 1"
    "max_records (header db') = max_records ?h"
    "oldest_record_idx (header db') = oldest_record_idx (evict_header ?h)"
    using fw(3-5) by (simp_all add: evicted_def)
  have h: "ring_hdr ?h" "nrec ?h + 1 < 2 ^ 32"
    using inv by (simp_all add: db_inv_def ring_inv_def room_def Let_def)
  note fs = finish_slots [OF inv(1,2) others new [rule_format, OF ret] refl fin]
  note ra = ring_advance [OF h same_frame_geom [OF fr] k fs]
  have "db_inv db' w'"
    using inv(1) fr ra(1) ovf_clear_frame [OF fr k(2)] fw(7) [OF sw] by (simp add: db_inv_def same_frame_def)
  with fr k ra(2) h(2) show ?thesis by (simp add: unat_inc_no_wrap)
qed

section \<open>Passes that do not store the record\<close>

lemma not_evicting:
  assumes "\<not> next_is_eviction h"
  shows "evict_header h = h" "avail h = nrec h" "slot_of h (nrec h) = nrec h"
    "j < nrec h \<Longrightarrow> slot_of h j = j"
  using assms by (auto simp: evict_header_def next_is_eviction avail_def slot_of_def)

text \<open>A block write that failed while the file was still growing damaged no retained record.\<close>

lemma failed_growth:
  assumes inv: "db_inv db w" "sound w1" and ne: "\<not> next_is_eviction (header db)"
    and sl: "slots_except (header db) (slot_of (header db) (nrec (header db)))
      (content w (filepath db)) (content w1 (filepath db))"
  shows "db_inv (evicted db pl) w1"
    and "retained (header db) (content w1 (filepath db)) = retained (header db) (content w (filepath db))"
proof -
  let ?h = "header db" and ?f = "content w (filepath db)" and ?g = "content w1 (filepath db)"
  have s: "slot_ok ?h ?g s \<and> slot_row ?h ?g s = slot_row ?h ?f s" if "s < avail ?h" for s
    using sl inv that not_evicting(2,3) [OF ne]
    by (auto simp: slots_except_def db_inv_def ring_inv_def)
  then show "db_inv (evicted db pl) w1"
    using inv by (simp add: db_inv_def ring_inv_def evicted_def not_evicting(1) [OF ne] ovf_clear_def)
  show "retained ?h ?g = retained ?h ?f"
    using s slot_of_less [of _ ?h] by (intro retained_cong) auto
qed

text \<open>Capping the capacity at the number of records written keeps the database as it is.\<close>

lemma cap_at_total_inv:
  assumes inv: "db_inv db w" "room db" and ne: "\<not> next_is_eviction (header db)"
    and pos: "total_records (header db) > 0"
  shows "db_inv (cap_at_total db) (persist_cap (cap_at_total db) w)" "room (cap_at_total db)"
    and "retained (header (cap_at_total db)) (content (persist_cap (cap_at_total db) w) (filepath db)) =
      retained (header db) (content w (filepath db))"
proof -
  let ?h = "header db" and ?f = "content w (filepath db)" and ?k = "header (cap_at_total db)"
  let ?g = "content (persist_cap (cap_at_total db) w) (filepath db)"
  have n: "0 < nrec ?h" using pos by (simp add: word_less_nat_alt)
  have geo: "same_geom ?h ?k" by (simp add: cap_at_total_def same_geom_def header_wf_def)
  note gs = same_geom_simps [OF geo]
  have k: "total_records ?k = total_records ?h" "max_records ?k = total_records ?h"
    "oldest_record_idx ?k = oldest_record_idx ?h" by (simp_all add: cap_at_total_def)
  have ri: "ring_hdr ?h" "\<And>s. s < avail ?h \<Longrightarrow> slot_ok ?h ?f s" and df: "db_file db = Some (filepath db)"
    using inv(1) by (auto simp: db_inv_def ring_inv_def)
  have "keeps (\<lambda>i. TSDB_HDR_SIZE \<le> i) ?f ?g"
    using ri(1) df gs(7) by (intro persist_cap_keeps) (simp_all add: ring_hdr_def, simp add: cap_at_total_def)
  then have s: "slot_ok ?h ?g s \<and> slot_row ?h ?g s = slot_row ?h ?f s" if "s < avail ?h" for s
    using slot_keeps_data ri that by (simp add: ring_hdr_def)
  have av: "avail ?k = avail ?h" and nz: "total_records ?h \<noteq> 0"
    using not_evicting(2) [OF ne] k n by (auto simp: avail_def)
  have hdr: "ring_hdr ?k"
    using ri(1) ne nz by (auto simp: ring_hdr_def gs k next_is_eviction)
  moreover have "ovf_clear (cap_at_total db)"
  proof (cases "db_extra_param_count db = 0")
    case False
    then have oc: "max_records ?h \<noteq> 0"
      "block_pos ?h ((cap ?h - 1) div rpb ?h) + TSDB_BLOCK_SIZE \<le> unat (overflow_data_offset db)"
      using inv(1) by (auto simp: db_inv_def ovf_clear_def Let_def)
    have "(nrec ?h - 1) div rpb ?h \<le> (cap ?h - 1) div rpb ?h"
      using ne oc(1) by (intro div_le_mono) (auto simp: next_is_eviction)
    from block_pos_mono [OF this, of ?h] oc(2) nz show ?thesis
      by (simp add: ovf_clear_def gs k) (simp add: cap_at_total_def)
  qed (simp add: ovf_clear_def cap_at_total_def)
  ultimately show "db_inv (cap_at_total db) (persist_cap (cap_at_total db) w)"
    using s av df inv(1) by (simp add: db_inv_def ring_inv_def gs persist_cap_sound) (simp add: cap_at_total_def)
  have "slot_ok ?h ?f 0" using ri(2) n not_evicting(2) [OF ne] by simp
  then show "room (cap_at_total db)"
    using inv(2) nz by (simp add: room_def Let_def gs k slot_of_def slot_ok_def ovf_room_def)
      (simp add: cap_at_total_def)
  show "retained ?k ?g = retained ?h ?f"
  proof (rule retained_cong)
    fix j
    assume "nrec ?h - avail ?h \<le> j" "j < nrec ?h"
    then show "slot_row ?k ?g (slot_of ?k j) = slot_row ?h ?f (slot_of ?h j)"
      using s not_evicting(2,4) [OF ne] nz by (simp add: gs slot_of_def k)
  qed (simp_all add: av k)
qed

lemma retained_cap_at_total:
  assumes "\<not> next_is_eviction (header db)" "total_records (header db) > 0"
  shows "retained (header (cap_at_total db)) g = retained (header db) g"
proof (rule retained_cong)
  let ?h = "header db" and ?k = "header (cap_at_total db)"
  have geo: "same_geom ?h ?k" by (simp add: cap_at_total_def same_geom_def header_wf_def)
  have k: "total_records ?k = total_records ?h" "max_records ?k = total_records ?h"
    by (simp_all add: cap_at_total_def)
  show "nrec ?k = nrec ?h" "avail ?k = avail ?h"
    using not_evicting(2) [OF assms(1)] k by (simp_all add: avail_def)
  fix j
  assume "j < nrec ?h"
  then show "slot_row ?k g (slot_of ?k j) = slot_row ?h g (slot_of ?h j)"
    using assms not_evicting(4) by (auto simp: same_geom_simps [OF geo] slot_of_def k)
qed

lemma room_evicted: "\<not> next_is_eviction (header db) \<Longrightarrow> room (evicted db pl) = room db"
  by (simp add: room_def evicted_def not_evicting ovf_room_def)

text \<open>The capacity never grows: it stays, or it is cut to the number of records written.\<close>

definition capped :: "tsdb \<Rightarrow> tsdb \<Rightarrow> bool" where
  "capped db db' \<longleftrightarrow> max_records (header db') = max_records (header db) \<or>
     (\<not> next_is_eviction (header db) \<and> total_records (header db) > 0 \<and>
      max_records (header db') = total_records (header db))"

lemma attempt_retry:
  assumes inv: "db_inv db w" "room db" "nparams (header db) \<le> length vals"
    and att: "tsdb_write_attempt db ts vals w = Inl (db', w')"
  shows "db_inv db' w' \<and> room db' \<and> same_frame db db' \<and> capped db db' \<and>
    total_records (header db') = total_records (header db) \<and>
    oldest_record_idx (header db') = oldest_record_idx (header db) \<and>
    retained (header db') = retained (header db) \<and>
    retained (header db) (content w' (filepath db)) = retained (header db) (content w (filepath db))"
proof -
  obtain pl ret w1 where split: "tsdb_write_attempt db ts vals w = after_block db ts vals pl ret w1"
    and sl: "slots_except (header db) (slot_of (header db) (nrec (header db)))
      (content w (filepath db)) (content w1 (filepath db))" and sw: "sound w1"
    by (rule attempt_elim [OF inv, where ts = ts])
  have ne: "\<not> next_is_eviction (header db)" and pos: "total_records (header db) > 0"
    and db': "db' = cap_at_total (evicted db pl)" and w': "w' = persist_cap db' w1"
    using att split by (auto simp: after_block_def split: if_splits)
  have hd: "header (evicted db pl) = header db" "filepath (evicted db pl) = filepath db"
    by (simp_all add: evicted_def not_evicting(1) [OF ne])
  note fg = failed_growth [OF inv(1) sw ne sl]
  have ne': "\<not> next_is_eviction (header (evicted db pl))" "total_records (header (evicted db pl)) > 0"
    using ne pos hd by simp_all
  note ci = cap_at_total_inv [OF fg(1) _ ne', folded db' w']
  have "room (evicted db pl)" using inv(2) ne by (simp add: room_evicted)
  moreover have ret: "retained (header db') = retained (header db)"
    using retained_cap_at_total [OF ne'] by (simp add: db' hd fun_eq_iff)
  ultimately show ?thesis
    using ci fg(2) hd ne pos same_frame_trans [OF same_frame_evicted same_frame_cap, of db pl]
    by (simp add: w' [symmetric] capped_def) (simp add: db' cap_at_total_def hd)
qed

lemma attempt_fail:
  assumes inv: "db_inv db w" "room db" "nparams (header db) \<le> length vals"
    and att: "tsdb_write_attempt db ts vals w = Inr (e, db', w')" "e \<noteq> ESP_OK"
  shows "same_frame db db' \<and> total_records (header db') = total_records (header db) \<and>
    slots_except (header db) (slot_of (header db) (nrec (header db)))
      (content w (filepath db)) (content w' (filepath db)) \<and>
    (\<exists>pl. db' = evicted db pl)"
proof -
  obtain pl ret w1 where split: "tsdb_write_attempt db ts vals w = after_block db ts vals pl ret w1"
    and sl: "slots_except (header db) (slot_of (header db) (nrec (header db)))
      (content w (filepath db)) (content w1 (filepath db))"
    by (rule attempt_elim [OF inv, where ts = ts])
  have "db' = evicted db pl \<and> w' = w1"
    using att split by (auto simp: after_block_def dest: finish_write(1) split: if_splits)
  with sl same_frame_evicted show ?thesis by (auto simp: evicted_def)
qed

section \<open>The whole write\<close>

text \<open>The record was stored: the invariant holds, and the queue of retained records advanced by it.\<close>

definition stored :: "tsdb \<Rightarrow> world \<Rightarrow> row \<Rightarrow> tsdb \<Rightarrow> world \<Rightarrow> bool" where
  "stored db w x db' w' \<longleftrightarrow>
     db_inv db' w' \<and> same_frame db db' \<and> capped db db' \<and> nrec (header db') = nrec (header db) + 1 \<and>
     retained (header db') (content w' (filepath db)) =
       within (limit_of (header db')) (retained (header db) (content w (filepath db)) @ [x])"

text \<open>
  The record was not stored: no record was counted, all but the oldest retained record are as
  before, and the header is the old one, or that of a ring that has already moved on.
\<close>

definition moved_on :: "tsdb_header \<Rightarrow> tsdb_header \<Rightarrow> bool" where
  "moved_on h k \<longleftrightarrow> (\<exists>h1. ring_hdr h1 \<and> retained h1 = retained h \<and>
     oldest_record_idx h1 = oldest_record_idx h \<and> k = evict_header h1)"

definition not_stored :: "tsdb \<Rightarrow> world \<Rightarrow> tsdb \<Rightarrow> world \<Rightarrow> bool" where
  "not_stored db w db' w' \<longleftrightarrow>
     same_frame db db' \<and> nrec (header db') = nrec (header db) \<and> moved_on (header db) (header db') \<and>
     tl (retained (header db) (content w' (filepath db))) = tl (retained (header db) (content w (filepath db)))"

text \<open>Seen from a header that moved on without a write, the ring is rotated by one record.\<close>

lemma ring_view_evict:
  assumes "ring_hdr h"
  shows "ring_view (evict_header h) g = (if next_is_eviction h then rotate1 (retained h g) else retained h g)"
proof (cases "next_is_eviction h")
  case True
  then have c: "max_records h \<noteq> 0" "cap h \<le> nrec h" by (simp_all add: next_is_eviction)
  then have pos: "0 < cap h" and av: "avail h = cap h" using cap_pos by (auto simp: avail_def)
  let ?k = "evict_header h"
  note gs = same_geom_simps [OF evict_header(1) [of h]]
  have o: "unat (oldest_record_idx ?k) = (nrec h + 1) mod cap h" using evict_oldest [OF assms] c by simp
  have v: "ring_view ?k g ! i = slot_row h g ((nrec h + 1 + i) mod cap h)" if "i < cap h" for i
    using that c by (simp add: ring_view_def av o gs mod_add_left_eq)
  have q: "retained h g ! i = slot_row h g ((nrec h - cap h + i) mod cap h)" if "i < cap h" for i
    using that c by (simp add: retained_def av slot_of_def)
  have "ring_view ?k g = rotate1 (retained h g)"
  proof (rule nth_equalityI)
    show "length (ring_view ?k g) = length (rotate1 (retained h g))"
      using c by (simp add: ring_view_def retained_def av)
    fix i
    assume "i < length (ring_view ?k g)"
    then have i: "i < cap h" by (simp add: ring_view_def av)
    have "rotate1 (retained h g) ! i = retained h g ! (Suc i mod cap h)"
      using i c by (subst nth_rotate1) (simp_all add: retained_def av)
    also have "\<dots> = slot_row h g ((nrec h - cap h + Suc i) mod cap h)"
      using q [of "Suc i mod cap h"] pos by (simp add: mod_add_right_eq)
    also have "(nrec h - cap h + Suc i) mod cap h = (nrec h - cap h + Suc i + cap h) mod cap h"
      by (rule mod_add_self2 [symmetric])
    also have "nrec h - cap h + Suc i + cap h = nrec h + 1 + i" using c(2) by simp
    finally show "ring_view ?k g ! i = rotate1 (retained h g) ! i" using v [OF i] by simp
  qed
  with True show ?thesis by simp
qed (simp add: evict_header_def ring_view_retained [OF assms])

lemma moved_on_view:
  assumes "moved_on h k"
  shows "ring_view k g = (if oldest_record_idx k = oldest_record_idx h then retained h g else rotate1 (retained h g))"
proof -
  obtain h1 where h1: "ring_hdr h1" "retained h1 = retained h" "oldest_record_idx h1 = oldest_record_idx h"
      "k = evict_header h1"
    using assms by (auto simp: moved_on_def)
  have "rotate1 (retained h1 g) = retained h1 g"
    if "next_is_eviction h1" "oldest_record_idx k = oldest_record_idx h1"
  proof -
    from that(1) have c: "max_records h1 \<noteq> 0" "cap h1 \<le> nrec h1" by (simp_all add: next_is_eviction)
    then have "nrec h1 mod cap h1 = (nrec h1 + 1) mod cap h1"
      using that(2) h1(1) evict_oldest [OF h1(1)] unfolding h1(4) by (simp add: ring_hdr_def)
    then have "cap h1 = 1" using mod_Suc [of "nrec h1" "cap h1"] by (auto split: if_splits)
    then have "length (retained h1 g) = 1" using c by (simp add: retained_def avail_def)
    then show ?thesis by (cases "retained h1 g") auto
  qed
  with ring_view_evict [OF h1(1), of g] h1(2-4) show ?thesis
    by (auto simp: evict_header_def split: if_splits)
qed

lemma tl_retained_cong:
  assumes "\<And>j. nrec h - avail h < j \<Longrightarrow> j < nrec h \<Longrightarrow>
    slot_row h g (slot_of h j) = slot_row h f (slot_of h j)"
  shows "tl (retained h g) = tl (retained h f)"
  using assms by (auto simp: retained_def simp flip: map_tl)

lemma slots_except_tl:
  assumes "ring_inv h f" "slots_except h (slot_of h (nrec h)) f g"
  shows "tl (retained h g) = tl (retained h f)"
proof (rule tl_retained_cong)
  fix j
  assume j: "nrec h - avail h < j" "j < nrec h"
  have "slot_of h j \<noteq> slot_of h (nrec h)"
    using j by (intro slot_of_neq) (auto simp: avail_def min_def split: if_splits)
  moreover have "slot_of h j < avail h"
    using j by (intro slot_of_less) auto
  ultimately show "slot_row h g (slot_of h j) = slot_row h f (slot_of h j)"
    using assms by (auto simp: ring_inv_def slots_except_def)
qed

lemma stored_after:
  assumes "stored db1 w1 x db' w'" "same_frame db db1" "capped db db1"
    and "total_records (header db1) = total_records (header db)" "retained (header db1) = retained (header db)"
    and "retained (header db) (content w1 (filepath db)) = retained (header db) (content w (filepath db))"
  shows "stored db w x db' w'"
proof -
  have "capped db db'"
    using assms(1,3,4) by (auto simp: stored_def capped_def next_is_eviction_def)
  moreover have "filepath db1 = filepath db" using assms(2) by (simp add: same_frame_def)
  ultimately show ?thesis
    using assms same_frame_trans [OF assms(2), of db'] by (simp add: stored_def)
qed

lemma not_stored_after:
  assumes "not_stored db1 w1 db' w'" "same_frame db db1" "retained (header db1) = retained (header db)"
    and "total_records (header db1) = total_records (header db)"
    and "oldest_record_idx (header db1) = oldest_record_idx (header db)"
    and "retained (header db) (content w1 (filepath db)) = retained (header db) (content w (filepath db))"
  shows "not_stored db w db' w'"
proof -
  have "filepath db1 = filepath db" using assms(2) by (simp add: same_frame_def)
  with assms same_frame_trans [OF assms(2), of db'] show ?thesis
    by (simp add: not_stored_def moved_on_def)
qed

lemma retry_ok:
  "tsdb_write_retry db ts vals w = (ESP_OK, db', w') \<Longrightarrow> db_inv db w \<Longrightarrow> room db \<Longrightarrow>
   nparams (header db) \<le> length vals \<Longrightarrow> stored db w (ts, take (nparams (header db)) vals) db' w'"
proof (induction db ts vals w rule: tsdb_write_retry.induct)
  case (1 db ts vals w)
  show ?case
  proof (cases "tsdb_write_attempt db ts vals w")
    case (Inl a)
    then obtain db1 w1 where a: "tsdb_write_attempt db ts vals w = Inl (db1, w1)" by (cases a) auto
    note r = attempt_retry [OF 1(3,4,5) a]
    have "tsdb_write_retry db1 ts vals w1 = (ESP_OK, db', w')"
      using 1(2) a by (subst (asm) tsdb_write_retry.simps) simp
    from 1(1) [OF a _ this] r 1(5) have "stored db1 w1 (ts, take (nparams (header db)) vals) db' w'"
      by (simp add: same_frame_def same_geom_def)
    from stored_after [OF this] r show ?thesis by blast
  next
    case (Inr b)
    with 1(2) have "tsdb_write_attempt db ts vals w = Inr (ESP_OK, db', w')"
      by (subst (asm) tsdb_write_retry.simps) simp
    from attempt_ok [OF 1(3,4,5) this] show ?thesis by (simp add: stored_def capped_def)
  qed
qed

lemma retry_fail:
  "tsdb_write_retry db ts vals w = (e, db', w') \<Longrightarrow> e \<noteq> ESP_OK \<Longrightarrow> db_inv db w \<Longrightarrow> room db \<Longrightarrow>
   nparams (header db) \<le> length vals \<Longrightarrow>
   not_stored db w db' w'"
proof (induction db ts vals w rule: tsdb_write_retry.induct)
  case (1 db ts vals w)
  show ?case
  proof (cases "tsdb_write_attempt db ts vals w")
    case (Inl a)
    then obtain db1 w1 where a: "tsdb_write_attempt db ts vals w = Inl (db1, w1)" by (cases a) auto
    note r = attempt_retry [OF 1(4,5,6) a]
    have "tsdb_write_retry db1 ts vals w1 = (e, db', w')"
      using 1(2) a by (subst (asm) tsdb_write_retry.simps) simp
    from 1(1) [OF a _ this 1(3)] r 1(6) have "not_stored db1 w1 db' w'"
      by (auto simp: same_geom_simps [OF same_frame_geom])
    from not_stored_after [OF this] r show ?thesis by blast
  next
    case (Inr b)
    with 1(2) have a: "tsdb_write_attempt db ts vals w = Inr (e, db', w')"
      by (subst (asm) tsdb_write_retry.simps) simp
    have "ring_inv (header db) (content w (filepath db))" using 1(4) by (simp add: db_inv_def)
    with attempt_fail [OF 1(4,5,6) a 1(3)] slots_except_tl show ?thesis
      by (auto simp: not_stored_def moved_on_def evicted_def ring_inv_def)
  qed
qed

lemma free_space_guard_cases:
  obtains "free_space_guard db w = (db, w)" | "free_space_guard db w = (db, snd (free_space_now w))"
  | "total_records (header db) > 0" "total_records (header db) < max_records (header db)"
    "free_space_guard db w = (cap_at_total db, persist_cap (cap_at_total db) (snd (free_space_now w)))"
proof -
  have "free_space_guard db w = (db, w) \<or> free_space_guard db w = (db, snd (free_space_now w)) \<or>
    (total_records (header db) > 0 \<and> total_records (header db) < max_records (header db) \<and>
     free_space_guard db w = (cap_at_total db, persist_cap (cap_at_total db) (snd (free_space_now w))))"
    unfolding free_space_guard_def Let_def by (auto split: prod.splits)
  then show ?thesis using that by blast
qed

lemma free_space_guard:
  assumes "free_space_guard db w = (db1, w1)" "db_inv db w" "room db"
  shows "db_inv db1 w1 \<and> room db1 \<and> same_frame db db1 \<and> capped db db1 \<and>
    total_records (header db1) = total_records (header db) \<and>
    oldest_record_idx (header db1) = oldest_record_idx (header db) \<and>
    retained (header db1) = retained (header db) \<and>
    retained (header db) (content w1 (filepath db)) = retained (header db) (content w (filepath db))"
proof -
  let ?w0 = "snd (free_space_now w)"
  have c: "content ?w0 = content w"
    by (auto simp: free_space_now_def content_def fun_eq_iff split: list.splits)
  then have inv0: "db_inv db ?w0"
    using assms(2) sound_scripts(3) [of w "fst (free_space_now w)" ?w0] by (simp add: db_inv_def)
  show ?thesis
  proof (cases rule: free_space_guard_cases [of db w])
    case 1
    with assms show ?thesis by (simp add: capped_def)
  next
    case 2
    with assms inv0 c show ?thesis by (auto simp: capped_def)
  next
    case 3
    then have ne: "\<not> next_is_eviction (header db)" by (auto simp: next_is_eviction_def)
    have d: "db1 = cap_at_total db" "w1 = persist_cap (cap_at_total db) ?w0"
      using 3(3) assms(1) by simp_all
    then have "same_frame db db1" "capped db db1" "total_records (header db1) = total_records (header db)"
      "oldest_record_idx (header db1) = oldest_record_idx (header db)"
      using ne 3(1) same_frame_cap [of db] by (simp_all add: capped_def) (simp_all add: cap_at_total_def)
    with d cap_at_total_inv [OF inv0 assms(3) ne 3(1)] retained_cap_at_total [OF ne 3(1)] c
    show ?thesis by (simp add: fun_eq_iff)
  qed
qed

lemma write_locked_ok:
  assumes "write_locked db ts vals w = (ESP_OK, db', w')" "db_inv db w" "room db"
    and "nparams (header db) \<le> length vals"
  shows "stored db w (ts, take (nparams (header db)) vals) db' w'"
proof -
  obtain db1 w1 where g: "free_space_guard db w = (db1, w1)" by fastforce
  note fg = free_space_guard [OF g assms(2,3)]
  have "tsdb_write_retry db1 ts vals w1 = (ESP_OK, db', w')"
    using assms(1) g by (simp add: write_locked_def)
  from retry_ok [OF this] fg assms(4)
  have "stored db1 w1 (ts, take (nparams (header db)) vals) db' w'"
    by (simp add: same_frame_def same_geom_def)
  from stored_after [OF this] fg show ?thesis by blast
qed

lemma write_locked_fail:
  assumes "write_locked db ts vals w = (e, db', w')" "e \<noteq> ESP_OK" "db_inv db w" "room db"
    and "nparams (header db) \<le> length vals"
  shows "not_stored db w db' w'"
proof -
  obtain db1 w1 where g: "free_space_guard db w = (db1, w1)" by fastforce
  note fg = free_space_guard [OF g assms(3,4)]
  have "tsdb_write_retry db1 ts vals w1 = (e, db', w')"
    using assms(1) g by (simp add: write_locked_def)
  from retry_fail [OF this assms(2)] fg assms(5) have "not_stored db1 w1 db' w'"
    by (auto simp: same_geom_simps [OF same_frame_geom])
  from not_stored_after [OF this] fg show ?thesis by blast
qed

section \<open>Writes that cannot fail\<close>

lemma quiet_persist_cap: "quiet w \<Longrightarrow> quiet (persist_cap db w)"
  by (auto simp: persist_cap_def tsdb_write_header_def quiet_fwrite_at quiet_put_file
      split: option.splits)

lemma quiet_write_overflow: "quiet w \<Longrightarrow> quiet (write_overflow db vals w)"
  by (auto simp: write_overflow_def Let_def quiet_fwrite_at quiet_put_file split: option.splits)

lemma quiet_finish_write:
  assumes "quiet w" "finish_write db ri ev ts vals w = (r, db', w')"
  shows "quiet w'"
proof -
  note quiet_sidecar_write [OF quiet_write_overflow [OF assms(1)]]
  with assms(2) show ?thesis
    unfolding finish_write_def Let_def by (auto split: prod.splits) (metis snd_conv)
qed

lemma quiet_retry:
  assumes "quiet w" "db_file db = Some p"
  obtains db' w' where "tsdb_write_retry db ts vals w = (ESP_OK, db', w')" "quiet w'"
proof -
  have "tsdb_write_block (stage_block db1 o1 b1) bn blk w =
      (ESP_OK, put_file w p (overlay (content w p) (unat (tsdb_calc_block_offset (header db1) bn))
        (take TSDB_BLOCK_SIZE blk)))" if "db_file db1 = Some p" for db1 o1 b1 bn blk
    using that assms(1) by (simp add: tsdb_write_block_def quiet_fwrite_at)
  then obtain db1 ri ev w1 where a: "tsdb_write_attempt db ts vals w = Inr (finish_write db1 ri ev ts vals w1)"
    and q: "quiet w1"
    using assms by (simp add: tsdb_write_attempt_def Let_def quiet_put_file)
  obtain r db' w' where f: "finish_write db1 ri ev ts vals w1 = (r, db', w')" by (metis prod_cases3)
  with a finish_write(1) [OF f] quiet_finish_write [OF q f] show ?thesis
    by (intro that) (simp_all add: tsdb_write_retry.simps)
qed

lemma quiet_write_locked:
  assumes "quiet w" "db_file db = Some p"
  obtains db' w' where "write_locked db ts vals w = (ESP_OK, db', w')" "quiet w'"
proof -
  have f: "db_file (cap_at_total db) = Some p" using assms(2) by (simp add: cap_at_total_def)
  note q = quiet_free_space_now [OF assms(1)]
  obtain db1 w1 where "free_space_guard db w = (db1, w1)" "quiet w1" "db_file db1 = Some p"
    using assms f q quiet_persist_cap [OF q, of "cap_at_total db"]
    by (cases rule: free_space_guard_cases [of db w]) simp_all
  with that show ?thesis
    by (metis quiet_retry write_locked_def case_prod_conv)
qed

section \<open>Writes leave the layout of the buffer pool and the state of the handle alone\<close>

definition pool_shape :: "tsdb \<Rightarrow> u8 \<times> u32 \<times> u32 \<times> bool \<times> u32 \<times> u32 \<times> bool" where
  "pool_shape db =
     (num_pages (pool db), page_size (pool db), total_size (pool db), is_paged (pool db),
      query_buffer_offset db, generation db, is_open db)"

lemma stage_block_shape [simp]: "pool_shape (stage_block db off blk) = pool_shape db"
  by (auto simp: pool_shape_def stage_block_def tsdb_buffer_write_def split: option.splits if_splits)

lemma header_shape [simp]:
  "pool_shape (db\<lparr>header := h\<rparr>) = pool_shape db" "pool_shape (db\<lparr>index_stale := b\<rparr>) = pool_shape db"
  "pool_shape (db\<lparr>in_file_header_stale := b\<rparr>) = pool_shape db" "pool_shape (cap_at_total db) = pool_shape db"
  by (simp_all add: pool_shape_def cap_at_total_def)

lemma advance_header_shape [simp]: "pool_shape (advance_header db ri ev ts w) = pool_shape db"
  by (simp add: advance_header_def Let_def split: prod.split option.split esp_err.split)

lemma finish_write_shape:
  assumes "finish_write db ri ev ts vals w = (r, db', w')"
  shows "pool_shape db' = pool_shape db"
proof -
  let ?w = "write_overflow db vals w"
  let ?db = "mark_index (advance_header db ri ev ts ?w) ri"
  obtain e db1 where sw: "tsdb_sidecar_write ?db ?w = (e, db1, w')" and d: "db' = db1\<lparr>in_file_header_stale := True\<rparr>"
    using assms by (auto simp: finish_write_def Let_def split: prod.splits)
  have "pool_shape db1 = pool_shape ?db"
    by (rule sidecar_write_db [OF sw]) (simp add: pool_shape_def)
  then show ?thesis by (simp add: d mark_index_def Let_def)
qed

lemma write_attempt_shape:
  "tsdb_write_attempt db ts vals w = Inl (db', w') \<Longrightarrow> pool_shape db' = pool_shape db"
  "tsdb_write_attempt db ts vals w = Inr (r, db', w') \<Longrightarrow> pool_shape db' = pool_shape db"
  by (auto simp: tsdb_write_attempt_def Let_def dest: finish_write_shape split: prod.splits if_splits)

lemma write_retry_shape:
  "tsdb_write_retry db ts vals w = (r, db', w') \<Longrightarrow> pool_shape db' = pool_shape db"
proof (induction db ts vals w rule: tsdb_write_retry.induct)
  case (1 db ts vals w)
  then show ?case
    by (subst (asm) (2) tsdb_write_retry.simps)
      (auto dest: write_attempt_shape split: sum.splits prod.splits)
qed

lemma write_locked_shape:
  assumes "write_locked db ts vals w = (r, db', w')"
  shows "pool_shape db' = pool_shape db"
proof -
  have "pool_shape (fst (free_space_guard db w)) = pool_shape db"
    by (rule free_space_guard_cases [of db w]) simp_all
  with assms write_retry_shape show ?thesis
    by (auto simp: write_locked_def split: prod.splits)
qed

section \<open>The interface: a queue of records\<close>

text \<open>
  What a writer may rely on. \<open>inv n s\<close> says that \<open>n\<close> more records fit the 32-bit offsets of the
  format; the limit may shrink (adaptive capacity) but never grows.
\<close>

locale record_queue =
  fixes inv :: "nat \<Rightarrow> 's \<Rightarrow> bool"
    and fits :: "'s \<Rightarrow> 'i \<Rightarrow> bool"
    and row_of :: "'s \<Rightarrow> 'i \<Rightarrow> 'r"
    and limit :: "'s \<Rightarrow> nat option"
    and rows :: "'s \<Rightarrow> 'r list"
    and put :: "'s \<Rightarrow> 'i \<Rightarrow> 's"
  assumes rows_within: "inv n s \<Longrightarrow> within (limit s) (rows s) = rows s"
    and put_inv: "inv (Suc n) s \<Longrightarrow> fits s x \<Longrightarrow> inv n (put s x)"
    and put_fits: "inv (Suc n) s \<Longrightarrow> fits s x \<Longrightarrow> fits (put s x) = fits s"
    and put_row_of: "inv (Suc n) s \<Longrightarrow> fits s x \<Longrightarrow> row_of (put s x) = row_of s"
    and put_limit: "inv (Suc n) s \<Longrightarrow> fits s x \<Longrightarrow> limit_le (limit (put s x)) (limit s)"
    and put_rows: "inv (Suc n) s \<Longrightarrow> fits s x \<Longrightarrow>
      rows (put s x) = within (limit (put s x)) (rows s @ [row_of s x])"
begin

lemma puts_inv: "inv (length xs + n) s \<Longrightarrow> list_all (fits s) xs \<Longrightarrow> inv n (foldl put s xs)"
  by (induction xs arbitrary: s) (simp_all add: put_inv put_fits)

lemma puts_limit: "inv (length xs + n) s \<Longrightarrow> list_all (fits s) xs \<Longrightarrow>
  limit_le (limit (foldl put s xs)) (limit s)"
proof (induction xs arbitrary: s)
  case (Cons x xs)
  then show ?case
    using limit_le_trans [OF Cons.IH [of "put s x"] put_limit] by (simp add: put_inv put_fits)
qed simp

lemma puts_rows: "inv (length xs + n) s \<Longrightarrow> list_all (fits s) xs \<Longrightarrow>
  rows (foldl put s xs) = within (limit (foldl put s xs)) (rows s @ map (row_of s) xs)"
proof (induction xs arbitrary: s)
  case (Cons x xs)
  then have inv: "inv (Suc (length xs + n)) s" "fits s x" by simp_all
  have inv': "inv (length xs + n) (put s x)" "list_all (fits (put s x)) xs"
    using Cons.prems put_inv [OF inv] put_fits [OF inv] by simp_all
  have "rows (foldl put s (x # xs)) =
      within (limit (foldl put s (x # xs))) (rows (put s x) @ map (row_of s) xs)"
    using Cons.IH [OF inv'] put_row_of [OF inv] by simp
  also have "rows (put s x) = within (limit (put s x)) (rows s @ [row_of s x])"
    by (rule put_rows [OF inv])
  finally show ?case
    using within_append [OF puts_limit [OF inv'], of "rows s @ [row_of s x]" "map (row_of s) xs"]
    by simp
qed (simp add: rows_within)

end

section \<open>The database is a queue of records\<close>

text \<open>\<open>n\<close> more records fit the 32-bit record counter and the 32-bit file offsets.\<close>

definition room_for :: "nat \<Rightarrow> tsdb \<Rightarrow> bool" where
  "room_for n db \<longleftrightarrow>
     (let h = header db; last = (if max_records h = 0 then nrec h + n else cap h) - 1
      in nrec h + n < 2 ^ 32 \<and> block_pos h (last div rpb h) + TSDB_BLOCK_SIZE \<le> 2 ^ 32 \<and>
         (db_extra_param_count db = 0 \<or>
          unat (overflow_data_offset db) +
          (nrec h + n - unat (db_first_overflow_record_idx db)) * unat (db_overflow_record_size db) < 2 ^ 32))"

definition writable :: "nat \<Rightarrow> tsdb \<times> world \<Rightarrow> bool" where
  "writable n s \<longleftrightarrow>
     (let (db, w) = s
      in quiet w \<and> db_inv db w \<and> room_for n db \<and> is_open db \<and> \<not> migrating db \<and> \<not> closing db)"

definition entry_fits :: "tsdb \<times> world \<Rightarrow> u32 \<times> i16 list \<Rightarrow> bool" where
  "entry_fits s x \<longleftrightarrow>
     length (snd x) = nparams (header (fst s)) + unat (db_extra_param_count (fst s))"

definition entry_row :: "tsdb \<times> world \<Rightarrow> u32 \<times> i16 list \<Rightarrow> row" where
  "entry_row s x = (fst x, take (nparams (header (fst s))) (snd x))"

definition db_rows :: "tsdb \<times> world \<Rightarrow> row list" where
  "db_rows s = retained (header (fst s)) (content (snd s) (filepath (fst s)))"

definition db_put :: "tsdb \<times> world \<Rightarrow> u32 \<times> i16 list \<Rightarrow> tsdb \<times> world" where
  "db_put s x =
     (case tsdb_write_h (Some (fst s)) (fst x) (Some (snd x)) (snd s) of
        (_, Some db, w) \<Rightarrow> (db, w)
      | (_, None, w) \<Rightarrow> (fst s, w))"

lemma room_for_room:
  assumes "room_for (Suc n) db"
  shows "room db"
proof -
  let ?h = "header db"
  let ?last = "(if max_records ?h = 0 then nrec ?h + Suc n else cap ?h) - 1"
  have "slot_of ?h (nrec ?h) \<le> ?last"
    using cap_pos [of ?h] mod_less_divisor [of "cap ?h" "nrec ?h"]
    by (auto simp: slot_of_def less_eq_Suc_le simp del: mod_less_divisor)
  then have "slot_of ?h (nrec ?h) div rpb ?h \<le> ?last div rpb ?h" by (rule div_le_mono)
  from block_pos_mono [OF this, of ?h] have
    b: "block_pos ?h (slot_of ?h (nrec ?h) div rpb ?h) + TSDB_BLOCK_SIZE \<le> 2 ^ 32"
    using assms by (auto simp: room_for_def Let_def)
  have "(nrec ?h - unat (db_first_overflow_record_idx db)) * unat (db_overflow_record_size db) \<le>
      (nrec ?h + Suc n - unat (db_first_overflow_record_idx db)) * unat (db_overflow_record_size db)"
    by (intro mult_le_mono1) simp
  then have "ovf_room db"
    using assms unfolding room_for_def Let_def ovf_room_def by linarith
  with assms b show ?thesis by (simp add: room_for_def room_def Let_def)
qed

lemma room_for_stored:
  assumes "room_for (Suc n) db" "stored db w x db' w'"
  shows "room_for n db'"
proof -
  let ?h = "header db" and ?k = "header db'"
  have fr: "same_frame db db'" and cp: "capped db db'" and n: "nrec ?k = nrec ?h + 1"
    using assms(2) by (auto simp: stored_def)
  let ?last = "(if max_records ?h = 0 then nrec ?h + Suc n else cap ?h) - 1"
    and ?last' = "(if max_records ?k = 0 then nrec ?k + n else cap ?k) - 1"
  have "?last' \<le> ?last"
    using cp n by (auto simp: capped_def next_is_eviction)
  then have "?last' div rpb ?h \<le> ?last div rpb ?h" by (rule div_le_mono)
  from block_pos_mono [OF this, of ?h] have "block_pos ?h (?last' div rpb ?h) + TSDB_BLOCK_SIZE \<le> 2 ^ 32"
    using assms(1) by (auto simp: room_for_def Let_def)
  then show ?thesis
    using assms(1) fr n unfolding room_for_def Let_def same_geom_simps [OF same_frame_geom [OF fr]]
    by (auto simp: same_frame_def)
qed

lemma write_h_open:
  assumes "is_open db" "\<not> migrating db" "\<not> closing db" "quiet w"
  shows "tsdb_write_h (Some db) ts (Some vals) w =
    (case write_locked db ts vals w of (r, db', w2) \<Rightarrow> (r, Some db', w2))"
  using assms by (simp add: tsdb_write_h_def quiet_lock_open)

lemma db_put_stored:
  assumes "writable (Suc n) (db, w)" "entry_fits (db, w) x"
  obtains db' w' where "tsdb_write_h (Some db) (fst x) (Some (snd x)) w = (ESP_OK, Some db', w')"
    "db_put (db, w) x = (db', w')" "stored db w (entry_row (db, w) x) db' w'" "writable n (db', w')"
proof -
  have v: "quiet w" "db_inv db w" "room_for (Suc n) db" "is_open db" "\<not> migrating db" "\<not> closing db"
    using assms(1) by (auto simp: writable_def)
  obtain p where "db_file db = Some p" using v(2) by (auto simp: db_inv_def)
  then obtain db' w' where wl: "write_locked db (fst x) (snd x) w = (ESP_OK, db', w')" "quiet w'"
    using quiet_write_locked [OF v(1)] by blast
  have wh: "tsdb_write_h (Some db) (fst x) (Some (snd x)) w = (ESP_OK, Some db', w')"
    using v wl(1) by (simp add: write_h_open)
  have st: "stored db w (entry_row (db, w) x) db' w'"
    using write_locked_ok [OF wl(1) v(2) room_for_room [OF v(3)]] assms(2)
    by (simp add: entry_fits_def entry_row_def)
  moreover have "writable n (db', w')"
    using v st wl(2) room_for_stored [OF v(3) st]
    by (simp add: writable_def stored_def same_frame_def)
  ultimately show ?thesis using wh by (intro that) (simp_all add: db_put_def)
qed

lemma limit_le_capped: "capped db db' \<Longrightarrow> limit_le (limit_of (header db')) (limit_of (header db))"
  by (auto simp: capped_def limit_of_def next_is_eviction word_less_nat_alt)

interpretation db_queue: record_queue writable entry_fits entry_row "\<lambda>s. limit_of (header (fst s))" db_rows db_put
proof
  fix n :: nat and s :: "tsdb \<times> world" and x :: "u32 \<times> i16 list"
  show "within (limit_of (header (fst s))) (db_rows s) = db_rows s"
    by (auto simp: limit_of_def db_rows_def length_retained avail_def last_n_all)
  assume a: "writable (Suc n) s" "entry_fits s x"
  obtain db w where s: "s = (db, w)" by fastforce
  obtain db' w' where p: "db_put s x = (db', w')" and st: "stored db w (entry_row s x) db' w'"
    and wr: "writable n (db', w')"
    using db_put_stored [of n db w x] a s by metis
  have np: "num_params (header db') = num_params (header db)"
    "db_extra_param_count db' = db_extra_param_count db" "filepath db' = filepath db"
    using st by (simp_all add: stored_def same_frame_def same_geom_def)
  show "writable n (db_put s x)" using p wr by simp
  show "entry_fits (db_put s x) = entry_fits s" "entry_row (db_put s x) = entry_row s"
    using p s np by (simp_all add: entry_fits_def entry_row_def fun_eq_iff)
  show "limit_le (limit_of (header (fst (db_put s x)))) (limit_of (header (fst s)))"
    using p s st limit_le_capped by (simp add: stored_def)
  show "db_rows (db_put s x) = within (limit_of (header (fst (db_put s x)))) (db_rows s @ [entry_row s x])"
    using p s st np by (simp add: stored_def db_rows_def)
qed

lemma write_batch_loop_foldl:
  "writable (length xs + n) (db, w) \<Longrightarrow> list_all (entry_fits (db, w)) xs \<Longrightarrow>
   write_batch_loop (Some db) (map (\<lambda>x. (fst x, Some (snd x))) xs) w =
     (let s = foldl db_put (db, w) xs in (ESP_OK, Some (fst s), snd s))"
proof (induction xs arbitrary: db w)
  case (Cons x xs)
  then have a: "writable (Suc (length xs + n)) (db, w)" "entry_fits (db, w) x" by simp_all
  obtain db' w' where p: "tsdb_write_h (Some db) (fst x) (Some (snd x)) w = (ESP_OK, Some db', w')"
    "db_put (db, w) x = (db', w')" "writable (length xs + n) (db', w')"
    using db_put_stored [OF a] by metis
  have "list_all (entry_fits (db', w')) xs"
    using db_queue.put_fits [OF a] p(2) Cons.prems(2) by simp
  from Cons.IH [OF p(3) this] p show ?case by (simp add: Let_def)
qed simp

section \<open>Properties of the write path\<close>

lemma lock_open_content:
  "tsdb_lock_open w = (r, w') \<Longrightarrow> content w' = content w"
  by (auto simp: tsdb_lock_open_def next_lock_def content_def fun_eq_iff
      split: list.splits lock_outcome.splits)

lemma lock_open_sound [sound_keeps]: "tsdb_lock_open w = (r, w') \<Longrightarrow> sound w \<Longrightarrow> sound w'"
  by (auto simp: tsdb_lock_open_def dest: sound_scripts split: prod.splits lock_outcome.splits)

lemma write_h_locked:
  assumes "tsdb_write_h (Some db) ts (Some vals) w = (r, dbo, w')" "db_inv db w"
  obtains "r \<noteq> ESP_OK" "dbo = Some db" "content w' = content w"
  | db' w1 where "dbo = Some db'" "write_locked db ts vals w1 = (r, db', w')" "db_inv db w1"
    "content w1 = content w"
proof -
  obtain l w1 where l: "tsdb_lock_open w = (l, w1)" by fastforce
  note c = lock_open_content [OF l]
  then have "db_inv db w1" using assms(2) lock_open_sound [OF l] by (simp add: db_inv_def)
  moreover have "l \<noteq> Some ESP_OK"
    using l by (auto simp: tsdb_lock_open_def split: prod.splits lock_outcome.splits)
  ultimately show ?thesis
    using assms(1) l c that
    by (auto simp: tsdb_write_h_def split: if_splits option.splits prod.splits)
qed

text \<open>
  C1: A write that reports success has appended its record to the retained records: the new
  list is the old one with the record at its end, cut to the capacity from the front. The
  invariant is kept, the record count grows by one, and the capacity never grows. This
  holds for every pattern of failures the platform reports to the code and the write survives
  (opens, writes, checked flushes, unlinks, allocations, in any order), the retry after a full file
  system and the free-space guard included. The invariant \<open>db_inv\<close> includes a \<open>sound\<close> world:
  reads inside the file succeed, and data that \<open>fwrite\<close> accepted reaches the file.
  What a write does when its block cannot be read is C38.
\<close>

theorem write_refines_queue:
  assumes "tsdb_write_h (Some db) ts (Some vals) w = (ESP_OK, Some db', w')"
    and "db_inv db w" "room db" "nparams (header db) \<le> length vals"
  shows "db_inv db' w' \<and> nrec (header db') = nrec (header db) + 1 \<and>
    limit_le (limit_of (header db')) (limit_of (header db)) \<and>
    db_rows (db', w') = within (limit_of (header db')) (db_rows (db, w) @ [(ts, take (nparams (header db)) vals)])"
proof (cases rule: write_h_locked [OF assms(1,2)])
  case (2 db1 w1)
  then have wl: "write_locked db ts vals w1 = (ESP_OK, db', w')" by simp
  have "stored db w1 (ts, take (nparams (header db)) vals) db' w'"
    by (rule write_locked_ok [OF wl 2(3) assms(3,4)])
  then show ?thesis
    using 2(4) limit_le_capped by (auto simp: stored_def db_rows_def same_frame_def)
qed simp

lemma demo_writable: "n < 1000 \<Longrightarrow> writable n (demo_db 3, demo_world [])"
  using demo_inv [of "[]" 3]
  by (simp add: writable_def quiet_def demo_world_def demo_db_def room_for_def demo_header_def
      zero_header_def block_pos_def data_start_def)

lemma demo_room: "room (demo_db 3)"
  by (rule room_for_room [of 0], use demo_writable [of 1] in \<open>simp add: writable_def\<close>)

theorem write_refines_queue_witness:
  "\<exists>db' w'. tsdb_write_h (Some (demo_db 3)) 100 (Some [7]) (demo_world []) = (ESP_OK, Some db', w') \<and>
     db_inv db' w' \<and> db_rows (db', w') = [(100, [7])]"
proof -
  let ?s = "(demo_db 3, demo_world [])"
  have np: "nparams (header (demo_db 3)) = 1" by (simp add: demo_db_def demo_header_def)
  have fits: "entry_fits ?s (100, [7])"
    by (simp add: entry_fits_def np) (simp add: demo_db_def)
  obtain db' w' where ok: "tsdb_write_h (Some (demo_db 3)) 100 (Some [7]) (demo_world []) = (ESP_OK, Some db', w')"
    using db_put_stored [OF demo_writable [of "Suc 0"] fits] by (metis fst_conv snd_conv one_less_numeral_iff
        semiring_norm(76) One_nat_def)
  have "db_rows ?s = []" by (simp add: db_rows_def demo_db_def demo_retained)
  moreover have "max_records (header db') \<noteq> 0 \<longrightarrow> 0 < cap (header db')" using cap_pos by blast
  ultimately show ?thesis
    using write_refines_queue [OF ok _ demo_room] demo_inv [of "[]" 3] ok np
    by (auto simp: limit_of_def last_n_def split: if_splits)
qed

text \<open>
  C8: A write that reports an error has not counted a record, and it has damaged at most the
  oldest retained record (whose slot it was about to reuse): every other retained record
  reads back unchanged, even when the failing write was torn in the middle of a block. What a
  query through the handle then walks over is this list, or, when the ring had already moved
  on to evict, this list with the possibly damaged oldest record at its end instead of at its
  beginning. As in C1 the world is \<open>sound\<close>: every failure is reported to the code.
\<close>

theorem write_failure_keeps_records:
  assumes "tsdb_write_h (Some db) ts (Some vals) w = (e, Some db', w')" "e \<noteq> ESP_OK"
    and "db_inv db w" "room db" "nparams (header db) \<le> length vals"
  shows "nrec (header db') = nrec (header db) \<and>
    tl (retained (header db) (content w' (filepath db))) = tl (db_rows (db, w)) \<and>
    ring_view (header db') (content w' (filepath db)) =
      (if oldest_record_idx (header db') = oldest_record_idx (header db)
       then retained (header db) (content w' (filepath db))
       else rotate1 (retained (header db) (content w' (filepath db))))"
proof (cases rule: write_h_locked [OF assms(1,3)])
  case 1
  then show ?thesis
    using assms(3) ring_view_retained by (simp add: db_rows_def db_inv_def ring_inv_def)
next
  case (2 db1 w1)
  then have wl: "write_locked db ts vals w1 = (e, db', w')" by simp
  from write_locked_fail [OF wl assms(2) 2(3) assms(4,5)] 2(4) moved_on_view show ?thesis
    by (auto simp: db_rows_def not_stored_def)
qed

theorem write_failure_keeps_records_witness:
  "\<exists>e db' w'. tsdb_write_h (Some (demo_db 3)) 100 (Some [7]) (demo_world [IoFail 5 EIO]) = (e, Some db', w') \<and>
     e \<noteq> ESP_OK \<and> nrec (header db') = 0 \<and> tl (retained (demo_header 3) (content w' ''/a.db'')) = []"
proof -
  let ?r = "tsdb_write_h (Some (demo_db 3)) 100 (Some [7]) (demo_world [IoFail 5 EIO])"
  have e: "fst ?r = ESP_FAIL \<and> fst (snd ?r) \<noteq> None"
    by (simp add: tsdb_write_h_def demo_db_def tsdb_lock_open_def next_lock_def demo_world_def
        write_locked_def free_space_guard_def tsdb_write_retry.simps tsdb_write_attempt_def Let_def
        tsdb_write_block_def stage_block_def tsdb_get_buffer_ptr_def zero_pool_def
        fwrite_at_def next_io_def split: prod.splits)
  then obtain db' w' where r: "?r = (ESP_FAIL, Some db', w')"
    by (metis option.exhaust prod.collapse)
  have np: "nparams (header (demo_db 3)) = 1" by (simp add: demo_db_def demo_header_def)
  have "db_rows (demo_db 3, demo_world [IoFail 5 EIO]) = []" "nrec (header (demo_db 3)) = 0"
    by (simp_all add: db_rows_def demo_db_def demo_retained) (simp add: demo_header_def zero_header_def)
  with write_failure_keeps_records [OF r _ _ demo_room] demo_inv [of "[IoFail 5 EIO]" 3] np r show ?thesis
    by (simp add: demo_db_def)
qed

lemma write_batch_foldl:
  assumes "writable (length xs + n) (db, w)" "list_all (entry_fits (db, w)) xs" "xs \<noteq> []" "count = of_nat (length xs)"
  shows "tsdb_write_batch_h (Some db) (Some (map fst xs)) (Some (map (Some \<circ> snd) xs)) count w =
    (ESP_OK, Some (fst (foldl db_put (db, w) xs)), snd (foldl db_put (db, w) xs))"
proof -
  have op: "is_open db" and len: "length xs < 4294967296"
    using assms(1) by (simp_all add: writable_def room_for_def Let_def)
  have cnt: "unat count = length xs" using assms(4) len by (simp add: unat_of_nat)
  have "count \<noteq> 0" using cnt assms(3) by auto
  have z: "zip (map fst xs) (map (Some \<circ> snd) xs) = map (\<lambda>x. (fst x, Some (snd x))) xs"
    by (simp add: zip_map_map) (simp add: zip_same_conv_map)
  show ?thesis
    using op cnt \<open>count \<noteq> 0\<close> write_batch_loop_foldl [OF assms(1,2)]
    by (simp add: tsdb_write_batch_h_def z Let_def)
qed

text \<open>
  C19: In a world without failures a batch write succeeds, and afterwards the database holds the
  last records of the old contents followed by the batch, as many as the capacity allows.
\<close>

theorem write_batch_refines_queue:
  assumes "writable (length xs) (db, w)" "list_all (entry_fits (db, w)) xs"
    and "xs \<noteq> []" "count = of_nat (length xs)"
  shows "\<exists>db' w'. tsdb_write_batch_h (Some db) (Some (map fst xs)) (Some (map (Some \<circ> snd) xs)) count w =
      (ESP_OK, Some db', w') \<and> writable 0 (db', w') \<and>
      db_rows (db', w') = within (limit_of (header db')) (db_rows (db, w) @ map (entry_row (db, w)) xs)"
proof -
  have w0: "writable (length xs + 0) (db, w)" using assms(1) by simp
  have "writable 0 (foldl db_put (db, w) xs)" by (rule db_queue.puts_inv [OF w0 assms(2)])
  with write_batch_foldl [OF w0 assms(2-4)] db_queue.puts_rows [OF w0 assms(2)] show ?thesis
    by (metis prod.collapse)
qed

theorem write_batch_refines_queue_witness:
  "\<exists>db' w'. tsdb_write_batch_h (Some (demo_db 3)) (Some [10, 20, 30, 40])
      (Some [Some [1], Some [2], Some [3], Some [4]]) 4 (demo_world []) = (ESP_OK, Some db', w') \<and>
     db_rows (db', w') = within (limit_of (header db')) [(10, [1]), (20, [2]), (30, [3]), (40, [4])]"
proof -
  let ?xs = "[(10, [1]), (20, [2]), (30, [3]), (40, [4])] :: (u32 \<times> i16 list) list"
  have np: "nparams (header (demo_db 3)) = 1" by (simp add: demo_db_def demo_header_def)
  have "list_all (entry_fits (demo_db 3, demo_world [])) ?xs"
    by (simp add: entry_fits_def np) (simp add: demo_db_def)
  moreover have "map (entry_row (demo_db 3, demo_world [])) ?xs = ?xs"
    by (simp add: entry_row_def np)
  moreover have "db_rows (demo_db 3, demo_world []) = []"
    by (simp add: db_rows_def demo_db_def demo_retained)
  ultimately show ?thesis
    using write_batch_refines_queue [of ?xs "demo_db 3" "demo_world []" 4] demo_writable [of "Suc (Suc (Suc (Suc 0)))"]
    by auto
qed

text \<open>
  A write through a NULL or closed handle, without values, or during a migration or close is
  refused with the documented error and changes neither the handle nor the file system.
\<close>

theorem write_guards:
  "tsdb_write_h None ts valso w = (ESP_ERR_INVALID_STATE, None, w) \<and>
   (\<not> is_open db \<longrightarrow> tsdb_write_h (Some db) ts valso w = (ESP_ERR_INVALID_STATE, Some db, w)) \<and>
   (is_open db \<longrightarrow> tsdb_write_h (Some db) ts None w = (ESP_ERR_INVALID_ARG, Some db, w)) \<and>
   (is_open db \<longrightarrow> migrating db \<or> closing db \<longrightarrow>
      tsdb_write_h (Some db) ts (Some vals) w = (ESP_ERR_INVALID_STATE, Some db, w))"
  by (simp add: tsdb_write_h_def)

theorem write_guards_witness:
  "tsdb_write_h (Some ((demo_db 3)\<lparr>is_open := False\<rparr>)) 1 (Some [1]) (demo_world []) =
     (ESP_ERR_INVALID_STATE, Some ((demo_db 3)\<lparr>is_open := False\<rparr>), demo_world []) \<and>
   tsdb_write_h (Some ((demo_db 3)\<lparr>migrating := True\<rparr>)) 1 (Some [1]) (demo_world []) =
     (ESP_ERR_INVALID_STATE, Some ((demo_db 3)\<lparr>migrating := True\<rparr>), demo_world [])"
  using write_guards [of 1 "Some [1]" "demo_world []" "(demo_db 3)\<lparr>is_open := False\<rparr>" "[1]"]
    write_guards [of 1 "Some [1]" "demo_world []" "(demo_db 3)\<lparr>migrating := True\<rparr>" "[1]"]
  by (simp add: demo_db_def)

text \<open>
  When the block write of an evicting write fails with an I/O error, the call returns the
  error but the in-memory ring has already moved on: the oldest record index is advanced and
  an eviction is counted although no record was stored.
\<close>

theorem failed_eviction_advances_ring:
  assumes "is_open db" "\<not> migrating db" "\<not> closing db" "db_file db = Some p"
    and "next_is_eviction (header db)"
    and "lock_script w = []" "io_script w = IoFail k EIO # rest"
  shows "\<exists>db' w'. tsdb_write_h (Some db) ts (Some vals) w = (ESP_FAIL, Some db', w') \<and>
    total_records (header db') = total_records (header db) \<and>
    oldest_record_idx (header db') = (oldest_record_idx (header db) + 1) mod max_records (header db) \<and>
    total_evictions (header db') = total_evictions (header db) + 1"
proof -
  have lock: "tsdb_lock_open w = (None, w)"
    using assms(6) by (simp add: tsdb_lock_open_def next_lock_def)
  have guard: "free_space_guard db w = (db, w)"
    using assms(5) by (auto simp: free_space_guard_def next_is_eviction_def Let_def)
  have wb: "\<exists>w1. tsdb_write_block db1 b blk w = (ESP_FAIL, w1)" if "db_file db1 = Some p" for db1 b blk
    using that assms(7) by (simp add: tsdb_write_block_def fwrite_at_def next_io_def)
  obtain pl w1 where "tsdb_write_attempt db ts vals w = Inr (ESP_FAIL, evicted db pl, w1)"
  proof -
    define db1 where "db1 = db\<lparr>header := evict_header (header db)\<rparr>"
    define bn where "bn = next_record_idx (header db) div ucast (records_per_block (header db1))"
    define blk where "blk = fill_block (header db1) (existing_or_new (tsdb_read_block db1 bn w))
      (unat (ucast (next_record_idx (header db) mod ucast (records_per_block (header db1))) :: u16)) ts vals"
    obtain pl where pl: "stage_block db1 (write_cache_offset db1) blk = db1\<lparr>pool := pl\<rparr>"
      using stage_block_pool by blast
    obtain w1 where "tsdb_write_block (db1\<lparr>pool := pl\<rparr>) bn blk w = (ESP_FAIL, w1)"
      using wb [of "db1\<lparr>pool := pl\<rparr>" bn blk] assms(4) by (auto simp: db1_def)
    with pl have "tsdb_write_attempt db ts vals w = Inr (ESP_FAIL, db1\<lparr>pool := pl\<rparr>, w1)"
      unfolding tsdb_write_attempt_def Let_def blk_def bn_def db1_def by simp
    then show ?thesis by (intro that) (simp add: evicted_def db1_def)
  qed
  then have "tsdb_write_h (Some db) ts (Some vals) w = (ESP_FAIL, Some (evicted db pl), w1)"
    using assms(1-3) lock guard
    by (simp add: tsdb_write_h_def write_locked_def tsdb_write_retry.simps)
  with assms(5) show ?thesis by (auto simp: evicted_def evict_header_def)
qed

theorem failed_eviction_advances_ring_witness:
  "\<exists>db' w'. tsdb_write_h (Some ((demo_db 3)\<lparr>header := (demo_header 3)\<lparr>total_records := 3\<rparr>\<rparr>)) 9 (Some [1])
      (demo_world [IoFail 0 EIO]) = (ESP_FAIL, Some db', w') \<and>
     total_records (header db') = 3 \<and> oldest_record_idx (header db') = 1"
proof -
  let ?db = "(demo_db 3)\<lparr>header := (demo_header 3)\<lparr>total_records := 3\<rparr>\<rparr>"
  have "is_open ?db" "\<not> migrating ?db" "\<not> closing ?db" "db_file ?db = Some ''/a.db''"
    "next_is_eviction (header ?db)"
    by (simp_all add: demo_db_def next_is_eviction_def demo_header_def)
  moreover have "lock_script (demo_world [IoFail 0 EIO]) = []"
    "io_script (demo_world [IoFail 0 EIO]) = IoFail 0 EIO # []"
    by (simp_all add: demo_world_def)
  ultimately show ?thesis
    using failed_eviction_advances_ring [of ?db "''/a.db''" "demo_world [IoFail 0 EIO]" 0 "[]" 9 "[1]"]
    by (auto simp: demo_header_def zero_header_def)
qed

end
