(* ===== verification/Tsdb_Durability.thy ===== *)
theory Tsdb_Durability
  imports Tsdb_Write
begin

text \<open>
  Durability: what a later open can recover after a write, across \<open>src/tsdb_write.c\<close> and the
  sidecar functions of \<open>src/tsdb_core.c\<close>. The theorems say that a sidecar write is atomic
  whatever fails, that an acknowledged record write is recoverable when the platform does
  not fail, and where the protocol gives less than its comments promise: two torn writes in
  a row, and an acknowledgement although no slot could be written.
\<close>

section \<open>The write path up to the sidecar\<close>

text \<open>Nothing the sidecar depends on differs.\<close>

definition same_side :: "tsdb \<Rightarrow> world \<Rightarrow> tsdb \<Rightarrow> world \<Rightarrow> bool" where
  "same_side db w db' w' \<longleftrightarrow>
     filepath db' = filepath db \<and> db_file db' = db_file db \<and>
     param_names (header db') = param_names (header db) \<and>
     sidecar_seq db' = sidecar_seq db \<and> sidecar_slot db' = sidecar_slot db \<and>
     legacy_slot db' = legacy_slot db \<and> legacy_seq db' = legacy_seq db \<and>
     legacy_mirrored db' = legacy_mirrored db \<and> side_dir_ready db' = side_dir_ready db \<and>
     dirs w' = dirs w \<and> (\<forall>q\<in>side_files (filepath db). fs w' q = fs w q) \<and> (quiet w \<longrightarrow> quiet w')"

lemma same_side_refl [simp]: "same_side db w db w"
  by (simp add: same_side_def)

lemma same_side_trans: "same_side a v b w \<Longrightarrow> same_side b w c x \<Longrightarrow> same_side a v c x"
  by (simp add: same_side_def)

lemma same_side_newest:
  assumes "same_side db w db' w'"
  shows "newest_compact w' (filepath db) = newest_compact w (filepath db)"
    and "newest_legacy w' (filepath db) = newest_legacy w (filepath db)"
    and "stored_header w' (filepath db) names = stored_header w (filepath db) names"
proof -
  have "fs w' (tsdb_side_path (filepath db) i) = fs w (tsdb_side_path (filepath db) i)"
    "fs w' (tsdb_legacy_path (filepath db) i) = fs w (tsdb_legacy_path (filepath db) i)" for i
    using assms by (simp_all add: same_side_def)
  then show 1: "newest_compact w' (filepath db) = newest_compact w (filepath db)"
    and 2: "newest_legacy w' (filepath db) = newest_legacy w (filepath db)"
    by (simp_all add: newest_compact_def newest_legacy_def compact_at_def legacy_at_def)
  show "stored_header w' (filepath db) names = stored_header w (filepath db) names"
    by (simp add: stored_header_def 1 2)
qed

lemma same_side_inv: "same_side db w db' w' \<Longrightarrow> side_inv db w \<Longrightarrow> side_inv db' w'"
  unfolding side_inv_def by (frule same_side_newest(1), frule same_side_newest(2))
    (auto simp: same_side_def split: option.splits)

lemma same_side_dirs: "same_side db w db' w' \<Longrightarrow> side_dirs db w \<Longrightarrow> side_dirs db' w'"
  by (simp add: side_dirs_def same_side_def)

lemma side_file_neq: "q \<in> side_files fp \<Longrightarrow> q \<noteq> fp"
  using db_file_not_side [of fp] by auto

text \<open>Only the file \<open>p\<close> changed.\<close>

definition touches :: "path \<Rightarrow> world \<Rightarrow> world \<Rightarrow> bool" where
  "touches p w w' \<longleftrightarrow>
     dirs w' = dirs w \<and> (\<forall>q. q \<noteq> p \<longrightarrow> fs w' q = fs w q) \<and>
     (quiet w \<longrightarrow> quiet w') \<and> (sound w \<longrightarrow> sound w')"

lemma touches_refl [simp]: "touches p w w"
  by (simp add: touches_def)

lemma touches_trans: "touches p u v \<Longrightarrow> touches p v w \<Longrightarrow> touches p u w"
  by (simp add: touches_def)

lemma fwrite_at_touches:
  assumes "fwrite_at w p off d = (r, w')"
  shows "touches p w w'"
proof -
  have "dirs w' = dirs w \<and> (\<forall>q. q \<noteq> p \<longrightarrow> fs w' q = fs w q)"
    using assms by (auto simp: fwrite_at_def dest!: next_io_fs split: prod.splits io_outcome.splits)
  moreover have "quiet w \<Longrightarrow> quiet w'"
    using assms by (auto simp: quiet_fwrite_at quiet_put_file)
  moreover have "sound w \<Longrightarrow> sound w'" by (rule sound_fwrite_at [OF assms])
  ultimately show ?thesis by (simp add: touches_def)
qed

lemma write_header_touches: "tsdb_write_header (Some p) h w = (r, w') \<Longrightarrow> touches p w w'"
  by (auto simp: tsdb_write_header_def dest!: fwrite_at_touches split: prod.splits option.splits)

lemma persist_cap_touches:
  assumes "db_file db = Some p"
  shows "touches p w (persist_cap db w)"
proof -
  obtain r w1 where 1: "tsdb_write_header (Some p) (header db) w = (r, w1)" by fastforce
  obtain r' w2 where 2: "tsdb_write_header (Some p) (header db) w1 = (r', w2)" by fastforce
  from assms 1 2 write_header_touches [OF 1] touches_trans [OF write_header_touches [OF 1] write_header_touches [OF 2]]
  show ?thesis by (simp add: persist_cap_def)
qed

lemma write_block_touches:
  "db_file db = Some p \<Longrightarrow> tsdb_write_block db b blk w = (r, w') \<Longrightarrow> touches p w w'"
  by (auto simp: tsdb_write_block_def Let_def dest!: fwrite_at_touches
      split: prod.splits option.splits errno.splits)

lemma write_overflow_touches: "db_file db = Some p \<Longrightarrow> touches p w (write_overflow db vals w)"
  using fwrite_at_touches [of w p] by (simp add: write_overflow_def Let_def) (metis prod.collapse)

lemma same_side_file:
  assumes "touches (filepath db) w w'"
  shows "same_side db w db w'"
  using assms by (auto simp: same_side_def touches_def dest: side_file_neq)

lemma same_side_capped:
  assumes "db_file db = Some (filepath db)"
  shows "same_side db w (cap_at_total db) (persist_cap (cap_at_total db) w)"
proof -
  have "touches (filepath db) w (persist_cap (cap_at_total db) w)"
    using assms by (intro persist_cap_touches) (simp add: cap_at_total_def)
  from same_side_file [OF this] show ?thesis by (simp add: same_side_def cap_at_total_def)
qed

text \<open>
  An acknowledged write ends with a sidecar write of the final header; everything before it
  leaves the slots and the bookkeeping alone.
\<close>

definition ends_in_sidecar :: "tsdb \<Rightarrow> world \<Rightarrow> tsdb \<Rightarrow> world \<Rightarrow> bool" where
  "ends_in_sidecar db w db' w' \<longleftrightarrow>
     (\<exists>db2 w2 rs db3. same_side db w db2 w2 \<and> tsdb_sidecar_write db2 w2 = (rs, db3, w') \<and>
        db' = db3\<lparr>in_file_header_stale := True\<rparr> \<and> header db' = header db2)"

lemma ends_in_sidecar_after:
  "same_side db w db1 w1 \<Longrightarrow> ends_in_sidecar db1 w1 db' w' \<Longrightarrow> ends_in_sidecar db w db' w'"
  unfolding ends_in_sidecar_def using same_side_trans by blast

lemma advance_header_side:
  "same_side db w (mark_index (advance_header db ri ev ts w) ri) w"
proof -
  have mark: "same_side a w (mark_index a ri) w" for a
    by (simp add: same_side_def mark_index_def Let_def)
  have "same_side db w (advance_header db ri ev ts w) w"
    by (simp add: same_side_def advance_header_def Let_def split: prod.split option.split esp_err.split)
  from same_side_trans [OF this mark] show ?thesis .
qed

lemma finish_write_sidecar:
  assumes "finish_write db ri ev ts vals w = (r, db', w')" "db_file db = Some (filepath db)"
  shows "ends_in_sidecar db w db' w'"
proof -
  let ?w = "write_overflow db vals w"
  let ?db = "mark_index (advance_header db ri ev ts ?w) ri"
  obtain rs db3 where sc: "tsdb_sidecar_write ?db ?w = (rs, db3, w')" "db' = db3\<lparr>in_file_header_stale := True\<rparr>"
    using assms(1) by (auto simp: finish_write_def Let_def split: prod.splits)
  have "same_side db w db ?w"
    using write_overflow_touches [OF assms(2)] by (rule same_side_file)
  from same_side_trans [OF this advance_header_side] have "same_side db w ?db ?w" .
  moreover have "header db' = header ?db"
    using sc by (auto elim: sidecar_write_db)
  ultimately show ?thesis using sc unfolding ends_in_sidecar_def by blast
qed

lemma write_attempt_side:
  assumes "db_file db = Some (filepath db)"
  shows "tsdb_write_attempt db ts vals w = Inl (db', w') \<Longrightarrow> same_side db w db' w'"
    and "tsdb_write_attempt db ts vals w = Inr (ESP_OK, db', w') \<Longrightarrow> ends_in_sidecar db w db' w'"
proof -
  define db1 where "db1 = db\<lparr>header := evict_header (header db)\<rparr>"
  define bn where "bn = next_record_idx (header db) div ucast (records_per_block (header db1))"
  define blk where "blk = fill_block (header db1) (existing_or_new (tsdb_read_block db1 bn w))
    (unat (ucast (next_record_idx (header db) mod ucast (records_per_block (header db1))) :: u16)) ts vals"
  obtain pl where pl: "stage_block db1 (write_cache_offset db1) blk = db1\<lparr>pool := pl\<rparr>"
    using stage_block_pool by blast
  let ?db = "db1\<lparr>pool := pl\<rparr>"
  obtain ret w1 where wb: "tsdb_write_block ?db bn blk w = (ret, w1)" by fastforce
  have f: "db_file ?db = Some (filepath db)" using assms by (simp add: db1_def)
  have "same_side db w db w1"
    using write_block_touches [OF f wb] by (rule same_side_file)
  moreover have "same_side db w1 ?db w1"
    by (simp add: same_side_def db1_def evict_header_def)
  ultimately have s1: "same_side db w ?db w1" by (rule same_side_trans)
  let ?capped = "cap_at_total ?db"
  have s2: "same_side ?db w1 ?capped (persist_cap ?capped w1)"
    using f by (intro same_side_capped) (simp add: db1_def)
  have run: "tsdb_write_attempt db ts vals w =
    (if ret = ESP_ERR_NO_MEM \<and> \<not> next_is_eviction (header db) \<and> \<not> capacity_adapted ?db \<and>
        total_records (header ?db) > 0
     then Inl (?capped, persist_cap ?capped w1)
     else if ret \<noteq> ESP_OK then Inr (ret, ?db, w1)
     else Inr (finish_write ?db (next_record_idx (header db)) (next_is_eviction (header db)) ts vals w1))"
    unfolding tsdb_write_attempt_def Let_def using pl wb unfolding blk_def bn_def db1_def by simp
  show "tsdb_write_attempt db ts vals w = Inl (db', w') \<Longrightarrow> same_side db w db' w'"
    using run same_side_trans [OF s1 s2] by (auto split: if_splits)
  assume "tsdb_write_attempt db ts vals w = Inr (ESP_OK, db', w')"
  then have "finish_write ?db (next_record_idx (header db)) (next_is_eviction (header db)) ts vals w1 = (ESP_OK, db', w')"
    using run by (auto split: if_splits)
  from finish_write_sidecar [OF this] f show "ends_in_sidecar db w db' w'"
    by (intro ends_in_sidecar_after [OF s1]) (simp add: db1_def)
qed

lemma write_retry_side:
  "tsdb_write_retry db ts vals w = (ESP_OK, db', w') \<Longrightarrow> db_file db = Some (filepath db) \<Longrightarrow>
   ends_in_sidecar db w db' w'"
proof (induction db ts vals w rule: tsdb_write_retry.induct)
  case (1 db ts vals w)
  show ?case
  proof (cases "tsdb_write_attempt db ts vals w")
    case (Inl a)
    obtain db1 w1 where a: "a = (db1, w1)" by fastforce
    have s: "same_side db w db1 w1" using write_attempt_side(1) 1(3) Inl a by blast
    then have "db_file db1 = Some (filepath db1)" using 1(3) by (simp add: same_side_def)
    with 1 Inl a s show ?thesis
      by (intro ends_in_sidecar_after [OF s]) (simp add: tsdb_write_retry.simps [of db])
  next
    case (Inr b)
    with 1 write_attempt_side(2) [OF 1(3)] show ?thesis
      by (simp add: tsdb_write_retry.simps [of db])
  qed
qed

lemma write_locked_side:
  assumes "write_locked db ts vals w = (ESP_OK, db', w')" "db_file db = Some (filepath db)"
  shows "ends_in_sidecar db w db' w'"
proof -
  obtain db1 w1 where g: "free_space_guard db w = (db1, w1)" by fastforce
  have fs: "fs (snd (free_space_now w)) = fs w \<and> dirs (snd (free_space_now w)) = dirs w \<and>
      (quiet w \<longrightarrow> quiet (snd (free_space_now w)))"
    by (simp add: free_space_now_def quiet_def split: list.splits)
  let ?c = "cap_at_total db"
  have "same_side db w ?c (persist_cap ?c (snd (free_space_now w)))"
    using same_side_trans [OF _ same_side_capped [OF assms(2)], of db w "snd (free_space_now w)"] fs
    by (simp add: same_side_def)
  then have "same_side db w db1 w1"
    using g fs by (auto simp: free_space_guard_def Let_def same_side_def split: prod.splits if_splits)
  moreover have "ends_in_sidecar db1 w1 db' w'"
    using write_retry_side [of db1 ts vals w1 db' w'] assms g calculation
    by (auto simp: write_locked_def same_side_def)
  ultimately show ?thesis by (rule ends_in_sidecar_after)
qed

section \<open>The properties\<close>

lemma demo_slots: "newest_legacy (demo_world s) ''/a.db'' = None" "newest_compact (demo_world s) ''/a.db'' = None"
  by (simp_all add: newest_legacy_def newest_compact_def legacy_at_def compact_at_def demo_world_def
      tsdb_legacy_path_def tsdb_side_path_def slot_digit_def newer_slot_def)

lemma demo_side: "side_inv (demo_db n) (demo_world s)" "side_dirs (demo_db n) (demo_world s)"
proof -
  have f: "filepath (demo_db n) = ''/a.db''" by (simp add: demo_db_def)
  show "side_inv (demo_db n) (demo_world s)"
    unfolding side_inv_def f demo_slots by (simp add: demo_db_def newest_is_def)
  show "side_dirs (demo_db n) (demo_world s)"
    by (simp add: side_dirs_def demo_db_def demo_world_def parent_dir_def)
qed

text \<open>The slots after a sidecar write.\<close>

lemma sidecar_write_stores:
  assumes "side_inv db w" "header_wf (header db)" "tsdb_sidecar_write db w = (r, db', w')"
    and "names = param_names (header db)"
  shows "stored_header w' (filepath db) names \<in> {stored_header w (filepath db) names, Some (header db)} \<and>
    (r = ESP_OK \<and> sound w \<longrightarrow> stored_header w' (filepath db) names = Some (header db))"
proof -
  let ?q = "sidecar_seq db + 1" and ?fp = "filepath db" and ?h = "header db"
  let ?d = "Some (1 - sidecar_slot db, ?q, legacy_seq db, header_pre ?h, header_post ?h)"
  let ?r = "Some (1 - legacy_slot db, ?q, ?h)"
  note inv = assms(1) [unfolded side_inv_def]
  have s: "sidecar_slot db \<in> {0, 1}" "legacy_slot db \<in> {0, 1}" using inv by auto
  have q: "sidecar_seq db < ?q" using inv seq_inc by auto
  have lq: "legacy_seq db < ?q" by (rule le_less_trans [OF _ q]) (use inv in blast)
  have nc: "newest_is (sidecar_slot db) (sidecar_seq db) (newest_compact w ?fp)"
    and nl: "newest_is (legacy_slot db) (legacy_seq db) (newest_legacy w ?fp)" using inv by auto
  have rest: "newest_legacy w ?fp = None \<longrightarrow> legacy_seq db = 0" "legacy_seq db \<le> sidecar_seq db"
    using inv by auto
  have "case newest_compact w ?fp of None \<Rightarrow> True | Some (_, _, l, _) \<Rightarrow> l \<le> sidecar_seq db"
    using inv by (auto simp: newest_is_def split: option.splits intro: order_trans)
  note choose = choose_after [OF _ _ assms(2) q rest(2) nl rest(1) this assms(4)]
  from assms(3) show ?thesis
  proof (cases rule: sidecar_write_steps)
    case (compact w1)
    note st = compact_step [OF compact(2) assms(2) s(1) _ q, unfolded newest_cong [OF compact(1)], OF nc]
    show ?thesis
      unfolding stored_header_def using choose [of "newest_legacy w' ?fp" "newest_compact w' ?fp" "sidecar_slot db"] st compact(6) by auto
  next
    case (mirror w1 ok w2 mok)
    note st = compact_step [OF mirror(2) assms(2) s(1) _ q, unfolded newest_cong [OF mirror(1)], OF nc]
    note ms = legacy_step [OF mirror(3) assms(2) s(2) nl [folded st(3)] lq]
    have r: "newest_legacy w' ?fp \<in> {newest_legacy w ?fp, ?r}" using ms(1) st(3) by simp
    have d: "newest_compact w' ?fp \<in> {newest_compact w ?fp, ?d}" using ms(3) st(1) by simp
    have "r = ESP_OK \<Longrightarrow> sound w \<Longrightarrow> newest_legacy w' ?fp = ?r \<or> newest_compact w' ?fp = ?d"
      using mirror(4,6) st(2) ms(2,3) write_small_file_sound [OF mirror(2)] by (auto split: if_splits)
    with choose [OF r d] show ?thesis unfolding stored_header_def by auto
  qed
qed


text \<open>
  C6: One sidecar write is atomic. As long as the bookkeeping of the handle points at the newest
  valid slots (\<open>side_inv\<close>, which opening establishes and a sidecar write without failures keeps), with any
  pattern of failing, torn or lost file operations during the write, the header a later open loads
  is either the one it would have loaded before or exactly the new one; and when the write reports
  success, and no accepted data was lost behind its back (\<open>sound\<close>), it is the new one. A write that fails may
  break the premise for the next one: \<open>two_failed_writes_lose_header\<close> below.
\<close>

theorem sidecar_write_atomic:
  assumes "side_inv db w" "header_wf (header db)" "tsdb_sidecar_write db w = (r, db', w')"
    and "names = param_names (header db)"
  shows "stored_header w' (filepath db) names \<in> {stored_header w (filepath db) names, Some (header db)} \<and>
    (r = ESP_OK \<and> sound w \<longrightarrow> stored_header w' (filepath db) names = Some (header db))"
  by (rule sidecar_write_stores [OF assms])

theorem sidecar_write_atomic_witness:
  "\<exists>r db' w'. tsdb_sidecar_write (demo_db 3) (demo_world [IoOk, IoOk, IoFail 10 EIO]) = (r, db', w') \<and>
     stored_header w' ''/a.db'' (param_names (demo_header 3)) \<in> {None, Some (demo_header 3)}"
proof -
  let ?w = "demo_world [IoOk, IoOk, IoFail 10 EIO]"
  obtain r db' w' where sw: "tsdb_sidecar_write (demo_db 3) ?w = (r, db', w')" by (metis prod_cases3)
  have "stored_header ?w ''/a.db'' names = None" for names
    by (simp add: stored_header_def choose_header_def demo_slots)
  moreover have "header_wf (header (demo_db 3))" by (simp add: demo_db_def demo_header_def header_wf_def zero_header_def)
  ultimately show ?thesis
    using sidecar_write_atomic [OF demo_side(1) _ sw refl] sw by (auto simp: demo_db_def)
qed

lemma sidecar_write_seq:
  "tsdb_sidecar_write db w = (r, db', w') \<Longrightarrow> sidecar_seq db' = sidecar_seq db + 1"
  by (erule sidecar_write_steps) (simp_all add: Let_def)

text \<open>One acknowledged write in a quiet world, with everything the next one relies on.\<close>

lemma write_recovers:
  assumes "writable (Suc n) (db, w)" "entry_fits (db, w) (ts, vals)" "side_inv db w" "side_dirs db w"
    and "sidecar_seq db + 1 < 0xFFFFFFFF"
  obtains db' w' where "tsdb_write_h (Some db) ts (Some vals) w = (ESP_OK, Some db', w')"
    "db_put (db, w) (ts, vals) = (db', w')" "write_locked db ts vals w = (ESP_OK, db', w')"
    "stored db w (entry_row (db, w) (ts, vals)) db' w'" "writable n (db', w')"
    "stored_header w' (filepath db) (param_names (header db)) = Some (header db')"
    "side_inv db' w'" "side_dirs db' w'" "sidecar_seq db' = sidecar_seq db + 1"
proof -
  have v: "quiet w" "db_inv db w" "is_open db" "\<not> migrating db" "\<not> closing db"
    using assms(1) by (auto simp: writable_def)
  obtain db' w' where p: "tsdb_write_h (Some db) ts (Some vals) w = (ESP_OK, Some db', w')"
      "db_put (db, w) (ts, vals) = (db', w')"
      "stored db w (entry_row (db, w) (ts, vals)) db' w'" "writable n (db', w')"
    using db_put_stored [OF assms(1,2)] by (metis fst_conv snd_conv)
  have wl: "write_locked db ts vals w = (ESP_OK, db', w')"
    using p(1) v by (auto simp: write_h_open split: prod.splits)
  have "db_file db = Some (filepath db)" using v(2) by (simp add: db_inv_def)
  from write_locked_side [OF wl this] obtain db2 w2 rs db3 where
    sd: "same_side db w db2 w2" "tsdb_sidecar_write db2 w2 = (rs, db3, w')"
      "db' = db3\<lparr>in_file_header_stale := True\<rparr>" "header db' = header db2"
    by (auto simp: ends_in_sidecar_def)
  have i2: "side_inv db2 w2" "side_dirs db2 w2" "quiet w2" "sidecar_seq db2 + 1 < 0xFFFFFFFF"
    using same_side_inv [OF sd(1) assms(3)] same_side_dirs [OF sd(1) assms(4)] v(1) assms(5) sd(1)
    by (simp_all add: same_side_def)
  have wf: "header_wf (header db2)"
    using p(4) sd(4) by (simp add: writable_def db_inv_def ring_inv_def ring_hdr_def)
  note keep = quiet_sidecar_write_keeps [OF i2(1,2,3) wf sd(2) i2(4)]
  have "stored_header w' (filepath db) (param_names (header db)) = Some (header db')"
    using sidecar_write_stores [OF i2(1) wf sd(2) refl] keep(1) sd(1,4) i2(3) by (simp add: same_side_def)
  moreover have "side_inv db' w'" "side_dirs db' w'"
    using keep(2,3) sd(3) by (auto simp: side_inv_def side_dirs_def split: option.splits)
  moreover have "sidecar_seq db' = sidecar_seq db + 1"
    using sidecar_write_seq [OF sd(2)] sd(1,3) by (simp add: same_side_def)
  ultimately show ?thesis using p wl by (intro that)
qed

text \<open>
  C10: In a world without failures a write succeeds and is recoverable: the header a later open
  loads from the sidecar is the handle's new header, that header read over the file yields the
  old records followed by the new one (cut to the capacity), and the sidecar bookkeeping stays
  consistent, so that the next write has the same guarantee. A write that is acknowledged while
  its sidecar write fails is not recoverable (\<open>acknowledged_without_header\<close>).
\<close>

theorem write_recoverable:
  assumes "writable 1 (db, w)" "entry_fits (db, w) (ts, vals)" "side_inv db w" "side_dirs db w"
    and "sidecar_seq db + 1 < 0xFFFFFFFF"
  shows "\<exists>db' w' h. tsdb_write_h (Some db) ts (Some vals) w = (ESP_OK, Some db', w') \<and>
    stored_header w' (filepath db) (param_names (header db)) = Some h \<and> h = header db' \<and>
    retained h (content w' (filepath db)) =
      within (limit_of h) (db_rows (db, w) @ [(ts, take (nparams (header db)) vals)]) \<and>
    side_inv db' w' \<and> side_dirs db' w'"
proof -
  have "writable (Suc 0) (db, w)" using assms(1) by simp
  from write_recovers [OF this assms(2-5)] obtain db' w' where
    p: "tsdb_write_h (Some db) ts (Some vals) w = (ESP_OK, Some db', w')"
      "stored db w (entry_row (db, w) (ts, vals)) db' w'"
      "stored_header w' (filepath db) (param_names (header db)) = Some (header db')"
      "side_inv db' w'" "side_dirs db' w'"
    by blast
  then show ?thesis by (auto simp: stored_def db_rows_def entry_row_def same_frame_def)
qed

theorem write_recoverable_witness:
  "\<exists>db' w' h. tsdb_write_h (Some (demo_db 3)) 100 (Some [7]) (demo_world []) = (ESP_OK, Some db', w') \<and>
     stored_header w' ''/a.db'' (param_names (demo_header 3)) = Some h \<and>
     retained h (content w' ''/a.db'') = within (limit_of h) [(100, [7])]"
proof -
  let ?s = "(demo_db 3, demo_world [])"
  have np: "nparams (header (demo_db 3)) = 1" by (simp add: demo_db_def demo_header_def)
  have fits: "entry_fits ?s (100, [7])" by (simp add: entry_fits_def np) (simp add: demo_db_def)
  have "db_rows ?s = []" by (simp add: db_rows_def demo_db_def demo_retained)
  moreover have "sidecar_seq (demo_db 3) + 1 < 0xFFFFFFFF" "filepath (demo_db 3) = ''/a.db''"
    "header (demo_db 3) = demo_header 3" by (simp_all add: demo_db_def)
  ultimately show ?thesis
    using write_recoverable [OF demo_writable [of 1] fits demo_side] np by auto
qed

section \<open>Where the protocol promises more than it keeps\<close>

lemma torn_small_file:
  assumes "io_script w = IoOk # IoFail 0 e # IoOk # rest" "dirs w (parent_dir p)"
  shows "tsdb_write_small_file p d w = (False, (put_file w p [])\<lparr>io_script := rest\<rparr>)"
  using assms
  by (simp add: tsdb_write_small_file_def fopen_trunc_def fwrite_at_def io_checked_def next_io_def
      content_def put_file_def)

text \<open>A sidecar write on a full file system: both slot files are truncated and stay empty.\<close>

lemma full_sidecar_write:
  assumes "io_script w = [IoOk, IoFail 0 e, IoOk, IoOk, IoFail 0 e', IoOk] @ rest"
    and "side_dir_ready db" "side_dirs db w"
  shows "tsdb_sidecar_write db w =
    (ESP_FAIL,
     db\<lparr>sidecar_seq := sidecar_seq db + 1, sidecar_slot := sidecar_slot db XOR 1,
        legacy_slot := legacy_slot db XOR 1\<rparr>,
     (put_file (put_file w (tsdb_side_path (filepath db) (sidecar_slot db XOR 1)) [])
        (tsdb_legacy_path (filepath db) (legacy_slot db XOR 1)) [])\<lparr>io_script := rest\<rparr>)"
proof -
  let ?c = "tsdb_side_path (filepath db) (sidecar_slot db XOR 1)"
  let ?w2 = "(put_file w ?c [])\<lparr>io_script := [IoOk, IoFail 0 e', IoOk] @ rest\<rparr>"
  have d: "dirs w (parent_dir (tsdb_side_path (filepath db) s))" "dirs w (parent_dir (tsdb_legacy_path (filepath db) s))" for s
    using assms(2,3) by (simp_all add: side_dirs_def parent_dir_slots)
  have 1: "tsdb_write_small_file ?c b w = (False, ?w2)" for b
    using assms(1) d by (simp add: torn_small_file)
  have 2: "tsdb_write_small_file (tsdb_legacy_path (filepath db) s) b ?w2 =
      (False, (put_file ?w2 (tsdb_legacy_path (filepath db) s) [])\<lparr>io_script := rest\<rparr>)" for s b
    using d by (intro torn_small_file) simp_all
  show ?thesis
    using assms(2) 1 2 unfolding tsdb_sidecar_write_def Let_def by (simp add: put_file_def)
qed

text \<open>
  The slot alternation does not survive two failures in a row: a failed write is not rolled
  back, so the next one targets the only slot that is still valid. After two sidecar writes
  on a full file system all four slots are empty and no header can be loaded, whatever was
  stored before.
\<close>

theorem two_failed_writes_lose_header:
  assumes "side_dirs db w" "side_dir_ready db" "sidecar_slot db \<in> {0, 1}" "legacy_slot db \<in> {0, 1}"
    and "io_script w = concat (replicate 4 [IoOk, IoFail 0 ENOSPC, IoOk]) @ rest"
  shows "\<exists>db1 w1 db2 w2. tsdb_sidecar_write db w = (ESP_FAIL, db1, w1) \<and>
    tsdb_sidecar_write db1 w1 = (ESP_FAIL, db2, w2) \<and>
    stored_header w2 (filepath db) names = None"
proof -
  let ?rest = "concat (replicate 2 [IoOk, IoFail 0 ENOSPC, IoOk]) @ rest"
  have s: "io_script w = [IoOk, IoFail 0 ENOSPC, IoOk, IoOk, IoFail 0 ENOSPC, IoOk] @ ?rest"
    using assms(5) by (simp add: eval_nat_numeral)
  obtain db1 w1 where 1: "tsdb_sidecar_write db w = (ESP_FAIL, db1, w1)"
    and db1: "db1 = db\<lparr>sidecar_seq := sidecar_seq db + 1, sidecar_slot := sidecar_slot db XOR 1,
        legacy_slot := legacy_slot db XOR 1\<rparr>"
    and w1: "w1 = (put_file (put_file w (tsdb_side_path (filepath db) (sidecar_slot db XOR 1)) [])
        (tsdb_legacy_path (filepath db) (legacy_slot db XOR 1)) [])\<lparr>io_script := ?rest\<rparr>"
    using full_sidecar_write [OF s assms(2,1)] by blast
  have s1: "io_script w1 = [IoOk, IoFail 0 ENOSPC, IoOk, IoOk, IoFail 0 ENOSPC, IoOk] @ rest"
    by (simp add: w1 eval_nat_numeral)
  have d1: "side_dir_ready db1" "side_dirs db1 w1"
    using assms(1,2) by (simp_all add: db1 w1 side_dirs_def)
  obtain db2 w2 where 2: "tsdb_sidecar_write db1 w1 = (ESP_FAIL, db2, w2)"
    and w2: "w2 = (put_file (put_file w1 (tsdb_side_path (filepath db) (sidecar_slot db)) [])
        (tsdb_legacy_path (filepath db) (legacy_slot db)) [])\<lparr>io_script := rest\<rparr>"
    using full_sidecar_write [OF s1 d1] by (auto simp: db1 xor.assoc)
  have "fs w2 (tsdb_side_path (filepath db) i) = Some []" "fs w2 (tsdb_legacy_path (filepath db) i) = Some []"
    if "i \<in> {0, 1}" for i
    using that assms(3,4) slot_path_inj(3) by (auto simp: w2 w1)
  then have "compact_at w2 (filepath db) i = None" "legacy_at w2 (filepath db) i = None" if "i \<in> {0, 1}" for i
    using that by (simp_all add: compact_at_def legacy_at_def parse_short)
  then have "stored_header w2 (filepath db) names = None"
    by (simp add: stored_header_def newest_compact_def newest_legacy_def newer_slot_def choose_header_def)
  with 1 2 show ?thesis by blast
qed

theorem two_failed_writes_lose_header_witness:
  "\<exists>db1 w1 db2 w2. tsdb_sidecar_write ((demo_db 3)\<lparr>side_dir_ready := True\<rparr>)
       ((demo_world (concat (replicate 4 [IoOk, IoFail 0 ENOSPC, IoOk])))\<lparr>dirs := (\<lambda>_. True)\<rparr>) =
       (ESP_FAIL, db1, w1) \<and>
     tsdb_sidecar_write db1 w1 = (ESP_FAIL, db2, w2) \<and> stored_header w2 ''/a.db'' [] = None"
proof -
  let ?db = "(demo_db 3)\<lparr>side_dir_ready := True\<rparr>"
  let ?w = "(demo_world (concat (replicate 4 [IoOk, IoFail 0 ENOSPC, IoOk])))\<lparr>dirs := (\<lambda>_. True)\<rparr>"
  have "side_dirs ?db ?w" "side_dir_ready ?db" "sidecar_slot ?db \<in> {0, 1}" "legacy_slot ?db \<in> {0, 1}"
    "filepath ?db = ''/a.db''"
    "io_script ?w = concat (replicate 4 [IoOk, IoFail 0 ENOSPC, IoOk]) @ []"
    by (simp_all add: side_dirs_def demo_db_def demo_world_def)
  then show ?thesis using two_failed_writes_lose_header [of ?db ?w "[]" "[]"] by simp
qed

lemma unopened_small_file:
  "io_script w = IoFail k e # rest \<Longrightarrow> tsdb_write_small_file p d w = (False, w\<lparr>io_script := rest\<rparr>)"
  by (simp add: tsdb_write_small_file_def fopen_trunc_def next_io_def)

lemma unopened_sidecar_write:
  assumes "io_script w = [IoFail k e, IoFail k' e']" "side_dir_ready db"
  shows "\<exists>db'. tsdb_sidecar_write db w = (ESP_FAIL, db', w\<lparr>io_script := []\<rparr>)"
proof -
  have "tsdb_write_small_file p d w = (False, w\<lparr>io_script := [IoFail k' e']\<rparr>)"
    "tsdb_write_small_file p d (w\<lparr>io_script := [IoFail k' e']\<rparr>) = (False, w\<lparr>io_script := []\<rparr>)" for p d
    using assms(1) by (simp_all add: unopened_small_file)
  then show ?thesis
    using assms(2) unfolding tsdb_sidecar_write_def Let_def by simp
qed

text \<open>
  The result of the sidecar write is not looked at: when neither slot can be opened after
  the block was written, the write still reports success, although the header that counts
  the record was stored nowhere and a later open loads the header from before the write.
\<close>

theorem acknowledged_without_header:
  assumes "is_open db" "\<not> migrating db" "\<not> closing db" "db_file db = Some (filepath db)"
    and "side_dir_ready db" "\<not> has_free_space_cb db" "db_extra_param_count db = 0"
    and "lock_script w = []" "io_script w = [IoOk, IoFail 0 EIO, IoFail 0 EIO]"
  shows "\<exists>db' w'. tsdb_write_h (Some db) ts (Some vals) w = (ESP_OK, Some db', w') \<and>
    total_records (header db') = total_records (header db) + 1 \<and>
    stored_header w' (filepath db) names = stored_header w (filepath db) names"
proof -
  have lock: "tsdb_lock_open w = (None, w)"
    using assms(8) by (simp add: tsdb_lock_open_def next_lock_def)
  have guard: "free_space_guard db w = (db, w)"
    using assms(6) by (simp add: free_space_guard_def Let_def)
  define db1 where "db1 = db\<lparr>header := evict_header (header db)\<rparr>"
  define bn where "bn = next_record_idx (header db) div ucast (records_per_block (header db1))"
  define blk where "blk = fill_block (header db1) (existing_or_new (tsdb_read_block db1 bn w))
    (unat (ucast (next_record_idx (header db) mod ucast (records_per_block (header db1))) :: u16)) ts vals"
  obtain pl where pl: "stage_block db1 (write_cache_offset db1) blk = db1\<lparr>pool := pl\<rparr>"
    using stage_block_pool by blast
  let ?db = "db1\<lparr>pool := pl\<rparr>" and ?ri = "next_record_idx (header db)" and ?ev = "next_is_eviction (header db)"
  obtain w1 where wb: "tsdb_write_block ?db bn blk w = (ESP_OK, w1)"
    and w1: "io_script w1 = [IoFail 0 EIO, IoFail 0 EIO]"
    using assms(4,9) by (simp add: tsdb_write_block_def fwrite_at_def next_io_def db1_def put_file_def)
  have f: "db_file ?db = Some (filepath db)" "filepath ?db = filepath db" using assms(4) by (simp_all add: db1_def)
  have t1: "touches (filepath db) w w1" by (rule write_block_touches [OF f(1) wb])
  have ov: "write_overflow ?db vals w1 = w1"
    using assms(7) by (simp add: write_overflow_def db1_def)
  let ?db2 = "mark_index (advance_header ?db ?ri ?ev ts w1) ?ri"
  have "side_dir_ready ?db2"
    using advance_header_side [of ?db w1 ?ri ?ev ts] assms(5) by (simp add: same_side_def db1_def)
  then obtain db3 where sw: "tsdb_sidecar_write ?db2 w1 = (ESP_FAIL, db3, w1\<lparr>io_script := []\<rparr>)"
    using unopened_sidecar_write [OF w1] by blast
  let ?db' = "db3\<lparr>in_file_header_stale := True\<rparr>" and ?w' = "w1\<lparr>io_script := []\<rparr>"
  have fin: "finish_write ?db ?ri ?ev ts vals w1 = (ESP_OK, ?db', ?w')"
    unfolding finish_write_def Let_def ov by (simp add: sw)
  have "tsdb_write_attempt db ts vals w = Inr (ESP_OK, ?db', ?w')"
    unfolding tsdb_write_attempt_def Let_def using pl wb fin unfolding blk_def bn_def db1_def by simp
  then have "tsdb_write_h (Some db) ts (Some vals) w = (ESP_OK, Some ?db', ?w')"
    using assms(1-3) lock guard
    by (simp add: tsdb_write_h_def write_locked_def tsdb_write_retry.simps)
  moreover have "total_records (header ?db') = total_records (header db) + 1"
    using finish_write(3) [OF fin] by (simp add: db1_def evict_header_def)
  moreover have "stored_header ?w' (filepath db) names = stored_header w (filepath db) names"
    using same_side_newest(3) [OF same_side_file [OF t1]]
    by (simp add: stored_header_def newest_compact_def newest_legacy_def compact_at_def legacy_at_def)
  ultimately show ?thesis by blast
qed

theorem acknowledged_without_header_witness:
  "\<exists>db' w'. tsdb_write_h (Some ((demo_db 3)\<lparr>side_dir_ready := True\<rparr>)) 100 (Some [7])
       (demo_world [IoOk, IoFail 0 EIO, IoFail 0 EIO]) = (ESP_OK, Some db', w') \<and>
     total_records (header db') = 1 \<and> stored_header w' ''/a.db'' [] = None"
proof -
  let ?db = "(demo_db 3)\<lparr>side_dir_ready := True\<rparr>" and ?w = "demo_world [IoOk, IoFail 0 EIO, IoFail 0 EIO]"
  have "is_open ?db" "\<not> migrating ?db" "\<not> closing ?db" "db_file ?db = Some (filepath ?db)" "side_dir_ready ?db"
    "\<not> has_free_space_cb ?db" "db_extra_param_count ?db = 0" "filepath ?db = ''/a.db''"
    "total_records (header ?db) = 0"
    by (simp_all add: demo_db_def) (simp add: demo_header_def zero_header_def)
  moreover have "lock_script ?w = []" "io_script ?w = [IoOk, IoFail 0 EIO, IoFail 0 EIO]"
    by (simp_all add: demo_world_def)
  moreover have "stored_header ?w ''/a.db'' [] = None"
    by (simp add: stored_header_def choose_header_def demo_slots)
  ultimately show ?thesis
    using acknowledged_without_header [of ?db ?w 100 "[7]" "[]"] by simp
qed

end
