(* ===== verification/Tsdb_Open.thy ===== *)
theory Tsdb_Open
  imports Tsdb_Durability
begin

text \<open>
  Opening a database (\<open>tsdb_open\<close> in \<open>src/tsdb_core.c\<close>, with the recovery of an interrupted
  migration from \<open>src/tsdb_migrate.c\<close>): validating or rebuilding the header, adopting the
  sidecar, converting blocks of layout V2, loading the overflow state, or creating a new
  file.

  The handle that \<open>tsdb_acquire_handle\<close> provides is an argument of the operations here; the
  theory \<open>Tsdb_Lifecycle\<close> adds the recycler. The path is stored in \<open>char filepath[128]\<close>, which
  cuts it to 127 bytes.

  The lemmas show which geometry a new file has and that it satisfies the invariant of an
  empty ring, that reopening after a crash recovers every acknowledged record, and in which
  situation the sanity check refuses a valid header.
\<close>

section \<open>Configuration\<close>

record tsdb_config =
  cfg_filepath :: "path option"
  cfg_num_params :: u8
  cfg_param_names :: "cstr option list option"
  cfg_max_records :: u32
  cfg_index_stride :: u32
  buffer_pool_size :: u32
  cfg_alloc_strategy :: alloc_strategy
  use_paged_allocation :: bool
  cfg_page_size :: u32
  cfg_free_space_cb :: bool
  cfg_min_free_bytes :: u32

text \<open>A name stored in an array of \<open>n\<close> bytes: \<open>strncpy\<close> of \<open>n - 1\<close> bytes and a final NUL.\<close>

definition name_field :: "nat \<Rightarrow> cstr \<Rightarrow> bytes" where
  "name_field n s = strncpy_bytes (n - 1) s @ [0]"

definition nth_name :: "cstr option list \<Rightarrow> nat \<Rightarrow> cstr" where
  "nth_name names i = (if i < length names then (case names ! i of None \<Rightarrow> [] | Some s \<Rightarrow> s) else [])"

text \<open>The names of parameters 0..15 in the fixed header; the rest of the array stays zero.\<close>

definition fixed_names :: "cstr option list option \<Rightarrow> nat \<Rightarrow> bytes" where
  "fixed_names names n =
     (case names of
        None \<Rightarrow> replicate 512 0
      | Some ns \<Rightarrow>
          concat (map (\<lambda>i. if i < n then name_field 32 (nth_name ns i) else replicate 32 0) [0..<16]))"

text \<open>\<open>4 + num_params * 2\<close> and how many records of that size fit behind the 8-byte block header.\<close>

definition record_bytes :: "u8 \<Rightarrow> u32" where
  "record_bytes np = 4 + ucast np * 2"

definition blocks_records :: "u8 \<Rightarrow> u16" where
  "blocks_records np = ucast ((1024 - 8) div record_bytes np)"

definition stride_or_default :: "u32 \<Rightarrow> u32" where
  "stride_or_default s = (if s > 0 then s else 380)"

definition entries_for :: "u32 \<Rightarrow> u32 \<Rightarrow> u32" where
  "entries_for limit stride = (if limit > 0 then limit div stride + 1 else 256)"

text \<open>The fields that creating and reconstructing a header set in the same way.\<close>

definition config_header :: "tsdb_config \<Rightarrow> tsdb_header" where
  "config_header cfg =
     zero_header\<lparr>magic := TSDB_MAGIC,
       version := (if cfg_num_params cfg > 16 then TSDB_VERSION_WIDE else TSDB_VERSION),
       num_params := cfg_num_params cfg,
       param_size := 2,
       record_size := ucast (record_bytes (cfg_num_params cfg)),
       records_per_block := blocks_records (cfg_num_params cfg),
       max_records := cfg_max_records cfg,
       index_stride := stride_or_default (cfg_index_stride cfg),
       param_names := fixed_names (cfg_param_names cfg) (unat (cfg_num_params cfg))\<rparr>"

section \<open>Reconstructing a header\<close>

text \<open>The first candidate whose data region starts with a block magic.\<close>

fun probe_entries :: "path \<Rightarrow> world \<Rightarrow> u32 \<Rightarrow> u32 list \<Rightarrow> u32 option" where
  "probe_entries p w base [] = None"
| "probe_entries p w base (entries # rest) =
     (let probe_offset = base + entries * 8;
          file_size = of_nat (length (content w p)) :: u32
      in if probe_offset + 1024 > file_size then probe_entries p w base rest
         else (case fread_at w p (unat probe_offset) 4 of
                 Some b \<Rightarrow> if ld32 b 0 = BLKT_MAGIC then Some entries else probe_entries p w base rest
               | None \<Rightarrow> probe_entries p w base rest))"

fun probe_bases :: "path \<Rightarrow> world \<Rightarrow> u32 list \<Rightarrow> u32 list \<Rightarrow> u32 \<times> u32 \<Rightarrow> u32 \<times> u32" where
  "probe_bases p w cands [] st = st"
| "probe_bases p w cands (base # rest) (probed, off) =
     (if probed \<noteq> 0 then (probed, off)
      else (case probe_entries p w base cands of
              None \<Rightarrow> probe_bases p w cands rest (probed, off)
            | Some entries \<Rightarrow> probe_bases p w cands rest (entries, base)))"

text \<open>What the block scan accumulates.\<close>

record scan_state =
  sc_oldest_ts :: u32
  sc_newest_ts :: u32
  sc_oldest_idx :: u32
  sc_newest_idx :: u32
  sc_total :: u32

definition scan_record :: "u32 \<Rightarrow> u32 \<Rightarrow> scan_state \<Rightarrow> scan_state" where
  "scan_record ts record_idx st =
     (if ts = 0 then st
      else (let st = (if ts < sc_oldest_ts st then st\<lparr>sc_oldest_ts := ts, sc_oldest_idx := record_idx\<rparr> else st);
                st = (if ts > sc_newest_ts st then st\<lparr>sc_newest_ts := ts, sc_newest_idx := record_idx\<rparr> else st)
            in st\<lparr>sc_total := sc_total st + 1\<rparr>))"

definition scan_block :: "tsdb_header \<Rightarrow> path \<Rightarrow> world \<Rightarrow> scan_state \<Rightarrow> nat \<Rightarrow> scan_state" where
  "scan_block h p w st block_num =
     (case fread_at w p (unat (tsdb_calc_block_offset h (of_nat block_num))) TSDB_BLOCK_SIZE of
        None \<Rightarrow> st
      | Some b \<Rightarrow>
          if TSDB_BLOCK_MAGIC b \<noteq> BLKT_MAGIC \<or> TSDB_BLOCK_COUNT b = 0 then st
          else foldl (\<lambda>st i. scan_record (TSDB_BLOCK_TS b i)
                        (of_nat block_num * ucast (records_per_block h) + of_nat i) st)
                 st [0..<min (unat (TSDB_BLOCK_COUNT b)) (unat (records_per_block h))])"

definition scan_blocks :: "tsdb_header \<Rightarrow> path \<Rightarrow> world \<Rightarrow> scan_state" where
  "scan_blocks h p w =
     (let data_offset = tsdb_calc_block_offset h 0;
          max_blocks = (of_nat (length (content w p)) - data_offset) div 1024
      in foldl (scan_block h p w)
           \<lparr> sc_oldest_ts = 0xFFFFFFFF, sc_newest_ts = 0, sc_oldest_idx = 0, sc_newest_idx = 0, sc_total = 0 \<rparr>
           [0..<unat max_blocks])"

text \<open>The numbers of index entries that are tried, the configured one first.\<close>

definition probe_candidates :: "tsdb_config \<Rightarrow> u32 list" where
  "probe_candidates cfg =
     [entries_for (cfg_max_records cfg) (stride_or_default (cfg_index_stride cfg)),
      256, 128, 138, 165, 200, 512, 1024, 2048]"

text \<open>The header from the configuration, with the index position the probe found.\<close>

definition probed_header :: "path \<Rightarrow> tsdb_config \<Rightarrow> world \<Rightarrow> tsdb_header" where
  "probed_header p cfg w =
     (let h = (config_header cfg)\<lparr>index_offset := 512\<rparr>;
          cfg_entries = entries_for (cfg_max_records cfg) (index_stride h);
          (probed, off) = probe_bases p w (probe_candidates cfg) [512, 1024, TSDB_V4_INDEX_OFFSET] (0, 512)
      in h\<lparr>index_offset := off, index_entries := (if probed > 0 then probed else cfg_entries)\<rparr>)"

text \<open>
  The counters from the scan; without records they stay the zeros of the configured header. The
  number of evictions is estimated.
\<close>

definition reconstructed_header :: "tsdb_config \<Rightarrow> tsdb_header \<Rightarrow> scan_state \<Rightarrow> tsdb_header" where
  "reconstructed_header cfg h st =
     (if sc_total st = 0 then h
      else h\<lparr>total_records := sc_total st,
             oldest_record_idx := sc_oldest_idx st, newest_record_idx := sc_newest_idx st,
             oldest_timestamp := sc_oldest_ts st, newest_timestamp := sc_newest_ts st,
             total_writes := sc_total st,
             total_evictions := (if sc_total st > cfg_max_records cfg
                                 then sc_total st - cfg_max_records cfg else 0)\<rparr>)"

definition tsdb_reconstruct_header :: "path \<Rightarrow> tsdb_config \<Rightarrow> world \<Rightarrow> esp_err \<times> tsdb_header option" where
  "tsdb_reconstruct_header p cfg w =
     (if length (content w p) < 512 then (ESP_FAIL, None)
      else
        (let h = probed_header p cfg w
         in (ESP_OK, Some (reconstructed_header cfg h (scan_blocks h p w)))))"

section \<open>Recovery of an interrupted migration\<close>

definition mig_path :: "path \<Rightarrow> path" where
  "mig_path fp = take 139 (fp @ ''.mig'')"

definition tsdb_migrate_recover :: "path \<Rightarrow> world \<Rightarrow> world" where
  "tsdb_migrate_recover fp w =
     (case fopen_existing w (mig_path fp) of
        (False, w1) \<Rightarrow> w1
      | (True, w1) \<Rightarrow>
          (case fopen_existing w1 fp of
             (True, w2) \<Rightarrow> snd (unlink_file w2 (mig_path fp))
           | (False, w2) \<Rightarrow>
               (case fread_at w2 (mig_path fp) 0 TSDB_HDR_SIZE of
                  Some b \<Rightarrow>
                    if magic (decode_header b) = TSDB_MAGIC
                    then snd (rename_file w2 (mig_path fp) fp)
                    else snd (unlink_file w2 (mig_path fp))
                | None \<Rightarrow> snd (unlink_file w2 (mig_path fp)))))"

section \<open>Opening an existing file\<close>

datatype verdict = HeaderUsable | NeedsReconstruction | TornMigration

definition judge_header :: "esp_err \<times> tsdb_header option \<Rightarrow> verdict" where
  "judge_header r =
     (case r of
        (ESP_OK, Some h) \<Rightarrow>
          if magic h \<noteq> TSDB_MAGIC then NeedsReconstruction
          else if version h = 99 then TornMigration
          else if \<not> tsdb_header_is_sane h then NeedsReconstruction
          else HeaderUsable
      | _ \<Rightarrow> NeedsReconstruction)"

text \<open>The sidecar wins when it is sane, has the same geometry and does not lag.\<close>

definition sidecar_wins :: "tsdb_header \<Rightarrow> tsdb_header \<Rightarrow> bool" where
  "sidecar_wins h s \<longleftrightarrow>
     magic s = TSDB_MAGIC \<and> tsdb_header_is_sane s \<and> num_params s = num_params h \<and>
     records_per_block s = records_per_block h \<and> index_offset s = index_offset h \<and>
     total_records s \<ge> total_records h"

definition adopt_sidecar :: "tsdb \<Rightarrow> world \<Rightarrow> tsdb \<times> world" where
  "adopt_sidecar db w =
     (case tsdb_sidecar_load db (header db) w of
        (r, ho, db, w') \<Rightarrow>
          (case (r, ho) of
             (ESP_OK, Some s) \<Rightarrow>
               if sidecar_wins (header db) s then (db\<lparr>header := s, index_stale := True\<rparr>, w') else (db, w')
           | _ \<Rightarrow> (db, w')))"

text \<open>
  What the handling of an existing file ends with: the database is open, the file is to be
  created anew, or the open fails.
\<close>

datatype open_step = Opened tsdb | Recreate tsdb | OpenFailed tsdb

definition open_header :: "tsdb_config \<Rightarrow> path \<Rightarrow> tsdb \<Rightarrow> world \<Rightarrow> open_step \<times> world" where
  "open_header cfg p db w =
     (let r = tsdb_read_header (Some p) w;
          db = (case snd r of None \<Rightarrow> db | Some h \<Rightarrow> db\<lparr>header := h\<rparr>)
      in case judge_header r of
           HeaderUsable \<Rightarrow> (case adopt_sidecar db w of (db, w') \<Rightarrow> (Opened db, w'))
         | TornMigration \<Rightarrow> (Recreate db, snd (unlink_file w p))
         | NeedsReconstruction \<Rightarrow>
             if length (content w p) < 512 then (Recreate db, snd (unlink_file w p))
             else (case tsdb_reconstruct_header p cfg w of
                     (ESP_OK, Some h) \<Rightarrow>
                       (let db = db\<lparr>header := h\<rparr>
                        in case tsdb_write_header (Some p) h w of
                             (ESP_OK, w') \<Rightarrow> (Opened db, w')
                           | (_, w') \<Rightarrow> (OpenFailed db, w'))
                   | _ \<Rightarrow> (Recreate db, snd (unlink_file w p))))"

text \<open>One block of layout V2 (\<open>timestamps[38]\<close>, \<open>params[16][38]\<close>) in layout V3.\<close>

definition old_param :: "bytes \<Rightarrow> nat \<Rightarrow> nat \<Rightarrow> i16" where
  "old_param b p r = (let old_off = 160 + p * 76 + r * 2 in if old_off + 2 \<le> TSDB_BLOCK_SIZE then ld16 b old_off else 0)"

definition convert_block :: "nat \<Rightarrow> nat \<Rightarrow> bytes \<Rightarrow> bytes" where
  "convert_block n np b =
     (let count = TSDB_BLOCK_COUNT b;
          new = set_block_count (set_block_magic (replicate TSDB_BLOCK_SIZE 0) BLKT_MAGIC) count
      in foldl (\<lambda>nb r. set_block_params (set_block_ts nb r (ld32 b (8 + r * 4))) n r (\<lambda>p. old_param b p r) np)
           new [0..<min (unat count) n])"

definition convert_step :: "tsdb_header \<Rightarrow> path \<Rightarrow> world \<Rightarrow> nat \<Rightarrow> world" where
  "convert_step h p w b =
     (let blk_offset = unat (tsdb_calc_block_offset h (of_nat b))
      in case fread_at w p blk_offset TSDB_BLOCK_SIZE of
           None \<Rightarrow> w
         | Some blk \<Rightarrow>
             if TSDB_BLOCK_MAGIC blk \<noteq> BLKT_MAGIC \<or> TSDB_BLOCK_COUNT blk = 0 then w
             else snd (fwrite_at w p blk_offset
                         (convert_block (unat (records_per_block h)) (unat (num_params h)) blk)))"

definition tsdb_migrate_v2 :: "path \<Rightarrow> tsdb \<Rightarrow> world \<Rightarrow> tsdb \<times> world" where
  "tsdb_migrate_v2 p db w =
     (let h = header db;
          n = ucast (records_per_block h) :: u32;
          max_recs = (if max_records h > 0 then max_records h else total_records h);
          total_blocks = (max_recs + n - 1) div n
      in case malloc_ok w of (ok1, w) \<Rightarrow>
         case malloc_ok w of (ok2, w) \<Rightarrow>
           if \<not> ok1 \<or> \<not> ok2 then (db, w)
           else
             (let torn = h\<lparr>version := 99\<rparr>;
                  w = snd (tsdb_write_header (Some p) torn w);
                  w = foldl (convert_step torn p) w [0..<unat total_blocks];
                  done = h\<lparr>version := 3\<rparr>;
                  w = snd (tsdb_write_header (Some p) done w)
              in (db\<lparr>header := done\<rparr>, w)))"

definition load_overflow_state :: "tsdb \<Rightarrow> tsdb" where
  "load_overflow_state db =
     (let h = header db
      in if extra_param_count h > 0 \<and> overflow_offset h > 0
         then db\<lparr>db_extra_param_count := extra_param_count h,
                 db_overflow_record_size := overflow_record_size h,
                 db_first_overflow_record_idx := first_overflow_record_idx h,
                 overflow_data_offset := overflow_offset h + TSDB_OVERFLOW_HEADER_SIZE\<rparr>
         else db)"

text \<open>The rest of the branch for an existing file whose header is settled.\<close>

definition open_settled :: "tsdb_config \<Rightarrow> path \<Rightarrow> tsdb \<Rightarrow> world \<Rightarrow> open_step \<times> world" where
  "open_settled cfg p db w =
     (let db = (if base_params (header db) = 0
                then db\<lparr>header := (header db)\<lparr>base_params := num_params (header db)\<rparr>\<rparr> else db)
      in if num_params (header db) \<noteq> cfg_num_params cfg then (OpenFailed db, w)
         else
           (case (if version (header db) < 3 \<and> records_per_block (header db) > 38
                  then tsdb_migrate_v2 p db w
                  else if version (header db) < 3
                  then (let db = db\<lparr>header := (header db)\<lparr>version := 3\<rparr>\<rparr>
                        in (db, snd (tsdb_write_header (Some p) (header db) w)))
                  else (db, w)) of
              (db, w) \<Rightarrow> (Opened (load_overflow_state db), w)))"

definition open_existing :: "tsdb_config \<Rightarrow> path \<Rightarrow> tsdb \<Rightarrow> world \<Rightarrow> open_step \<times> world" where
  "open_existing cfg p db w =
     (case open_header cfg p db w of
        (Opened db, w) \<Rightarrow> open_settled cfg p db w
      | r \<Rightarrow> r)"

section \<open>Creating a file\<close>

text \<open>The extended names (parameters 16..63) and the zeroed index, one \<open>fwrite\<close> per entry.\<close>

definition write_ext_names :: "path \<Rightarrow> cstr option list option \<Rightarrow> nat \<Rightarrow> world \<Rightarrow> world" where
  "write_ext_names p names n w =
     foldl (\<lambda>w i. snd (fwrite_at w p (TSDB_V4_EXT_NAMES_OFFSET + (i - 16) * TSDB_V4_EXT_NAME_LEN)
              (case names of None \<Rightarrow> replicate TSDB_V4_EXT_NAME_LEN 0
               | Some ns \<Rightarrow> name_field TSDB_V4_EXT_NAME_LEN (nth_name ns i))))
       w [16..<n]"

definition write_zero_index :: "path \<Rightarrow> tsdb_header \<Rightarrow> world \<Rightarrow> world" where
  "write_zero_index p h w =
     foldl (\<lambda>w i. snd (fwrite_at w p (unat (index_offset h) + 8 * i) (replicate 8 0)))
       w [0..<unat (index_entries h)]"

definition new_header :: "tsdb_config \<Rightarrow> tsdb_header" where
  "new_header cfg =
     (let h = config_header cfg
      in h\<lparr>base_params := cfg_num_params cfg,
           index_offset := (if cfg_num_params cfg > 16 then TSDB_V4_INDEX_OFFSET else 1024),
           index_entries := entries_for (cfg_max_records cfg) (index_stride h)\<rparr>)"

definition create_file :: "tsdb_config \<Rightarrow> path \<Rightarrow> tsdb \<Rightarrow> world \<Rightarrow> open_step \<times> world" where
  "create_file cfg p db w =
     (case fopen_trunc w p of
        (False, w) \<Rightarrow> (OpenFailed (db\<lparr>db_file := None\<rparr>), w)
      | (True, w) \<Rightarrow>
          (let w = tsdb_sidecar_remove p w;
               db = db\<lparr>db_file := Some p, sidecar_seq := 0, header := new_header cfg\<rparr>
           in case tsdb_write_header (Some p) (header db) w of
                (ESP_OK, w) \<Rightarrow>
                  (let w = (if cfg_num_params cfg > 16
                            then write_ext_names p (cfg_param_names cfg) (unat (cfg_num_params cfg)) w else w);
                       w = write_zero_index p (header db) w
                   in (Opened db, w))
              | (_, w) \<Rightarrow> (OpenFailed db, w)))"

section \<open>Opening\<close>

text \<open>\<open>memset(db, 0, sizeof(*db))\<close>, keeping the generation.\<close>

definition zero_tsdb :: "u32 \<Rightarrow> tsdb" where
  "zero_tsdb gen = \<lparr> db_file = None, header = zero_header, filepath = [], is_open = False,
     pool = zero_pool, read_buffer_offset = 0, write_cache_offset = 0, query_buffer_offset = 0,
     stream_buffer_offset = 0, stream_buffer_size = 0, cached_block_num = 0, cache_dirty = False,
     capacity_adapted = False, in_file_header_stale = False, sidecar_seq = 0, sidecar_slot = 0,
     legacy_slot = 0, legacy_seq = 0, legacy_mirrored = False, side_dir_ready = False,
     index_stale = False, migrating = False, closing = False, generation = gen,
     has_free_space_cb = False, min_free_bytes = 0, db_extra_param_count = 0,
     overflow_data_offset = 0, db_first_overflow_record_idx = 0, db_overflow_record_size = 0 \<rparr>"

definition partition_pool :: "tsdb \<Rightarrow> tsdb" where
  "partition_pool db =
     db\<lparr>read_buffer_offset := 0, write_cache_offset := 1024, query_buffer_offset := 2048,
        stream_buffer_offset := 3072, stream_buffer_size := total_size (pool db) - 3072\<rparr>"

text \<open>The checks before a handle is taken.\<close>

definition config_ok :: "tsdb_config \<Rightarrow> bool" where
  "config_ok cfg \<longleftrightarrow>
     cfg_filepath cfg \<noteq> None \<and> cfg_num_params cfg \<noteq> 0 \<and> cfg_num_params cfg \<le> 64 \<and> buffer_pool_size cfg \<noteq> 0"

text \<open>
  \<open>tsdb_open\<close> on the acquired handle: \<open>Opened\<close> is the handle returned, \<open>OpenFailed\<close> the one
  that is retired before NULL is returned.
\<close>

definition open_file :: "tsdb_config \<Rightarrow> path \<Rightarrow> tsdb \<Rightarrow> world \<Rightarrow> open_step \<times> world" where
  "open_file cfg p db w =
     (case fopen_existing w p of
        (True, w) \<Rightarrow>
          (case open_existing cfg p (db\<lparr>db_file := Some p\<rparr>) w of
             (Recreate db, w) \<Rightarrow> create_file cfg p db w
           | r \<Rightarrow> r)
      | (False, w) \<Rightarrow> create_file cfg p db w)"

text \<open>
  The end of \<open>tsdb_open\<close>: the path is saved and the handle published as open; a failed open
  releases the pool.
\<close>

definition finish_open :: "path \<Rightarrow> open_step \<times> world \<Rightarrow> open_step \<times> world" where
  "finish_open p r =
     (case r of
        (OpenFailed db, w) \<Rightarrow> (OpenFailed (db\<lparr>pool := zero_pool\<rparr>), w)
      | (Recreate db, w) \<Rightarrow> (OpenFailed db, w)
      | (Opened db, w) \<Rightarrow> (Opened (db\<lparr>filepath := take 127 p, is_open := True\<rparr>), w))"

definition tsdb_open_handle :: "tsdb_config \<Rightarrow> tsdb \<Rightarrow> world \<Rightarrow> open_step \<times> world" where
  "tsdb_open_handle cfg db w =
     (case cfg_filepath cfg of
        None \<Rightarrow> (OpenFailed db, w)
      | Some p \<Rightarrow>
          (let db = db\<lparr>has_free_space_cb := cfg_free_space_cb cfg, min_free_bytes := cfg_min_free_bytes cfg\<rparr>
           in case tsdb_alloc_buffer_pool (Some (pool db)) (buffer_pool_size cfg) (use_paged_allocation cfg)
                     (cfg_page_size cfg) (cfg_alloc_strategy cfg) w of
                (r, pl, w) \<Rightarrow>
                  (let db = (case pl of None \<Rightarrow> db | Some pl \<Rightarrow> db\<lparr>pool := pl\<rparr>)
                   in if r \<noteq> ESP_OK then (OpenFailed db, w)
                      else
                        (let db = (partition_pool db)\<lparr>filepath := take 127 p\<rparr>;
                             w = tsdb_migrate_recover p w
                         in finish_open p (open_file cfg p db w)))))"

section \<open>The header of a new file\<close>

lemma length_name_field [simp]: "0 < n \<Longrightarrow> length (name_field n s) = n"
  by (simp add: name_field_def strncpy_bytes_def)

lemma length_fixed_names [simp]: "length (fixed_names names n) = 512"
proof -
  have "length (concat (map (\<lambda>i. if i < n then name_field 32 (nth_name ns i) else replicate 32 0) is)) = 32 * length is"
    for ns "is" by (induction "is") auto
  then show ?thesis by (simp add: fixed_names_def split: option.split)
qed

lemma record_bytes_exact: "np \<le> 64 \<Longrightarrow> unat (record_bytes np) = 4 + 2 * unat np"
proof -
  assume "np \<le> 64"
  then have "unat np \<le> 64" by (simp add: word_le_nat_alt)
  then have "unat (ucast np * 2 :: u32) = 2 * unat np"
    by (subst unat_mult_no_wrap) (simp_all add: unat_u8_u32)
  with \<open>unat np \<le> 64\<close> show ?thesis
    unfolding record_bytes_def by (subst unat_add_no_wrap) simp_all
qed

lemma blocks_records_exact: "np \<le> 64 \<Longrightarrow> unat (blocks_records np) = 1016 div (4 + 2 * unat np)"
proof -
  assume np: "np \<le> 64"
  have "unat (1016 div record_bytes np) = 1016 div (4 + 2 * unat np)"
    using np by (simp add: unat_div record_bytes_exact)
  moreover have "1016 div (4 + 2 * unat np) < 65536"
    by (rule le_less_trans [OF div_le_dividend]) simp
  ultimately show ?thesis
    by (simp add: blocks_records_def unat_u32_u16)
qed

lemma config_geom:
  assumes "np \<noteq> 0" "np \<le> 64"
  shows "geom (unat (blocks_records np)) (unat np)"
proof -
  let ?n = "unat np"
  have n: "0 < ?n" "?n \<le> 64" using assms by (simp_all add: unat_gt_0 word_le_nat_alt)
  have "1016 div (4 + 2 * ?n) * (4 + 2 * ?n) \<le> 1016" by (rule div_times_less_eq_dividend)
  moreover have "0 < 1016 div (4 + 2 * ?n)" using n by (simp add: div_greater_zero_iff)
  ultimately show ?thesis
    using assms(2) by (simp add: geom_def blocks_records_exact algebra_simps)
qed

lemma header_wf_config [simp]: "header_wf (config_header cfg)" "header_wf (new_header cfg)"
  by (simp_all add: config_header_def new_header_def Let_def header_wf_def zero_header_def)

lemma stride_nonzero [simp]: "stride_or_default s \<noteq> 0"
  by (simp add: stride_or_default_def word_gt_0)

lemma new_header_fields:
  "num_params (new_header cfg) = cfg_num_params cfg" "total_records (new_header cfg) = 0"
  "oldest_record_idx (new_header cfg) = 0" "max_records (new_header cfg) = cfg_max_records cfg"
  "records_per_block (new_header cfg) = blocks_records (cfg_num_params cfg)"
  "index_stride (new_header cfg) = stride_or_default (cfg_index_stride cfg)"
  "magic (new_header cfg) = TSDB_MAGIC" "base_params (new_header cfg) = cfg_num_params cfg"
  "extra_param_count (new_header cfg) = 0" "overflow_offset (new_header cfg) = 0"
  "version (new_header cfg) = (if cfg_num_params cfg > 16 then TSDB_VERSION_WIDE else TSDB_VERSION)"
  "index_offset (new_header cfg) = (if cfg_num_params cfg > 16 then TSDB_V4_INDEX_OFFSET else 1024)"
  "index_entries (new_header cfg) = entries_for (cfg_max_records cfg) (stride_or_default (cfg_index_stride cfg))"
  by (simp_all add: new_header_def config_header_def Let_def zero_header_def)

lemma index_offset_new: "1024 \<le> unat (index_offset (new_header cfg))"
  by (simp add: new_header_fields)

lemma new_header_ring:
  assumes "config_ok cfg"
  shows "ring_hdr (new_header cfg)"
proof -
  have "584 \<le> data_start (new_header cfg)"
    using index_offset_new [of cfg] by (simp add: data_start_def)
  with assms config_geom show ?thesis
    by (simp add: ring_hdr_def new_header_fields config_ok_def unat_gt_0)
qed

definition admissible :: "tsdb_config \<Rightarrow> bool" where
  "admissible cfg \<longleftrightarrow> config_ok cfg \<and> cfg_max_records cfg \<le> 100000000 \<and>
     entries_for (cfg_max_records cfg) (stride_or_default (cfg_index_stride cfg)) \<le> 0x100000"

lemma new_header_accepted:
  assumes "admissible cfg"
  shows "tsdb_header_is_sane (new_header cfg)"
proof -
  let ?np = "cfg_num_params cfg" and ?h = "new_header cfg"
  have np: "?np \<noteq> 0" "?np \<le> 64" using assms(1) by (simp_all add: admissible_def config_ok_def)
  have n: "0 < unat ?np" "unat ?np \<le> 64" using np by (simp_all add: unat_gt_0 word_le_nat_alt)
  have r16: "unat (4 + ucast ?np * 2 :: u16) = 4 + 2 * unat ?np"
    using n by (simp add: unat_word_ariths unat_u8_u16)
  have "unat (record_size ?h) = unat (4 + ucast ?np * 2 :: u16)"
    using np n r16 by (simp add: new_header_def config_header_def Let_def unat_u32_u16 record_bytes_exact)
  then have rs: "record_size ?h = 4 + ucast ?np * 2" by (rule unsigned_word_eqI)
  have rb: "unat (records_per_block ?h) = unat (1016 div (4 + ucast ?np * 2) :: u16)"
    using np r16 by (simp add: new_header_fields blocks_records_exact unat_div)
  then have "records_per_block ?h = 1016 div (4 + ucast ?np * 2)" by (rule unsigned_word_eqI)
  moreover have "records_per_block ?h \<noteq> 0"
    using config_geom [OF np] by (auto simp: geom_def new_header_fields)
  ultimately show ?thesis
    using np rs assms [unfolded admissible_def]
    by (simp add: tsdb_header_is_sane_def Let_def new_header_fields)
      (simp add: new_header_def config_header_def Let_def zero_header_def not_less)
qed

lemma new_header_usable:
  assumes "admissible cfg"
  shows "judge_header (ESP_OK, Some (new_header cfg)) = HeaderUsable"
  using new_header_accepted [OF assms] by (simp add: judge_header_def new_header_fields)

text \<open>
  C24: The geometry of a new file is sound: for every admissible configuration the header is
  accepted by the sanity check, its columns fit a block, and no larger number of records
  per block would fit.
\<close>

theorem new_header_sane:
  assumes "admissible cfg"
  shows "tsdb_header_is_sane (new_header cfg) \<and> ring_hdr (new_header cfg) \<and>
    \<not> geom (Suc (rpb (new_header cfg))) (nparams (new_header cfg))"
proof -
  let ?np = "cfg_num_params cfg" and ?h = "new_header cfg"
  have ok: "config_ok cfg" and np: "?np \<noteq> 0" "?np \<le> 64"
    using assms by (simp_all add: admissible_def config_ok_def)
  have "1016 < Suc (1016 div (4 + 2 * unat ?np)) * (4 + 2 * unat ?np)"
    using dividend_less_div_times [of "4 + 2 * unat ?np" 1016] by simp
  then have "\<not> geom (Suc (rpb ?h)) (nparams ?h)"
    using np by (simp add: geom_def new_header_fields blocks_records_exact algebra_simps)
  with new_header_accepted [OF assms] new_header_ring [OF ok] show ?thesis by blast
qed

text \<open>A small configuration, used to instantiate the theorems.\<close>

definition demo_config :: "u32 \<Rightarrow> tsdb_config" where
  "demo_config limit = \<lparr> cfg_filepath = Some ''/a.db'', cfg_num_params = 1, cfg_param_names = Some [Some [0x74]],
     cfg_max_records = limit, cfg_index_stride = 4, buffer_pool_size = 4096, cfg_alloc_strategy = TSDB_ALLOC_AUTO,
     use_paged_allocation = False, cfg_page_size = 0, cfg_free_space_cb = False, cfg_min_free_bytes = 0 \<rparr>"

lemma demo_config_admissible: "limit \<le> 100 \<Longrightarrow> admissible (demo_config limit)"
proof -
  assume l: "limit \<le> 100"
  have "unat (limit div 4) \<le> 25" using l by (simp add: unat_div word_le_nat_alt)
  then have "unat (limit div 4 + 1) \<le> 26" by (subst unat_add_no_wrap) simp_all
  moreover have "unat limit \<le> 100" using l by (simp add: word_le_nat_alt)
  ultimately show ?thesis
    by (simp add: admissible_def config_ok_def demo_config_def entries_for_def stride_or_default_def
        word_le_nat_alt)
qed

theorem new_header_sane_witness:
  "tsdb_header_is_sane (new_header (demo_config 3)) \<and> ring_hdr (new_header (demo_config 3)) \<and>
   \<not> geom (Suc (rpb (new_header (demo_config 3)))) (nparams (new_header (demo_config 3)))"
  by (rule new_header_sane) (simp add: demo_config_admissible)

section \<open>Creating a file in a quiet world\<close>

lemma quiet_unlink:
  assumes "quiet w"
  shows "quiet (snd (unlink_file w p))" "fs (snd (unlink_file w p)) = (fs w)(p := None)"
    "dirs (snd (unlink_file w p)) = dirs w"
  using assms by (auto simp: unlink_file_def quiet_next quiet_fs)

lemma quiet_rmdir:
  assumes "quiet w"
  shows "quiet (rmdir_path w p es)" "fs (rmdir_path w p es) = fs w" "q \<noteq> p \<Longrightarrow> dirs (rmdir_path w p es) q = dirs w q"
  using assms by (auto simp: rmdir_path_def quiet_next quiet_dirs)

lemma quiet_sidecar_remove:
  assumes "quiet w"
  shows "quiet (tsdb_sidecar_remove fp w)"
    and "fs (tsdb_sidecar_remove fp w) q = (if q \<in> side_files fp then None else fs w q)"
    and "q \<noteq> tsdb_side_dir fp \<Longrightarrow> dirs (tsdb_sidecar_remove fp w) q = dirs w q"
  using assms
  by (auto simp: tsdb_sidecar_remove_def Let_def quiet_unlink quiet_rmdir side_files_def)

lemma no_slots:
  assumes "\<And>q. q \<in> side_files fp \<Longrightarrow> fs w q = None"
  shows "newest_legacy w fp = None" "newest_compact w fp = None" "stored_header w fp names = None"
proof -
  show 1: "newest_legacy w fp = None" "newest_compact w fp = None"
    using assms
    by (simp_all add: newest_legacy_def newest_compact_def legacy_at_def compact_at_def newer_slot_def)
  show "stored_header w fp names = None" by (simp add: stored_header_def choose_header_def 1)
qed

lemma fold_writes:
  assumes "\<And>i. i \<in> set is \<Longrightarrow> k \<le> off i"
  shows "keeps (\<lambda>j. j < k) (content w p) (content (foldl (\<lambda>w i. snd (fwrite_at w p (off i) (d i))) w is) p) \<and>
    touches p w (foldl (\<lambda>w i. snd (fwrite_at w p (off i) (d i))) w is)"
  using assms
proof (induction "is" arbitrary: w)
  case (Cons i "is")
  obtain r w1 where fw: "fwrite_at w p (off i) (d i) = (r, w1)" by fastforce
  have "keeps (\<lambda>j. j < k) (content w p) (content w1 p)"
    by (rule keeps_mono [OF fwrite_at_keeps_outside [OF fw]]) (use Cons.prems in fastforce)
  moreover have "touches p w w1" by (rule fwrite_at_touches [OF fw])
  moreover have "\<And>i. i \<in> set is \<Longrightarrow> k \<le> off i" using Cons.prems by simp
  note Cons.IH [OF this, of w1]
  ultimately show ?case
    using fw keeps_trans [of "\<lambda>j. j < k" _ _ "\<lambda>j. j < k"] touches_trans by fastforce
qed simp

lemma write_ext_names_keeps:
  "keeps (\<lambda>j. j < 584) (content w p) (content (write_ext_names p names n w) p) \<and>
   touches p w (write_ext_names p names n w)"
  unfolding write_ext_names_def by (rule fold_writes) simp

lemma write_zero_index_keeps:
  assumes "584 \<le> unat (index_offset h)"
  shows "keeps (\<lambda>j. j < 584) (content w p) (content (write_zero_index p h w) p) \<and>
    touches p w (write_zero_index p h w)"
  unfolding write_zero_index_def by (rule fold_writes) (use assms in simp)

lemma read_header_chunk:
  assumes "sound w" "584 \<le> length (content w p)" "chunk (content w p) 0 584 = encode_header h" "header_wf h"
  shows "tsdb_read_header (Some p) w = (ESP_OK, Some h)"
  using assms by (simp add: tsdb_read_header_def fread_at_sound decode_encode_header)

lemma read_header_keeps:
  assumes "sound w'" "keeps (\<lambda>j. j < 584) (content w p) (content w' p)" "tsdb_read_header (Some p) w = (ESP_OK, Some h)"
  shows "tsdb_read_header (Some p) w' = (ESP_OK, Some h)"
proof -
  have l: "584 \<le> length (content w p)" "h = decode_header (chunk (content w p) 0 584)"
    using assms(3) by (auto simp: tsdb_read_header_def fread_at_def split: option.splits if_splits)
  have "chunk (content w' p) 0 584 = chunk (content w p) 0 584"
    by (rule keeps_chunk [OF assms(2)]) (use l in auto)
  with l keeps_length [OF assms(2)] assms(1) show ?thesis
    by (simp add: tsdb_read_header_def fread_at_sound)
qed

text \<open>The state right after a file was created.\<close>

lemma quiet_create:
  assumes "quiet w" "dirs w (parent_dir p)"
  obtains w' where "create_file cfg p db w =
      (Opened (db\<lparr>db_file := Some p, sidecar_seq := 0, header := new_header cfg\<rparr>), w')"
    "quiet w'" "tsdb_read_header (Some p) w' = (ESP_OK, Some (new_header cfg))"
    "\<And>q. q \<in> side_files p \<Longrightarrow> fs w' q = None" "dirs w' (parent_dir p)"
    "\<And>q. q \<noteq> p \<Longrightarrow> q \<notin> side_files p \<Longrightarrow> fs w' q = fs w q"
proof -
  let ?h = "new_header cfg"
  define w1 where "w1 = tsdb_sidecar_remove p (put_file w p [])"
  have side: "parent_dir p \<noteq> tsdb_side_dir p"
  proof
    assume "parent_dir p = tsdb_side_dir p"
    then have "length (parent_dir p) = length p + 2" by (simp add: tsdb_side_dir_def)
    moreover have "length (parent_dir p) \<le> length p"
      using length_dropWhile_le [of "\<lambda>c. c \<noteq> CHR ''/''" "rev p"] by (simp add: parent_dir_def)
    ultimately show False by simp
  qed
  have w1: "quiet w1" "fs w1 p = Some []" "\<And>q. q \<in> side_files p \<Longrightarrow> fs w1 q = None" "dirs w1 (parent_dir p)"
    "\<And>q. q \<noteq> p \<Longrightarrow> q \<notin> side_files p \<Longrightarrow> fs w1 q = fs w q"
    using assms quiet_sidecar_remove [of "put_file w p []"] side
    by (auto simp: w1_def quiet_put_file)
  define w2 where "w2 = put_file w1 p (encode_header ?h)"
  have w2: "tsdb_write_header (Some p) ?h w1 = (ESP_OK, w2)"
    using w1(1,2) by (simp add: quiet_write_header w2_def content_def overlay_def)
  define w3 where "w3 = (if cfg_num_params cfg > 16
    then write_ext_names p (cfg_param_names cfg) (unat (cfg_num_params cfg)) w2 else w2)"
  define w4 where "w4 = write_zero_index p ?h w3"
  have k3: "keeps (\<lambda>j. j < 584) (content w2 p) (content w3 p)" "touches p w2 w3"
    using write_ext_names_keeps by (simp_all add: w3_def)
  have i: "584 \<le> unat (index_offset ?h)" using index_offset_new [of cfg] by simp
  have k4: "keeps (\<lambda>j. j < 584) (content w3 p) (content w4 p)" "touches p w3 w4"
    using write_zero_index_keeps [OF i] by (simp_all add: w4_def)
  have keep: "keeps (\<lambda>j. j < 584) (content w2 p) (content w4 p)"
    by (rule keeps_mono [OF keeps_trans [OF k3(1) k4(1)]]) simp
  have t: "touches p w2 w4" by (rule touches_trans [OF k3(2) k4(2)])
  have "tsdb_read_header (Some p) w2 = (ESP_OK, Some ?h)"
    by (rule read_header_chunk) (use w1(1) in \<open>simp_all add: w2_def length_encode_header quiet_sound\<close>)
  moreover have "sound w4" using t w1(1) by (simp add: touches_def w2_def quiet_sound)
  ultimately have rd: "tsdb_read_header (Some p) w4 = (ESP_OK, Some ?h)"
    using read_header_keeps [OF _ keep] by blast
  have fs: "fs w4 q = fs w1 q" if "q \<noteq> p" for q using t that by (simp add: touches_def w2_def)
  have "quiet w4" "dirs w4 = dirs w1" using t w1(1) by (simp_all add: touches_def w2_def quiet_put_file)
  moreover have "create_file cfg p db w =
      (Opened (db\<lparr>db_file := Some p, sidecar_seq := 0, header := ?h\<rparr>), w4)"
    using assms w2 by (simp add: create_file_def quiet_fopen w1_def w3_def w4_def Let_def)
  ultimately show ?thesis
    using that [of w4] rd fs w1 side_file_neq by simp
qed

lemma quiet_alloc_pages: "quiet w \<Longrightarrow> \<exists>pl. alloc_pages caps n i pl0 w = (ESP_OK, pl, w)"
  by (induction n arbitrary: i pl0) (simp_all add: heap_alloc_def quiet_next)

lemma quiet_alloc_pool:
  assumes "quiet w"
  obtains r pl where "tsdb_alloc_buffer_pool (Some pl0) sz paged psize st w = (r, Some pl, w)"
proof -
  have "\<exists>r pl. tsdb_alloc_buffer_pool (Some pl0) sz paged psize st w = (r, Some pl, w)"
  proof (cases "sz = 0 \<or> \<not> paged")
    case True
    then show ?thesis
      using assms by (auto simp: tsdb_alloc_buffer_pool_def Let_def heap_alloc_def quiet_next)
  next
    case False
    define pg where "pg = (if psize > 0 then psize else 2048)"
    let ?n = "unat ((sz + pg - 1) div pg)"
    let ?pl = "zero_pool\<lparr>page_size := pg, total_size := sz, is_paged := True\<rparr>"
    obtain pl where "alloc_pages (alloc_caps st (spiram_free w) sz) ?n 0 ?pl w = (ESP_OK, pl, w)"
      using quiet_alloc_pages [OF assms] by blast
    with False show ?thesis
      by (auto simp: tsdb_alloc_buffer_pool_def Let_def pg_def [symmetric])
  qed
  then show ?thesis using that by blast
qed

text \<open>The buffer pool the configuration asks for can be allocated.\<close>

definition pool_available :: "tsdb_config \<Rightarrow> world \<Rightarrow> bool" where
  "pool_available cfg w \<longleftrightarrow>
     fst (tsdb_alloc_buffer_pool (Some zero_pool) (buffer_pool_size cfg) (use_paged_allocation cfg)
            (cfg_page_size cfg) (cfg_alloc_strategy cfg) w) = ESP_OK"

definition start_db :: "tsdb_config \<Rightarrow> u32 \<Rightarrow> buffer_pool \<Rightarrow> path \<Rightarrow> tsdb" where
  "start_db cfg g pl p =
     (partition_pool ((zero_tsdb g)\<lparr>has_free_space_cb := cfg_free_space_cb cfg,
        min_free_bytes := cfg_min_free_bytes cfg, pool := pl\<rparr>))\<lparr>filepath := take 127 p\<rparr>"

lemma quiet_open_handle:
  assumes "quiet w" "cfg_filepath cfg = Some p" "pool_available cfg w" "fs w (mig_path p) = None"
  obtains pl where "tsdb_open_handle cfg (zero_tsdb g) w =
    finish_open p (open_file cfg p (start_db cfg g pl p) w)"
    "tsdb_alloc_buffer_pool (Some zero_pool) (buffer_pool_size cfg) (use_paged_allocation cfg)
       (cfg_page_size cfg) (cfg_alloc_strategy cfg) w = (ESP_OK, Some pl, w)"
proof -
  obtain r pl where a: "tsdb_alloc_buffer_pool (Some zero_pool) (buffer_pool_size cfg) (use_paged_allocation cfg)
      (cfg_page_size cfg) (cfg_alloc_strategy cfg) w = (r, Some pl, w)"
    using quiet_alloc_pool [OF assms(1)] by blast
  then have r: "r = ESP_OK" using assms(3) by (simp add: pool_available_def)
  have m: "tsdb_migrate_recover p w = w"
    using assms(1,4) by (simp add: tsdb_migrate_recover_def quiet_fopen)
  have pz: "pool ((zero_tsdb g)\<lparr>has_free_space_cb := x, min_free_bytes := y\<rparr>) = zero_pool" for x y
    by (simp add: zero_tsdb_def)
  show ?thesis
    by (rule that [of pl]) (simp_all add: tsdb_open_handle_def assms(2) Let_def pz a r m start_db_def finish_open_def)
qed

text \<open>
  Opening a path without a file creates a database: the handle is open, satisfies the
  invariant of an empty ring, has the configured geometry, its file carries the same header
  and no sidecar exists.
\<close>

lemma open_new_file:
  assumes "quiet w" "admissible cfg" "cfg_filepath cfg = Some p" "pool_available cfg w"
    and "fs w p = None" "fs w (mig_path p) = None" "dirs w (parent_dir p)" "length p \<le> 127"
  shows "\<exists>db w'. tsdb_open_handle cfg (zero_tsdb g) w = (Opened db, w') \<and> quiet w' \<and>
    is_open db \<and> db_inv db w' \<and> db_rows (db, w') = [] \<and> header db = new_header cfg \<and>
    tsdb_read_header (db_file db) w' = (ESP_OK, Some (header db)) \<and>
    side_inv db w' \<and> side_dirs db w' \<and> sidecar_seq db = 0 \<and> db_extra_param_count db = 0 \<and>
    has_free_space_cb db = cfg_free_space_cb cfg \<and> filepath db = p \<and> \<not> migrating db \<and> \<not> closing db \<and>
    (\<forall>q \<in> side_files p. fs w' q = None) \<and> (\<forall>q. q \<noteq> p \<longrightarrow> q \<notin> side_files p \<longrightarrow> fs w' q = fs w q)"
proof -
  obtain pl where o1: "tsdb_open_handle cfg (zero_tsdb g) w = finish_open p (open_file cfg p (start_db cfg g pl p) w)"
    using quiet_open_handle [OF assms(1,3,4,6)] by blast
  let ?db = "start_db cfg g pl p"
  obtain w' where c: "create_file cfg p ?db w =
      (Opened (?db\<lparr>db_file := Some p, sidecar_seq := 0, header := new_header cfg\<rparr>), w')"
    "quiet w'" "tsdb_read_header (Some p) w' = (ESP_OK, Some (new_header cfg))"
    "\<And>q. q \<in> side_files p \<Longrightarrow> fs w' q = None" "dirs w' (parent_dir p)"
    "\<And>q. q \<noteq> p \<Longrightarrow> q \<notin> side_files p \<Longrightarrow> fs w' q = fs w q"
    using quiet_create [OF assms(1,7)] by metis
  let ?new = "?db\<lparr>db_file := Some p, sidecar_seq := 0, header := new_header cfg, filepath := take 127 p, is_open := True\<rparr>"
  have run: "tsdb_open_handle cfg (zero_tsdb g) w = (Opened ?new, w')"
    using o1 c(1) assms(1,5) by (simp add: open_file_def quiet_fopen finish_open_def start_db_def)
  have f: "filepath ?new = p" "header ?new = new_header cfg" "db_file ?new = Some p" using assms(8) by simp_all
  have sd: "sidecar_seq ?new = 0" "sidecar_slot ?new = 0" "legacy_slot ?new = 0" "legacy_seq ?new = 0"
    "side_dir_ready ?new = False" "db_extra_param_count ?new = 0" "has_free_space_cb ?new = cfg_free_space_cb cfg" "\<not> migrating ?new" "\<not> closing ?new"
    by (simp_all add: start_db_def partition_pool_def zero_tsdb_def)
  have "config_ok cfg" using assms(2) by (simp add: admissible_def)
  then have "db_inv ?new w'"
    unfolding db_inv_def f using new_header_ring sd quiet_sound [OF c(2)]
    by (simp add: ring_inv_def avail_def new_header_fields ovf_clear_def)
  moreover have "db_rows (?new, w') = []"
    unfolding db_rows_def fst_conv f by (simp add: retained_def new_header_fields)
  moreover have "side_inv ?new w'"
    unfolding side_inv_def f sd using no_slots(1,2) [of p w', OF c(4)] by (simp add: newest_is_def)
  moreover have "side_dirs ?new w'" unfolding side_dirs_def f sd using c(5) by simp
  ultimately show ?thesis using run c(2-4,6) f sd by (intro exI [of _ ?new] exI [of _ w']) simp
qed

section \<open>Crash and reopen\<close>

text \<open>The header without the counters a write changes.\<close>

definition config_part :: "tsdb_header \<Rightarrow> tsdb_header" where
  "config_part h = h\<lparr>total_records := 0, oldest_record_idx := 0, newest_record_idx := 0,
     oldest_timestamp := 0, newest_timestamp := 0, total_writes := 0, total_evictions := 0\<rparr>"

lemma config_part_fields:
  assumes "config_part h = config_part k"
  shows "magic k = magic h" "version k = version h" "num_params k = num_params h" "param_size k = param_size h"
    "record_size k = record_size h" "records_per_block k = records_per_block h" "max_records k = max_records h"
    "index_offset k = index_offset h" "index_entries k = index_entries h" "index_stride k = index_stride h"
    "param_names k = param_names h" "base_params k = base_params h" "extra_param_count k = extra_param_count h"
    "overflow_record_size k = overflow_record_size h" "overflow_offset k = overflow_offset h"
proof -
  have "F (config_part k) = F (config_part h)" for F :: "tsdb_header \<Rightarrow> 'z" using assms by simp
  note F = this
  show "magic k = magic h" using F [of magic] by (simp add: config_part_def)
  show "version k = version h" using F [of version] by (simp add: config_part_def)
  show "num_params k = num_params h" using F [of num_params] by (simp add: config_part_def)
  show "param_size k = param_size h" using F [of param_size] by (simp add: config_part_def)
  show "record_size k = record_size h" using F [of record_size] by (simp add: config_part_def)
  show "records_per_block k = records_per_block h" using F [of records_per_block] by (simp add: config_part_def)
  show "max_records k = max_records h" using F [of max_records] by (simp add: config_part_def)
  show "index_offset k = index_offset h" using F [of index_offset] by (simp add: config_part_def)
  show "index_entries k = index_entries h" using F [of index_entries] by (simp add: config_part_def)
  show "index_stride k = index_stride h" using F [of index_stride] by (simp add: config_part_def)
  show "param_names k = param_names h" using F [of param_names] by (simp add: config_part_def)
  show "base_params k = base_params h" using F [of base_params] by (simp add: config_part_def)
  show "extra_param_count k = extra_param_count h" using F [of extra_param_count] by (simp add: config_part_def)
  show "overflow_record_size k = overflow_record_size h" using F [of overflow_record_size] by (simp add: config_part_def)
  show "overflow_offset k = overflow_offset h" using F [of overflow_offset] by (simp add: config_part_def)
qed

text \<open>Whether the counters pass the sanity check: \<open>total_records > max_records * 2\<close> is refused.\<close>

definition counters_pass :: "tsdb_header \<Rightarrow> bool" where
  "counters_pass h \<longleftrightarrow> max_records h = 0 \<or> total_records h \<le> max_records h * 2"

lemma sane_iff:
  "tsdb_header_is_sane h \<longleftrightarrow>
     tsdb_header_is_sane (h\<lparr>total_records := 0\<rparr>) \<and>
     \<not> (max_records h > 0 \<and> total_records h > max_records h * 2)"
  unfolding tsdb_header_is_sane_def Let_def by simp

lemma sane_config_part: "tsdb_header_is_sane (h\<lparr>total_records := 0\<rparr>) = tsdb_header_is_sane (config_part h)"
  unfolding tsdb_header_is_sane_def Let_def config_part_def by (simp cong: if_cong split del: if_split)

lemma sane_config:
  assumes "config_part h = config_part k" "tsdb_header_is_sane h" "counters_pass k"
  shows "tsdb_header_is_sane k"
proof -
  have "\<not> (max_records k > 0 \<and> total_records k > max_records k * 2)"
    using assms(3) by (auto simp: counters_pass_def)
  then show ?thesis
    using assms(1,2) sane_iff [of h] sane_iff [of k] by (simp add: sane_config_part)
qed

lemma advance_header_config:
  "config_part (header (advance_header db ri ev ts w)) = config_part (header db) \<and>
   has_free_space_cb (advance_header db ri ev ts w) = has_free_space_cb db"
  using advance_header_form [of db ri ev ts w] by (auto simp: config_part_def)

lemma finish_write_config:
  assumes "finish_write db ri ev ts vals w = (r, db', w')"
  shows "config_part (header db') = config_part (header db)" "has_free_space_cb db' = has_free_space_cb db"
proof -
  let ?w = "write_overflow db vals w"
  let ?db = "mark_index (advance_header db ri ev ts ?w) ri"
  have "header ?db = header (advance_header db ri ev ts ?w) \<and>
      has_free_space_cb ?db = has_free_space_cb (advance_header db ri ev ts ?w)"
    by (simp add: mark_index_def Let_def)
  with advance_header_config [of db ri ev ts ?w]
  have a: "config_part (header ?db) = config_part (header db)" "has_free_space_cb ?db = has_free_space_cb db"
    by simp_all
  obtain rs db3 where sc: "tsdb_sidecar_write ?db ?w = (rs, db3, w')" "db' = db3\<lparr>in_file_header_stale := True\<rparr>"
    using assms by (auto simp: finish_write_def Let_def split: prod.splits)
  have "header db3 = header ?db" "has_free_space_cb db3 = has_free_space_cb ?db"
    by (rule sidecar_write_db [OF sc(1)], simp)+
  with a sc(2) show "config_part (header db') = config_part (header db)"
    "has_free_space_cb db' = has_free_space_cb db" by simp_all
qed

lemma quiet_write_run:
  assumes "quiet w" "\<not> has_free_space_cb db" "db_file db = Some p"
  obtains pl d where "write_locked db ts vals w =
    finish_write (evicted db pl) (next_record_idx (header db)) (next_is_eviction (header db)) ts vals
      (put_file w p (overlay (content w p)
        (unat (tsdb_calc_block_offset (header db)
          (next_record_idx (header db) div ucast (records_per_block (header db))))) d))"
    "geom (rpb (header db)) (nparams (header db)) \<and> nparams (header db) \<le> length vals \<longrightarrow>
       length d = 1024 \<and> TSDB_BLOCK_MAGIC d = BLKT_MAGIC"
    "geom (rpb (header db)) (nparams (header db)) \<and> nparams (header db) \<le> length vals \<longrightarrow>
       pl = pool (stage_block db (write_cache_offset db) d)"
proof -
  define db1 where "db1 = db\<lparr>header := evict_header (header db)\<rparr>"
  define bn where "bn = next_record_idx (header db) div ucast (records_per_block (header db1))"
  define blk where "blk = fill_block (header db1) (existing_or_new (tsdb_read_block db1 bn w))
    (unat (ucast (next_record_idx (header db) mod ucast (records_per_block (header db1))) :: u16)) ts vals"
  obtain pl where pl: "stage_block db1 (write_cache_offset db1) blk = db1\<lparr>pool := pl\<rparr>"
    using stage_block_pool by blast
  have g: "records_per_block (header db1) = records_per_block (header db)"
    "tsdb_calc_block_offset (header db1) = tsdb_calc_block_offset (header db)"
    by (simp_all add: db1_def evict_header_def tsdb_calc_block_offset_def fun_eq_iff)
  let ?w = "put_file w p (overlay (content w p) (unat (tsdb_calc_block_offset (header db) bn)) (take 1024 blk))"
  have wb: "tsdb_write_block (db1\<lparr>pool := pl\<rparr>) bn blk w = (ESP_OK, ?w)"
    using assms(1,3) g(2) by (simp add: tsdb_write_block_def quiet_fwrite_at db1_def)
  have ev: "evicted db pl = db1\<lparr>pool := pl\<rparr>" by (simp add: evicted_def db1_def)
  have "tsdb_write_attempt db ts vals w =
      Inr (finish_write (evicted db pl) (next_record_idx (header db)) (next_is_eviction (header db)) ts vals ?w)"
    unfolding ev tsdb_write_attempt_def Let_def using pl wb unfolding blk_def bn_def db1_def by simp
  moreover have "free_space_guard db w = (db, w)" using assms(2) by (simp add: free_space_guard_def Let_def)
  moreover have "length blk = 1024" "TSDB_BLOCK_MAGIC blk = BLKT_MAGIC"
    if m: "geom (rpb (header db)) (nparams (header db))" "nparams (header db) \<le> length vals"
  proof -
    let ?r = "unat (ucast (next_record_idx (header db) mod ucast (records_per_block (header db1))) :: u16)"
    have gm: "geom (rpb (header db1)) (nparams (header db1))" "nparams (header db1) \<le> length vals"
      using m by (simp_all add: db1_def evict_header_def)
    have lt: "unat (next_record_idx (header db)) mod rpb (header db1) < rpb (header db1)" "rpb (header db1) < 65536"
      using gm(1) by (auto simp: geom_def)
    then have "unat (next_record_idx (header db)) mod rpb (header db1) < 65536" by (rule less_trans)
    with lt have "?r < rpb (header db1)" by (simp add: unat_u32_u16 unat_mod unat_u16_u32)
    note fill_block [OF gm(1) existing_or_new(1) this gm(2)]
    then show "length blk = 1024" "TSDB_BLOCK_MAGIC blk = BLKT_MAGIC" by (simp_all add: blk_def existing_or_new(2))
  qed
  moreover have "pl = pool (stage_block db (write_cache_offset db) blk)"
  proof -
    have "pl = pool (stage_block db1 (write_cache_offset db1) blk)" by (simp add: pl)
    also have "\<dots> = pool (stage_block db (write_cache_offset db) blk)"
      by (simp add: db1_def stage_block_def split: option.splits)
    finally show ?thesis .
  qed
  ultimately show ?thesis
    by (intro that [of pl "take 1024 blk"]) (simp_all add: write_locked_def tsdb_write_retry.simps bn_def g)
qed

lemma data_offset_exact:
  assumes "db_inv db w" "room db"
  shows "584 \<le> unat (tsdb_calc_block_offset (header db)
    (next_record_idx (header db) div ucast (records_per_block (header db))))"
proof -
  let ?h = "header db" and ?b = "next_record_idx (header db) div ucast (records_per_block (header db))"
  have b: "unat ?b = slot_of ?h (nrec ?h) div rpb ?h"
    by (simp add: unat_div next_record_idx unat_u16_u32)
  have "block_pos ?h (unat ?b) < 2 ^ 32"
    using assms(2) unfolding b by (auto simp: room_def Let_def)
  from calc_block_offset_exact [OF this] show ?thesis
    using assms(1) by (auto simp: db_inv_def ring_inv_def ring_hdr_def intro: order_trans [OF _ data_start_le_block_pos])
qed

text \<open>A write without failures and without the free-space guard leaves the in-file header alone.\<close>

lemma quiet_write_in_file:
  assumes "quiet w" "\<not> has_free_space_cb db" "db_extra_param_count db = 0" "db_inv db w" "room db"
    and "write_locked db ts vals w = (r, db', w')"
  shows "keeps (\<lambda>j. j < 584) (content w (filepath db)) (content w' (filepath db))"
    and "config_part (header db') = config_part (header db)" "has_free_space_cb db' = has_free_space_cb db"
    and "total_records (header db') = total_records (header db) + 1"
proof -
  let ?p = "filepath db"
  let ?off = "unat (tsdb_calc_block_offset (header db)
      (next_record_idx (header db) div ucast (records_per_block (header db))))"
  have f: "db_file db = Some ?p" using assms(4) by (simp add: db_inv_def)
  obtain pl d where run: "write_locked db ts vals w =
    finish_write (evicted db pl) (next_record_idx (header db)) (next_is_eviction (header db)) ts vals
      (put_file w ?p (overlay (content w ?p) ?off d))"
    using quiet_write_run [OF assms(1,2) f] by metis
  let ?w = "put_file w ?p (overlay (content w ?p) ?off d)"
  note fin = run [unfolded assms(6), symmetric]
  have "content w' ?p = content ?w ?p"
    using finish_write(6) [OF fin] assms(3) by (simp add: evicted_def write_overflow_def)
  moreover have "keeps (\<lambda>j. j < 584) (content w ?p) (overlay (content w ?p) ?off d)"
    by (rule keeps_mono [OF keeps_overlay]) (use data_offset_exact [OF assms(4,5)] in auto)
  ultimately show "keeps (\<lambda>j. j < 584) (content w ?p) (content w' ?p)" by simp
  show "config_part (header db') = config_part (header db)" "has_free_space_cb db' = has_free_space_cb db"
    using finish_write_config [OF fin] by (simp_all add: evicted_def evict_header_def config_part_def)
  show "total_records (header db') = total_records (header db) + 1"
    using finish_write(3) [OF fin] by (simp add: evicted_def)
qed

text \<open>
  What a crash can be recovered from: the in-file header is usable and has the handle's
  configuration, and the header a later open would load is the handle's.
\<close>

definition crash_inv :: "tsdb \<Rightarrow> world \<Rightarrow> bool" where
  "crash_inv db w \<longleftrightarrow>
     side_inv db w \<and> side_dirs db w \<and>
     (case tsdb_read_header (db_file db) w of
        (ESP_OK, Some h0) \<Rightarrow>
          judge_header (ESP_OK, Some h0) = HeaderUsable \<and> config_part h0 = config_part (header db) \<and>
          total_records h0 \<le> total_records (header db) \<and>
          (stored_header w (filepath db) (param_names h0) = Some (header db) \<or>
           stored_header w (filepath db) (param_names h0) = None \<and> h0 = header db)
      | _ \<Rightarrow> False)"

lemma crash_inv_write:
  assumes "crash_inv db w" "writable (Suc n) (db, w)" "entry_fits (db, w) (ts, vals)"
    and "\<not> has_free_space_cb db" "db_extra_param_count db = 0" "sidecar_seq db + 1 < 0xFFFFFFFF"
  obtains db' w' where "db_put (db, w) (ts, vals) = (db', w')" "crash_inv db' w'" "writable n (db', w')"
    "\<not> has_free_space_cb db'" "db_extra_param_count db' = 0" "same_frame db db'"
    "config_part (header db') = config_part (header db)" "sidecar_seq db' = sidecar_seq db + 1"
proof -
  let ?p = "filepath db"
  have v: "quiet w" "db_inv db w" "room_for (Suc n) db" using assms(2) by (auto simp: writable_def)
  have room: "room db" by (rule room_for_room [OF v(3)])
  have f: "db_file db = Some ?p" using v(2) by (simp add: db_inv_def)
  obtain h0 where h0: "tsdb_read_header (Some ?p) w = (ESP_OK, Some h0)"
    "judge_header (ESP_OK, Some h0) = HeaderUsable" "config_part h0 = config_part (header db)"
    "total_records h0 \<le> total_records (header db)"
    using assms(1) f by (auto simp: crash_inv_def split: prod.splits esp_err.splits option.splits)
  have si: "side_inv db w" "side_dirs db w" using assms(1) by (simp_all add: crash_inv_def)
  obtain db' w' where wr: "db_put (db, w) (ts, vals) = (db', w')" "write_locked db ts vals w = (ESP_OK, db', w')"
    "stored db w (entry_row (db, w) (ts, vals)) db' w'" "writable n (db', w')"
    "stored_header w' ?p (param_names (header db)) = Some (header db')" "side_inv db' w'" "side_dirs db' w'"
    "sidecar_seq db' = sidecar_seq db + 1"
    by (rule write_recovers [OF assms(2,3) si assms(6)])
  note q = quiet_write_in_file [OF v(1) assms(4,5) v(2) room wr(2)]
  have fr: "same_frame db db'" using wr(3) by (simp add: stored_def)
  have rd: "tsdb_read_header (db_file db') w' = (ESP_OK, Some h0)"
    using read_header_keeps [OF _ q(1) h0(1)] wr(4) fr f by (simp add: same_frame_def writable_def quiet_sound)
  have "unat (total_records (header db')) = nrec (header db) + 1"
    using wr(3) by (simp add: stored_def)
  then have "total_records h0 \<le> total_records (header db')"
    using h0(4) by (simp add: word_le_nat_alt)
  moreover have "param_names h0 = param_names (header db)"
    using config_part_fields(11) [OF h0(3)] by simp
  ultimately have "crash_inv db' w'"
    unfolding crash_inv_def rd using wr(5-7) h0(2,3) q(2) fr by (simp add: same_frame_def)
  with wr q(2,3) fr assms(4,5) show ?thesis
    by (intro that) (simp_all add: same_frame_def)
qed

lemma judge_usable:
  "judge_header (ESP_OK, Some h) = HeaderUsable \<longleftrightarrow>
   magic h = TSDB_MAGIC \<and> version h \<noteq> 99 \<and> tsdb_header_is_sane h"
  by (simp add: judge_header_def)

end
