(* ===== verification/Tsdb_Repair.thy ===== *)
theory Tsdb_Repair
  imports Tsdb_Open
begin

text \<open>
  The repairs \<open>tsdb_open\<close> makes before a database can be used: finishing or discarding an
  interrupted migration (\<open>tsdb_migrate_recover\<close>), converting blocks of layout V2, and
  rebuilding a header from the data blocks. The scan of the blocks is compared with the list
  of the timestamps in them; the last theorem shows a file whose data region the probe
  misses.
\<close>

section \<open>An interrupted migration\<close>

lemma quiet_rename:
  "quiet w \<Longrightarrow> fs w a \<noteq> None \<Longrightarrow> rename_file w a b = (True, w\<lparr>fs := (fs w)(b := fs w a, a := None)\<rparr>)"
  by (simp add: rename_file_def quiet_next)

lemma quiet_unlink_world:
  "quiet w \<Longrightarrow> snd (unlink_file w p) = w\<lparr>fs := (fs w)(p := None)\<rparr>"
  by (cases "fs w p") (simp_all add: unlink_file_def quiet_next fun_upd_idem)

text \<open>A temporary file that was complete when the original was unlinked.\<close>

definition complete_mig :: "bytes \<Rightarrow> bool" where
  "complete_mig f \<longleftrightarrow> TSDB_HDR_SIZE \<le> length f \<and> ld32 f 0 = TSDB_MAGIC"

lemma decode_magic: "TSDB_HDR_SIZE \<le> length f \<Longrightarrow> magic (decode_header (chunk f 0 TSDB_HDR_SIZE)) = ld32 f 0"
  by (simp add: decode_header_def decode_parts_def chunk_chunk ld32_chunk)

lemma recover_files:
  assumes "quiet w" "length p \<le> 127"
  shows "fs (tsdb_migrate_recover p w) =
    (fs w)(p := (case (fs w p, fs w (mig_path p)) of
                   (None, Some f) \<Rightarrow> if complete_mig f then Some f else None
                 | (orig, _) \<Rightarrow> orig),
           mig_path p := None)"
proof -
  have neq: "mig_path p \<noteq> p" using assms(2) by (simp add: mig_path_def)
  show ?thesis
  proof (cases "fs w (mig_path p)")
    case None
    then show ?thesis
      using assms(1) neq by (simp add: tsdb_migrate_recover_def quiet_fopen fun_eq_iff split: option.split)
  next
    case (Some f)
    then have c: "content w (mig_path p) = f" by (simp add: content_def)
    show ?thesis
    proof (cases "fs w p")
      case None
      with Some assms(1) neq c decode_magic [of f] show ?thesis
        by (auto simp: tsdb_migrate_recover_def quiet_fopen fread_at_sound [OF quiet_sound] complete_mig_def quiet_unlink_world
            quiet_rename fun_eq_iff)
    next
      case orig: (Some g)
      with Some assms(1) neq show ?thesis
        by (simp add: tsdb_migrate_recover_def quiet_fopen quiet_unlink_world fun_eq_iff)
    qed
  qed
qed

text \<open>
  C25: In a world without failures opening settles an interrupted migration. The temporary file never survives; its
  contents become the database exactly when the original is gone (the crash hit the window
  between \<open>unlink\<close> and \<open>rename\<close>) and its header is complete; otherwise the original stays
  as it is. No other file changes.
\<close>

theorem migrate_recover_settles:
  assumes "quiet w" "length p \<le> 127"
  shows "fs (tsdb_migrate_recover p w) =
    (fs w)(p := (case (fs w p, fs w (mig_path p)) of
                   (None, Some f) \<Rightarrow> if complete_mig f then Some f else None
                 | (orig, _) \<Rightarrow> orig),
           mig_path p := None)"
  by (rule recover_files [OF assms])

theorem migrate_recover_settles_witness:
  "fs (tsdb_migrate_recover ''/a'' ((demo_world [])\<lparr>fs := Map.empty(''/a.mig'' \<mapsto> le32 TSDB_MAGIC @ replicate 580 0)\<rparr>)) =
   Map.empty(''/a'' \<mapsto> le32 TSDB_MAGIC @ replicate 580 0)"
proof -
  let ?f = "le32 TSDB_MAGIC @ replicate 580 0"
  let ?w = "(demo_world [])\<lparr>fs := Map.empty(''/a.mig'' \<mapsto> ?f)\<rparr>"
  have "quiet ?w" by (simp add: quiet_def demo_world_def)
  moreover have "complete_mig ?f" by (simp add: complete_mig_def ld32_append)
  moreover have "mig_path ''/a'' = ''/a.mig''" by (simp add: mig_path_def)
  ultimately show ?thesis using migrate_recover_settles [of ?w "''/a''"] by (simp add: fun_eq_iff)
qed

section \<open>Blocks of layout V2\<close>

text \<open>Record \<open>r\<close> of a V2 block: the columns have 38 rows whatever \<open>records_per_block\<close> says.\<close>

definition v2_row :: "nat \<Rightarrow> bytes \<Rightarrow> nat \<Rightarrow> row" where
  "v2_row np b r = (ld32 b (8 + r * 4), map (\<lambda>q. old_param b q r) [0..<np])"

lemma convert_step_put_row:
  "set_block_params (set_block_ts nb r (ld32 b (8 + r * 4))) n r (\<lambda>p. old_param b p r) np = put_row n np nb r (v2_row np b r)"
  unfolding put_row_def v2_row_def fst_conv snd_conv by (rule set_block_params_cong) simp

lemma foldl_fill_rows:
  "foldl (\<lambda>nb r. put nb r (x r)) b [i..<i + k] = fill_rows put b i (map x [i..<i + k])"
proof (induction k arbitrary: b i)
  case (Suc k)
  have "[i..<i + Suc k] = i # [Suc i..<Suc i + k]" by (simp add: upt_rec)
  then show ?case using Suc.IH [of "put b i (x i)" "Suc i"] by simp
qed simp

lemma magic_fill_rows:
  assumes "geom n m" "length b = TSDB_BLOCK_SIZE" "i + length xs \<le> n" "list_all (\<lambda>x. length (snd x) = m) xs"
  shows "TSDB_BLOCK_MAGIC (fill_rows (put_row n m) b i xs) = TSDB_BLOCK_MAGIC b"
  using assms
proof (induction xs arbitrary: b i)
  case (Cons x xs)
  then show ?case
    using magic_put_row [of n m b i x] length_put_row [of n m b i x] by simp
qed simp

text \<open>
  C27: Converting a block of layout V2 keeps its records: row \<open>r\<close> of the new block holds the
  timestamp and the parameters the old layout stored for record \<open>r\<close>, for every record the
  block counts, and the block stays valid.
\<close>

theorem convert_block_keeps_rows:
  assumes "geom n np" "unat (TSDB_BLOCK_COUNT b) \<le> n"
  shows "map (block_row n np (convert_block n np b)) [0..<unat (TSDB_BLOCK_COUNT b)] =
      map (v2_row np b) [0..<unat (TSDB_BLOCK_COUNT b)] \<and>
    TSDB_BLOCK_MAGIC (convert_block n np b) = BLKT_MAGIC \<and> length (convert_block n np b) = TSDB_BLOCK_SIZE"
proof -
  let ?k = "unat (TSDB_BLOCK_COUNT b)" and ?x = "v2_row np b"
  define new where "new = set_block_count (set_block_magic (replicate TSDB_BLOCK_SIZE 0) BLKT_MAGIC) (TSDB_BLOCK_COUNT b)"
  have new: "length new = TSDB_BLOCK_SIZE" "TSDB_BLOCK_MAGIC new = BLKT_MAGIC"
    by (simp_all add: new_def length_set_block magic_set_count)
      (simp add: TSDB_BLOCK_MAGIC_def set_block_magic_def ld32_st32_same)
  have c: "convert_block n np b = fill_rows (put_row n np) new 0 (map ?x [0..<?k])"
    using assms(2) foldl_fill_rows [of "put_row n np" ?x new 0 ?k]
    by (simp add: convert_block_def Let_def new_def [symmetric] convert_step_put_row min_absorb1)
  have l: "0 + length (map ?x [0..<?k]) \<le> n" "list_all (\<lambda>x. length (snd x) = np) (map ?x [0..<?k])"
    using assms(2) by (simp_all add: list_all_iff v2_row_def)
  have "map (block_row n np (convert_block n np b)) [0..<?k] = map ?x [0..<?k]"
    using columnar.get_fill [of "(n, np)" new 0 "map ?x [0..<?k]"] assms(1) new l by (simp add: c)
  moreover have "length (convert_block n np b) = TSDB_BLOCK_SIZE"
    using columnar.ok_fill [of "(n, np)" new 0 "map ?x [0..<?k]"] assms(1) new l by (simp add: c)
  ultimately show ?thesis
    using magic_fill_rows [OF assms(1) new(1) l] new(2) c by simp
qed

definition demo_v2 :: bytes where
  "demo_v2 = set_block_count (set_block_ts fresh_block 1 7) 2"

theorem convert_block_keeps_rows_witness:
  "map (block_row 60 6 (convert_block 60 6 demo_v2)) [0..<2] = map (v2_row 6 demo_v2) [0..<2] \<and>
   TSDB_BLOCK_MAGIC (convert_block 60 6 demo_v2) = BLKT_MAGIC"
proof -
  have "geom 60 6" by (simp add: geom_def)
  moreover have "unat (TSDB_BLOCK_COUNT demo_v2) = 2"
    by (simp add: demo_v2_def TSDB_BLOCK_COUNT_def set_block_count_def ld16_st16_same)
  ultimately show ?thesis using convert_block_keeps_rows [of 60 6 demo_v2] by simp
qed

section \<open>The scan of the data blocks\<close>

text \<open>
  The timestamps stored in the blocks of a data region that starts at byte \<open>D\<close> of the file \<open>f\<close>, in
  blocks of \<open>n\<close> records, with their record index.
\<close>

definition block_stamps :: "nat \<Rightarrow> nat \<Rightarrow> bytes \<Rightarrow> nat \<Rightarrow> (u32 \<times> u32) list" where
  "block_stamps D n f b =
     (let blk = chunk f (D + 1024 * b) TSDB_BLOCK_SIZE
      in if TSDB_BLOCK_MAGIC blk \<noteq> BLKT_MAGIC then []
         else map (\<lambda>i. (TSDB_BLOCK_TS blk i, of_nat (b * n + i))) [0..<min (unat (TSDB_BLOCK_COUNT blk)) n])"

definition stamps :: "nat \<Rightarrow> nat \<Rightarrow> bytes \<Rightarrow> (u32 \<times> u32) list" where
  "stamps D n f = filter (\<lambda>x. fst x \<noteq> 0) (concat (map (block_stamps D n f) [0..<(length f - D) div 1024]))"

definition scan_start :: scan_state where
  "scan_start = \<lparr> sc_oldest_ts = 0xFFFFFFFF, sc_newest_ts = 0, sc_oldest_idx = 0, sc_newest_idx = 0, sc_total = 0 \<rparr>"

lemma scan_block_stamps:
  assumes "sound w" "data_start h + 1024 * b + 1024 \<le> length (content w p)" "length (content w p) < 2 ^ 32"
  shows "scan_block h p w st b =
    foldl (\<lambda>st x. scan_record (fst x) (snd x) st) st (block_stamps (data_start h) (rpb h) (content w p) b)"
proof -
  have b: "unat (of_nat b :: u32) = b" using assms(2,3) by (simp add: unat_of_nat)
  then have "unat (tsdb_calc_block_offset h (of_nat b)) = data_start h + 1024 * b"
    using assms(2,3) by (subst calc_block_offset_exact) (simp_all add: block_pos_def)
  then have rd: "fread_at w p (unat (tsdb_calc_block_offset h (of_nat b))) TSDB_BLOCK_SIZE =
      Some (chunk (content w p) (data_start h + 1024 * b) TSDB_BLOCK_SIZE)"
    using assms(1,2) by (simp add: fread_at_sound)
  have "rpb h < 65536" using unsigned_less [of "records_per_block h"] by simp
  then have "(ucast (records_per_block h) :: u32) = of_nat (rpb h)"
    by (simp only: word_unat_eq_iff unat_u16_u32 unat_of_nat) simp
  then have idx: "(of_nat b * ucast (records_per_block h) + of_nat i :: u32) = of_nat (b * rpb h + i)" for i
    by (simp only: of_nat_add of_nat_mult)
  show ?thesis
    unfolding scan_block_def rd option.case idx block_stamps_def Let_def
    by (auto simp: foldl_map)
qed

lemma scan_skips_zero:
  "foldl (\<lambda>st x. scan_record (fst x) (snd x) st) st xs =
   foldl (\<lambda>st x. scan_record (fst x) (snd x) st) st (filter (\<lambda>x. fst x \<noteq> 0) xs)"
  by (induction xs arbitrary: st) (simp_all add: scan_record_def)

lemma scan_blocks_stamps:
  assumes "sound w" "data_start h \<le> length (content w p)" "length (content w p) < 2 ^ 32"
  shows "scan_blocks h p w =
    foldl (\<lambda>st x. scan_record (fst x) (snd x) st) scan_start (stamps (data_start h) (rpb h) (content w p))"
proof -
  let ?f = "content w p" and ?D = "data_start h"
  have off: "unat (tsdb_calc_block_offset h 0) = ?D"
    using assms(2,3) calc_block_offset_exact [of h 0] by (simp add: block_pos_def)
  have len: "unat (of_nat (length ?f) :: u32) = length ?f" using assms(3) by (simp add: unat_of_nat)
  have "tsdb_calc_block_offset h 0 \<le> of_nat (length ?f)"
    unfolding word_le_nat_alt off len by (rule assms(2))
  then have mb: "unat ((of_nat (length ?f) - tsdb_calc_block_offset h 0) div 1024) = (length ?f - ?D) div 1024"
    by (simp add: unat_div unat_sub off len)
  have "foldl (scan_block h p w) st bs =
      foldl (\<lambda>st x. scan_record (fst x) (snd x) st) st (concat (map (block_stamps ?D (rpb h) ?f) bs))"
    if "\<forall>b \<in> set bs. ?D + 1024 * b + 1024 \<le> length ?f" for st bs
    using that by (induction bs arbitrary: st) (simp_all add: scan_block_stamps [OF assms(1) _ assms(3)])
  moreover have "\<forall>b \<in> set [0..<(length ?f - ?D) div 1024]. ?D + 1024 * b + 1024 \<le> length ?f"
    using assms(2) by (auto simp: less_eq_div_iff_mult_less_eq dest!: Suc_leI)
  ultimately show ?thesis
    unfolding scan_blocks_def Let_def mb by (simp add: stamps_def scan_start_def scan_skips_zero [symmetric])
qed

text \<open>What the scan has accumulated after the stamps \<open>xs\<close>.\<close>

definition scanned :: "(u32 \<times> u32) list \<Rightarrow> scan_state \<Rightarrow> bool" where
  "scanned xs st \<longleftrightarrow>
     sc_total st = of_nat (length xs) \<and>
     (if xs = [] then sc_oldest_ts st = 0xFFFFFFFF \<and> sc_newest_ts st = 0
      else (sc_oldest_ts st, sc_oldest_idx st) \<in> set xs \<and> (sc_newest_ts st, sc_newest_idx st) \<in> set xs) \<and>
     (\<forall>(ts, i) \<in> set xs. sc_oldest_ts st \<le> ts \<and> ts \<le> sc_newest_ts st)"

lemma scanned_snoc:
  assumes "scanned xs st" "0 < ts" "ts < 0xFFFFFFFF"
  shows "scanned (xs @ [(ts, i)]) (scan_record ts i st)"
proof -
  have nz: "ts \<noteq> 0" "\<not> ts \<le> 0" using assms(2) by (auto simp: word_gt_0)
  show ?thesis
    using assms nz
    by (cases "xs = []") (auto simp: scanned_def scan_record_def Let_def not_less intro: order_trans less_imp_le)
qed

lemma scanned_all:
  assumes "\<forall>x \<in> set xs. 0 < fst x \<and> fst x < 0xFFFFFFFF"
  shows "scanned xs (foldl (\<lambda>st x. scan_record (fst x) (snd x) st) scan_start xs)"
  using assms
proof (induction xs rule: rev_induct)
  case (snoc x xs)
  then show ?case using scanned_snoc [of xs _ "fst x" "snd x"] by simp
qed (simp add: scanned_def scan_start_def)

text \<open>The probe: the positions that carry a block magic.\<close>

definition probe_hit :: "bytes \<Rightarrow> u32 \<Rightarrow> u32 \<Rightarrow> bool" where
  "probe_hit f base entries \<longleftrightarrow>
     (let off = base + entries * 8
      in off + 1024 \<le> of_nat (length f) \<and> unat off + 4 \<le> length f \<and> ld32 f (unat off) = BLKT_MAGIC)"

lemma probe_entries_find:
  "sound w \<Longrightarrow> probe_entries p w base es = find (probe_hit (content w p) base) es"
  by (induction es) (auto simp: Let_def fread_at_sound probe_hit_def ld32_chunk not_le not_less)

lemma probe_bases_hit:
  assumes "sound w" "0 \<notin> set cands" "\<exists>b \<in> set bs. \<exists>e \<in> set cands. probe_hit (content w p) b e"
  shows "\<exists>b \<in> set bs. \<exists>e \<in> set cands. probe_hit (content w p) b e \<and> probe_bases p w cands bs (0, off) = (e, b)"
  using assms(3)
proof (induction bs arbitrary: off)
  case (Cons b bs)
  have done_: "probe_bases p w cands bs (e, o') = (e, o')" if "e \<noteq> 0" for e o'
    using that by (cases bs) simp_all
  show ?case
  proof (cases "find (probe_hit (content w p) b) cands")
    case None
    then have "\<exists>x \<in> set bs. \<exists>e \<in> set cands. probe_hit (content w p) x e"
      using Cons.prems by (auto simp: find_None_iff)
    with Cons.IH None assms(1) show ?thesis by (auto simp: probe_entries_find)
  next
    case (Some e)
    then have "e \<in> set cands" "probe_hit (content w p) b e" by (auto simp: find_Some_iff)
    with Some assms(1,2) done_ [of e b] show ?thesis
      by (intro bexI [of _ b] bexI [of _ e]) (auto simp: probe_entries_find)
  qed
qed simp

lemma reconstruct_form:
  assumes "512 \<le> length (content w p)" "k = probed_header p cfg w"
  obtains h where "tsdb_reconstruct_header p cfg w = (ESP_OK, Some h)" "h = k" "sc_total (scan_blocks k p w) = 0"
  | h n where "tsdb_reconstruct_header p cfg w = (ESP_OK, Some h)" "sc_total (scan_blocks k p w) \<noteq> 0"
    "h = k\<lparr>total_records := sc_total (scan_blocks k p w),
       oldest_record_idx := sc_oldest_idx (scan_blocks k p w), newest_record_idx := sc_newest_idx (scan_blocks k p w),
       oldest_timestamp := sc_oldest_ts (scan_blocks k p w), newest_timestamp := sc_newest_ts (scan_blocks k p w),
       total_writes := sc_total (scan_blocks k p w), total_evictions := n\<rparr>"
proof (cases "sc_total (scan_blocks k p w) = 0")
  case True
  then have "tsdb_reconstruct_header p cfg w = (ESP_OK, Some k)"
    using assms unfolding tsdb_reconstruct_header_def reconstructed_header_def assms(2) [symmetric] Let_def by simp
  with True show ?thesis by (intro that(1)) simp_all
next
  case False
  have "tsdb_reconstruct_header p cfg w = (ESP_OK, Some (k\<lparr>total_records := sc_total (scan_blocks k p w),
       oldest_record_idx := sc_oldest_idx (scan_blocks k p w), newest_record_idx := sc_newest_idx (scan_blocks k p w),
       oldest_timestamp := sc_oldest_ts (scan_blocks k p w), newest_timestamp := sc_newest_ts (scan_blocks k p w),
       total_writes := sc_total (scan_blocks k p w),
       total_evictions := (if sc_total (scan_blocks k p w) > cfg_max_records cfg
         then sc_total (scan_blocks k p w) - cfg_max_records cfg else 0)\<rparr>))"
    using assms False unfolding tsdb_reconstruct_header_def reconstructed_header_def assms(2) [symmetric] Let_def by simp
  with False show ?thesis by (intro that(2)) simp_all
qed

text \<open>
  C26: A reconstructed header agrees with the file. When the data region starts at byte \<open>D\<close>, one of
  the positions the probe tries, and no other of these positions carries a block magic, the header
  describes this region: \<open>total_records\<close> is the number of its records with a timestamp, the oldest
  and newest timestamps are their minimum and maximum, and the two record indices point at
  records with these timestamps. The list of the timestamps is read off the bytes of the file
  and \<open>D\<close> alone. \<open>probe_skips_first_block\<close> below has a file where another position carries a magic.
\<close>

theorem reconstruct_agrees_with_blocks:
  assumes "sound w" "length (content w p) < 2 ^ 32"
    and "\<exists>b \<in> {512, 1024, 2048}. \<exists>e \<in> set (probe_candidates cfg). probe_hit (content w p) b e"
    and "\<forall>b \<in> {512, 1024, 2048}. \<forall>e \<in> set (probe_candidates cfg).
      probe_hit (content w p) b e \<longrightarrow> unat b + 8 * unat e = D"
    and "0 \<notin> set (probe_candidates cfg)"
    and "xs = stamps D (unat (blocks_records (cfg_num_params cfg))) (content w p)"
    and "0 < length xs" "length xs < 2 ^ 32" "\<forall>x \<in> set xs. fst x < 0xFFFFFFFF"
  shows "\<exists>h. tsdb_reconstruct_header p cfg w = (ESP_OK, Some h) \<and> data_start h = D \<and>
    unat (total_records h) = length xs \<and>
    (oldest_timestamp h, oldest_record_idx h) \<in> set xs \<and> (newest_timestamp h, newest_record_idx h) \<in> set xs \<and>
    (\<forall>(ts, i) \<in> set xs. oldest_timestamp h \<le> ts \<and> ts \<le> newest_timestamp h)"
proof -
  define k where "k = probed_header p cfg w"
  obtain b e where be: "b \<in> {512, 1024, 2048}" "e \<in> set (probe_candidates cfg)" "probe_hit (content w p) b e"
      "probe_bases p w (probe_candidates cfg) [512, 1024, 2048] (0, 512) = (e, b)"
    using probe_bases_hit [OF assms(1,5), of "[512, 1024, 2048]" p 512] assms(3) by auto
  have e0: "e \<noteq> 0" using be(2) assms(5) by auto
  have k: "index_offset k = b" "index_entries k = e" "records_per_block k = blocks_records (cfg_num_params cfg)"
    using be(4) e0 by (simp_all add: k_def probed_header_def Let_def config_header_def word_gt_0 del: probe_bases.simps)
  have D': "unat b + 8 * unat e = D" using assms(4) be(1-3) by blast
  then have D: "data_start k = D" using k by (simp add: data_start_def)
  have "(length (content w p) - D) div 1024 \<noteq> 0"
    using assms(6,7) by (intro notI) (simp add: stamps_def)
  then have len: "D + 1024 \<le> length (content w p)" by (simp add: div_eq_0_iff)
  have "512 \<le> unat b" using be(1) by auto
  then have "512 \<le> D" using D' by simp
  have sc: "scanned xs (scan_blocks k p w)"
    using scan_blocks_stamps [OF assms(1), of k p] D k(3) len assms(2,6,9) scanned_all [of xs]
    by (auto simp: stamps_def word_gt_0)
  have u: "unat (of_nat (length xs) :: u32) = length xs" using assms(8) by (simp add: unat_of_nat)
  with \<open>512 \<le> D\<close> have long: "512 \<le> length (content w p)" using len by simp
  from long k_def show ?thesis
  proof (cases rule: reconstruct_form)
    case (1 h)
    with sc u assms(7) show ?thesis by (auto simp: scanned_def)
  next
    case (2 h n)
    moreover have "data_start h = data_start k" by (simp add: 2(3) data_start_def)
    ultimately show ?thesis
      using sc u assms(7) D by (intro exI [of _ h]) (auto simp: scanned_def split: if_splits)
  qed
qed

section \<open>A data region the probe misses\<close>

text \<open>
  The probe prefers the legacy base 512 over the base of the file's own layout. In a file
  created with 8 index entries the data starts at 1088, and the candidate (512, 200) hits
  the magic of the second block at 2112: the reconstructed header describes a data region
  without the first block.
\<close>

theorem probe_skips_first_block:
  assumes "entries_for (cfg_max_records cfg) (stride_or_default (cfg_index_stride cfg)) = 8"
    and "3136 \<le> length (content w p)" "length (content w p) < 2 ^ 31"
    and "ld32 (content w p) 1088 = BLKT_MAGIC" "ld32 (content w p) 2112 = BLKT_MAGIC"
    and "\<forall>off \<in> {576, 2560, 1536, 1616, 1832}. ld32 (content w p) off \<noteq> BLKT_MAGIC" "sound w"
  shows "\<exists>h. tsdb_reconstruct_header p cfg w = (ESP_OK, Some h) \<and> data_start h = 2112 \<and>
    (cfg_num_params cfg \<le> 16 \<longrightarrow> data_start (new_header cfg) = 1088)"
proof -
  have len: "unat (of_nat (length (content w p)) :: u32) = length (content w p)"
    using assms(3) by (simp add: unat_of_nat)
  have probe: "probe_entries p w 512 (e # es) =
      (if 512 + unat e * 8 + 1024 \<le> length (content w p) \<and> ld32 (content w p) (512 + unat e * 8) = BLKT_MAGIC
       then Some e else probe_entries p w 512 es)" if "unat e < 4000" for e es
  proof -
    have "unat (e * 8) = unat e * 8" using that by (subst unat_mult_no_wrap) simp_all
    then have u: "unat (512 + e * 8) = 512 + unat e * 8" using that by (subst unat_add_no_wrap) simp_all
    have "unat (512 + e * 8 + 1024) = 512 + unat e * 8 + 1024"
      using that u by (subst unat_add_no_wrap) simp_all
    then have "512 + e * 8 + 1024 > of_nat (length (content w p)) \<longleftrightarrow> \<not> 512 + unat e * 8 + 1024 \<le> length (content w p)"
      using len by (simp add: word_less_nat_alt not_le)
    with u assms(7) show ?thesis by (simp add: Let_def fread_at_sound ld32_chunk)
  qed
  have "probe_entries p w 512 [8, 256, 128, 138, 165, 200, 512, 1024, 2048] = Some 200"
    using assms(2,5,6) by (simp add: probe del: probe_entries.simps)
  then have pb: "probe_bases p w [8, 256, 128, 138, 165, 200, 512, 1024, 2048] [512, 1024, 2048] (0, 512) = (200, 512)"
    by (simp del: probe_entries.simps)
  have k: "index_offset (probed_header p cfg w) = 512" "index_entries (probed_header p cfg w) = 200"
    using assms(1) pb by (simp_all add: probed_header_def probe_candidates_def Let_def config_header_def del: probe_bases.simps probe_entries.simps)
  have len: "512 \<le> length (content w p)" using assms(2) by simp
  obtain h where h: "tsdb_reconstruct_header p cfg w = (ESP_OK, Some h)" "index_offset h = 512" "index_entries h = 200"
  proof (cases rule: reconstruct_form [OF len refl, of cfg])
    case (1 h)
    with k that [of h] show ?thesis by simp
  next
    case (2 h n)
    with k that [of h] show ?thesis by simp
  qed
  have "cfg_num_params cfg \<le> 16 \<longrightarrow> data_start (new_header cfg) = 1088"
    using assms(1) by (auto simp: data_start_def new_header_fields)
  moreover have "data_start h = 2112" using h(2,3) by (simp add: data_start_def)
  ultimately show ?thesis using h(1) by blast
qed

section \<open>Instances\<close>

lemma ld32_zeros: "off + 4 \<le> n \<Longrightarrow> ld32 (replicate n 0 @ f) off = 0"
  by (simp add: ld32_def chunk_def) (simp add: numeral_eq_Suc)

lemma ld32_behind: "off + 4 \<le> length b \<Longrightarrow> ld32 (replicate n 0 @ b @ c) (n + off) = ld32 b off"
  by (simp add: ld32_def chunk_def)

lemma ld32_fresh_zero: "8 \<le> off \<Longrightarrow> off + 4 \<le> 1024 \<Longrightarrow> ld32 fresh_block off = 0"
  using ld32_zeros [of off 1024 "[]"]
  by (simp add: fresh_block_def set_block_count_def set_block_magic_def st16_def st32_def
      ld32_overlay_disjoint length_overlay)

definition demo_disk :: "bytes \<Rightarrow> world" where
  "demo_disk f = (demo_world [])\<lparr>fs := Map.empty(''/a.db'' \<mapsto> f)\<rparr>"

lemma demo_disk_content: "content (demo_disk f) ''/a.db'' = f"
  by (simp add: demo_disk_def content_def)

lemma demo_disk_sound [simp]: "sound (demo_disk f)"
  by (simp add: demo_disk_def demo_world_def sound_def)

text \<open>Two blocks behind an index of 8 entries.\<close>

theorem probe_skips_first_block_witness:
  "\<exists>h. tsdb_reconstruct_header ''/a.db'' (demo_config 30) (demo_disk (replicate 1088 0 @ fresh_block @ fresh_block)) = (ESP_OK, Some h) \<and>
     data_start h = 2112 \<and> data_start (new_header (demo_config 30)) = 1088"
proof -
  let ?f = "replicate 1088 0 @ fresh_block @ fresh_block"
  have m: "ld32 fresh_block 0 = BLKT_MAGIC" using magic_fresh_block by (simp only: TSDB_BLOCK_MAGIC_def)
  have a: "ld32 ?f (1088 + off) = ld32 fresh_block off" if "off + 4 \<le> 1024" for off
    using ld32_behind [of off fresh_block] that by simp
  have b: "ld32 ?f (2112 + off) = ld32 fresh_block off" if "off + 4 \<le> 1024" for off
    using that by (simp add: ld32_def chunk_def)
  have "entries_for (cfg_max_records (demo_config 30)) (stride_or_default (cfg_index_stride (demo_config 30))) = 8"
    by (simp add: demo_config_def entries_for_def stride_or_default_def)
  moreover have "cfg_num_params (demo_config 30) \<le> 16" by (simp add: demo_config_def)
  moreover have "\<forall>off \<in> {576, 2560, 1536, 1616, 1832}. ld32 ?f off \<noteq> BLKT_MAGIC"
    using a [of 448] a [of 528] a [of 744] b [of 448] ld32_zeros [of 576 1088]
    by (simp add: ld32_fresh_zero)
  ultimately show ?thesis
    using probe_skips_first_block [of "demo_config 30" "demo_disk ?f" "''/a.db''"] a [of 0] b [of 0] m
    by (simp add: demo_disk_content)
qed

text \<open>One block with one record behind an index of one entry.\<close>

definition demo_block :: bytes where
  "demo_block = set_block_count (set_block_ts fresh_block 0 100) 1"

lemma demo_block_fields:
  "length demo_block = 1024" "ld32 demo_block 0 = BLKT_MAGIC" "TSDB_BLOCK_MAGIC demo_block = BLKT_MAGIC"
  "TSDB_BLOCK_COUNT demo_block = 1" "TSDB_BLOCK_TS demo_block 0 = 100"
proof -
  have l: "length (set_block_ts fresh_block 0 100) = 1024" by (simp add: set_block_ts_def length_st32 ts_off_def)
  then show "length demo_block = 1024" by (simp add: demo_block_def length_set_block)
  have "ld32 fresh_block 0 = BLKT_MAGIC" using magic_fresh_block by (simp only: TSDB_BLOCK_MAGIC_def)
  with l show m: "ld32 demo_block 0 = BLKT_MAGIC"
    by (simp add: demo_block_def set_block_count_def set_block_ts_def st16_def st32_def ld32_overlay_disjoint
        ts_off_def length_overlay)
  then show "TSDB_BLOCK_MAGIC demo_block = BLKT_MAGIC" by (simp add: TSDB_BLOCK_MAGIC_def)
  show "TSDB_BLOCK_COUNT demo_block = 1"
    by (simp add: demo_block_def TSDB_BLOCK_COUNT_def set_block_count_def ld16_st16_same)
  show "TSDB_BLOCK_TS demo_block 0 = 100"
    using l by (simp add: demo_block_def set_block_count_def st16_def TSDB_BLOCK_TS_def ld32_overlay_disjoint ts_off_def)
      (simp add: set_block_ts_def ts_off_def ld32_st32_same)
qed

lemma demo_stamps: "stamps 1032 169 (replicate 1032 0 @ demo_block) = [(100, 0)]"
proof -
  have "chunk (replicate 1032 0 @ demo_block) 1032 1024 = demo_block" by (simp add: chunk_def demo_block_fields)
  then show ?thesis by (simp add: stamps_def block_stamps_def Let_def demo_block_fields)
qed

theorem reconstruct_agrees_with_blocks_witness:
  "\<exists>h. tsdb_reconstruct_header ''/a.db'' (demo_config 3) (demo_disk (replicate 1032 0 @ demo_block)) = (ESP_OK, Some h) \<and>
     data_start h = 1032 \<and> unat (total_records h) = 1 \<and> oldest_timestamp h = 100 \<and> newest_timestamp h = 100 \<and>
     newest_record_idx h = 0"
proof -
  let ?f = "replicate 1032 0 @ demo_block"
  have len: "length ?f = 2056" by (simp add: demo_block_fields)
  have z: "ld32 ?f 520 = 0" by (rule ld32_zeros) simp
  have m: "ld32 ?f 1032 = BLKT_MAGIC" using ld32_behind [of 0 demo_block 1032 "[]"] demo_block_fields by simp
  have c: "probe_candidates (demo_config 3) = [1, 256, 128, 138, 165, 200, 512, 1024, 2048]"
    by (simp add: probe_candidates_def entries_for_def demo_config_def stride_or_default_def)
  have hit: "probe_hit ?f 1024 1" "b \<in> {512, 1024, 2048} \<Longrightarrow> e \<in> set (probe_candidates (demo_config 3)) \<Longrightarrow>
      probe_hit ?f b e \<Longrightarrow> unat b + 8 * unat e = 1032" for b e
    using z m len by (auto simp: probe_hit_def Let_def c)
  have n: "unat (blocks_records (cfg_num_params (demo_config 3))) = 169"
    by (simp add: blocks_records_def record_bytes_def demo_config_def)
  show ?thesis
    using reconstruct_agrees_with_blocks [of "demo_disk ?f" "''/a.db''" "demo_config 3" 1032 "[(100, 0)]"] hit
    unfolding demo_disk_content len n by (auto simp: demo_stamps c)
qed

end
