(* ===== verification/Tsdb_Query.thy ===== *)
theory Tsdb_Query
  imports Tsdb_Write "HOL-Library.Signed_Division"
begin

text \<open>
  Queries and aggregation (\<open>src/tsdb_query.c\<close>): the binary search for the first record of a
  time window, the streaming iterator that walks the ring in write order, and the
  single-pass aggregations built on it.

  The specification of an iterator is the list it yields. The lemmas show that the walk
  yields exactly what a plain scan of the retained records yields, that the binary search
  finds the first record of the window when the timestamps ascend, and that the
  aggregates are the mathematical sum, average, minimum, maximum, count, first and last
  of the column.
\<close>

section \<open>The iterator\<close>

text \<open>
  \<open>struct tsdb_query_s\<close>. The handle pointer \<open>db\<close> is passed beside the query; \<open>q_bound\<close> says
  that it is not NULL. The block buffer either belongs to the query (\<open>owns_buffer\<close>) or is
  the query region of the handle's pool.
\<close>

record tsdb_query =
  q_bound :: bool
  q_file :: "path option"
  q_header :: tsdb_header
  start_time :: u32
  end_time :: u32
  param_indices :: "u8 list"
  num_params_to_fetch :: u8
  current_record_idx :: u32
  end_record_idx :: u32
  records_scanned :: u32
  current_block_num :: u32
  offset_in_block :: u16
  block_buffer :: "bytes option"
  block_loaded :: bool
  owns_buffer :: bool

definition zero_query :: tsdb_query where
  "zero_query = \<lparr> q_bound = False, q_file = None, q_header = zero_header, start_time = 0,
     end_time = 0, param_indices = replicate TSDB_MAX_PARAMS 0, num_params_to_fetch = 0,
     current_record_idx = 0, end_record_idx = 0, records_scanned = 0, current_block_num = 0,
     offset_in_block = 0, block_buffer = None, block_loaded = False, owns_buffer = False \<rparr>"

text \<open>The contents of the block buffer, and \<open>tsdb_read_block(query->db, n, query->block_buffer)\<close>.\<close>

definition query_block :: "tsdb \<Rightarrow> tsdb_query \<Rightarrow> bytes" where
  "query_block db q =
     (case (if owns_buffer q then block_buffer q
            else tsdb_buffer_read (Some (pool db)) (query_buffer_offset db) 1024) of
        None \<Rightarrow> []
      | Some b \<Rightarrow> b)"

definition load_query_block :: "tsdb \<Rightarrow> tsdb_query \<Rightarrow> u32 \<Rightarrow> world \<Rightarrow> esp_err \<times> tsdb \<times> tsdb_query" where
  "load_query_block db q n w =
     (case tsdb_read_block db n w of
        (ESP_OK, Some b) \<Rightarrow>
          if owns_buffer q then (ESP_OK, db, q\<lparr>block_buffer := Some b\<rparr>)
          else (ESP_OK, stage_block db (query_buffer_offset db) b, q)
      | (e, _) \<Rightarrow> (e, db, q))"

text \<open>The slot of logical position \<open>k\<close> as the code computes it.\<close>

definition ring_slot :: "tsdb_header \<Rightarrow> u32 \<Rightarrow> u32 \<Rightarrow> u32" where
  "ring_slot h first_slot k = (if max_records h = 0 then k else (first_slot + k) mod max_records h)"

text \<open>The loop of \<open>tsdb_seek_start\<close>. The buffer is left with the last block probed.\<close>

lemma mid_bounds:
  assumes "lo < (hi :: u32)"
  shows "unat (lo + (hi - lo) div 2) = unat lo + (unat hi - unat lo) div 2"
    and "unat (lo + (hi - lo) div 2 + 1) = unat lo + (unat hi - unat lo) div 2 + 1"
proof -
  have lt: "unat lo < unat hi" using assms by (simp add: word_less_nat_alt)
  have d: "unat ((hi - lo) div 2) = (unat hi - unat lo) div 2"
    using lt by (simp add: unat_div unat_sub word_le_nat_alt)
  show 1: "unat (lo + (hi - lo) div 2) = unat lo + (unat hi - unat lo) div 2"
    using d lt unat_u32_bound [of hi] by (subst unat_add_no_wrap) auto
  show "unat (lo + (hi - lo) div 2 + 1) = unat lo + (unat hi - unat lo) div 2 + 1"
    using 1 lt unat_u32_bound [of hi] by (subst unat_inc_no_wrap) auto
qed

function seek_loop :: "tsdb \<Rightarrow> tsdb_query \<Rightarrow> u32 \<Rightarrow> u32 \<Rightarrow> u32 \<Rightarrow> world \<Rightarrow> u32 \<times> tsdb \<times> tsdb_query" where
  "seek_loop db q first_slot lo hi w =
     (if lo < hi then
        (let mid = lo + (hi - lo) div 2;
             slot = ring_slot (q_header q) first_slot mid;
             n = ucast (records_per_block (q_header q))
         in case load_query_block db q (slot div n) w of
              (r, db, q) \<Rightarrow>
                if r \<noteq> ESP_OK then (0, db, q)
                else (let ts = TSDB_BLOCK_TS (query_block db q) (unat (slot mod n))
                      in if ts = 0 then (0, db, q)
                         else if ts < start_time q then seek_loop db q first_slot (mid + 1) hi w
                         else seek_loop db q first_slot lo mid w))
      else (lo, db, q))"
  by pat_completeness auto
termination
proof (relation "measure (\<lambda>(db, q, f, lo, hi, w). unat hi - unat lo)", goal_cases)
  case (2 db q first_slot lo hi w)
  then show ?case
    using mid_bounds [of lo hi] by (simp add: word_less_nat_alt)
next
  case (3 db q first_slot lo hi w)
  then show ?case
    using mid_bounds [of lo hi] by (simp add: word_less_nat_alt)
qed simp

declare seek_loop.simps [simp del]

definition tsdb_seek_start :: "tsdb \<Rightarrow> tsdb_query \<Rightarrow> u32 \<Rightarrow> u32 \<Rightarrow> world \<Rightarrow> u32 \<times> tsdb \<times> tsdb_query" where
  "tsdb_seek_start db q available first_slot w = seek_loop db q first_slot 0 available w"

text \<open>
  The parameter selection of a query: the loop that sets \<open>param_indices[i] = i\<close>. The array has 64
  elements and no bound is checked. In \<open>struct tsdb_query_s\<close> it is followed by the byte
  \<open>num_params_to_fetch\<close>, which a store to element 64 hits; the stores behind it fall on cursor and
  buffer fields that \<open>tsdb_query_init_h\<close> assigns afterwards. What lies behind the struct is not modelled.
\<close>

fun store_indices :: "tsdb_query \<Rightarrow> nat \<Rightarrow> tsdb_query" where
  "store_indices q 0 = q"
| "store_indices q (Suc i) =
     (let q = store_indices q i
      in if i < TSDB_MAX_PARAMS then q\<lparr>param_indices := (param_indices q)[i := of_nat i]\<rparr>
         else if i = TSDB_MAX_PARAMS then q\<lparr>num_params_to_fetch := of_nat i\<rparr>
         else q)"

definition select_all :: "tsdb \<Rightarrow> tsdb_query \<Rightarrow> tsdb_query" where
  "select_all db q =
     (let n = num_params (q_header q) + db_extra_param_count db
      in store_indices (q\<lparr>num_params_to_fetch := n\<rparr>) (unat n))"

definition select_given :: "u8 list \<Rightarrow> u8 \<Rightarrow> tsdb_query \<Rightarrow> tsdb_query" where
  "select_given idx n q =
     q\<lparr>num_params_to_fetch := n, param_indices := overlay (param_indices q) 0 (take (unat n) idx)\<rparr>"

text \<open>Positioning the cursor on slot \<open>slot\<close>, \<open>k\<close> records after the oldest.\<close>

definition place_cursor :: "tsdb_query \<Rightarrow> u32 \<Rightarrow> u32 \<Rightarrow> tsdb_query" where
  "place_cursor q k slot =
     (let n = records_per_block (q_header q)
      in q\<lparr>records_scanned := k, current_record_idx := slot,
           current_block_num := (if n = 0 then 0 else slot div ucast n),
           offset_in_block := (if n = 0 then 0 else ucast (slot mod ucast n))\<rparr>)"

definition available_records :: "tsdb_header \<Rightarrow> u32" where
  "available_records h =
     (if max_records h = 0 then total_records h
      else if total_records h < max_records h then total_records h else max_records h)"

definition first_slot_of :: "tsdb_header \<Rightarrow> u32" where
  "first_slot_of h = (if max_records h = 0 then 0 else oldest_record_idx h)"

text \<open>The last part of \<open>tsdb_query_init_h\<close>: start at the oldest record, then seek.\<close>

definition start_walk :: "tsdb \<Rightarrow> tsdb_query \<Rightarrow> world \<Rightarrow> tsdb \<times> tsdb_query" where
  "start_walk db q w =
     (let h = q_header q;
          avl = available_records h;
          first = first_slot_of h;
          q = (place_cursor q 0 first)\<lparr>end_record_idx := avl, block_loaded := False\<rparr>
      in if avl > 0 \<and> records_per_block h > 0 \<and> start_time q > oldest_timestamp h
         then (case tsdb_seek_start db q avl first w of
                 (k, db, q) \<Rightarrow>
                   if k > 0 then (db, place_cursor q k (ring_slot h first k)) else (db, q))
         else (db, q))"

text \<open>The zeroed query bound to the handle, with its window and parameters.\<close>

definition base_query :: "tsdb \<Rightarrow> u32 \<Rightarrow> u32 \<Rightarrow> u8 list option \<Rightarrow> u8 \<Rightarrow> tsdb_query" where
  "base_query db t0 t1 idxo n =
     (let q = zero_query\<lparr>q_bound := True, q_header := header db, start_time := t0, end_time := t1,
                        q_file := db_file db\<rparr>
      in case idxo of None \<Rightarrow> select_all db q | Some idx \<Rightarrow> select_given idx n q)"

text \<open>The block buffer: a pointer into the pool, or a separate allocation.\<close>

definition bind_buffer :: "tsdb \<Rightarrow> tsdb_query \<Rightarrow> world \<Rightarrow> esp_err \<times> tsdb_query \<times> world" where
  "bind_buffer db q w =
     (case tsdb_get_buffer_ptr (Some (pool db)) (query_buffer_offset db) 1024 of
        Some _ \<Rightarrow> (ESP_OK, q\<lparr>owns_buffer := False\<rparr>, w)
      | None \<Rightarrow>
          (case heap_alloc w [MALLOC_CAP_8BIT] TSDB_BLOCK_SIZE of
             (None, w') \<Rightarrow> (ESP_ERR_NO_MEM, q, w')
           | (Some b, w') \<Rightarrow> (ESP_OK, q\<lparr>block_buffer := Some b, owns_buffer := True\<rparr>, w')))"

definition tsdb_query_init_h ::
  "tsdb option \<Rightarrow> tsdb_query option \<Rightarrow> u32 \<Rightarrow> u32 \<Rightarrow> u8 list option \<Rightarrow> u8 \<Rightarrow> world \<Rightarrow>
   esp_err \<times> tsdb option \<times> tsdb_query option \<times> world" where
  "tsdb_query_init_h dbo qo t0 t1 idxo n w =
     (case (dbo, qo) of
        (Some db, Some q0) \<Rightarrow>
          if \<not> is_open db then (ESP_ERR_INVALID_STATE, Some db, Some q0, w)
          else if migrating db \<or> closing db then (ESP_ERR_INVALID_STATE, Some db, Some q0, w)
          else (case tsdb_lock_open w of
             (Some e, w1) \<Rightarrow> (e, Some db, Some q0, w1)
           | (None, w1) \<Rightarrow>
               if t0 > t1 then (ESP_ERR_INVALID_ARG, Some db, Some q0, w1)
               else if idxo \<noteq> None \<and> unat n > TSDB_MAX_PARAMS
               then (ESP_ERR_INVALID_ARG, Some db, Some (base_query db t0 t1 (Some []) n), w1)
               else (case bind_buffer db (base_query db t0 t1 idxo n) w1 of
                  (r, q, w2) \<Rightarrow>
                    if r \<noteq> ESP_OK then (r, Some db, Some q, w2)
                    else (case start_walk db q w2 of (db', q') \<Rightarrow> (ESP_OK, Some db', Some q', w2))))
      | _ \<Rightarrow> (ESP_ERR_INVALID_STATE, dbo, qo, w))"

text \<open>
  One value of the record under the cursor: a base parameter from its column in the block,
  an extra parameter from the overflow region, 0 for anything else.
\<close>

definition overflow_value :: "tsdb \<Rightarrow> tsdb_query \<Rightarrow> u32 \<Rightarrow> world \<Rightarrow> u8 \<Rightarrow> i16" where
  "overflow_value db q abs_record_idx w param_idx =
     (let h = q_header q
      in if db_extra_param_count db > 0 \<and>
            unat param_idx < unat (num_params h) + unat (db_extra_param_count db) \<and>
            abs_record_idx \<ge> db_first_overflow_record_idx db
         then (let overflow_idx = abs_record_idx - db_first_overflow_record_idx db;
                   extra_idx = param_idx - num_params h;
                   ovf_offset = overflow_data_offset db +
                     overflow_idx * ucast (db_overflow_record_size db) + ucast extra_idx * 2
               in case q_file q of
                    None \<Rightarrow> 0
                  | Some p \<Rightarrow>
                      (case fread_at w p (unat ovf_offset) 2 of None \<Rightarrow> 0 | Some b \<Rightarrow> of_le16 b))
         else 0)"

definition fetch_value :: "tsdb \<Rightarrow> tsdb_query \<Rightarrow> bytes \<Rightarrow> nat \<Rightarrow> u32 \<Rightarrow> world \<Rightarrow> u8 \<Rightarrow> i16" where
  "fetch_value db q qraw cur_off abs_record_idx w param_idx =
     (if param_idx < num_params (q_header q)
      then TSDB_BLOCK_PARAM qraw (rpb (q_header q)) (unat param_idx) cur_off
      else overflow_value db q abs_record_idx w param_idx)"

text \<open>Moving the cursor to the next slot.\<close>

definition advance_cursor :: "tsdb_query \<Rightarrow> tsdb_query" where
  "advance_cursor q =
     (let h = q_header q;
          n = records_per_block h;
          next_slot = (if max_records h = 0 then current_record_idx q + 1
                       else (current_record_idx q + 1) mod max_records h);
          next_block = (if n = 0 then 0 else next_slot div ucast n);
          q = (if next_block \<noteq> current_block_num q
               then q\<lparr>current_block_num := next_block, block_loaded := False\<rparr> else q)
      in q\<lparr>offset_in_block := (if n = 0 then 0 else ucast (next_slot mod ucast n)),
           current_record_idx := next_slot,
           records_scanned := records_scanned q + 1\<rparr>)"

definition ensure_loaded :: "tsdb \<Rightarrow> tsdb_query \<Rightarrow> world \<Rightarrow> esp_err \<times> tsdb \<times> tsdb_query" where
  "ensure_loaded db q w =
     (if block_loaded q then (ESP_OK, db, q)
      else (case load_query_block db q (current_block_num q) w of
              (r, db, q) \<Rightarrow> if r \<noteq> ESP_OK then (r, db, q) else (ESP_OK, db, q\<lparr>block_loaded := True\<rparr>)))"

lemma advance_cursor_scanned [simp]:
  "records_scanned (advance_cursor q) = records_scanned q + 1"
  "end_record_idx (advance_cursor q) = end_record_idx q"
  "start_time (advance_cursor q) = start_time q" "end_time (advance_cursor q) = end_time q"
  "q_header (advance_cursor q) = q_header q" "q_file (advance_cursor q) = q_file q"
  "param_indices (advance_cursor q) = param_indices q"
  "num_params_to_fetch (advance_cursor q) = num_params_to_fetch q"
  "owns_buffer (advance_cursor q) = owns_buffer q" "block_buffer (advance_cursor q) = block_buffer q"
  "q_bound (advance_cursor q) = q_bound q"
  by (simp_all add: advance_cursor_def Let_def)

lemma load_query_block_fields:
  assumes "load_query_block db q n w = (r, db', q')"
  obtains pl b where "db' = db\<lparr>pool := pl\<rparr>" "q' = q\<lparr>block_buffer := b\<rparr>"
proof -
  have "(\<exists>pl. db' = db\<lparr>pool := pl\<rparr>) \<and> (\<exists>b. q' = q\<lparr>block_buffer := b\<rparr>)"
  proof -
    have qq: "\<exists>b. q = q\<lparr>block_buffer := b\<rparr>" by (rule exI [of _ "block_buffer q"]) simp
    then show ?thesis
      using assms same_pool [of db] stage_block_pool [of db]
      by (auto simp: load_query_block_def split: prod.splits esp_err.splits option.splits if_splits)
  qed
  then show ?thesis using that by blast
qed

lemma ensure_loaded_fields:
  assumes "ensure_loaded db q w = (r, db', q')"
  obtains pl b l where "db' = db\<lparr>pool := pl\<rparr>" "q' = q\<lparr>block_buffer := b, block_loaded := l\<rparr>"
proof (cases "block_loaded q")
  case True
  with assms show ?thesis
    by (intro that [where pl = "pool db" and b = "block_buffer q" and l = "block_loaded q"]) (simp_all add: ensure_loaded_def)
next
  case False
  obtain r1 db1 q1 where l: "load_query_block db q (current_block_num q) w = (r1, db1, q1)"
    by (metis prod_cases3)
  from l show ?thesis
  proof (rule load_query_block_fields)
    fix pl b
    assume "db1 = db\<lparr>pool := pl\<rparr>" "q1 = q\<lparr>block_buffer := b\<rparr>"
    with assms False l show ?thesis
      by (intro that [where pl = pl and b = b and l = "r1 = ESP_OK"]) (auto simp: ensure_loaded_def split: if_splits)
  qed
qed

lemma ensure_loaded_scanned:
  "ensure_loaded db q w = (r, db', q') \<Longrightarrow>
   records_scanned q' = records_scanned q \<and> end_record_idx q' = end_record_idx q"
  by (erule ensure_loaded_fields) simp

lemma scanned_step:
  "records_scanned q < end_record_idx q \<Longrightarrow>
   unat (end_record_idx q) - unat (records_scanned q + 1) < unat (end_record_idx q) - unat (records_scanned q)"
  using unat_u32_bound [of "end_record_idx q"]
  by (simp add: word_less_nat_alt unat_inc_no_wrap)

text \<open>
  The loop of \<open>tsdb_query_next\<close>. The result carries the record on \<open>ESP_OK\<close>; \<open>continue\<close> is the
  recursive call.
\<close>

function next_loop :: "tsdb \<Rightarrow> tsdb_query \<Rightarrow> world \<Rightarrow> esp_err \<times> (u32 \<times> i16 list) option \<times> tsdb \<times> tsdb_query" where
  "next_loop db q w =
     (if records_scanned q < end_record_idx q then
        (case ensure_loaded db q w of
           (r, db, q) \<Rightarrow>
             if r \<noteq> ESP_OK then (ESP_ERR_NOT_FOUND, None, db, q)
             else
               (let qraw = query_block db q;
                    cur_off = unat (offset_in_block q);
                    ts = TSDB_BLOCK_TS qraw cur_off;
                    abs_record_idx = (total_records (q_header q) - end_record_idx q) + records_scanned q;
                    q = advance_cursor q
                in if ts = 0 then next_loop db q w
                   else if ts > end_time q then (ESP_ERR_NOT_FOUND, None, db, q)
                   else if ts < start_time q then next_loop db q w
                   else (ESP_OK,
                         Some (ts, map (fetch_value db q qraw cur_off abs_record_idx w)
                                       (take (unat (num_params_to_fetch q)) (param_indices q))),
                         db, q)))
      else (ESP_ERR_NOT_FOUND, None, db, q))"
  by pat_completeness auto
termination
proof (relation "measure (\<lambda>(db, q, w). unat (end_record_idx q) - unat (records_scanned q))",
    simp, goal_cases)
  case (1 db q w)
  then show ?case
    using scanned_step [of q] by (auto dest!: sym [of _ "ensure_loaded db q w"] ensure_loaded_scanned)
next
  case (2 db q w)
  then show ?case
    using scanned_step [of q] by (auto dest!: sym [of _ "ensure_loaded db q w"] ensure_loaded_scanned)
qed

declare next_loop.simps [simp del]

definition tsdb_query_next ::
  "tsdb \<Rightarrow> tsdb_query option \<Rightarrow> bool \<Rightarrow> bool \<Rightarrow> world \<Rightarrow>
   esp_err \<times> (u32 \<times> i16 list) option \<times> tsdb \<times> tsdb_query option" where
  "tsdb_query_next db qo have_ts have_values w =
     (case qo of
        None \<Rightarrow> (ESP_ERR_INVALID_ARG, None, db, None)
      | Some q \<Rightarrow>
          if \<not> q_bound q \<or> \<not> have_ts \<or> \<not> have_values then (ESP_ERR_INVALID_ARG, None, db, Some q)
          else (case next_loop db q w of (r, x, db', q') \<Rightarrow> (r, x, db', Some q')))"

text \<open>\<open>tsdb_query_close\<close>: the own buffer is freed, the struct zeroed and the lock released.\<close>

definition tsdb_query_close :: "tsdb_query option \<Rightarrow> tsdb_query option" where
  "tsdb_query_close qo = (case qo of None \<Rightarrow> None | Some _ \<Rightarrow> Some zero_query)"

text \<open>
  The loop \<open>while (tsdb_query_next(...) == ESP_OK)\<close> of the three single-pass operations, with
  its body \<open>f\<close> on the accumulator.
\<close>

definition cursor_record :: "tsdb \<Rightarrow> tsdb_query \<Rightarrow> world \<Rightarrow> u32 \<times> i16 list" where
  "cursor_record db q w =
     (TSDB_BLOCK_TS (query_block db q) (unat (offset_in_block q)),
      map (fetch_value db q (query_block db q) (unat (offset_in_block q))
             ((total_records (q_header q) - end_record_idx q) + records_scanned q) w)
          (take (unat (num_params_to_fetch q)) (param_indices q)))"

lemma next_loop_done: "\<not> records_scanned q < end_record_idx q \<Longrightarrow> next_loop db q w = (ESP_ERR_NOT_FOUND, None, db, q)"
  by (simp add: next_loop.simps)

lemma next_loop_unreadable:
  "records_scanned q < end_record_idx q \<Longrightarrow> ensure_loaded db q w = (e, db1, q1) \<Longrightarrow> e \<noteq> ESP_OK \<Longrightarrow>
   next_loop db q w = (ESP_ERR_NOT_FOUND, None, db1, q1)"
  by (subst next_loop.simps) simp

lemma next_loop_step:
  assumes "records_scanned q < end_record_idx q" "ensure_loaded db q w = (ESP_OK, db1, q1)"
  shows "next_loop db q w =
    (let ts = fst (cursor_record db1 q1 w)
     in if ts = 0 then next_loop db1 (advance_cursor q1) w
        else if ts > end_time q then (ESP_ERR_NOT_FOUND, None, db1, advance_cursor q1)
        else if ts < start_time q then next_loop db1 (advance_cursor q1) w
        else (ESP_OK, Some (cursor_record db1 q1 w), db1, advance_cursor q1))"
proof -
  have fv: "fetch_value db1 (advance_cursor q1) = fetch_value db1 q1"
    by (simp add: fetch_value_def overflow_value_def fun_eq_iff Let_def)
  obtain pl b l where "q1 = q\<lparr>block_buffer := b, block_loaded := l\<rparr>"
    using ensure_loaded_fields [OF assms(2)] by metis
  then have "end_time q1 = end_time q" "start_time q1 = start_time q" by simp_all
  with assms show ?thesis
    by (subst next_loop.simps) (simp add: cursor_record_def Let_def fv)
qed

lemma next_loop_induct:
  assumes "\<And>db q. (\<And>db1 q1. records_scanned q < end_record_idx q \<Longrightarrow>
      ensure_loaded db q w = (ESP_OK, db1, q1) \<Longrightarrow> P db1 (advance_cursor q1)) \<Longrightarrow> P db q"
  shows "P db q"
proof (induction "unat (end_record_idx q) - unat (records_scanned q)" arbitrary: db q rule: less_induct)
  case less
  show ?case
  proof (rule assms)
    fix db1 q1
    assume a: "records_scanned q < end_record_idx q" "ensure_loaded db q w = (ESP_OK, db1, q1)"
    show "P db1 (advance_cursor q1)"
      using scanned_step [OF a(1)] ensure_loaded_scanned [OF a(2)] by (intro less) simp
  qed
qed

lemma next_loop_scanned:
  "next_loop db q w = (ESP_OK, x, db', q') \<Longrightarrow> end_record_idx q' = end_record_idx q \<and>
   unat (end_record_idx q) - unat (records_scanned q') < unat (end_record_idx q) - unat (records_scanned q)"
proof (induction db q rule: next_loop_induct [where w = w])
  case (1 db q)
  obtain e db1 q1 where el: "ensure_loaded db q w = (e, db1, q1)" by (metis prod_cases3)
  have sc: "records_scanned q < end_record_idx q" and e: "e = ESP_OK"
    using 1(2) next_loop_done next_loop_unreadable [OF _ el] by fastforce+
  note el = el [unfolded e]
  note f = ensure_loaded_scanned [OF el] scanned_step [OF sc]
  show ?case
    using 1(2) 1(1) [OF sc el] f
    by (auto simp: next_loop_step [OF sc el] Let_def split: if_splits)
qed

function query_fold ::
  "('a \<Rightarrow> u32 \<Rightarrow> i16 list \<Rightarrow> 'a) \<Rightarrow> 'a \<Rightarrow> tsdb \<Rightarrow> tsdb_query \<Rightarrow> world \<Rightarrow> 'a \<times> tsdb \<times> tsdb_query" where
  "query_fold f a db q w =
     (case next_loop db q w of
        (ESP_OK, Some (ts, vals), db', q') \<Rightarrow> query_fold f (f a ts vals) db' q' w
      | (_, _, db', q') \<Rightarrow> (a, db', q'))"
  by pat_completeness auto
termination
  by (relation "measure (\<lambda>(f, a, db, q, w). unat (end_record_idx q) - unat (records_scanned q))")
    (auto dest!: sym [of _ "next_loop _ _ _"] next_loop_scanned)

declare query_fold.simps [simp del]

text \<open>\<open>count\<close> is the output pointer with the value it points to, \<open>None\<close> for NULL.\<close>

definition tsdb_query_count_h ::
  "tsdb option \<Rightarrow> u32 \<Rightarrow> u32 \<Rightarrow> u32 option \<Rightarrow> world \<Rightarrow> esp_err \<times> u32 option \<times> tsdb option \<times> world" where
  "tsdb_query_count_h dbo t0 t1 count w =
     (case (dbo, count) of
        (Some db, Some c) \<Rightarrow>
          if \<not> is_open db then (ESP_ERR_INVALID_STATE, count, dbo, w)
          else (case tsdb_query_init_h (Some db) (Some zero_query) t0 t1 None 0 w of
             (ESP_OK, Some db1, Some q, w1) \<Rightarrow>
               (case query_fold (\<lambda>n ts vals. n + 1) 0 db1 q w1 of
                  (n, db2, _) \<Rightarrow> (ESP_OK, Some n, Some db2, w1))
           | (e, dbo', _, w1) \<Rightarrow> (e, Some 0, dbo', w1))
      | _ \<Rightarrow> (ESP_ERR_INVALID_STATE, count, dbo, w))"

section \<open>Aggregation\<close>

text \<open>\<open>TSDB_AGG_OTHER\<close> stands for an \<open>int\<close> that is none of the enumerators.\<close>

datatype agg_type = TSDB_AGG_SUM | TSDB_AGG_AVG | TSDB_AGG_MIN | TSDB_AGG_MAX | TSDB_AGG_COUNT
  | TSDB_AGG_FIRST | TSDB_AGG_LAST | TSDB_AGG_OTHER

record agg_acc =
  acc_sum :: u64 \<comment> \<open>\<open>int64_t\<close>\<close>
  min_val :: u32 \<comment> \<open>\<open>int32_t\<close>\<close>
  max_val :: u32 \<comment> \<open>\<open>int32_t\<close>\<close>
  first_val :: i16
  last_val :: i16

definition acc_init :: agg_acc where
  "acc_init = \<lparr> acc_sum = 0, min_val = 0x7FFFFFFF, max_val = 0x80000000, first_val = 0, last_val = 0 \<rparr>"

definition acc_step :: "u32 \<Rightarrow> agg_acc \<Rightarrow> i16 \<Rightarrow> agg_acc" where
  "acc_step count a v =
     \<lparr> acc_sum = acc_sum a + scast v,
       min_val = (if sint v < sint (min_val a) then scast v else min_val a),
       max_val = (if sint v > sint (max_val a) then scast v else max_val a),
       first_val = (if count = 0 then v else first_val a),
       last_val = v \<rparr>"

text \<open>The \<open>switch\<close> at the end; \<open>None\<close> is the \<open>default\<close> branch. The division is that of \<open>int64_t\<close>.\<close>

definition acc_result :: "agg_type \<Rightarrow> agg_acc \<Rightarrow> u32 \<Rightarrow> u32 option" where
  "acc_result t a count =
     (case t of
        TSDB_AGG_SUM \<Rightarrow> Some (ucast (acc_sum a))
      | TSDB_AGG_AVG \<Rightarrow> Some (ucast (word_of_int (sint (acc_sum a) sdiv uint count) :: u64))
      | TSDB_AGG_MIN \<Rightarrow> Some (min_val a)
      | TSDB_AGG_MAX \<Rightarrow> Some (max_val a)
      | TSDB_AGG_COUNT \<Rightarrow> Some count
      | TSDB_AGG_FIRST \<Rightarrow> Some (scast (first_val a))
      | TSDB_AGG_LAST \<Rightarrow> Some (scast (last_val a))
      | TSDB_AGG_OTHER \<Rightarrow> None)"

definition tsdb_aggregate_h ::
  "tsdb option \<Rightarrow> u32 \<Rightarrow> u32 \<Rightarrow> u8 \<Rightarrow> agg_type \<Rightarrow> u32 option \<Rightarrow> world \<Rightarrow>
   esp_err \<times> u32 option \<times> tsdb option \<times> world" where
  "tsdb_aggregate_h dbo t0 t1 param_index agg result w =
     (case (dbo, result) of
        (Some db, Some r0) \<Rightarrow>
          if \<not> is_open db then (ESP_ERR_INVALID_STATE, result, dbo, w)
          else if unat param_index \<ge> unat (num_params (header db)) + unat (db_extra_param_count db)
          then (ESP_ERR_INVALID_ARG, result, dbo, w)
          else (case tsdb_query_init_h (Some db) (Some zero_query) t0 t1 (Some [param_index]) 1 w of
             (ESP_OK, Some db1, Some q, w1) \<Rightarrow>
               (case query_fold (\<lambda>(a, count) ts vals. (acc_step count a (hd vals), count + 1))
                       (acc_init, 0) db1 q w1 of
                  ((a, count), db2, _) \<Rightarrow>
                    if count = 0 then (ESP_OK, Some 0, Some db2, w1)
                    else (case acc_result agg a count of
                            Some r \<Rightarrow> (ESP_OK, Some r, Some db2, w1)
                          | None \<Rightarrow> (ESP_ERR_INVALID_ARG, result, Some db2, w1)))
           | (e, dbo', _, w1) \<Rightarrow> (e, result, dbo', w1))
      | _ \<Rightarrow> (ESP_ERR_INVALID_STATE, result, dbo, w))"

record agg_request =
  param_index :: u8
  agg_kind :: agg_type
  agg_result :: u32

text \<open>
  Stores to the elements \<open>0..<n\<close> of an array on the stack; \<open>None\<close> when one of them is out of bounds.
\<close>

fun store_upto :: "(nat \<Rightarrow> 'a) \<Rightarrow> 'a list \<Rightarrow> nat \<Rightarrow> 'a list option" where
  "store_upto f xs 0 = Some xs"
| "store_upto f xs (Suc i) =
     (case store_upto f xs i of
        None \<Rightarrow> None
      | Some ys \<Rightarrow> if i < length ys then Some (ys[i := f i]) else None)"

text \<open>
  The distinct parameters of the requests in order of first use, collected in an array of 64
  elements: \<open>None\<close> when a store is out of bounds, \<open>Some None\<close> for an index out of range.
\<close>

fun unique_params :: "nat \<Rightarrow> agg_request list \<Rightarrow> u8 list \<Rightarrow> u8 list option option" where
  "unique_params limit [] acc = Some (Some acc)"
| "unique_params limit (r # rs) acc =
     (if unat (param_index r) \<ge> limit then Some None
      else if param_index r \<in> set acc then unique_params limit rs acc
      else if length acc < TSDB_MAX_PARAMS then unique_params limit rs (acc @ [param_index r])
      else None)"

text \<open>\<open>req_to_query_idx\<close>: the first position of the parameter.\<close>

fun index_in :: "u8 list \<Rightarrow> u8 \<Rightarrow> nat" where
  "index_in [] p = 0"
| "index_in (x # xs) p = (if x = p then 0 else Suc (index_in xs p))"

text \<open>One record: every request takes its value from the query's values.\<close>

definition multi_step :: "nat list \<Rightarrow> agg_acc list \<times> u32 \<Rightarrow> u32 \<Rightarrow> i16 list \<Rightarrow> agg_acc list \<times> u32" where
  "multi_step idx = (\<lambda>(accs, count) ts vals. (map2 (\<lambda>a j. acc_step count a (vals ! j)) accs idx, count + 1))"

definition multi_result :: "u32 \<Rightarrow> agg_acc \<Rightarrow> agg_request \<Rightarrow> agg_request" where
  "multi_result count a r = r\<lparr>agg_result :=
     (if count = 0 then 0 else case acc_result (agg_kind r) a count of Some x \<Rightarrow> x | None \<Rightarrow> 0)\<rparr>"

text \<open>
  \<open>requests\<close> points to at least \<open>n\<close> requests, \<open>n\<close> is a \<open>uint8_t\<close>. The accumulators \<open>acc\<close> and the map
  \<open>req_to_query_idx\<close> are arrays of 64 elements; the outer \<open>option\<close> is \<open>None\<close> when a store to one of
  the arrays is out of bounds.
\<close>

definition tsdb_aggregate_multi_h ::
  "tsdb option \<Rightarrow> u32 \<Rightarrow> u32 \<Rightarrow> agg_request list option \<Rightarrow> u8 \<Rightarrow> u32 option \<Rightarrow> world \<Rightarrow>
   (esp_err \<times> agg_request list option \<times> u32 option \<times> tsdb option \<times> world) option" where
  "tsdb_aggregate_multi_h dbo t0 t1 reqso n record_count w =
     (case (dbo, reqso) of
        (Some db, Some reqs) \<Rightarrow>
          if \<not> is_open db \<or> n = 0 then Some (ESP_ERR_INVALID_STATE, reqso, record_count, dbo, w)
          else (case unique_params (unat (num_params (header db)) + unat (db_extra_param_count db))
                       (take (unat n) reqs) [] of
             None \<Rightarrow> None
           | Some None \<Rightarrow> Some (ESP_ERR_INVALID_ARG, reqso, record_count, dbo, w)
           | Some (Some params) \<Rightarrow>
               (case tsdb_query_init_h (Some db) (Some zero_query) t0 t1 (Some params)
                       (of_nat (length params)) w of
                  (ESP_OK, Some db1, Some q, w1) \<Rightarrow>
                    (case (store_upto (\<lambda>_. acc_init) (replicate TSDB_MAX_PARAMS acc_init) (unat n),
                           store_upto (\<lambda>i. index_in params (param_index (reqs ! i))) (replicate TSDB_MAX_PARAMS 0) (unat n)) of
                       (Some acc, Some req_to_query_idx) \<Rightarrow>
                         (case query_fold (multi_step (take (unat n) req_to_query_idx))
                                 (take (unat n) acc, 0) db1 q w1 of
                            ((accs, count), db2, _) \<Rightarrow>
                              Some (ESP_OK,
                                Some (map2 (multi_result count) accs (take (unat n) reqs) @ drop (unat n) reqs),
                                (case record_count of None \<Rightarrow> None | Some _ \<Rightarrow> Some count),
                                Some db2, w1))
                     | _ \<Rightarrow> None)
                | (e, dbo', _, w1) \<Rightarrow> Some (e, reqso, record_count, dbo', w1)))
      | _ \<Rightarrow> Some (ESP_ERR_INVALID_STATE, reqso, record_count, dbo, w))"

section \<open>The block buffer\<close>

text \<open>The query has a buffer of its own, or the query region of a well-formed pool.\<close>

definition buffer_ok :: "tsdb \<Rightarrow> tsdb_query \<Rightarrow> bool" where
  "buffer_ok db q \<longleftrightarrow> owns_buffer q \<or>
     (pool_wf (pool db) \<and> unat (query_buffer_offset db) + TSDB_BLOCK_SIZE \<le> unat (total_size (pool db)) \<and>
      tsdb_get_buffer_ptr (Some (pool db)) (query_buffer_offset db) 1024 \<noteq> None)"

lemma query_block_loaded [simp]:
  "query_block db (q\<lparr>block_loaded := l\<rparr>) = query_block db q"
  "buffer_ok db (q\<lparr>block_loaded := l\<rparr>) = buffer_ok db q"
  "query_block db (advance_cursor q) = query_block db q"
  "buffer_ok db (advance_cursor q) = buffer_ok db q"
  by (simp_all add: query_block_def buffer_ok_def)

lemma pool_wr_fields:
  "num_pages (pool_wr p off d) = num_pages p" "page_size (pool_wr p off d) = page_size p"
  "total_size (pool_wr p off d) = total_size p" "is_paged (pool_wr p off d) = is_paged p"
  by (simp_all add: pool_wr_def tsdb_buffer_write_def)

lemma get_buffer_ptr_wr:
  "tsdb_get_buffer_ptr (Some (pool_wr p off d)) = tsdb_get_buffer_ptr (Some p)"
  by (simp add: tsdb_get_buffer_ptr_def fun_eq_iff pool_wr_fields)

lemma load_query_block:
  assumes ok: "buffer_ok db q" and rd: "tsdb_read_block db n w = (ESP_OK, Some b)"
  obtains pl bb where "load_query_block db q n w = (ESP_OK, db\<lparr>pool := pl\<rparr>, q\<lparr>block_buffer := bb\<rparr>)"
    "query_block (db\<lparr>pool := pl\<rparr>) (q\<lparr>block_buffer := bb\<rparr>) = b"
    "buffer_ok (db\<lparr>pool := pl\<rparr>) (q\<lparr>block_buffer := bb\<rparr>)"
proof (cases "owns_buffer q")
  case True
  then show ?thesis
    using rd that [where pl = "pool db" and bb = "Some b"]
    by (simp add: load_query_block_def query_block_def buffer_ok_def)
next
  case False
  let ?off = "query_buffer_offset db" and ?p = "pool db"
  have len: "length b = 1024" using read_block_length [OF rd] .
  have fit: "pool_wf ?p" "unat ?off + length b \<le> unat (total_size ?p)"
    and ptr: "tsdb_get_buffer_ptr (Some ?p) ?off 1024 \<noteq> None"
    using ok False len by (auto simp: buffer_ok_def)
  let ?pl = "pool_wr ?p (unat ?off) b"
  have "tsdb_buffer_write (Some ?p) ?off b = Some ?pl"
    by (simp add: pool_wr_def tsdb_buffer_write_def)
  then have st: "stage_block db ?off b = db\<lparr>pool := ?pl\<rparr>"
    using ptr by (auto simp: stage_block_def)
  have "pool_rd ?pl (unat ?off) 1024 = Some b"
    using pool_flat.rd_wr_same [OF fit(1) _ fit(2)] len by fastforce
  then have "tsdb_buffer_read (Some ?pl) ?off 1024 = Some b"
    by (simp add: pool_rd_def)
  moreover have "buffer_ok (db\<lparr>pool := ?pl\<rparr>) q"
    using pool_flat.ok_wr [OF fit] fit(2) ptr len
    by (simp add: buffer_ok_def pool_wr_fields get_buffer_ptr_wr)
  ultimately show ?thesis
    using rd False st
    by (intro that [where pl = ?pl and bb = "block_buffer q"])
      (simp_all add: load_query_block_def query_block_def)
qed

section \<open>Positions in the ring\<close>

text \<open>The slot of the \<open>k\<close>-th retained record.\<close>

definition pos_slot :: "tsdb_header \<Rightarrow> nat \<Rightarrow> nat" where
  "pos_slot h k = slot_of h (nrec h - avail h + k)"

lemma retained_nth: "k < avail h \<Longrightarrow> retained h f ! k = slot_row h f (pos_slot h k)"
  by (auto simp: retained_def pos_slot_def avail_def)

lemma pos_slot_less: "k < avail h \<Longrightarrow> pos_slot h k < avail h"
  unfolding pos_slot_def by (intro slot_of_less) (auto simp: avail_def)

lemma pos_slot_Suc:
  "pos_slot h (Suc k) = (if max_records h = 0 then pos_slot h k + 1 else (pos_slot h k + 1) mod cap h)"
  by (simp add: pos_slot_def slot_of_def mod_Suc_eq)

lemma available_records: "unat (available_records h) = avail h"
  by (auto simp: available_records_def avail_def min_def word_less_nat_alt)

text \<open>32-bit file offsets bound the number of slots.\<close>

lemma avail_small:
  assumes "ring_inv h f"
  shows "avail h < 2 ^ 31"
proof (cases "avail h = 0")
  case False
  then have "slot_ok h f (avail h - 1)" using assms by (simp add: ring_inv_def)
  then have "(avail h - 1) div rpb h < 2 ^ 22" by (simp add: slot_ok_def block_pos_def)
  moreover have "rpb h \<le> 254" "0 < rpb h"
    using assms by (auto simp: ring_inv_def ring_hdr_def geom_def)
  moreover have "avail h - 1 < ((avail h - 1) div rpb h + 1) * rpb h"
    using \<open>0 < rpb h\<close> dividend_less_div_times by (metis add.commute distrib_right mult_1)
  moreover have "((avail h - 1) div rpb h + 1) * rpb h \<le> 2 ^ 22 * 254"
    using calculation(1,2) by (intro mult_le_mono) auto
  ultimately show ?thesis by simp
qed simp

lemma ring_slot_pos:
  assumes inv: "ring_inv h f" and k: "unat k \<le> avail h"
  shows "unat (ring_slot h (first_slot_of h) k) = pos_slot h (unat k)"
proof (cases "max_records h = 0")
  case True
  then show ?thesis by (simp add: ring_slot_def pos_slot_def slot_of_def avail_def)
next
  case False
  have o: "unat (oldest_record_idx h) = (if nrec h < cap h then 0 else nrec h mod cap h)"
    using inv False by (simp add: ring_inv_def ring_hdr_def)
  have "unat (oldest_record_idx h) \<le> avail h"
    using o cap_pos [OF False] mod_less_divisor [of "cap h" "nrec h"] False
    by (auto simp: avail_def min_def less_imp_le simp del: mod_less_divisor)
  then have nw: "unat (oldest_record_idx h) + unat k < 4294967296"
    using avail_small [OF inv] k by simp
  have "(nrec h mod cap h + unat k) mod cap h = (nrec h - cap h + unat k) mod cap h" if "cap h \<le> nrec h"
  proof -
    have "(nrec h mod cap h + unat k) mod cap h = (nrec h - cap h + unat k + cap h) mod cap h"
      using that by (simp add: mod_add_left_eq)
    then show ?thesis by simp
  qed
  then show ?thesis
    using False o nw by (auto simp: ring_slot_def first_slot_of_def pos_slot_def slot_of_def avail_def
        unat_mod unat_add_no_wrap min_def)
qed

section \<open>The walk\<close>

text \<open>The record at position \<open>k\<close> as the query presents it, and the records in order.\<close>

definition record_at :: "tsdb \<Rightarrow> tsdb_query \<Rightarrow> world \<Rightarrow> nat \<Rightarrow> u32 \<times> i16 list" where
  "record_at db q w k =
     (let h = q_header q; r = retained h (content w (filepath db)) ! k
      in (fst r,
          map (\<lambda>p. if p < num_params h then snd r ! unat p
                    else overflow_value db q (of_nat (nrec h - avail h + k)) w p)
              (take (unat (num_params_to_fetch q)) (param_indices q))))"

definition records :: "tsdb \<Rightarrow> tsdb_query \<Rightarrow> world \<Rightarrow> (u32 \<times> i16 list) list" where
  "records db q w = map (record_at db q w) [0..<avail (q_header q)]"

text \<open>What a scan from the oldest record yields.\<close>

fun scan :: "u32 \<Rightarrow> u32 \<Rightarrow> (u32 \<times> 'v) list \<Rightarrow> (u32 \<times> 'v) list" where
  "scan t0 t1 [] = []"
| "scan t0 t1 (r # rs) =
     (if fst r = 0 then scan t0 t1 rs
      else if fst r > t1 then []
      else if fst r < t0 then scan t0 t1 rs
      else r # scan t0 t1 rs)"

text \<open>The cursor stands on position \<open>k\<close>.\<close>

definition walking :: "tsdb \<Rightarrow> tsdb_query \<Rightarrow> world \<Rightarrow> nat \<Rightarrow> bool" where
  "walking db q w k \<longleftrightarrow>
     (let h = header db
      in q_header q = h \<and> q_file q = db_file db \<and> q_bound q \<and> unat (end_record_idx q) = avail h \<and>
         k \<le> avail h \<and> unat (records_scanned q) = k \<and>
         unat (current_record_idx q) = pos_slot h k \<and>
         unat (current_block_num q) = pos_slot h k div rpb h \<and>
         unat (offset_in_block q) = pos_slot h k mod rpb h \<and> buffer_ok db q \<and>
         (block_loaded q \<longrightarrow> query_block db q = slot_block h (content w (filepath db)) (pos_slot h k)))"

lemma read_slot_block:
  assumes "sound w" "db_file db = Some (filepath db)" "slot_ok (header db) (content w (filepath db)) s"
    and "unat n = s div rpb (header db)"
  shows "tsdb_read_block db n w = (ESP_OK, Some (slot_block (header db) (content w (filepath db)) s))"
  using read_block_Some [of w db "filepath db" n] assms by (simp add: slot_ok_def slot_block_def)

lemma ring_inv_slot:
  "db_inv db w \<Longrightarrow> k < avail (header db) \<Longrightarrow> slot_ok (header db) (content w (filepath db)) (pos_slot (header db) k)"
  using pos_slot_less [of k "header db"] by (simp add: db_inv_def ring_inv_def)

lemma ensure_loaded_walking:
  assumes inv: "db_inv db w" and wk: "walking db q w k" and k: "k < avail (header db)"
  obtains pl b where "ensure_loaded db q w = (ESP_OK, db\<lparr>pool := pl\<rparr>, q\<lparr>block_buffer := b, block_loaded := True\<rparr>)"
    "walking (db\<lparr>pool := pl\<rparr>) (q\<lparr>block_buffer := b, block_loaded := True\<rparr>) w k"
proof (cases "block_loaded q")
  case True
  have eq: "q\<lparr>block_buffer := block_buffer q, block_loaded := True\<rparr> = q"
    using True by (cases q) simp
  show ?thesis
    by (rule that [where pl = "pool db" and b = "block_buffer q"])
      (simp_all only: eq, simp_all add: ensure_loaded_def True wk)
next
  case False
  let ?s = "pos_slot (header db) k"
  have rd: "tsdb_read_block db (current_block_num q) w =
      (ESP_OK, Some (slot_block (header db) (content w (filepath db)) ?s))"
    using inv wk ring_inv_slot [OF inv k]
    by (intro read_slot_block) (auto simp: db_inv_def walking_def Let_def)
  have "buffer_ok db q" using wk by (simp add: walking_def Let_def)
  from load_query_block [OF this rd] obtain pl bb where l:
    "load_query_block db q (current_block_num q) w = (ESP_OK, db\<lparr>pool := pl\<rparr>, q\<lparr>block_buffer := bb\<rparr>)"
    "query_block (db\<lparr>pool := pl\<rparr>) (q\<lparr>block_buffer := bb\<rparr>) = slot_block (header db) (content w (filepath db)) ?s"
    "buffer_ok (db\<lparr>pool := pl\<rparr>) (q\<lparr>block_buffer := bb\<rparr>)"
    by metis
  have "ensure_loaded db q w =
      (ESP_OK, db\<lparr>pool := pl\<rparr>, q\<lparr>block_buffer := bb, block_loaded := True\<rparr>)"
    using False l(1) by (simp add: ensure_loaded_def)
  moreover have "walking (db\<lparr>pool := pl\<rparr>) (q\<lparr>block_buffer := bb, block_loaded := True\<rparr>) w k"
    using wk l(2,3) by (simp add: walking_def Let_def)
  ultimately show ?thesis by (rule that)
qed

lemma cursor_record_walking:
  assumes inv: "db_inv db w" and wk: "walking db q w k" "block_loaded q" and k: "k < avail (header db)"
  shows "cursor_record db q w = record_at db q w k"
proof -
  let ?h = "header db" and ?f = "content w (filepath db)"
  let ?s = "pos_slot ?h k"
  have q: "q_header q = ?h" "query_block db q = slot_block ?h ?f ?s"
    "unat (offset_in_block q) = ?s mod rpb ?h" "unat (end_record_idx q) = avail ?h"
    "unat (records_scanned q) = k"
    using wk by (auto simp: walking_def Let_def)
  have row: "retained ?h ?f ! k = slot_row ?h ?f ?s" using k by (rule retained_nth)
  have av: "avail ?h \<le> nrec ?h" by (auto simp: avail_def)
  have "unat (total_records ?h - end_record_idx q) = nrec ?h - avail ?h"
    using q(4) av by (simp add: unat_sub_no_wrap)
  moreover have "total_records ?h - end_record_idx q + records_scanned q =
      of_nat (unat (total_records ?h - end_record_idx q) + unat (records_scanned q))"
    by simp
  ultimately have "total_records ?h - end_record_idx q + records_scanned q = of_nat (nrec ?h - avail ?h + k)"
    using q(5) by (simp only:)
  then show ?thesis
    unfolding cursor_record_def record_at_def Let_def
    by (simp add: q row fetch_value_def slot_row_def block_row_def word_less_nat_alt)
qed

lemma u16_div_mod:
  fixes s :: u32
  assumes "0 < rpb h" "rpb h \<le> 254"
  shows "unat (s div ucast (records_per_block h)) = unat s div rpb h"
    and "unat (ucast (s mod ucast (records_per_block h)) :: u16) = unat s mod rpb h"
proof -
  show "unat (s div ucast (records_per_block h)) = unat s div rpb h"
    by (simp add: unat_div unat_u16_u32)
  have "unat s mod rpb h < rpb h" "rpb h < 65536" using assms by simp_all
  then have "unat s mod rpb h < 65536" by (rule less_trans)
  then have "unat (s mod ucast (records_per_block h)) < 65536"
    by (simp add: unat_mod unat_u16_u32)
  then show "unat (ucast (s mod ucast (records_per_block h)) :: u16) = unat s mod rpb h"
    by (simp add: unat_u32_u16) (simp add: unat_mod unat_u16_u32)
qed

lemma db_inv_rpb: "db_inv db w \<Longrightarrow> 0 < rpb (header db) \<and> rpb (header db) \<le> 254"
  by (auto simp: db_inv_def ring_inv_def ring_hdr_def geom_def)

lemma advance_cursor_walking:
  assumes inv: "db_inv db w" and wk: "walking db q w k" and k: "k < avail (header db)"
  shows "walking db (advance_cursor q) w (Suc k)"
proof -
  let ?h = "header db"
  let ?ns = "if max_records ?h = 0 then current_record_idx q + 1
             else (current_record_idx q + 1) mod max_records ?h"
  note r = db_inv_rpb [OF inv]
  have nz: "records_per_block ?h \<noteq> 0" using r by auto
  have w: "q_header q = ?h" "unat (current_record_idx q) = pos_slot ?h k"
    "unat (current_block_num q) = pos_slot ?h k div rpb ?h" "unat (records_scanned q) = k"
    "unat (end_record_idx q) = avail ?h" "buffer_ok db q" "q_file q = db_file db" "q_bound q"
    and ld: "block_loaded q \<longrightarrow> query_block db q = slot_block ?h (content w (filepath db)) (pos_slot ?h k)"
    using wk by (auto simp: walking_def Let_def)
  have av: "avail ?h < 2 ^ 31" using avail_small inv by (auto simp: db_inv_def)
  then have "unat (current_record_idx q) + 1 < 4294967296"
    using pos_slot_less [OF k] w(2) by simp
  then have ns: "unat ?ns = pos_slot ?h (Suc k)"
    using w(2) by (simp add: pos_slot_Suc unat_inc_no_wrap unat_mod)
  note dm = u16_div_mod [of ?h ?ns, unfolded ns]
  have sc: "unat (records_scanned q + 1) = Suc k"
    using w(4) k av by (simp add: unat_inc_no_wrap)
  have blk: "current_block_num (advance_cursor q) = ?ns div ucast (records_per_block ?h)"
    "offset_in_block (advance_cursor q) = ucast (?ns mod ucast (records_per_block ?h))"
    "current_record_idx (advance_cursor q) = ?ns"
    "block_loaded (advance_cursor q) \<longleftrightarrow> block_loaded q \<and>
       ?ns div ucast (records_per_block ?h) = current_block_num q"
    using nz w(1) by (auto simp: advance_cursor_def Let_def)
  have "query_block db q = slot_block ?h (content w (filepath db)) (pos_slot ?h (Suc k))"
    if "block_loaded (advance_cursor q)"
  proof -
    have "pos_slot ?h (Suc k) div rpb ?h = pos_slot ?h k div rpb ?h"
      using that blk(4) dm(1) r w(3) by simp
    with that blk(4) ld show ?thesis by (simp add: slot_block_def)
  qed
  then show ?thesis
    using w(1,5-8) sc ns dm r blk k by (simp add: walking_def Let_def)
qed

lemma record_at_frame [simp]:
  "record_at (db\<lparr>pool := pl\<rparr>) q w = record_at db q w"
  "record_at db (q\<lparr>block_buffer := b\<rparr>) w = record_at db q w"
  "record_at db (q\<lparr>block_loaded := l\<rparr>) w = record_at db q w"
  "record_at db (q\<lparr>owns_buffer := ob\<rparr>) w = record_at db q w"
  "record_at db (advance_cursor q) w = record_at db q w"
  by (simp_all add: record_at_def overflow_value_def fun_eq_iff Let_def)

lemma records_frame [simp]:
  "records (db\<lparr>pool := pl\<rparr>) q w = records db q w"
  "records db (q\<lparr>block_buffer := b\<rparr>) w = records db q w"
  "records db (q\<lparr>block_loaded := l\<rparr>) w = records db q w"
  "records db (q\<lparr>owns_buffer := ob\<rparr>) w = records db q w"
  "records db (advance_cursor q) w = records db q w"
  by (simp_all add: records_def)

lemma drop_records:
  "k < avail (q_header q) \<Longrightarrow> drop k (records db q w) = record_at db q w k # drop (Suc k) (records db q w)"
  by (simp add: records_def Cons_nth_drop_Suc [symmetric])

lemma db_inv_pool [simp]: "db_inv (db\<lparr>pool := pl\<rparr>) w = db_inv db w"
  by (simp add: db_inv_def ovf_clear_def)

text \<open>One call of the iterator against the list \<open>xs\<close> of records still to come.\<close>

definition yields ::
  "tsdb \<Rightarrow> tsdb_query \<Rightarrow> world \<Rightarrow> esp_err \<times> (u32 \<times> i16 list) option \<times> tsdb \<times> tsdb_query \<Rightarrow>
   (u32 \<times> i16 list) list \<Rightarrow> bool" where
  "yields db q w res xs \<longleftrightarrow>
     (case xs of
        [] \<Rightarrow> \<exists>r pl q'. res = (r, None, db\<lparr>pool := pl\<rparr>, q') \<and> r \<noteq> ESP_OK
      | x # ys \<Rightarrow> \<exists>pl q' k'. res = (ESP_OK, Some x, db\<lparr>pool := pl\<rparr>, q') \<and>
          walking (db\<lparr>pool := pl\<rparr>) q' w k' \<and> start_time q' = start_time q \<and> end_time q' = end_time q \<and>
          records db q' w = records db q w \<and>
          ys = scan (start_time q) (end_time q) (drop k' (records db q w)))"

lemma yields_frame:
  assumes "yields (db\<lparr>pool := pl\<rparr>) q' w res xs" "start_time q' = start_time q" "end_time q' = end_time q"
    and "records db q' w = records db q w"
  shows "yields db q w res xs"
  using assms by (cases xs) (auto simp: yields_def)

lemma next_walking:
  assumes "db_inv db w" "walking db q w k"
  shows "yields db q w (next_loop db q w) (scan (start_time q) (end_time q) (drop k (records db q w)))"
  using assms
proof (induction "avail (header db) - k" arbitrary: db q k rule: less_induct)
  case less
  have q: "q_header q = header db" "unat (records_scanned q) = k" "unat (end_record_idx q) = avail (header db)"
    using less.prems(2) by (auto simp: walking_def Let_def)
  show ?case
  proof (cases "k < avail (header db)")
    case False
    then have "drop k (records db q w) = []" using q by (simp add: records_def)
    moreover have "next_loop db q w = (ESP_ERR_NOT_FOUND, None, db, q)"
      using False q by (simp add: next_loop_done word_less_nat_alt)
    ultimately show ?thesis using same_pool [of db] by (simp add: yields_def)
  next
    case True
    then have sc: "records_scanned q < end_record_idx q" using q by (simp add: word_less_nat_alt)
    obtain pl b where el: "ensure_loaded db q w =
        (ESP_OK, db\<lparr>pool := pl\<rparr>, q\<lparr>block_buffer := b, block_loaded := True\<rparr>)"
      and wk: "walking (db\<lparr>pool := pl\<rparr>) (q\<lparr>block_buffer := b, block_loaded := True\<rparr>) w k"
      using ensure_loaded_walking [OF less.prems True] by metis
    let ?db = "db\<lparr>pool := pl\<rparr>" and ?q = "q\<lparr>block_buffer := b, block_loaded := True\<rparr>"
    have cr: "cursor_record ?db ?q w = record_at db q w k"
      using cursor_record_walking [of ?db w ?q k] wk less.prems(1) True by simp
    have wk': "walking ?db (advance_cursor ?q) w (Suc k)"
      using advance_cursor_walking [OF _ wk] less.prems(1) True by simp
    have "yields ?db (advance_cursor ?q) w (next_loop ?db (advance_cursor ?q) w)
        (scan (start_time q) (end_time q) (drop (Suc k) (records db q w)))"
      using less.hyps [of ?db "Suc k" "advance_cursor ?q"] wk' less.prems(1) True by simp
    then have rest: "yields db q w (next_loop ?db (advance_cursor ?q) w)
        (scan (start_time q) (end_time q) (drop (Suc k) (records db q w)))"
      by (rule yields_frame) simp_all
    have d: "drop k (records db q w) = record_at db q w k # drop (Suc k) (records db q w)"
      using drop_records True q(1) by simp
    have hit: "yields db q w (ESP_OK, Some (record_at db q w k), ?db, advance_cursor ?q)
        (record_at db q w k # scan (start_time q) (end_time q) (drop (Suc k) (records db q w)))"
      using wk' unfolding yields_def by (auto intro!: exI [of _ pl] exI [of _ "Suc k"])
    have stop: "yields db q w (ESP_ERR_NOT_FOUND, None, ?db, advance_cursor ?q) []"
      by (auto simp: yields_def)
    show ?thesis
      unfolding next_loop_step [OF sc el] cr d Let_def scan.simps
      using rest hit stop by (simp split: if_split)
  qed
qed

lemma fold_walking:
  assumes "db_inv db w" "walking db q w k"
  shows "\<exists>pl q'. query_fold f a db q w =
    (foldl (\<lambda>a r. f a (fst r) (snd r)) a (scan (start_time q) (end_time q) (drop k (records db q w))),
     db\<lparr>pool := pl\<rparr>, q')"
  using assms
proof (induction f a db q w arbitrary: k rule: query_fold.induct)
  case (1 f a db q w)
  let ?xs = "scan (start_time q) (end_time q) (drop k (records db q w))"
  have y: "yields db q w (next_loop db q w) ?xs" by (rule next_walking [OF 1(2,3)])
  show ?case
  proof (cases ?xs)
    case Nil
    with y obtain r pl q' where "next_loop db q w = (r, None, db\<lparr>pool := pl\<rparr>, q')" "r \<noteq> ESP_OK"
      by (auto simp: yields_def)
    with Nil show ?thesis by (subst query_fold.simps) (auto split: esp_err.split)
  next
    case (Cons x ys)
    with y obtain pl q' k' where n: "next_loop db q w = (ESP_OK, Some x, db\<lparr>pool := pl\<rparr>, q')"
      and n': "walking (db\<lparr>pool := pl\<rparr>) q' w k'" "start_time q' = start_time q" "end_time q' = end_time q"
        "records db q' w = records db q w" "ys = scan (start_time q) (end_time q) (drop k' (records db q w))"
      by (auto simp: yields_def)
    obtain ts vals where x: "x = (ts, vals)" by fastforce
    have "\<exists>pl' q2. query_fold f (f a ts vals) (db\<lparr>pool := pl\<rparr>) q' w =
        (foldl (\<lambda>a r. f a (fst r) (snd r)) (f a ts vals) ys, db\<lparr>pool := pl'\<rparr>, q2)"
      using 1(1) [OF n [symmetric] refl refl] n' 1(2) x by simp
    with Cons n x show ?thesis by (subst query_fold.simps) simp
  qed
qed

section \<open>The start seek\<close>

lemma scan_skip: "list_all (\<lambda>r. fst r < t0) xs \<Longrightarrow> t0 \<le> t1 \<Longrightarrow> scan t0 t1 (xs @ ys) = scan t0 t1 ys"
  by (induction xs) auto

lemma scan_sorted:
  "sorted (map fst xs) \<Longrightarrow> scan t0 t1 xs = filter (\<lambda>r. fst r \<noteq> 0 \<and> t0 \<le> fst r \<and> fst r \<le> t1) xs"
proof (induction xs)
  case (Cons x xs)
  have "filter (\<lambda>r. fst r \<noteq> 0 \<and> t0 \<le> fst r \<and> fst r \<le> t1) xs = []" if "fst x > t1"
    using Cons.prems that by (fastforce simp: filter_empty_conv)
  with Cons show ?case by auto
qed simp

text \<open>Timestamp of the record at position \<open>k\<close>.\<close>

definition ts_at :: "tsdb \<Rightarrow> world \<Rightarrow> nat \<Rightarrow> u32" where
  "ts_at db w k = fst (retained (header db) (content w (filepath db)) ! k)"

definition ascending :: "tsdb \<Rightarrow> world \<Rightarrow> bool" where
  "ascending db w \<longleftrightarrow> sorted (map fst (retained (header db) (content w (filepath db))))"

lemma ascending_ts:
  "ascending db w \<Longrightarrow> i \<le> j \<Longrightarrow> j < avail (header db) \<Longrightarrow> ts_at db w i \<le> ts_at db w j"
  by (simp add: ascending_def ts_at_def sorted_iff_nth_mono length_retained)

lemma probe:
  assumes inv: "db_inv db w" and q: "q_header q = header db" "buffer_ok db q" and k: "unat k < avail (header db)"
  obtains pl b where
    "load_query_block db q (ring_slot (header db) (first_slot_of (header db)) k div
        ucast (records_per_block (header db))) w = (ESP_OK, db\<lparr>pool := pl\<rparr>, q\<lparr>block_buffer := b\<rparr>)"
    "TSDB_BLOCK_TS (query_block (db\<lparr>pool := pl\<rparr>) (q\<lparr>block_buffer := b\<rparr>))
       (unat (ring_slot (header db) (first_slot_of (header db)) k mod ucast (records_per_block (header db)))) =
     ts_at db w (unat k)"
    "buffer_ok (db\<lparr>pool := pl\<rparr>) (q\<lparr>block_buffer := b\<rparr>)"
proof -
  let ?h = "header db" and ?f = "content w (filepath db)"
  let ?sl = "ring_slot ?h (first_slot_of ?h) k" and ?s = "pos_slot ?h (unat k)"
  have "ring_inv ?h ?f" and f: "db_file db = Some (filepath db)"
    using inv by (simp_all add: db_inv_def)
  then have s: "unat ?sl = ?s" using k by (intro ring_slot_pos) simp_all
  have n: "unat (?sl div ucast (records_per_block ?h)) = ?s div rpb ?h"
    by (simp add: unat_div unat_u16_u32 s)
  have m: "unat (?sl mod ucast (records_per_block ?h)) = ?s mod rpb ?h"
    by (simp add: unat_mod unat_u16_u32 s)
  have "tsdb_read_block db (?sl div ucast (records_per_block ?h)) w = (ESP_OK, Some (slot_block ?h ?f ?s))"
    by (rule read_slot_block [OF _ f ring_inv_slot [OF inv k] n]) (use inv in \<open>simp add: db_inv_def\<close>)
  from load_query_block [OF q(2) this] obtain pl b where l:
    "load_query_block db q (?sl div ucast (records_per_block ?h)) w = (ESP_OK, db\<lparr>pool := pl\<rparr>, q\<lparr>block_buffer := b\<rparr>)"
    "query_block (db\<lparr>pool := pl\<rparr>) (q\<lparr>block_buffer := b\<rparr>) = slot_block ?h ?f ?s"
    "buffer_ok (db\<lparr>pool := pl\<rparr>) (q\<lparr>block_buffer := b\<rparr>)"
    by metis
  have "TSDB_BLOCK_TS (slot_block ?h ?f ?s) (?s mod rpb ?h) = ts_at db w (unat k)"
    using retained_nth [OF k] by (simp add: ts_at_def slot_row_def block_row_def)
  with l m show ?thesis by (intro that) simp_all
qed

definition found :: "tsdb \<Rightarrow> tsdb_query \<Rightarrow> world \<Rightarrow> u32 \<times> tsdb \<times> tsdb_query \<Rightarrow> bool" where
  "found db q w res \<longleftrightarrow>
     (\<exists>k pl b. res = (k, db\<lparr>pool := pl\<rparr>, q\<lparr>block_buffer := b\<rparr>) \<and>
        buffer_ok (db\<lparr>pool := pl\<rparr>) (q\<lparr>block_buffer := b\<rparr>) \<and> unat k \<le> avail (header db) \<and>
        (ascending db w \<longrightarrow> (\<forall>i < unat k. ts_at db w i < start_time q)) \<and>
        (ascending db w \<longrightarrow> (\<forall>i < avail (header db). ts_at db w i \<noteq> 0) \<longrightarrow>
           (\<forall>i. unat k \<le> i \<longrightarrow> i < avail (header db) \<longrightarrow> start_time q \<le> ts_at db w i)))"

lemma found_at:
  assumes "buffer_ok (db\<lparr>pool := pl\<rparr>) (q\<lparr>block_buffer := b\<rparr>)" "unat k \<le> avail (header db)"
    and "ascending db w \<longrightarrow> (\<forall>i < unat k. ts_at db w i < start_time q)"
    and "ascending db w \<longrightarrow> (\<forall>i < avail (header db). ts_at db w i \<noteq> 0) \<longrightarrow>
      (\<forall>i. unat k \<le> i \<longrightarrow> i < avail (header db) \<longrightarrow> start_time q \<le> ts_at db w i)"
  shows "found db q w (k, db\<lparr>pool := pl\<rparr>, q\<lparr>block_buffer := b\<rparr>)"
  unfolding found_def by (rule exI [of _ k], rule exI [of _ pl], rule exI [of _ b]) (use assms in simp)

lemma found_frame:
  assumes "found (db\<lparr>pool := pl\<rparr>) (q\<lparr>block_buffer := b\<rparr>) w res"
  shows "found db q w res"
  using assms by (auto simp: found_def ts_at_def ascending_def)

text \<open>One step of the search: the probe stores a block in the buffer and reads a timestamp.\<close>

lemma seek_loop_step:
  assumes "db_inv db w" "q_header q = header db" "buffer_ok db q" "unat hi \<le> avail (header db)" "lo < hi"
    and "mid = lo + (hi - lo) div 2"
  obtains pl b where "buffer_ok (db\<lparr>pool := pl\<rparr>) (q\<lparr>block_buffer := b\<rparr>)"
    "seek_loop db q (first_slot_of (header db)) lo hi w =
       (if ts_at db w (unat mid) = 0 then (0, db\<lparr>pool := pl\<rparr>, q\<lparr>block_buffer := b\<rparr>)
        else if ts_at db w (unat mid) < start_time q
        then seek_loop (db\<lparr>pool := pl\<rparr>) (q\<lparr>block_buffer := b\<rparr>) (first_slot_of (header db)) (mid + 1) hi w
        else seek_loop (db\<lparr>pool := pl\<rparr>) (q\<lparr>block_buffer := b\<rparr>) (first_slot_of (header db)) lo mid w)"
proof -
  let ?h = "header db"
  have "unat lo < unat hi" using assms(5) by (simp add: word_less_nat_alt)
  then have m: "unat mid < avail ?h" using mid_bounds [OF assms(5)] assms(4,6) by auto
  obtain pl b where p: "load_query_block db q (ring_slot ?h (first_slot_of ?h) mid div
      ucast (records_per_block ?h)) w = (ESP_OK, db\<lparr>pool := pl\<rparr>, q\<lparr>block_buffer := b\<rparr>)"
    and ts: "TSDB_BLOCK_TS (query_block (db\<lparr>pool := pl\<rparr>) (q\<lparr>block_buffer := b\<rparr>))
      (unat (ring_slot ?h (first_slot_of ?h) mid mod ucast (records_per_block ?h))) = ts_at db w (unat mid)"
    and ok: "buffer_ok (db\<lparr>pool := pl\<rparr>) (q\<lparr>block_buffer := b\<rparr>)"
    by (rule probe [OF assms(1-3) m])
  show ?thesis
    by (rule that [OF ok], subst seek_loop.simps) (simp add: assms(2,5) assms(6) [symmetric] Let_def p ts)
qed

lemma seek_loop_found:
  assumes "db_inv db w" "q_header q = header db" "buffer_ok db q" "unat hi \<le> avail (header db)" "lo \<le> hi"
    and "ascending db w \<longrightarrow> (\<forall>i < unat lo. ts_at db w i < start_time q)"
    and "ascending db w \<longrightarrow> (\<forall>i. unat hi \<le> i \<longrightarrow> i < avail (header db) \<longrightarrow> start_time q \<le> ts_at db w i)"
  shows "found db q w (seek_loop db q (first_slot_of (header db)) lo hi w)"
  using assms
proof (induction "unat hi - unat lo" arbitrary: db q lo hi rule: less_induct)
  case less
  let ?h = "header db"
  show ?case
  proof (cases "lo < hi")
    case False
    with less.prems(5) have "lo = hi" by simp
    then have "seek_loop db q (first_slot_of ?h) lo hi w = (hi, db\<lparr>pool := pool db\<rparr>, q\<lparr>block_buffer := block_buffer q\<rparr>)"
      by (simp add: seek_loop.simps)
    moreover have "found db q w (hi, db\<lparr>pool := pool db\<rparr>, q\<lparr>block_buffer := block_buffer q\<rparr>)"
      using less.prems \<open>lo = hi\<close> by (intro found_at) simp_all
    ultimately show ?thesis by simp
  next
    case True
    define mid where "mid = lo + (hi - lo) div 2"
    note mb = mid_bounds [OF True, folded mid_def]
    have lt: "unat lo < unat hi" using True by (simp add: word_less_nat_alt)
    then have mid: "unat mid < unat hi" "unat lo \<le> unat mid" using mb(1) by auto
    have dec: "unat hi - unat (mid + 1) < unat hi - unat lo" "unat mid - unat lo < unat hi - unat lo"
      using mb lt mid by linarith+
    have ma: "unat mid < avail ?h" using mid less.prems(4) by simp
    obtain pl b where ok: "buffer_ok (db\<lparr>pool := pl\<rparr>) (q\<lparr>block_buffer := b\<rparr>)"
      and eq: "seek_loop db q (first_slot_of ?h) lo hi w =
       (if ts_at db w (unat mid) = 0 then (0, db\<lparr>pool := pl\<rparr>, q\<lparr>block_buffer := b\<rparr>)
        else if ts_at db w (unat mid) < start_time q
        then seek_loop (db\<lparr>pool := pl\<rparr>) (q\<lparr>block_buffer := b\<rparr>) (first_slot_of ?h) (mid + 1) hi w
        else seek_loop (db\<lparr>pool := pl\<rparr>) (q\<lparr>block_buffer := b\<rparr>) (first_slot_of ?h) lo mid w)"
      by (rule seek_loop_step [OF less.prems(1-4) True mid_def])
    let ?db = "db\<lparr>pool := pl\<rparr>" and ?q = "q\<lparr>block_buffer := b\<rparr>" and ?t = "ts_at db w (unat mid)"
    have same: "ts_at ?db w = ts_at db w" "ascending ?db w = ascending db w"
      by (simp_all add: ts_at_def ascending_def fun_eq_iff)
    have "found db q w (0, ?db, ?q)" if "?t = 0" using ok ma that by (intro found_at) auto
    moreover have "found db q w (seek_loop ?db ?q (first_slot_of ?h) (mid + 1) hi w)" if "?t < start_time q"
    proof -
      have "ts_at db w i < start_time q" if "ascending db w" "i < unat (mid + 1)" for i
        using ascending_ts [OF that(1), of i "unat mid"] that(2) mb ma \<open>?t < start_time q\<close> by simp
      then have "found ?db ?q w (seek_loop ?db ?q (first_slot_of (header ?db)) (mid + 1) hi w)"
        using less.prems ok same mid mb(2) by (intro less.hyps [OF dec(1)]) (simp_all add: word_le_nat_alt)
      from found_frame [OF this] show ?thesis by simp
    qed
    moreover have "found db q w (seek_loop ?db ?q (first_slot_of ?h) lo mid w)" if "\<not> ?t < start_time q"
    proof -
      have "start_time q \<le> ts_at db w i" if "ascending db w" "unat mid \<le> i" "i < avail ?h" for i
        using ascending_ts [OF that] \<open>\<not> ?t < start_time q\<close> by (meson le_less_trans not_less)
      then have "found ?db ?q w (seek_loop ?db ?q (first_slot_of (header ?db)) lo mid w)"
        using less.prems ok same mid ma by (intro less.hyps [OF dec(2)]) (simp_all add: word_le_nat_alt)
      from found_frame [OF this] show ?thesis by simp
    qed
    ultimately show ?thesis by (simp add: eq)
  qed
qed

section \<open>Opening a query\<close>

lemma first_slot_pos:
  assumes "ring_inv h f"
  shows "unat (first_slot_of h) = pos_slot h 0"
proof -
  have "unat (ring_slot h (first_slot_of h) 0) = pos_slot h 0"
    using ring_slot_pos [OF assms, of 0] by simp
  moreover have "ring_slot h (first_slot_of h) 0 = first_slot_of h"
  proof (cases "max_records h = 0")
    case False
    have "unat (oldest_record_idx h) < cap h"
      using assms False cap_pos [OF False] by (auto simp: ring_inv_def ring_hdr_def)
    then have "unat (oldest_record_idx h mod max_records h) = unat (oldest_record_idx h)"
      by (simp add: unat_mod)
    then have "oldest_record_idx h mod max_records h = oldest_record_idx h"
      by (simp only: word_unat_eq_iff)
    with False show ?thesis
      by (simp add: ring_slot_def first_slot_of_def)
  qed (simp add: ring_slot_def first_slot_of_def)
  ultimately show ?thesis by simp
qed

lemma place_cursor_walking:
  assumes inv: "db_inv db w" and q: "q_header q = header db" "q_file q = db_file db" "q_bound q" "buffer_ok db q"
    "unat (end_record_idx q) = avail (header db)" "\<not> block_loaded q"
    and k: "unat k \<le> avail (header db)" "unat slot = pos_slot (header db) (unat k)"
  shows "walking db (place_cursor q k slot) w (unat k)"
proof -
  have "records_per_block (header db) \<noteq> 0" using db_inv_rpb [OF inv] by auto
  moreover have "buffer_ok db (place_cursor q k slot)"
    using q(4) by (simp add: buffer_ok_def place_cursor_def Let_def)
  ultimately show ?thesis
    using q k db_inv_rpb [OF inv] u16_div_mod [of "header db" slot]
    by (simp add: walking_def Let_def place_cursor_def)
qed

lemma place_cursor_fields [simp]:
  "q_header (place_cursor q k s) = q_header q" "start_time (place_cursor q k s) = start_time q"
  "end_time (place_cursor q k s) = end_time q" "q_file (place_cursor q k s) = q_file q"
  "q_bound (place_cursor q k s) = q_bound q" "end_record_idx (place_cursor q k s) = end_record_idx q"
  "block_loaded (place_cursor q k s) = block_loaded q"
  "records db (place_cursor q k s) w = records db q w"
  "records db (q\<lparr>end_record_idx := e\<rparr>) w = records db q w"
  by (simp_all add: place_cursor_def Let_def records_def record_at_def overflow_value_def)

lemma place_cursor_simps:
  "(place_cursor q k s)\<lparr>end_record_idx := e\<rparr> = place_cursor (q\<lparr>end_record_idx := e\<rparr>) k s"
  "(place_cursor q k s)\<lparr>block_loaded := l\<rparr> = place_cursor (q\<lparr>block_loaded := l\<rparr>) k s"
  by (simp_all add: place_cursor_def Let_def)

lemma start_walk_walking:
  assumes inv: "db_inv db w" and q: "q_header q = header db" "q_file q = db_file db" "q_bound q" "buffer_ok db q"
  obtains pl q' k where "start_walk db q w = (db\<lparr>pool := pl\<rparr>, q')" "walking (db\<lparr>pool := pl\<rparr>) q' w k"
    "start_time q' = start_time q" "end_time q' = end_time q" "records db q' w = records db q w"
    "ascending db w \<longrightarrow> (\<forall>i<k. ts_at db w i < start_time q)"
proof -
  let ?h = "header db"
  define q0 where "q0 = (place_cursor q 0 (first_slot_of ?h))\<lparr>end_record_idx := available_records ?h, block_loaded := False\<rparr>"
  have ri: "ring_inv ?h (content w (filepath db))" using inv by (simp add: db_inv_def)
  have q0: "q_header q0 = ?h" "q_file q0 = db_file db" "q_bound q0" "start_time q0 = start_time q"
    "end_time q0 = end_time q" "unat (end_record_idx q0) = avail ?h" "\<not> block_loaded q0"
    "records db q0 w = records db q w" "buffer_ok db q0"
    using q by (simp_all add: q0_def available_records) (simp add: buffer_ok_def place_cursor_def Let_def)
  have w0: "walking db q0 w 0"
  proof -
    have "walking db (place_cursor (q\<lparr>end_record_idx := available_records ?h, block_loaded := False\<rparr>) 0
        (first_slot_of ?h)) w (unat (0 :: u32))"
      using q first_slot_pos [OF ri]
      by (intro place_cursor_walking [OF inv]) (simp_all add: available_records buffer_ok_def)
    then show ?thesis by (simp add: q0_def place_cursor_simps)
  qed
  show ?thesis
  proof (cases "available_records ?h > 0 \<and> records_per_block ?h > 0 \<and> start_time q > oldest_timestamp ?h")
    case False
    then have "start_walk db q w = (db\<lparr>pool := pool db\<rparr>, q0)"
      using q(1) by (auto simp: start_walk_def Let_def q0_def)
    then show ?thesis by (rule that [where k = 0]) (use w0 q0 in auto)
  next
    case True
    have "found db q0 w (seek_loop db q0 (first_slot_of ?h) 0 (available_records ?h) w)"
      using q0 by (intro seek_loop_found [OF inv]) (simp_all add: available_records)
    then obtain k pl b where r: "tsdb_seek_start db q0 (available_records ?h) (first_slot_of ?h) w =
        (k, db\<lparr>pool := pl\<rparr>, q0\<lparr>block_buffer := b\<rparr>)"
      and f: "buffer_ok (db\<lparr>pool := pl\<rparr>) (q0\<lparr>block_buffer := b\<rparr>)" "unat k \<le> avail ?h"
        "ascending db w \<longrightarrow> (\<forall>i < unat k. ts_at db w i < start_time q)"
      using q0(4) by (auto simp: found_def tsdb_seek_start_def)
    let ?q = "q0\<lparr>block_buffer := b\<rparr>" and ?db = "db\<lparr>pool := pl\<rparr>"
    define q1 where "q1 = (if k > 0 then place_cursor ?q k (ring_slot ?h (first_slot_of ?h) k) else ?q)"
    have sw: "start_walk db q w = (?db, q1)"
      using True q(1) r unfolding start_walk_def Let_def q0_def q1_def by simp
    have "walking ?db q1 w (unat k)"
    proof (cases "k > 0")
      case True
      then show ?thesis
        using q0 f ring_slot_pos [OF ri f(2)] inv unfolding q1_def
        by (simp, intro place_cursor_walking) simp_all
    next
      case False
      then have "k = 0" by (simp add: word_less_nat_alt unat_eq_zero)
      then show ?thesis using w0 q0 f(1) by (simp add: q1_def walking_def Let_def)
    qed
    then show ?thesis by (rule that [OF sw]) (simp_all add: q1_def q0 f(3))
  qed
qed

text \<open>The pool, if it offers a pointer for the query block at all, is well formed there.\<close>

definition query_pool_ok :: "tsdb \<Rightarrow> bool" where
  "query_pool_ok db \<longleftrightarrow>
     (tsdb_get_buffer_ptr (Some (pool db)) (query_buffer_offset db) 1024 \<noteq> None \<longrightarrow>
      pool_wf (pool db) \<and> unat (query_buffer_offset db) + TSDB_BLOCK_SIZE \<le> unat (total_size (pool db)))"

lemma store_indices_more [simp]:
  "q_header (store_indices q n) = q_header q" "start_time (store_indices q n) = start_time q"
  "end_time (store_indices q n) = end_time q" "q_file (store_indices q n) = q_file q"
  "q_bound (store_indices q n) = q_bound q" "owns_buffer (store_indices q n) = owns_buffer q"
  by (induction n) (auto simp: Let_def)

lemma base_query_fields [simp]:
  "q_header (base_query db t0 t1 idxo n) = header db" "q_bound (base_query db t0 t1 idxo n)"
  "start_time (base_query db t0 t1 idxo n) = t0" "end_time (base_query db t0 t1 idxo n) = t1"
  "q_file (base_query db t0 t1 idxo n) = db_file db" "\<not> owns_buffer (base_query db t0 t1 idxo n)"
  by (simp_all add: base_query_def Let_def select_all_def select_given_def zero_query_def split: option.splits)

lemma malloc_content: "malloc_ok w = (r, w') \<Longrightarrow> content w' = content w"
  by (auto simp: malloc_ok_def content_def fun_eq_iff split: list.splits)

lemma base_query_more:
  "q1 = (base_query db t0 t1 idxo n)\<lparr>block_buffer := b, owns_buffer := ob\<rparr> \<Longrightarrow>
   q_header q1 = header db \<and> q_file q1 = db_file db \<and> q_bound q1"
  by simp

lemma tsdb_lock_open_not_ok: "tsdb_lock_open w \<noteq> (Some ESP_OK, w')"
  by (auto simp: tsdb_lock_open_def split: prod.splits lock_outcome.splits)

lemma bind_buffer_ok:
  assumes "bind_buffer db q w = (ESP_OK, q1, w1)" "query_pool_ok db"
  obtains b ob where "q1 = q\<lparr>block_buffer := b, owns_buffer := ob\<rparr>" "content w1 = content w" "buffer_ok db q1"
    "sound w \<Longrightarrow> sound w1"
proof (cases "tsdb_get_buffer_ptr (Some (pool db)) (query_buffer_offset db) 1024")
  case None
  then obtain b where "q1 = q\<lparr>block_buffer := Some b, owns_buffer := True\<rparr>" "content w1 = content w"
    using assms(1) malloc_content
    by (auto simp: bind_buffer_def heap_alloc_def split: prod.splits if_splits)
  moreover have "sound w \<Longrightarrow> sound w1"
    using assms(1) None sound_scripts(1)
    by (auto simp: bind_buffer_def heap_alloc_def split: prod.splits if_splits)
  ultimately show ?thesis by (intro that) (simp_all add: buffer_ok_def)
next
  case (Some x)
  then have "q1 = q\<lparr>block_buffer := block_buffer q, owns_buffer := False\<rparr>" "w1 = w"
    using assms(1) by (simp_all add: bind_buffer_def)
  then show ?thesis
    using Some assms(2)
    by (intro that [where b = "block_buffer q" and ob = False]) (simp_all add: buffer_ok_def query_pool_ok_def)
qed

lemma query_init_walking:
  assumes init: "tsdb_query_init_h (Some db) (Some q0) t0 t1 idxo n w = (ESP_OK, Some db1, Some q, w1)"
    and inv: "db_inv db w" and pl: "query_pool_ok db"
  shows "t0 \<le> t1 \<and> (idxo \<noteq> None \<longrightarrow> unat n \<le> TSDB_MAX_PARAMS) \<and> content w1 = content w \<and> sound w1 \<and>
    (\<exists>k pl. db1 = db\<lparr>pool := pl\<rparr> \<and> walking db1 q w1 k \<and> start_time q = t0 \<and> end_time q = t1 \<and>
       records db q w1 = records db (base_query db t0 t1 idxo n) w1 \<and>
       (ascending db w \<longrightarrow> (\<forall>i<k. ts_at db w i < t0)))"
proof -
  let ?b = "base_query db t0 t1 idxo n"
  obtain w2 q1 where lk: "tsdb_lock_open w = (None, w2)" and t: "\<not> t0 > t1"
    and n: "idxo \<noteq> None \<longrightarrow> \<not> unat n > TSDB_MAX_PARAMS"
    and bb: "bind_buffer db ?b w2 = (ESP_OK, q1, w1)" and sw: "start_walk db q1 w1 = (db1, q)"
    using init tsdb_lock_open_not_ok
    by (fastforce simp: tsdb_query_init_h_def split: if_splits prod.splits option.splits)
  obtain b ob where q1: "q1 = ?b\<lparr>block_buffer := b, owns_buffer := ob\<rparr>" and c: "content w1 = content w2"
    and ok: "buffer_ok db q1" and sk: "sound w2 \<Longrightarrow> sound w1"
    by (rule bind_buffer_ok [OF bb pl]) blast
  have cw: "content w1 = content w" using c lock_open_content [OF lk] by simp
  have sw1: "sound w1" using sk lock_open_sound [OF lk] inv by (simp add: db_inv_def)
  then have inv1: "db_inv db w1" using inv cw by (simp add: db_inv_def)
  obtain pl' q' k where s: "start_walk db q1 w1 = (db\<lparr>pool := pl'\<rparr>, q')" "walking (db\<lparr>pool := pl'\<rparr>) q' w1 k"
    "start_time q' = start_time q1" "end_time q' = end_time q1" "records db q' w1 = records db q1 w1"
    "ascending db w1 \<longrightarrow> (\<forall>i<k. ts_at db w1 i < start_time q1)"
    using start_walk_walking [OF inv1 _ _ _ ok] q1 by (metis base_query_more)
  have "records db q1 w1 = records db ?b w1"
    by (simp add: q1)
  with s sw q1 t n cw sw1 show ?thesis
    by (auto simp: ascending_def ts_at_def intro!: exI [of _ k] exI [of _ pl'])
qed

section \<open>What a query yields\<close>

abbreviation in_window :: "u32 \<Rightarrow> u32 \<Rightarrow> u32 \<times> 'v \<Rightarrow> bool" where
  "in_window t0 t1 r \<equiv> fst r \<noteq> 0 \<and> t0 \<le> fst r \<and> fst r \<le> t1"

lemma records_content:
  assumes "content w' = content w" "sound w" "sound w'"
  shows "records db q w' = records db q w"
proof -
  have fr: "fread_at w' = fread_at w" by (simp add: fread_at_sound fun_eq_iff assms)
  have "overflow_value db q a w' p = overflow_value db q a w p" for a p
    unfolding overflow_value_def fr ..
  then show ?thesis by (simp add: records_def record_at_def assms Let_def)
qed

lemma fst_records: "q_header q = header db \<Longrightarrow> map fst (records db q w) = map fst (db_rows (db, w))"
  by (rule nth_equalityI) (simp_all add: records_def record_at_def Let_def db_rows_def length_retained)

lemma query_fold_window:
  assumes init: "tsdb_query_init_h (Some db) (Some q0) t0 t1 idxo n w = (ESP_OK, Some db1, Some q, w1)"
    and inv: "db_inv db w" "query_pool_ok db" "ascending db w"
  shows "\<exists>pl q'. query_fold f a db1 q w1 =
    (foldl (\<lambda>a r. f a (fst r) (snd r)) a (filter (in_window t0 t1) (records db (base_query db t0 t1 idxo n) w)),
     db\<lparr>pool := pl\<rparr>, q')"
proof -
  let ?R = "records db (base_query db t0 t1 idxo n) w"
  obtain k pl where sw1: "sound w1" and w: "t0 \<le> t1" "content w1 = content w" "db1 = db\<lparr>pool := pl\<rparr>" "walking db1 q w1 k"
    "start_time q = t0" "end_time q = t1" "records db q w1 = records db (base_query db t0 t1 idxo n) w1"
    "\<forall>i<k. ts_at db w i < t0"
    using query_init_walking [OF init inv(1,2)] inv(3) by blast
  have R: "records db1 q w1 = ?R" using w(2,3,7) records_content [OF w(2) _ sw1] inv(1) by (simp add: db_inv_def)
  have ts: "map fst ?R = map fst (db_rows (db, w))" by (simp add: fst_records)
  have k: "k \<le> avail (header db)" using w(3,4) by (simp add: walking_def Let_def)
  have len: "length ?R = avail (header db)" by (simp add: records_def)
  have sorted: "sorted (map fst ?R)" using inv(3) by (simp add: ts ascending_def db_rows_def)
  have "fst (?R ! i) < t0" if "i < k" for i
  proof -
    have "fst (?R ! i) = map fst (db_rows (db, w)) ! i"
      using that k len ts by (metis nth_map order_less_le_trans)
    with that k w(8) show ?thesis by (simp add: ts_at_def db_rows_def length_retained)
  qed
  then have "list_all (\<lambda>r. fst r < t0) (take k ?R)"
    using k len by (auto simp: list_all_length)
  then have "scan t0 t1 (drop k ?R) = scan t0 t1 ?R"
    using scan_skip [OF _ w(1), of "take k ?R" "drop k ?R"] by simp
  moreover have "db_inv db1 w1" using inv(1) w(2,3) sw1 by (simp add: db_inv_def ovf_clear_def)
  ultimately show ?thesis
    using fold_walking [OF _ w(4), of f a] w(3,5,6) R scan_sorted [OF sorted, of t0 t1] by auto
qed

lemma length_row [simp]: "k < avail h \<Longrightarrow> length (snd (retained h f ! k)) = nparams h"
  by (simp add: retained_nth slot_row_def block_row_def)

lemma store_indices:
  assumes "n \<le> TSDB_MAX_PARAMS" "length (param_indices q) = TSDB_MAX_PARAMS"
  shows "\<exists>xs. store_indices q n = q\<lparr>param_indices := xs\<rparr> \<and> length xs = TSDB_MAX_PARAMS \<and>
    take n xs = map of_nat [0..<n]"
  using assms
proof (induction n)
  case 0
  then show ?case by (intro exI [of _ "param_indices q"]) simp
next
  case (Suc n)
  then obtain xs where xs: "store_indices q n = q\<lparr>param_indices := xs\<rparr>" "length xs = TSDB_MAX_PARAMS"
    "take n xs = map of_nat [0..<n]" by auto
  have "take (Suc n) (xs[n := of_nat n]) = take n xs @ [of_nat n]"
    using Suc.prems(1) xs(2) by (simp add: take_Suc_conv_app_nth)
  with xs Suc.prems show ?case
    by (intro exI [of _ "xs[n := of_nat n]"]) (simp add: Let_def)
qed

lemma records_all:
  assumes "db_extra_param_count db = 0" "nparams (header db) \<le> TSDB_MAX_PARAMS"
  shows "records db (base_query db t0 t1 None n) w = db_rows (db, w)"
proof -
  let ?q = "base_query db t0 t1 None n" and ?n = "nparams (header db)"
  have sel: "take (unat (num_params_to_fetch ?q)) (param_indices ?q) = map of_nat [0..<?n]"
    using assms store_indices [of ?n "zero_query\<lparr>q_bound := True, q_header := header db, start_time := t0,
        end_time := t1, q_file := db_file db, num_params_to_fetch := num_params (header db)\<rparr>"]
    by (auto simp: base_query_def select_all_def Let_def zero_query_def)
  have "record_at db ?q w k = retained (header db) (content w (filepath db)) ! k" if "k < avail (header db)" for k
  proof -
    let ?r = "retained (header db) (content w (filepath db)) ! k"
    have "map (\<lambda>p. if p < num_params (header db) then snd ?r ! unat p
        else overflow_value db ?q (of_nat (nrec (header db) - avail (header db) + k)) w p)
        (map of_nat [0..<?n]) = snd ?r"
    proof (rule nth_equalityI)
      fix i
      assume "i < length (map (\<lambda>p. if p < num_params (header db) then snd ?r ! unat p
        else overflow_value db ?q (of_nat (nrec (header db) - avail (header db) + k)) w p)
        (map of_nat [0..<?n]))"
      then have "i < ?n" "unat (of_nat i :: u8) = i"
        using assms(2) by (simp_all add: unat_of_nat)
      then show "map (\<lambda>p. if p < num_params (header db) then snd ?r ! unat p
        else overflow_value db ?q (of_nat (nrec (header db) - avail (header db) + k)) w p)
        (map of_nat [0..<?n]) ! i = snd ?r ! i"
        by (simp add: word_less_nat_alt)
    qed (simp add: that)
    then show ?thesis by (simp add: record_at_def Let_def sel)
  qed
  then show ?thesis
    by (intro nth_equalityI) (simp_all add: records_def db_rows_def length_retained)
qed

lemma records_given:
  assumes "list_all (\<lambda>p. p < num_params (header db)) idx" "length idx = unat n" "unat n \<le> TSDB_MAX_PARAMS"
  shows "records db (base_query db t0 t1 (Some idx) n) w =
    map (\<lambda>r. (fst r, map (\<lambda>p. snd r ! unat p) idx)) (db_rows (db, w))"
proof -
  let ?q = "base_query db t0 t1 (Some idx) n"
  have "take (unat n) (overlay (replicate 64 0) 0 idx) = idx"
    using assms(2,3) by (auto simp: overlay_def)
  then have sel: "take (unat (num_params_to_fetch ?q)) (param_indices ?q) = idx"
    using assms(2) by (simp add: base_query_def select_given_def zero_query_def)
  show ?thesis
    using assms(1)
    by (intro nth_equalityI)
      (auto simp: records_def record_at_def Let_def sel db_rows_def length_retained list_all_iff)
qed

section \<open>Accumulators\<close>

lemma sint_i16: "- 32768 \<le> sint (v :: i16)" "sint v \<le> 32767"
  using sint_ge [of v] sint_lt [of v] by simp_all

lemma sint_scast_i16: "sint (scast (v :: i16) :: u32) = sint v"
  using sint_i16 [of v] by (simp add: signed_scast_eq signed_take_bit_int_eq_self)

lemma sint_word_i64: "- (2 ^ 62) \<le> x \<Longrightarrow> x \<le> 2 ^ 62 \<Longrightarrow> sint (word_of_int x :: u64) = x"
  by (simp add: sint_sbintrunc' signed_take_bit_int_eq_self)

definition acc_fold :: "i16 list \<Rightarrow> agg_acc \<times> u32" where
  "acc_fold vs = foldl (\<lambda>(a, c) v. (acc_step c a v, c + 1)) (acc_init, 0) vs"

lemma acc_fold_snoc:
  "acc_fold (vs @ [v]) = (acc_step (snd (acc_fold vs)) (fst (acc_fold vs)) v, snd (acc_fold vs) + 1)"
  by (simp add: acc_fold_def case_prod_beta)

lemma acc_fold_count: "snd (acc_fold vs) = of_nat (length vs)"
  by (induction vs rule: rev_induct) (simp_all add: acc_fold_snoc, simp add: acc_fold_def)

lemma acc_fold_sum: "acc_sum (fst (acc_fold vs)) = word_of_int (sum_list (map sint vs))"
proof (induction vs rule: rev_induct)
  case (snoc v vs)
  have "acc_sum (fst (acc_fold (vs @ [v]))) = acc_sum (fst (acc_fold vs)) + scast v"
    by (simp add: acc_fold_snoc acc_step_def)
  also have "\<dots> = word_of_int (sum_list (map sint vs)) + word_of_int (sint v)"
    by (simp only: snoc scast_eq)
  also have "\<dots> = word_of_int (sum_list (map sint (vs @ [v])))"
    by (simp only: map_append sum_list_append list.map sum_list_simps add_0_right of_int_add)
  finally show ?case .
qed (simp add: acc_fold_def acc_init_def)

lemma acc_fold_min: "vs \<noteq> [] \<Longrightarrow> sint (min_val (fst (acc_fold vs))) = Min (sint ` set vs)"
proof (induction vs rule: rev_induct)
  case (snoc v vs)
  show ?case
  proof (cases "vs = []")
    case True
    then show ?thesis
      using sint_i16 [of v]
      by (simp add: acc_fold_def acc_step_def acc_init_def sint_scast_i16)
  next
    case False
    have "sint (min_val (fst (acc_fold (vs @ [v])))) = min (sint v) (sint (min_val (fst (acc_fold vs))))"
      by (simp add: acc_fold_snoc acc_step_def sint_scast_i16 min_def)
    also have "\<dots> = min (sint v) (Min (sint ` set vs))" using snoc False by simp
    also have "\<dots> = Min (insert (sint v) (sint ` set vs))"
      using False by (subst Min_insert) simp_all
    finally show ?thesis by simp
  qed
qed simp

lemma acc_fold_max: "vs \<noteq> [] \<Longrightarrow> sint (max_val (fst (acc_fold vs))) = Max (sint ` set vs)"
proof (induction vs rule: rev_induct)
  case (snoc v vs)
  show ?case
  proof (cases "vs = []")
    case True
    then show ?thesis
      using sint_i16 [of v]
      by (simp add: acc_fold_def acc_step_def acc_init_def sint_scast_i16)
  next
    case False
    have "sint (max_val (fst (acc_fold (vs @ [v])))) = max (sint v) (sint (max_val (fst (acc_fold vs))))"
      by (simp add: acc_fold_snoc acc_step_def sint_scast_i16 max_def)
    also have "\<dots> = max (sint v) (Max (sint ` set vs))" using snoc False by simp
    also have "\<dots> = Max (insert (sint v) (sint ` set vs))"
      using False by (subst Max_insert) simp_all
    finally show ?thesis by simp
  qed
qed simp

lemma acc_fold_first: "vs \<noteq> [] \<Longrightarrow> length vs < 2 ^ 32 \<Longrightarrow> first_val (fst (acc_fold vs)) = hd vs"
proof (induction vs rule: rev_induct)
  case (snoc v vs)
  have "(of_nat (length vs) :: u32) \<noteq> 0 \<longleftrightarrow> vs \<noteq> []"
    using snoc.prems by (auto simp: word_unat_eq_iff unat_of_nat)
  with snoc show ?case
    by (auto simp: acc_fold_snoc acc_step_def acc_fold_count)
qed simp

lemma acc_fold_last: "vs \<noteq> [] \<Longrightarrow> last_val (fst (acc_fold vs)) = last vs"
  by (induction vs rule: rev_induct) (simp_all add: acc_fold_snoc acc_step_def)

section \<open>Properties of queries\<close>

text \<open>A database that holds one record, to instantiate the theorems.\<close>

lemma demo_one:
  obtains db w where "writable 10 (db, w)" "db_rows (db, w) = [(100, [7])]" "query_pool_ok db" "ascending db w"
    "db_extra_param_count db = 0" "num_params (header db) = 1"
proof -
  let ?s = "(demo_db 3, demo_world [])" and ?x = "(100, [7]) :: u32 \<times> i16 list"
  have np: "num_params (header (demo_db 3)) = 1" "db_extra_param_count (demo_db 3) = 0"
    by (simp_all add: demo_db_def demo_header_def)
  have W: "writable (Suc 10) ?s" by (rule demo_writable) simp
  have fits: "entry_fits ?s ?x" by (simp add: entry_fits_def np)
  from db_put_stored [OF W fits] obtain db w where wh:
    "tsdb_write_h (Some (demo_db 3)) 100 (Some [7]) (demo_world []) = (ESP_OK, Some db, w)"
    and st: "stored (demo_db 3) (demo_world []) (entry_row ?s ?x) db w" and wr: "writable 10 (db, w)"
    by (metis fst_conv snd_conv)
  have "db_rows ?s = []" by (simp add: db_rows_def demo_db_def demo_retained)
  moreover have "entry_row ?s ?x = (100, [7])" by (simp add: entry_row_def np)
  moreover have "max_records (header db) = 3"
    using st by (auto simp: stored_def capped_def) (simp_all add: demo_db_def demo_header_def zero_header_def)
  ultimately have rows: "db_rows (db, w) = [(100, [7])]"
    using st by (simp add: stored_def db_rows_def same_frame_def limit_of_def last_n_def)
  have "write_locked (demo_db 3) 100 [7] (demo_world []) = (ESP_OK, db, w)"
    using wh write_h_open [of "demo_db 3" "demo_world []"] W
    by (auto simp: writable_def split: prod.splits)
  from write_locked_shape [OF this] have "num_pages (pool db) = 0"
    by (simp add: pool_shape_def demo_db_def zero_pool_def)
  then have "query_pool_ok db" by (simp add: query_pool_ok_def tsdb_get_buffer_ptr_def)
  moreover have "ascending db w" using rows by (simp add: ascending_def db_rows_def)
  moreover have "db_extra_param_count db = 0" "num_params (header db) = 1"
    using st np by (simp_all add: stored_def same_frame_def same_geom_def)
  ultimately show ?thesis using wr rows by (intro that) simp_all
qed

text \<open>In a world without failures a query with a valid window opens.\<close>

lemma quiet_query_init:
  assumes "writable n (db, w)" "t0 \<le> t1" "idxo \<noteq> None \<longrightarrow> unat m \<le> TSDB_MAX_PARAMS"
  obtains db1 q where "tsdb_query_init_h (Some db) (Some zero_query) t0 t1 idxo m w = (ESP_OK, Some db1, Some q, w)"
proof -
  have v: "quiet w" "is_open db" "\<not> migrating db" "\<not> closing db"
    using assms(1) by (auto simp: writable_def)
  have bb: "\<exists>q1. bind_buffer db q w = (ESP_OK, q1, w)" for q
    using v(1) by (auto simp: bind_buffer_def heap_alloc_def quiet_next split: option.splits)
  obtain q1 where "bind_buffer db (base_query db t0 t1 idxo m) w = (ESP_OK, q1, w)" using bb by blast
  moreover obtain db1 q where "start_walk db q1 w = (db1, q)" by fastforce
  ultimately show ?thesis
    using v assms(2,3) by (intro that [of db1 q]) (auto simp: tsdb_query_init_h_def quiet_lock_open)
qed

lemma foldl_collect: "foldl (\<lambda>a r. a @ [r]) xs ys = xs @ ys"
  by (induction ys arbitrary: xs) simp_all

text \<open>
  C2: Draining a query for all parameters yields exactly the retained records whose timestamp
  lies in the window, in write order, when the timestamps ascend, the file can be read and there
  are no extra parameters. The start seek and the early exit at the end of the window change
  nothing.
\<close>

theorem query_yields_window:
  assumes "tsdb_query_init_h (Some db) (Some q0) t0 t1 None n w = (ESP_OK, Some db1, Some q, w1)"
    and "db_inv db w" "query_pool_ok db" "ascending db w"
    and "db_extra_param_count db = 0" "nparams (header db) \<le> TSDB_MAX_PARAMS"
  shows "fst (query_fold (\<lambda>acc ts vals. acc @ [(ts, vals)]) [] db1 q w1) =
    filter (in_window t0 t1) (db_rows (db, w))"
  using query_fold_window [OF assms(1-4), where f = "\<lambda>acc ts vals. acc @ [(ts, vals)]" and a = "[]"]
  by (auto simp: records_all [OF assms(5,6)] foldl_collect)

theorem query_yields_window_witness:
  "\<exists>db w db1 q. db_rows (db, w) = [(100, [7])] \<and>
     tsdb_query_init_h (Some db) (Some zero_query) 50 150 None 0 w = (ESP_OK, Some db1, Some q, w) \<and>
     fst (query_fold (\<lambda>acc ts vals. acc @ [(ts, vals)]) [] db1 q w) = [(100, [7])]"
proof -
  obtain db w where d: "writable 10 (db, w)" "db_rows (db, w) = [(100, [7])]" "query_pool_ok db" "ascending db w"
    "db_extra_param_count db = 0" "num_params (header db) = 1" by (rule demo_one)
  obtain db1 q where i: "tsdb_query_init_h (Some db) (Some zero_query) 50 150 None 0 w = (ESP_OK, Some db1, Some q, w)"
    using quiet_query_init [OF d(1), of 50 150 None 0] by auto
  have "db_inv db w" using d(1) by (simp add: writable_def)
  from query_yields_window [OF i this d(3,4,5)] d(2,6) i show ?thesis by auto
qed

text \<open>
  C16: With a selection of base parameters the query yields, for every record in the window,
  the selected values in the order of the selection.
\<close>

theorem query_selects_params:
  assumes "tsdb_query_init_h (Some db) (Some q0) t0 t1 (Some idx) n w = (ESP_OK, Some db1, Some q, w1)"
    and "db_inv db w" "query_pool_ok db" "ascending db w"
    and "list_all (\<lambda>p. p < num_params (header db)) idx" "length idx = unat n"
  shows "fst (query_fold (\<lambda>acc ts vals. acc @ [(ts, vals)]) [] db1 q w1) =
    map (\<lambda>r. (fst r, map (\<lambda>p. snd r ! unat p) idx)) (filter (in_window t0 t1) (db_rows (db, w)))"
proof -
  have "unat n \<le> TSDB_MAX_PARAMS" using query_init_walking [OF assms(1-3)] by simp
  note rg = records_given [OF assms(5,6) this]
  show ?thesis
    using query_fold_window [OF assms(1-4), where f = "\<lambda>acc ts vals. acc @ [(ts, vals)]" and a = "[]"]
    by (auto simp: rg foldl_collect filter_map o_def)
qed

theorem query_selects_params_witness:
  "\<exists>db w db1 q. db_rows (db, w) = [(100, [7])] \<and>
     tsdb_query_init_h (Some db) (Some zero_query) 50 150 (Some [0, 0]) 2 w = (ESP_OK, Some db1, Some q, w) \<and>
     fst (query_fold (\<lambda>acc ts vals. acc @ [(ts, vals)]) [] db1 q w) = [(100, [7, 7])]"
proof -
  obtain db w where d: "writable 10 (db, w)" "db_rows (db, w) = [(100, [7])]" "query_pool_ok db" "ascending db w"
    "db_extra_param_count db = 0" "num_params (header db) = 1" by (rule demo_one)
  obtain db1 q where i: "tsdb_query_init_h (Some db) (Some zero_query) 50 150 (Some [0, 0]) 2 w =
      (ESP_OK, Some db1, Some q, w)"
    using quiet_query_init [OF d(1), of 50 150 "Some [0, 0]" 2] by auto
  have "db_inv db w" using d(1) by (simp add: writable_def)
  from query_selects_params [OF i this d(3,4)] d(2,6) i show ?thesis by auto
qed

text \<open>
  C15: The binary search of the start seek returns the number of retained records older than the
  start of the window, for ascending nonzero timestamps in a file that can be read.
\<close>

theorem seek_start_lower_bound:
  assumes "db_inv db w" "q_header q = header db" "buffer_ok db q" "ascending db w"
    and "0 \<notin> fst ` set (db_rows (db, w))"
    and "tsdb_seek_start db q (available_records (header db)) (first_slot_of (header db)) w = (k, db', q')"
  shows "unat k = length (filter (\<lambda>r. fst r < start_time q) (db_rows (db, w)))"
proof -
  let ?R = "db_rows (db, w)"
  have len: "length ?R = avail (header db)" by (simp add: db_rows_def length_retained)
  have ts: "ts_at db w i = fst (?R ! i)" for i by (simp add: ts_at_def db_rows_def)
  have "found db q w (seek_loop db q (first_slot_of (header db)) 0 (available_records (header db)) w)"
    using assms(2,3) by (intro seek_loop_found [OF assms(1)]) (simp_all add: available_records)
  moreover have "\<forall>i < avail (header db). ts_at db w i \<noteq> 0"
    using assms(5) len by (auto simp: ts)
  ultimately have k: "unat k \<le> avail (header db)" "\<forall>i < unat k. fst (?R ! i) < start_time q"
    "\<forall>i. unat k \<le> i \<longrightarrow> i < avail (header db) \<longrightarrow> start_time q \<le> fst (?R ! i)"
    using assms(4,6) by (auto simp: found_def tsdb_seek_start_def ts)
  have "filter (\<lambda>r. fst r < start_time q) (take (unat k) ?R) = take (unat k) ?R"
    using k(1,2) len by (fastforce simp: filter_id_conv in_set_conv_nth)
  moreover have "filter (\<lambda>r. fst r < start_time q) (drop (unat k) ?R) = []"
  proof -
    have "\<not> fst r < start_time q" if "r \<in> set (drop (unat k) ?R)" for r
    proof -
      from that obtain i where "i < avail (header db) - unat k" "r = ?R ! (unat k + i)"
        using len by (auto simp: in_set_conv_nth)
      with k(3) show ?thesis by (simp add: not_less)
    qed
    then show ?thesis by (simp add: filter_empty_conv)
  qed
  ultimately have "filter (\<lambda>r. fst r < start_time q) ?R = take (unat k) ?R"
    by (metis append_Nil2 append_take_drop_id filter_append)
  then show ?thesis using k(1) len by simp
qed

theorem seek_start_lower_bound_witness:
  "\<exists>db w q k db' q'. db_rows (db, w) = [(100, [7])] \<and>
     tsdb_seek_start db q (available_records (header db)) (first_slot_of (header db)) w = (k, db', q') \<and>
     start_time q = 101 \<and> unat k = 1"
proof -
  obtain db w where d: "writable 10 (db, w)" "db_rows (db, w) = [(100, [7])]" "query_pool_ok db" "ascending db w"
    "db_extra_param_count db = 0" "num_params (header db) = 1" by (rule demo_one)
  let ?q = "zero_query\<lparr>q_header := header db, start_time := 101, owns_buffer := True\<rparr>"
  obtain k db' q' where s: "tsdb_seek_start db ?q (available_records (header db)) (first_slot_of (header db)) w = (k, db', q')"
    by (metis prod_cases3)
  have "db_inv db w" using d(1) by (simp add: writable_def)
  from seek_start_lower_bound [OF this _ _ d(4) _ s] d(2) have "unat k = 1"
    by (simp add: buffer_ok_def)
  with d(2) s show ?thesis
    by (intro exI [of _ db] exI [of _ w] exI [of _ ?q] exI [of _ k] exI [of _ db'] exI [of _ q']) simp
qed

section \<open>Properties of the aggregations\<close>

lemma filter_small: "db_inv db w \<Longrightarrow> length (filter P (db_rows (db, w))) < 2 ^ 31"
  using length_filter_le [of P "db_rows (db, w)"] avail_small [of "header db" "content w (filepath db)"]
  by (simp add: db_inv_def db_rows_def length_retained)

lemma foldl_count: "foldl (\<lambda>n r. n + 1) (k :: u32) xs = k + of_nat (length xs)"
  by (induction xs arbitrary: k) (simp_all add: algebra_simps)

text \<open>
  \<open>tsdb_query_count_h\<close> returns the number of retained records in the window.
\<close>

theorem query_count_correct:
  assumes "writable n (db, w)" "query_pool_ok db" "ascending db w" "t0 \<le> t1"
    and "db_extra_param_count db = 0" "nparams (header db) \<le> TSDB_MAX_PARAMS"
  shows "\<exists>c db'. tsdb_query_count_h (Some db) t0 t1 (Some c0) w = (ESP_OK, Some c, Some db', w) \<and>
    unat c = length (filter (in_window t0 t1) (db_rows (db, w)))"
proof -
  have inv: "db_inv db w" "is_open db" using assms(1) by (simp_all add: writable_def)
  obtain db1 q where i: "tsdb_query_init_h (Some db) (Some zero_query) t0 t1 None 0 w = (ESP_OK, Some db1, Some q, w)"
    using quiet_query_init [OF assms(1,4), of None] by auto
  let ?c = "of_nat (length (filter (in_window t0 t1) (db_rows (db, w)))) :: u32"
  have "unat ?c = length (filter (in_window t0 t1) (db_rows (db, w)))"
    using filter_small [OF inv(1), of "in_window t0 t1"] by (simp add: unat_of_nat)
  moreover obtain pl q' where "query_fold (\<lambda>n ts vals. n + 1) 0 db1 q w = (?c, db\<lparr>pool := pl\<rparr>, q')"
    using query_fold_window [OF i inv(1) assms(2,3), where f = "\<lambda>n ts vals. n + 1" and a = "0 :: u32"]
    by (auto simp: records_all [OF assms(5,6)] foldl_count)
  ultimately show ?thesis using inv(2) i by (simp add: tsdb_query_count_h_def)
qed

theorem query_count_correct_witness:
  "\<exists>db w c db'. db_rows (db, w) = [(100, [7])] \<and>
     tsdb_query_count_h (Some db) 100 100 (Some 5) w = (ESP_OK, Some c, Some db', w) \<and> unat c = 1"
proof -
  obtain db w where d: "writable 10 (db, w)" "db_rows (db, w) = [(100, [7])]" "query_pool_ok db" "ascending db w"
    "db_extra_param_count db = 0" "num_params (header db) = 1" by (rule demo_one)
  have "nparams (header db) \<le> 64" by (simp add: d(6))
  from query_count_correct [OF d(1,3,4) _ d(5) this, of 100 100 5] d(2) show ?thesis by auto
qed

text \<open>The value an aggregation stands for, over a column of integers that is not empty.\<close>

fun agg_value :: "agg_type \<Rightarrow> int list \<Rightarrow> int option" where
  "agg_value TSDB_AGG_SUM xs = Some (sum_list xs)"
| "agg_value TSDB_AGG_AVG xs = Some (sum_list xs sdiv int (length xs))"
| "agg_value TSDB_AGG_MIN xs = Some (Min (set xs))"
| "agg_value TSDB_AGG_MAX xs = Some (Max (set xs))"
| "agg_value TSDB_AGG_COUNT xs = Some (int (length xs))"
| "agg_value TSDB_AGG_FIRST xs = Some (hd xs)"
| "agg_value TSDB_AGG_LAST xs = Some (last xs)"
| "agg_value TSDB_AGG_OTHER xs = None"

lemma sum_list_i16: "\<bar>sum_list (map sint (vs :: i16 list))\<bar> \<le> 32768 * int (length vs)"
proof (induction vs)
  case (Cons v vs)
  then show ?case using sint_i16 [of v] by simp
qed simp

lemma ucast_word_of_int: "ucast (word_of_int x :: u64) = (word_of_int x :: u32)"
  by (rule bit_word_eqI) (simp add: bit_simps)

lemma acc_result_fold:
  assumes "vs \<noteq> []" "length vs < 2 ^ 31"
  shows "acc_result t (fst (acc_fold vs)) (snd (acc_fold vs)) =
    map_option word_of_int (agg_value t (map sint vs))"
proof -
  let ?S = "sum_list (map sint vs)"
  have s: "sint (word_of_int ?S :: u64) = ?S"
    using sum_list_i16 [of vs] assms(2) by (intro sint_word_i64) simp_all
  have c: "uint (of_nat (length vs) :: u32) = int (length vs)"
    using assms(2) by (simp add: uint_nat unat_of_nat)
  have "word_of_int (Min (sint ` set vs)) = min_val (fst (acc_fold vs))"
    "word_of_int (Max (sint ` set vs)) = max_val (fst (acc_fold vs))"
    unfolding acc_fold_min [OF assms(1), symmetric] acc_fold_max [OF assms(1), symmetric] by simp_all
  moreover have "first_val (fst (acc_fold vs)) = hd vs" using assms by (intro acc_fold_first) simp_all
  ultimately show ?thesis
    using assms s c
    by (cases t) (simp_all add: acc_result_def acc_fold_sum acc_fold_count acc_fold_last
        hd_map last_map ucast_word_of_int)
qed

text \<open>The column of a base parameter over the records in the window.\<close>

definition window_column :: "tsdb \<Rightarrow> world \<Rightarrow> u32 \<Rightarrow> u32 \<Rightarrow> u8 \<Rightarrow> i16 list" where
  "window_column db w t0 t1 p = map (\<lambda>r. snd r ! unat p) (filter (in_window t0 t1) (db_rows (db, w)))"

lemma aggregate_fold:
  "foldl (\<lambda>a r. (\<lambda>(a, count) ts vals. (acc_step count a (hd vals), count + 1)) a (fst r) (snd r)) (a0, c0)
     (map (\<lambda>r. (fst r, [snd r ! p])) rs) =
   foldl (\<lambda>(a, c) v. (acc_step c a v, c + 1)) (a0, c0) (map (\<lambda>r. snd r ! p) rs)"
  by (induction rs arbitrary: a0 c0) simp_all

text \<open>One pass over the window; of the handle only the pool changes.\<close>

lemma aggregate_run:
  assumes "writable n (db, w)" "query_pool_ok db" "ascending db w" "t0 \<le> t1" "p < num_params (header db)"
  shows "\<exists>pl. tsdb_aggregate_h (Some db) t0 t1 p agg (Some r0) w =
    (let vs = window_column db w t0 t1 p
     in if vs = [] then (ESP_OK, Some 0, Some (db\<lparr>pool := pl\<rparr>), w)
        else (case agg_value agg (map sint vs) of
                Some x \<Rightarrow> (ESP_OK, Some (word_of_int x), Some (db\<lparr>pool := pl\<rparr>), w)
              | None \<Rightarrow> (ESP_ERR_INVALID_ARG, Some r0, Some (db\<lparr>pool := pl\<rparr>), w)))"
proof -
  let ?vs = "window_column db w t0 t1 p"
  have inv: "db_inv db w" "is_open db" using assms(1) by (simp_all add: writable_def)
  obtain db1 q where i: "tsdb_query_init_h (Some db) (Some zero_query) t0 t1 (Some [p]) 1 w =
      (ESP_OK, Some db1, Some q, w)"
    using quiet_query_init [OF assms(1,4), of "Some [p]" 1] by auto
  have rg: "records db (base_query db t0 t1 (Some [p]) 1) w =
      map (\<lambda>r. (fst r, [snd r ! unat p])) (db_rows (db, w))"
    using records_given [of db "[p]" 1 t0 t1 w] assms(5) by simp
  obtain pl q' where f: "query_fold (\<lambda>(a, count) ts vals. (acc_step count a (hd vals), count + 1))
      (acc_init, 0) db1 q w = (acc_fold ?vs, db\<lparr>pool := pl\<rparr>, q')"
    using query_fold_window [OF i inv(1) assms(2,3),
        where f = "\<lambda>(a, count) ts vals. (acc_step count a (hd vals), count + 1)" and a = "(acc_init, 0)"]
    unfolding rg filter_map o_def fst_conv aggregate_fold
    by (auto simp: acc_fold_def window_column_def)
  have len: "length ?vs < 2 ^ 31"
    using filter_small [OF inv(1), of "in_window t0 t1"] by (simp add: window_column_def)
  have cnt: "snd (acc_fold ?vs) = 0 \<longleftrightarrow> ?vs = []"
    using len by (auto simp: acc_fold_count word_unat_eq_iff unat_of_nat)
  have arg: "\<not> unat p \<ge> nparams (header db) + unat (db_extra_param_count db)"
    using assms(5) by (simp add: word_less_nat_alt)
  show ?thesis
  proof (cases "?vs = []")
    case True
    then show ?thesis
      using inv(2) i f arg cnt by (intro exI [of _ pl]) (simp add: tsdb_aggregate_h_def case_prod_beta Let_def)
  next
    case False
    note ar = acc_result_fold [OF False len, of agg]
    show ?thesis
      using inv(2) i f arg cnt ar False
      by (intro exI [of _ pl], cases "agg_value agg (map sint ?vs)") (simp_all add: tsdb_aggregate_h_def case_prod_beta Let_def)
  qed
qed

text \<open>
  C17: \<open>tsdb_aggregate_h\<close> over a base parameter returns the sum (modulo \<open>2 ^ 32\<close>), the average
  rounded towards zero, the minimum, the maximum, the count, the first or the last value of
  the column over the records in the window, 0 when there is none, and an error for an unknown
  aggregation. The 64-bit accumulator never overflows.
\<close>

theorem aggregate_correct:
  assumes "writable n (db, w)" "query_pool_ok db" "ascending db w" "t0 \<le> t1" "p < num_params (header db)"
  shows "\<exists>db'. tsdb_aggregate_h (Some db) t0 t1 p agg (Some r0) w =
    (let vs = window_column db w t0 t1 p
     in if vs = [] then (ESP_OK, Some 0, Some db', w)
        else (case agg_value agg (map sint vs) of
                Some x \<Rightarrow> (ESP_OK, Some (word_of_int x), Some db', w)
              | None \<Rightarrow> (ESP_ERR_INVALID_ARG, Some r0, Some db', w)))"
  using aggregate_run [OF assms, of agg r0] by (auto simp: Let_def split: option.splits)

theorem aggregate_correct_witness:
  "\<exists>db w db'. db_rows (db, w) = [(100, [7])] \<and>
     tsdb_aggregate_h (Some db) 1 200 0 TSDB_AGG_AVG (Some 99) w = (ESP_OK, Some 7, Some db', w)"
proof -
  obtain db w where d: "writable 10 (db, w)" "db_rows (db, w) = [(100, [7])]" "query_pool_ok db" "ascending db w"
    "db_extra_param_count db = 0" "num_params (header db) = 1" by (rule demo_one)
  have "window_column db w 1 200 0 = [7]" by (simp add: window_column_def d(2))
  with aggregate_correct [OF d(1,3,4), of 1 200 0 TSDB_AGG_AVG 99] d(2,6) show ?thesis
    by (auto simp: Let_def)
qed

lemma index_in: "p \<in> set xs \<Longrightarrow> index_in xs p < length xs \<and> xs ! index_in xs p = p"
  by (induction xs) auto

lemma store_upto:
  "store_upto f xs n = (if n \<le> length xs then Some (map f [0..<n] @ drop n xs) else None)"
proof (induction n)
  case (Suc n)
  show ?case
  proof (cases "n < length xs")
    case True
    then have "(map f [0..<n] @ drop n xs)[n := f n] = map f [0..<Suc n] @ drop (Suc n) xs"
      by (simp add: list_update_append Cons_nth_drop_Suc [symmetric])
    with Suc True show ?thesis by simp
  qed (use Suc in auto)
qed simp

lemma unique_params_spec:
  assumes "\<forall>r \<in> set reqs. unat (param_index r) < limit" "length acc + length reqs \<le> TSDB_MAX_PARAMS"
  shows "\<exists>ps. unique_params limit reqs acc = Some (Some ps) \<and> length ps \<le> length acc + length reqs \<and>
    set ps = set acc \<union> param_index ` set reqs"
  using assms
proof (induction reqs arbitrary: acc)
  case (Cons r rs)
  let ?acc = "if param_index r \<in> set acc then acc else acc @ [param_index r]"
  have a: "length ?acc + length rs \<le> TSDB_MAX_PARAMS" using Cons.prems(2) by auto
  from Cons.IH [OF _ a] Cons.prems(1) obtain ps where ps: "unique_params limit rs ?acc = Some (Some ps)"
    "length ps \<le> length ?acc + length rs" "set ps = set ?acc \<union> param_index ` set rs"
    by (meson list.set_intros(2))
  have "length ?acc \<le> Suc (length acc)" "set ?acc = insert (param_index r) (set acc)" by auto
  with ps Cons.prems show ?case by (auto simp: not_le split: if_splits)
qed simp

lemma multi_fold:
  fixes reqs :: "agg_request list"
  assumes "\<forall>r \<in> set reqs. param_index r \<in> set params"
  shows "foldl (\<lambda>a x. multi_step (map (\<lambda>r. index_in params (param_index r)) reqs) a (fst x) (snd x))
      (replicate (length reqs) acc_init, 0)
      (map (\<lambda>x. (fst x, map (\<lambda>p. snd x ! unat p) params)) rs) =
    (map (\<lambda>r. fst (acc_fold (map (\<lambda>x. snd x ! unat (param_index r)) rs))) reqs, of_nat (length rs))"
proof (induction rs rule: rev_induct)
  case Nil
  show ?case by (simp add: acc_fold_def map_replicate_const)
next
  case (snoc x rs)
  let ?vals = "map (\<lambda>p. snd x ! unat p) params" and ?js = "map (\<lambda>r. index_in params (param_index r)) reqs"
  have v: "?vals ! index_in params (param_index r) = snd x ! unat (param_index r)" if "r \<in> set reqs" for r
    using index_in assms that by fastforce
  have "map2 (\<lambda>a j. acc_step (of_nat (length rs)) a (?vals ! j))
      (map (\<lambda>r. fst (acc_fold (map (\<lambda>x. snd x ! unat (param_index r)) rs))) reqs) ?js =
    map (\<lambda>r. fst (acc_fold (map (\<lambda>x. snd x ! unat (param_index r)) (rs @ [x])))) reqs"
    by (rule nth_equalityI) (simp_all add: acc_fold_snoc acc_fold_count v)
  with snoc show ?case by (simp add: multi_step_def)
qed

text \<open>The results of all requests, read off the accumulators.\<close>

lemma multi_results:
  fixes reqs :: "agg_request list"
  assumes "db_inv db w" and rs_def: "rs = filter (in_window t0 t1) (db_rows (db, w))"
  shows "map2 (multi_result (of_nat (length rs)))
      (map (\<lambda>r. fst (acc_fold (window_column db w t0 t1 (param_index r)))) reqs) reqs =
    map (\<lambda>r. r\<lparr>agg_result := (if window_column db w t0 t1 (param_index r) = [] then 0
       else case agg_value (agg_kind r) (map sint (window_column db w t0 t1 (param_index r))) of Some x \<Rightarrow> word_of_int x | None \<Rightarrow> 0)\<rparr>) reqs"
proof -
  let ?col = "\<lambda>r. window_column db w t0 t1 (param_index r)"
  have len: "length rs < 2 ^ 31" unfolding rs_def by (rule filter_small [OF assms(1)])
  have c: "length (?col r) = length rs" for r by (simp add: window_column_def rs_def)
  have res: "(if (of_nat (length rs) :: u32) = 0 then 0
      else case acc_result t (fst (acc_fold (?col r))) (of_nat (length rs)) of Some x \<Rightarrow> x | None \<Rightarrow> 0) =
    (if ?col r = [] then 0
     else case agg_value t (map sint (?col r)) of Some x \<Rightarrow> word_of_int x | None \<Rightarrow> 0)" for r t
  proof (cases "?col r = []")
    case True
    with c [of r] show ?thesis by simp
  next
    case False
    have "acc_result t (fst (acc_fold (?col r))) (of_nat (length rs)) =
        map_option word_of_int (agg_value t (map sint (?col r)))"
      using acc_result_fold [OF False, of t] c [of r] len by (simp add: acc_fold_count)
    moreover have "(of_nat (length rs) :: u32) \<noteq> 0"
      using False c [of r] len by (auto simp: word_unat_eq_iff unat_of_nat)
    ultimately show ?thesis
      using False by (cases "agg_value t (map sint (?col r))") simp_all
  qed
  show ?thesis by (rule nth_equalityI) (simp_all only: length_map length_zip nth_map nth_zip multi_result_def res split_conv min.idem)
qed

text \<open>All requests are served in one pass; of the handle only the pool changes.\<close>

lemma aggregate_multi_run:
  assumes "writable n (db, w)" "query_pool_ok db" "ascending db w" "t0 \<le> t1"
    and "length reqs = unat m" "0 < m" "unat m \<le> TSDB_MAX_PARAMS"
    and "list_all (\<lambda>r. param_index r < num_params (header db)) reqs"
  shows "\<exists>pl. tsdb_aggregate_multi_h (Some db) t0 t1 (Some reqs) m rc w =
    Some (ESP_OK,
      Some (map (\<lambda>r. r\<lparr>agg_result :=
          (let vs = window_column db w t0 t1 (param_index r)
           in if vs = [] then 0
              else case agg_value (agg_kind r) (map sint vs) of Some x \<Rightarrow> word_of_int x | None \<Rightarrow> 0)\<rparr>) reqs),
      map_option (\<lambda>_. of_nat (length (filter (in_window t0 t1) (db_rows (db, w))))) rc, Some (db\<lparr>pool := pl\<rparr>), w)"
proof -
  have m: "length reqs \<le> TSDB_MAX_PARAMS" "m \<noteq> 0" using assms(5-7) by auto
  have inv: "db_inv db w" "is_open db" using assms(1) by (simp_all add: writable_def)
  let ?limit = "nparams (header db) + unat (db_extra_param_count db)"
  have "\<forall>r \<in> set reqs. unat (param_index r) < ?limit"
    using assms(8) by (auto simp: list_all_iff word_less_nat_alt)
  then obtain ps where ps: "unique_params ?limit reqs [] = Some (Some ps)" "length ps \<le> length reqs"
    "set ps = param_index ` set reqs"
    using unique_params_spec [of reqs ?limit "[]"] m by auto
  have n: "unat (of_nat (length ps) :: u8) = length ps"
    using ps(2) m by (simp add: unat_of_nat)
  obtain db1 q where i: "tsdb_query_init_h (Some db) (Some zero_query) t0 t1 (Some ps) (of_nat (length ps)) w =
      (ESP_OK, Some db1, Some q, w)"
    using quiet_query_init [OF assms(1,4), of "Some ps" "of_nat (length ps)"] n ps(2) m by auto
  have "list_all (\<lambda>p. p < num_params (header db)) ps"
    using ps(3) assms(8) by (auto simp: list_all_iff)
  then have rg: "records db (base_query db t0 t1 (Some ps) (of_nat (length ps))) w =
      map (\<lambda>x. (fst x, map (\<lambda>p. snd x ! unat p) ps)) (db_rows (db, w))"
    using n ps(2) m by (intro records_given) simp_all
  let ?rs = "filter (in_window t0 t1) (db_rows (db, w))"
  let ?col = "\<lambda>r. window_column db w t0 t1 (param_index r)"
  have mem: "\<forall>r \<in> set reqs. param_index r \<in> set ps" using ps(3) by simp
  let ?js = "map (\<lambda>r. index_in ps (param_index r)) reqs"
  obtain pl q' where f: "query_fold (multi_step ?js) (replicate (length reqs) acc_init, 0) db1 q w =
      ((map (\<lambda>r. fst (acc_fold (?col r))) reqs, of_nat (length ?rs)), db\<lparr>pool := pl\<rparr>, q')"
    using query_fold_window [OF i inv(1) assms(2,3), where f = "multi_step ?js" and a = "(replicate (length reqs) acc_init, 0)"]
    unfolding rg filter_map o_def fst_conv multi_fold [OF mem] window_column_def by auto
  have js: "map (\<lambda>i. index_in ps (param_index (reqs ! i))) [0..<length reqs] = ?js"
    by (rule nth_equalityI) simp_all
  have rep: "map (\<lambda>_. acc_init) [0..<length reqs] = replicate (length reqs) acc_init"
    by (simp add: map_replicate_const)
  note map2 = multi_results [OF inv(1) refl, of t0 t1 reqs]
  show ?thesis
    using inv(2) m ps(1,2) i f map2 unfolding tsdb_aggregate_multi_h_def assms(5) [symmetric]
    by (intro exI [of _ pl], cases rc) (simp_all add: store_upto js rep Let_def)
qed

text \<open>
  C18: For up to 64 requests on base parameters \<open>tsdb_aggregate_multi_h\<close> gives every request, in
  one pass, the result of the single aggregation of its parameter over the window (0 for an
  empty window or an unknown aggregation), and the number of records scanned.
\<close>

theorem aggregate_multi_correct:
  assumes "writable n (db, w)" "query_pool_ok db" "ascending db w" "t0 \<le> t1"
    and "length reqs = unat m" "0 < m" "unat m \<le> TSDB_MAX_PARAMS"
    and "list_all (\<lambda>r. param_index r < num_params (header db)) reqs"
  shows "\<exists>db'. tsdb_aggregate_multi_h (Some db) t0 t1 (Some reqs) m rc w =
    Some (ESP_OK,
      Some (map (\<lambda>r. r\<lparr>agg_result :=
          (let vs = window_column db w t0 t1 (param_index r)
           in if vs = [] then 0
              else case agg_value (agg_kind r) (map sint vs) of Some x \<Rightarrow> word_of_int x | None \<Rightarrow> 0)\<rparr>) reqs),
      map_option (\<lambda>_. of_nat (length (filter (in_window t0 t1) (db_rows (db, w))))) rc, Some db', w)"
  using aggregate_multi_run [OF assms] by blast

theorem aggregate_multi_correct_witness:
  "\<exists>db w db'. db_rows (db, w) = [(100, [7])] \<and>
     tsdb_aggregate_multi_h (Some db) 1 200
       (Some [\<lparr>param_index = 0, agg_kind = TSDB_AGG_SUM, agg_result = 0\<rparr>]) 1 (Some 0) w =
     Some (ESP_OK, Some [\<lparr>param_index = 0, agg_kind = TSDB_AGG_SUM, agg_result = 7\<rparr>], Some 1, Some db', w)"
proof -
  obtain db w where d: "writable 10 (db, w)" "db_rows (db, w) = [(100, [7])]" "query_pool_ok db" "ascending db w"
    "db_extra_param_count db = 0" "num_params (header db) = 1" by (rule demo_one)
  have "window_column db w 1 200 0 = [7]" by (simp add: window_column_def d(2))
  with aggregate_multi_correct [OF d(1,3,4), of 1 200
      "[\<lparr>param_index = 0, agg_kind = TSDB_AGG_SUM, agg_result = 0\<rparr>]" 1 "Some 0"] d(2,6)
  show ?thesis by (auto simp: Let_def)
qed

text \<open>
  \<open>tsdb_aggregate_multi_h\<close> keeps its accumulators in arrays of 64 elements but accepts up to 255
  requests: with more than 64 valid requests on a database whose query opens, it stores
  beyond the arrays.
\<close>

theorem aggregate_multi_overruns:
  assumes "writable n (db, w)" "t0 \<le> t1" "unat m > TSDB_MAX_PARAMS" "length reqs = unat m"
    and "unique_params (nparams (header db) + unat (db_extra_param_count db)) reqs [] = Some (Some params)"
    and "length params \<le> TSDB_MAX_PARAMS"
  shows "tsdb_aggregate_multi_h (Some db) t0 t1 (Some reqs) m rc w = None"
proof -
  have op: "is_open db" using assms(1) by (simp add: writable_def)
  have m: "\<not> unat m \<le> 64" "m \<noteq> 0" using assms(3) by auto
  have "unat (of_nat (length params) :: u8) \<le> TSDB_MAX_PARAMS"
    using assms(6) by (simp add: unat_of_nat)
  then obtain db1 q where "tsdb_query_init_h (Some db) (Some zero_query) t0 t1 (Some params)
      (of_nat (length params)) w = (ESP_OK, Some db1, Some q, w)"
    using quiet_query_init [OF assms(1,2), of "Some params"] by auto
  with op m assms(4,5) show ?thesis by (simp add: tsdb_aggregate_multi_h_def store_upto)
qed

theorem aggregate_multi_overruns_witness:
  "\<exists>db w. db_rows (db, w) = [(100, [7])] \<and>
     tsdb_aggregate_multi_h (Some db) 1 200
       (Some (replicate 65 \<lparr>param_index = 0, agg_kind = TSDB_AGG_MAX, agg_result = 0\<rparr>)) 65 None w = None"
proof -
  obtain db w where d: "writable 10 (db, w)" "db_rows (db, w) = [(100, [7])]" "query_pool_ok db" "ascending db w"
    "db_extra_param_count db = 0" "num_params (header db) = 1" by (rule demo_one)
  let ?r = "\<lparr>param_index = 0, agg_kind = TSDB_AGG_MAX, agg_result = 0\<rparr>"
  have "unique_params 1 (replicate m ?r) [0] = Some (Some [0])" for m
    by (induction m) simp_all
  then have "unique_params 1 (?r # replicate 64 ?r) [] = Some (Some [0])" by simp
  then have "unique_params (nparams (header db) + unat (db_extra_param_count db)) (replicate 65 ?r) [] = Some (Some [0])"
    by (simp add: d(5,6) flip: replicate_Suc)
  from aggregate_multi_overruns [OF d(1) _ _ _ this, of 1 200 65] d(2) show ?thesis by auto
qed

end
