(* ===== verification/Tsdb_Recovery.thy ===== *)
theory Tsdb_Recovery
  imports Tsdb_Open
begin

text \<open>
  What survives a crash: the handle is lost, the file system stays, and \<open>tsdb_open\<close> is called
  again. The theory states the contract as a locale (a queue of records with a recovery
  operation), interprets it on \<open>tsdb_write_h\<close> and \<open>tsdb_open\<close>, and derives that any number of
  crashes between acknowledged writes loses nothing, as long as the sanity check accepts
  the record counter. The last sections cover what happens when it does not, the recovery of
  an interrupted migration, the conversion of blocks of layout V2 and the reconstruction
  of a header.
\<close>

section \<open>Adopting the sidecar\<close>

lemma judge_ok:
  assumes "judge_header (ESP_OK, Some h) = HeaderUsable"
  shows "magic h = TSDB_MAGIC" "version h \<noteq> 99" "tsdb_header_is_sane h"
  using assms by (auto simp: judge_header_def split: if_splits)

lemma crash_inv_header:
  assumes "crash_inv db w" "db_file db = Some (filepath db)"
  obtains h0 where "tsdb_read_header (Some (filepath db)) w = (ESP_OK, Some h0)"
    "judge_header (ESP_OK, Some h0) = HeaderUsable" "config_part h0 = config_part (header db)"
    "total_records h0 \<le> total_records (header db)"
    "stored_header w (filepath db) (param_names h0) = Some (header db) \<or>
     stored_header w (filepath db) (param_names h0) = None \<and> h0 = header db"
  using assms by (auto simp: crash_inv_def split: prod.splits esp_err.splits option.splits)

text \<open>The bookkeeping that loading establishes, in the terms of the handle that was lost.\<close>

lemma side_inv_max_seq:
  assumes "side_inv db w"
  shows "max (case newest_legacy w (filepath db) of None \<Rightarrow> 0 | Some (_, s, _) \<Rightarrow> s)
     (case newest_compact w (filepath db) of None \<Rightarrow> 0 | Some (_, s, _) \<Rightarrow> s) \<le> sidecar_seq db"
  using assms by (auto simp: side_inv_def newest_is_def split: option.splits intro: order_trans)

lemma load_after_crash:
  assumes "quiet w" "side_inv db w" "filepath db0 = filepath db"
  obtains db1 where "tsdb_sidecar_load db0 base w =
      (if stored_header w (filepath db) (param_names base) = None then ESP_ERR_NOT_FOUND else ESP_OK,
       stored_header w (filepath db) (param_names base), db1, w)"
    "\<exists>a b c d e. db1 = db0\<lparr>sidecar_seq := a, legacy_seq := b, legacy_slot := c, sidecar_slot := d,
        legacy_mirrored := e\<rparr>"
    "side_inv db1 w" "sidecar_seq db1 \<le> sidecar_seq db"
proof -
  note q = quiet_sidecar_load [OF assms(1), of db0 base, unfolded assms(3) Let_def]
  define db1 where "db1 = fst (snd (snd (tsdb_sidecar_load db0 base w)))"
  have l: "tsdb_sidecar_load db0 base w =
      (if stored_header w (filepath db) (param_names base) = None then ESP_ERR_NOT_FOUND else ESP_OK,
       stored_header w (filepath db) (param_names base), db1, w)"
    unfolding db1_def q by simp
  have "sidecar_seq db1 = max (case newest_legacy w (filepath db) of None \<Rightarrow> 0 | Some (_, s, _) \<Rightarrow> s)
     (case newest_compact w (filepath db) of None \<Rightarrow> 0 | Some (_, s, _) \<Rightarrow> s)"
    by (simp add: db1_def q)
  then have seq: "sidecar_seq db1 \<le> sidecar_seq db" using side_inv_max_seq [OF assms(2)] by simp
  have "sidecar_seq db1 < 0xFFFFFFFF"
    by (rule le_less_trans [OF seq]) (use assms(2) in \<open>simp add: side_inv_def\<close>)
  moreover have "case newest_compact w (filepath db0) of None \<Rightarrow> True | Some (_, q, l, _) \<Rightarrow> l \<le> q"
    using assms(2,3) by (simp add: side_inv_def)
  ultimately have "side_inv db1 w" by (rule sidecar_load_side_inv [OF assms(1) l])
  moreover have "\<exists>a b c d e. db1 = db0\<lparr>sidecar_seq := a, legacy_seq := b, legacy_slot := c, sidecar_slot := d,
        legacy_mirrored := e\<rparr>"
    unfolding db1_def q snd_conv fst_conv by blast
  ultimately show ?thesis using that [of db1] l seq by blast
qed

text \<open>Adopting the sidecar restores the header of the lost handle.\<close>

lemma adopt_restores:
  assumes "quiet w" "crash_inv db w" "db_file db = Some (filepath db)" "counters_pass (header db)"
    and "filepath db0 = filepath db" "tsdb_read_header (Some (filepath db)) w = (ESP_OK, Some h0)"
  obtains db1 i where "adopt_sidecar (db0\<lparr>header := h0\<rparr>) w = (db1\<lparr>header := header db, index_stale := i\<rparr>, w)"
    "\<exists>a b c d e. db1 = db0\<lparr>header := h0, sidecar_seq := a, legacy_seq := b, legacy_slot := c, sidecar_slot := d,
        legacy_mirrored := e\<rparr>"
    "side_inv db1 w" "sidecar_seq db1 \<le> sidecar_seq db"
proof -
  let ?p = "filepath db" and ?h = "header db" and ?st = "stored_header w (filepath db) (param_names h0)"
  have h0: "judge_header (ESP_OK, Some h0) = HeaderUsable" "config_part h0 = config_part ?h"
    "total_records h0 \<le> total_records ?h" and st: "?st = Some ?h \<or> ?st = None \<and> h0 = ?h"
    using crash_inv_header [OF assms(2,3)] assms(6) by (metis option.inject prod.inject)+
  note f = config_part_fields [OF h0(2)] and u = judge_ok [OF h0(1)]
  have sane: "tsdb_header_is_sane ?h" by (rule sane_config [OF h0(2) u(3) assms(4)])
  have wins: "sidecar_wins h0 ?h" using h0 sane f u by (simp add: sidecar_wins_def)
  have si: "side_inv db w" "filepath (db0\<lparr>header := h0\<rparr>) = filepath db" using assms(2,5) by (simp_all add: crash_inv_def)
  obtain db1 where l: "tsdb_sidecar_load (db0\<lparr>header := h0\<rparr>) h0 w =
      (if ?st = None then ESP_ERR_NOT_FOUND else ESP_OK, ?st, db1, w)"
    and db1: "\<exists>a b c d e. db1 = db0\<lparr>header := h0, sidecar_seq := a, legacy_seq := b, legacy_slot := c,
        sidecar_slot := d, legacy_mirrored := e\<rparr>" "side_inv db1 w" "sidecar_seq db1 \<le> sidecar_seq db"
    using load_after_crash [OF assms(1) si, of h0] by blast
  have h1: "header db1 = h0" using db1(1) by auto
  from st show ?thesis
  proof
    assume "?st = Some ?h"
    with l wins h1 have "adopt_sidecar (db0\<lparr>header := h0\<rparr>) w = (db1\<lparr>header := ?h, index_stale := True\<rparr>, w)"
      by (simp add: adopt_sidecar_def)
    from that [OF this db1] show ?thesis .
  next
    assume "?st = None \<and> h0 = ?h"
    then have a: "stored_header w ?p (param_names ?h) = None" "h0 = ?h" by auto
    then have "adopt_sidecar (db0\<lparr>header := h0\<rparr>) w = (db1, w)"
      using l by (simp add: adopt_sidecar_def)
    moreover have "db1 = db1\<lparr>header := ?h, index_stale := index_stale db1\<rparr>" using a h1 by simp
    ultimately have "adopt_sidecar (db0\<lparr>header := h0\<rparr>) w = (db1\<lparr>header := ?h, index_stale := index_stale db1\<rparr>, w)"
      by simp
    from that [OF this db1] show ?thesis .
  qed
qed

section \<open>Reopening\<close>

text \<open>
  A database that a crash does not hurt: \<open>n\<close> more records fit, the stored header is current,
  and the configuration it will be opened with again is the one of its file. The adaptive
  capacity and the overflow region rewrite the header in place and are left out here.
\<close>

definition recoverable :: "tsdb_config \<Rightarrow> nat \<Rightarrow> tsdb \<times> world \<Rightarrow> bool" where
  "recoverable cfg n s \<longleftrightarrow>
     (let (db, w) = s; h = header db
      in writable n s \<and> crash_inv db w \<and> \<not> has_free_space_cb db \<and> \<not> cfg_free_space_cb cfg \<and>
         db_extra_param_count db = 0 \<and> unat (sidecar_seq db) + n < 0xFFFFFFFE \<and>
         cfg_filepath cfg = Some (filepath db) \<and> length (filepath db) \<le> 127 \<and>
         fs w (mig_path (filepath db)) = None \<and> pool_available cfg w \<and>
         num_params h = cfg_num_params cfg \<and> extra_param_count h = 0 \<and> base_params h \<noteq> 0 \<and> \<not> version h < 3)"

text \<open>The process restarts and opens the database with the same configuration.\<close>

definition crash_reopen :: "tsdb_config \<Rightarrow> tsdb \<times> world \<Rightarrow> tsdb \<times> world" where
  "crash_reopen cfg s =
     (case tsdb_open_handle cfg (zero_tsdb 0) (snd s) of
        (Opened db, w) \<Rightarrow> (db, w)
      | (_, w) \<Rightarrow> (fst s, w))"

lemma quiet_pool_available:
  assumes "quiet w" "quiet w'"
  shows "pool_available cfg w = pool_available cfg w'"
proof -
  have "fst (alloc_pages caps n i pl w) = ESP_OK" "fst (alloc_pages caps n i pl w') = ESP_OK" for caps n i pl
    using quiet_alloc_pages [OF assms(1), of caps n i pl] quiet_alloc_pages [OF assms(2), of caps n i pl] by auto
  with assms show ?thesis
    by (simp add: pool_available_def tsdb_alloc_buffer_pool_def Let_def heap_alloc_def quiet_next case_prod_beta)
qed

text \<open>The path of \<open>tsdb_open\<close> through an existing file with a usable header.\<close>

lemma open_existing_file:
  assumes "quiet w" "cfg_filepath cfg = Some p" "pool_available cfg w" "fs w (mig_path p) = None" "length p \<le> 127"
    and "tsdb_read_header (Some p) w = (ESP_OK, Some h0)" "judge_header (ESP_OK, Some h0) = HeaderUsable"
    and "num_params h = cfg_num_params cfg" "extra_param_count h = 0" "base_params h \<noteq> 0" "\<not> version h < 3"
  obtains pl where "\<And>db2. adopt_sidecar ((start_db cfg g pl p)\<lparr>db_file := Some p, header := h0\<rparr>) w = (db2, w) \<Longrightarrow>
    config_part (header db2) = config_part h \<Longrightarrow>
    tsdb_open_handle cfg (zero_tsdb g) w = (Opened (db2\<lparr>filepath := p, is_open := True\<rparr>), w)"
proof -
  obtain pl where o1: "tsdb_open_handle cfg (zero_tsdb g) w = finish_open p (open_file cfg p (start_db cfg g pl p) w)"
    using quiet_open_handle [OF assms(1-4)] by blast
  let ?db0 = "(start_db cfg g pl p)\<lparr>db_file := Some p\<rparr>"
  have ex: "fs w p \<noteq> None"
    using assms(6) by (auto simp: tsdb_read_header_def fread_at_def content_def split: option.splits)
  show ?thesis
  proof (rule that)
    fix db2
    assume ad: "adopt_sidecar ((start_db cfg g pl p)\<lparr>db_file := Some p, header := h0\<rparr>) w = (db2, w)"
      and "config_part (header db2) = config_part h"
    note c = config_part_fields [OF this(2)]
    have "open_header cfg p ?db0 w = (Opened db2, w)"
      using assms(6,7) ad by (simp add: open_header_def Let_def)
    moreover have "open_settled cfg p db2 w = (Opened db2, w)"
      using assms(8-11) c by (simp add: open_settled_def load_overflow_state_def Let_def)
    ultimately have "open_existing cfg p ?db0 w = (Opened db2, w)" by (simp add: open_existing_def)
    then show "tsdb_open_handle cfg (zero_tsdb g) w = (Opened (db2\<lparr>filepath := p, is_open := True\<rparr>), w)"
      using o1 assms(1,5) ex by (simp add: open_file_def quiet_fopen finish_open_def)
  qed
qed

lemma open_adopting:
  assumes "recoverable cfg n (db, w)" "tsdb_read_header (Some (filepath db)) w = (ESP_OK, Some h0)"
    and "judge_header (ESP_OK, Some h0) = HeaderUsable"
  obtains pl where "\<And>db2. adopt_sidecar ((start_db cfg g pl (filepath db))\<lparr>db_file := Some (filepath db), header := h0\<rparr>) w = (db2, w) \<Longrightarrow>
    config_part (header db2) = config_part (header db) \<Longrightarrow>
    tsdb_open_handle cfg (zero_tsdb g) w = (Opened (db2\<lparr>filepath := filepath db, is_open := True\<rparr>), w)"
proof -
  note r = assms(1) [unfolded recoverable_def writable_def Let_def prod.case]
  show ?thesis by (rule open_existing_file [OF _ _ _ _ _ assms(2,3), of cfg "header db" g]) (use r that in auto)
qed

lemma reopen:
  assumes "recoverable cfg n (db, w)" "counters_pass (header db)"
  shows "\<exists>db'. tsdb_open_handle cfg (zero_tsdb g) w = (Opened db', w) \<and> header db' = header db \<and>
    filepath db' = filepath db \<and> db_extra_param_count db' = 0 \<and> generation db' = g \<and> recoverable cfg n (db', w)"
proof -
  let ?p = "filepath db" and ?h = "header db"
  note r = assms(1) [unfolded recoverable_def Let_def prod.case]
  have q: "quiet w" "db_inv db w" "room_for n db" and ci: "crash_inv db w" and p: "length ?p \<le> 127"
    using r by (auto simp: writable_def)
  have f: "db_file db = Some ?p" using q(2) by (simp add: db_inv_def)
  obtain h0 where h0: "tsdb_read_header (Some ?p) w = (ESP_OK, Some h0)" "judge_header (ESP_OK, Some h0) = HeaderUsable"
    "config_part h0 = config_part ?h" "total_records h0 \<le> total_records ?h"
    "stored_header w ?p (param_names h0) = Some ?h \<or> stored_header w ?p (param_names h0) = None \<and> h0 = ?h"
    by (rule crash_inv_header [OF ci f])
  obtain pl where run: "\<And>db2. adopt_sidecar ((start_db cfg g pl ?p)\<lparr>db_file := Some ?p, header := h0\<rparr>) w = (db2, w) \<Longrightarrow>
    config_part (header db2) = config_part ?h \<Longrightarrow>
    tsdb_open_handle cfg (zero_tsdb g) w = (Opened (db2\<lparr>filepath := ?p, is_open := True\<rparr>), w)"
    by (rule open_adopting [OF assms(1) h0(1,2)]) blast
  define db0 where "db0 = (start_db cfg g pl ?p)\<lparr>db_file := Some ?p\<rparr>"
  have fp: "filepath db0 = ?p" using p by (simp add: db0_def start_db_def)
  obtain db1 i where ad: "adopt_sidecar (db0\<lparr>header := h0\<rparr>) w = (db1\<lparr>header := ?h, index_stale := i\<rparr>, w)"
    and db1: "\<exists>a b c d e. db1 = db0\<lparr>header := h0, sidecar_seq := a, legacy_seq := b, legacy_slot := c, sidecar_slot := d,
        legacy_mirrored := e\<rparr>" "side_inv db1 w" "sidecar_seq db1 \<le> sidecar_seq db"
    by (rule adopt_restores [OF q(1) ci f assms(2) fp h0(1)])
  define db3 where "db3 = db1\<lparr>header := ?h, index_stale := i, filepath := ?p, is_open := True\<rparr>"
  have o1: "tsdb_open_handle cfg (zero_tsdb g) w = (Opened db3, w)"
    using run [OF ad [unfolded db0_def, simplified]] by (simp add: db3_def)
  have new: "header db3 = ?h" "filepath db3 = ?p" "db_file db3 = Some ?p" "db_extra_param_count db3 = 0" "is_open db3"
    "\<not> migrating db3" "\<not> closing db3" "has_free_space_cb db3 = cfg_free_space_cb cfg" "\<not> side_dir_ready db3"
    "sidecar_seq db3 = sidecar_seq db1" "generation db3 = g"
    using db1(1) by (auto simp: db3_def db0_def start_db_def partition_pool_def zero_tsdb_def)
  have "db_inv db3 w" using q(2) new by (simp add: db_inv_def ovf_clear_def)
  moreover have "room_for n db3" using q(3) new by (simp add: room_for_def Let_def)
  moreover have "side_inv db3 w" using db1(2) fp db1(1)
    by (auto simp: db3_def side_inv_def split: option.splits)
  moreover have "side_dirs db3 w" using ci new by (simp add: crash_inv_def side_dirs_def)
  moreover have "unat (sidecar_seq db3) \<le> unat (sidecar_seq db)" using db1(3) new by (simp add: word_le_nat_alt)
  ultimately have "recoverable cfg n (db3, w)"
    using r new q h0 by (simp add: recoverable_def writable_def crash_inv_def)
  with o1 new show ?thesis by blast
qed

section \<open>Writes keep the database recoverable\<close>

lemma mig_path_apart:
  assumes "length p \<le> 127"
  shows "mig_path p \<noteq> p" "mig_path p \<notin> side_files p"
  using assms
  by (auto simp: mig_path_def side_files_def tsdb_side_path_def tsdb_legacy_path_def slot_digit_def)

lemma quiet_write_fs:
  assumes "quiet w" "\<not> has_free_space_cb db" "db_extra_param_count db = 0" "db_file db = Some (filepath db)"
    and "write_locked db ts vals w = (r, db', w')" "q \<noteq> filepath db" "q \<notin> side_files (filepath db)"
  shows "fs w' q = fs w q"
proof -
  let ?p = "filepath db"
  obtain pl c where "write_locked db ts vals w =
    finish_write (evicted db pl) (next_record_idx (header db)) (next_is_eviction (header db)) ts vals (put_file w ?p c)"
    using quiet_write_run [OF assms(1,2,4)] by metis
  with assms(5) have fin: "finish_write (evicted db pl) (next_record_idx (header db)) (next_is_eviction (header db)) ts vals
      (put_file w ?p c) = (r, db', w')" by simp
  let ?db = "evicted db pl" and ?ri = "next_record_idx (header db)"
  let ?dbm = "mark_index (advance_header ?db ?ri (next_is_eviction (header db)) ts (put_file w ?p c)) ?ri"
  have wo: "write_overflow ?db vals (put_file w ?p c) = put_file w ?p c"
    using assms(3) by (simp add: write_overflow_def evicted_def)
  obtain rs db3 where "tsdb_sidecar_write ?dbm (put_file w ?p c) = (rs, db3, w')"
    using fin by (auto simp: finish_write_def Let_def wo split: prod.splits)
  moreover have "filepath ?dbm = ?p"
    using advance_header_form [of ?db ?ri "next_is_eviction (header db)" ts "put_file w ?p c"]
    by (auto simp: mark_index_def Let_def evicted_def)
  ultimately have "fs w' q = fs (put_file w ?p c) q" using sidecar_write_fs assms(7) by metis
  with assms(6) show ?thesis by simp
qed

lemma recoverable_put:
  assumes "recoverable cfg (Suc n) (db, w)" "entry_fits (db, w) x"
  shows "recoverable cfg n (db_put (db, w) x)" "config_part (header (fst (db_put (db, w) x))) = config_part (header db)"
proof -
  obtain ts vals where x: "x = (ts, vals)" by fastforce
  note r = assms(1) [unfolded recoverable_def Let_def prod.case]
  have wr: "writable (Suc n) (db, w)" and ci: "crash_inv db w" and c: "\<not> has_free_space_cb db" "db_extra_param_count db = 0"
    and seq: "unat (sidecar_seq db) + Suc n < 0xFFFFFFFE" using r by auto
  have s1: "unat (sidecar_seq db + 1) = unat (sidecar_seq db) + 1"
    using seq by (subst unat_inc_no_wrap) simp_all
  then have sq: "sidecar_seq db + 1 < 0xFFFFFFFF" using seq by (simp add: word_less_nat_alt)
  have q: "quiet w" "db_file db = Some (filepath db)" using wr by (auto simp: writable_def db_inv_def)
  obtain db' w' where p: "db_put (db, w) (ts, vals) = (db', w')" "crash_inv db' w'" "writable n (db', w')"
    "\<not> has_free_space_cb db'" "db_extra_param_count db' = 0" "same_frame db db'"
    "config_part (header db') = config_part (header db)" "sidecar_seq db' = sidecar_seq db + 1"
    by (rule crash_inv_write [OF ci wr assms(2) [unfolded x] c sq])
  obtain db1 w1 where h: "tsdb_write_h (Some db) (fst x) (Some (snd x)) w = (ESP_OK, Some db1, w1)" "db_put (db, w) x = (db1, w1)"
    by (rule db_put_stored [OF wr assms(2)])
  have v: "is_open db" "\<not> migrating db" "\<not> closing db" using wr by (simp_all add: writable_def)
  obtain r2 db2 w2 where l: "write_locked db ts vals w = (r2, db2, w2)" by (metis prod_cases3)
  have wl: "write_locked db ts vals w = (ESP_OK, db', w')"
    using h p(1) l by (simp add: x write_h_open [OF v q(1)])
  have "fs w' (mig_path (filepath db)) = fs w (mig_path (filepath db))"
    using r by (intro quiet_write_fs [OF q(1) c q(2) wl] mig_path_apart) auto
  moreover have "pool_available cfg w'"
    using r quiet_pool_available [OF q(1), of w' cfg] p(3) by (simp add: writable_def)
  moreover have "filepath db' = filepath db" using p(6) by (simp add: same_frame_def)
  moreover note config_part_fields [OF p(7)]
  ultimately show "recoverable cfg n (db_put (db, w) x)" "config_part (header (fst (db_put (db, w) x))) = config_part (header db)"
    using r p seq s1 by (simp_all add: x recoverable_def)
qed

section \<open>The contract: a queue that survives crashes\<close>

datatype 'i event = Put 'i | Crash

fun history :: "('s \<Rightarrow> 'i \<Rightarrow> 's) \<Rightarrow> ('s \<Rightarrow> 's) \<Rightarrow> 'i event list \<Rightarrow> 's \<Rightarrow> 's" where
  "history put rec [] s = s"
| "history put rec (Put x # es) s = history put rec es (put s x)"
| "history put rec (Crash # es) s = history put rec es (rec s)"

fun writes :: "'i event list \<Rightarrow> 'i list" where
  "writes [] = []"
| "writes (Put x # es) = x # writes es"
| "writes (Crash # es) = writes es"

locale durable_queue = record_queue inv fits row_of limit rows put
  for inv :: "nat \<Rightarrow> 's \<Rightarrow> bool" and fits :: "'s \<Rightarrow> 'i \<Rightarrow> bool" and row_of :: "'s \<Rightarrow> 'i \<Rightarrow> 'r"
    and limit rows put +
  fixes recover :: "'s \<Rightarrow> 's"
  assumes recover_inv: "inv n s \<Longrightarrow> inv n (recover s)"
    and recover_rows: "inv n s \<Longrightarrow> rows (recover s) = rows s"
    and recover_fits: "inv n s \<Longrightarrow> fits (recover s) = fits s"
    and recover_row_of: "inv n s \<Longrightarrow> row_of (recover s) = row_of s"
    and recover_limit: "inv n s \<Longrightarrow> limit (recover s) = limit s"
    and keeps_limit: "inv (Suc n) s \<Longrightarrow> fits s x \<Longrightarrow> limit (put s x) = limit s"
begin

text \<open>Crashes are invisible: the records are those of the writes alone.\<close>

lemma history_rows:
  "inv (length (writes es) + n) s \<Longrightarrow> list_all (fits s) (writes es) \<Longrightarrow>
   rows (history put recover es s) = within (limit s) (rows s @ map (row_of s) (writes es)) \<and>
   inv n (history put recover es s)"
proof (induction es arbitrary: s)
  case Nil
  then show ?case by (simp add: rows_within)
next
  case (Cons e es)
  show ?case
  proof (cases e)
    case (Put x)
    then have i: "inv (Suc (length (writes es) + n)) s" "fits s x" using Cons.prems by simp_all
    have j: "inv (length (writes es) + n) (put s x)" "list_all (fits (put s x)) (writes es)"
      using Put Cons.prems put_inv [OF i] put_fits [OF i] by simp_all
    show ?thesis
      using Cons.IH [OF j] Put put_rows [OF i] put_row_of [OF i] keeps_limit [OF i]
        within_append [OF limit_le_refl, of "limit s" "rows s @ [row_of s x]" "map (row_of s) (writes es)"]
      by simp
  next
    case Crash
    then have i: "inv (length (writes es) + n) s" using Cons.prems by simp
    have j: "list_all (fits (recover s)) (writes es)" using Crash Cons.prems recover_fits [OF i] by simp
    show ?thesis
      using Cons.IH [OF recover_inv [OF i] j] Crash recover_rows [OF i] recover_row_of [OF i] recover_limit [OF i]
      by simp
  qed
qed

end

text \<open>
  The handle, its file and its sidecar implement the contract while the record counter stays
  within twice the capacity, which is what the sanity check accepts.
\<close>

definition crash_safe :: "tsdb_config \<Rightarrow> nat \<Rightarrow> tsdb \<times> world \<Rightarrow> bool" where
  "crash_safe cfg n s \<longleftrightarrow> recoverable cfg n s \<and>
     (let h = header (fst s) in max_records h = 0 \<or> nrec h + n \<le> 2 * cap h)"

lemma sane_max_records: "tsdb_header_is_sane h \<Longrightarrow> max_records h \<le> 100000000"
  by (simp add: tsdb_header_is_sane_def Let_def not_less split: if_splits)

lemma crash_safe_passes:
  assumes "crash_safe cfg n (db, w)"
  shows "counters_pass (header db)"
proof -
  note r = assms [unfolded crash_safe_def recoverable_def Let_def prod.case fst_conv]
  have f: "db_file db = Some (filepath db)" using r by (simp add: writable_def db_inv_def)
  have ci: "crash_inv db w" using r by simp
  obtain h0 where h0: "judge_header (ESP_OK, Some h0) = HeaderUsable" "config_part h0 = config_part (header db)"
    by (rule crash_inv_header [OF ci f])
  have "max_records (header db) \<le> 100000000"
    using sane_max_records [OF judge_ok(3) [OF h0(1)]] config_part_fields(7) [OF h0(2)] by simp
  then have "unat (max_records (header db) * 2) = 2 * cap (header db)"
    by (subst unat_mult_no_wrap) (simp_all add: word_le_nat_alt)
  with r show ?thesis by (auto simp: counters_pass_def word_le_nat_alt)
qed

lemma crash_reopen_safe:
  assumes "crash_safe cfg n (db, w)"
  obtains db' where "crash_reopen cfg (db, w) = (db', w)" "crash_safe cfg n (db', w)" "header db' = header db"
    "filepath db' = filepath db" "db_extra_param_count db' = db_extra_param_count db"
proof -
  have r: "recoverable cfg n (db, w)" using assms by (simp add: crash_safe_def)
  from reopen [OF this crash_safe_passes [OF assms], of 0] obtain db' where
    o1: "tsdb_open_handle cfg (zero_tsdb 0) w = (Opened db', w)" "header db' = header db"
    "filepath db' = filepath db" "db_extra_param_count db' = 0" "recoverable cfg n (db', w)" by blast
  moreover have "db_extra_param_count db = 0" using r by (simp add: recoverable_def Let_def)
  ultimately show ?thesis
    using assms by (intro that [of db']) (simp_all add: crash_reopen_def crash_safe_def)
qed

interpretation durable_db: durable_queue "crash_safe cfg" entry_fits entry_row "\<lambda>s. limit_of (header (fst s))"
  db_rows db_put "crash_reopen cfg" for cfg
proof
  fix n :: nat and s :: "tsdb \<times> world" and x :: "u32 \<times> i16 list"
  obtain db w where s: "s = (db, w)" by fastforce
  {
    assume a: "crash_safe cfg (Suc n) s" "entry_fits s x"
    then have r: "recoverable cfg (Suc n) (db, w)" and wr: "writable (Suc n) s" and fit: "entry_fits (db, w) x"
      by (auto simp: crash_safe_def recoverable_def s Let_def)
    note p = recoverable_put [OF r fit]
    obtain db' w' where put: "db_put (db, w) x = (db', w')" by fastforce
    have m: "max_records (header db') = max_records (header db)"
      using config_part_fields(7) [OF p(2)] put by simp
    show "limit_of (header (fst (db_put s x))) = limit_of (header (fst s))"
      using m put s by (simp add: limit_of_def)
    have "nrec (header db') = nrec (header db) + 1"
      using db_put_stored [OF wr [unfolded s] fit] put by (metis prod.inject stored_def)
    with a(1) m p(1) put s show "crash_safe cfg n (db_put s x)"
      by (auto simp: crash_safe_def)
    show "entry_fits (db_put s x) = entry_fits s" by (rule db_queue.put_fits [OF wr a(2)])
    show "entry_row (db_put s x) = entry_row s" by (rule db_queue.put_row_of [OF wr a(2)])
    show "limit_le (limit_of (header (fst (db_put s x)))) (limit_of (header (fst s)))"
      by (rule db_queue.put_limit [OF wr a(2)])
    show "db_rows (db_put s x) = within (limit_of (header (fst (db_put s x)))) (db_rows s @ [entry_row s x])"
      by (rule db_queue.put_rows [OF wr a(2)])
  }
  assume a: "crash_safe cfg n s"
  then have "writable n s" by (auto simp: crash_safe_def recoverable_def Let_def)
  then show "within (limit_of (header (fst s))) (db_rows s) = db_rows s" by (rule db_queue.rows_within)
  obtain db' where "crash_reopen cfg (db, w) = (db', w)" "crash_safe cfg n (db', w)" "header db' = header db"
    "filepath db' = filepath db" "db_extra_param_count db' = db_extra_param_count db"
    by (rule crash_reopen_safe [OF a [unfolded s]])
  then show "crash_safe cfg n (crash_reopen cfg s)" "db_rows (crash_reopen cfg s) = db_rows s"
    "entry_fits (crash_reopen cfg s) = entry_fits s" "entry_row (crash_reopen cfg s) = entry_row s"
    "limit_of (header (fst (crash_reopen cfg s))) = limit_of (header (fst s))"
    by (simp_all add: s db_rows_def entry_fits_def entry_row_def fun_eq_iff)
qed

section \<open>From creation on\<close>

text \<open>A path without a database, and the number of writes whose offsets fit 32 bits.\<close>

definition fresh_path :: "tsdb_config \<Rightarrow> world \<Rightarrow> bool" where
  "fresh_path cfg w \<longleftrightarrow>
     (case cfg_filepath cfg of
        None \<Rightarrow> False
      | Some p \<Rightarrow> fs w p = None \<and> fs w (mig_path p) = None \<and> dirs w (parent_dir p) \<and> length p \<le> 127)"

definition fits_file :: "tsdb_config \<Rightarrow> nat \<Rightarrow> bool" where
  "fits_file cfg n \<longleftrightarrow>
     (let h = new_header cfg; last = (if max_records h = 0 then n else cap h) - 1
      in n < 0xFFFFFFFE \<and> block_pos h (last div rpb h) + TSDB_BLOCK_SIZE \<le> 2 ^ 32)"

lemma open_recoverable:
  assumes "quiet w" "admissible cfg" "fresh_path cfg w" "pool_available cfg w" "\<not> cfg_free_space_cb cfg"
    and "fits_file cfg n"
  obtains db w' where "tsdb_open_handle cfg (zero_tsdb g) w = (Opened db, w')" "recoverable cfg n (db, w')"
    "db_rows (db, w') = []" "header db = new_header cfg" "db_extra_param_count db = 0"
proof -
  let ?h = "new_header cfg"
  obtain p where p: "cfg_filepath cfg = Some p" "fs w p = None" "fs w (mig_path p) = None" "dirs w (parent_dir p)"
    "length p \<le> 127" using assms(3) by (auto simp: fresh_path_def split: option.splits)
  from open_new_file [OF assms(1,2) p(1) assms(4) p(2-5), of g] obtain db w' where
    run: "tsdb_open_handle cfg (zero_tsdb g) w = (Opened db, w')" "quiet w'" "is_open db" "db_inv db w'"
      "db_rows (db, w') = []" "header db = ?h" "tsdb_read_header (db_file db) w' = (ESP_OK, Some (header db))"
      "side_inv db w'" "side_dirs db w'" "sidecar_seq db = 0" "db_extra_param_count db = 0"
      "has_free_space_cb db = cfg_free_space_cb cfg" "filepath db = p" "\<not> migrating db" "\<not> closing db"
      "\<And>q. q \<in> side_files p \<Longrightarrow> fs w' q = None" "\<And>q. q \<noteq> p \<Longrightarrow> q \<notin> side_files p \<Longrightarrow> fs w' q = fs w q"
    by blast
  have np: "cfg_num_params cfg \<noteq> 0" using assms(2) by (simp add: admissible_def config_ok_def)
  have "fs w' (mig_path p) = None" using run(17) [OF mig_path_apart [OF p(5)]] p(3) by simp
  moreover have "pool_available cfg w'" using assms(4) quiet_pool_available [OF assms(1) run(2)] by simp
  moreover have "crash_inv db w'"
    using run(6-9,13) new_header_usable [OF assms(2)] no_slots(3) [of p w', OF run(16)] by (simp add: crash_inv_def)
  moreover have "room_for n db"
    using assms(6) run(6,11) by (simp add: room_for_def fits_file_def Let_def new_header_fields split: if_splits)
  ultimately have "recoverable cfg n (db, w')"
    using run p assms(5,6) np
    by (simp add: recoverable_def writable_def Let_def new_header_fields fits_file_def)
  with run show ?thesis by (intro that)
qed


lemma demo_available: "quiet w \<Longrightarrow> pool_available (demo_config limit) w"
  by (simp add: pool_available_def tsdb_alloc_buffer_pool_def Let_def heap_alloc_def quiet_next demo_config_def)

definition empty_world :: world where
  "empty_world = \<lparr> fs = Map.empty, dirs = (\<lambda>d. d = []), read_fault = no_faults, io_script = [], heap_script = [], lock_script = [],
     free_script = [], spiram_free = 0 \<rparr>"

lemma demo_fresh: "quiet empty_world" "fresh_path (demo_config limit) empty_world"
  by (simp_all add: quiet_def fresh_path_def empty_world_def demo_config_def parent_dir_def)

lemma demo_fits_file: "n \<le> 9 \<Longrightarrow> fits_file (demo_config 3) n"
  by (simp add: fits_file_def Let_def new_header_fields demo_config_def block_pos_def data_start_def
      entries_for_def stride_or_default_def blocks_records_exact)


text \<open>
  C23: Opening a path without a file creates a database: the handle is open, satisfies the
  invariant of an empty ring, has the configured geometry, its file carries the same header
  and no sidecar exists.
\<close>

theorem open_creates:
  assumes "quiet w" "admissible cfg" "fresh_path cfg w" "pool_available cfg w"
  shows "\<exists>db w'. tsdb_open_handle cfg (zero_tsdb g) w = (Opened db, w') \<and> is_open db \<and> db_inv db w' \<and>
    db_rows (db, w') = [] \<and> header db = new_header cfg \<and>
    tsdb_read_header (db_file db) w' = (ESP_OK, Some (header db)) \<and> (\<forall>q \<in> side_files (filepath db). fs w' q = None)"
proof -
  obtain p where p: "cfg_filepath cfg = Some p" "fs w p = None" "fs w (mig_path p) = None" "dirs w (parent_dir p)"
    "length p \<le> 127" using assms(3) by (auto simp: fresh_path_def split: option.splits)
  from open_new_file [OF assms(1,2) p(1) assms(4) p(2-5), of g] show ?thesis by blast
qed

theorem open_creates_witness:
  "\<exists>db w'. tsdb_open_handle (demo_config 3) (zero_tsdb 0) empty_world = (Opened db, w') \<and> is_open db \<and>
     db_rows (db, w') = [] \<and> header db = new_header (demo_config 3)"
  using open_creates [OF demo_fresh(1) demo_config_admissible demo_fresh(2) demo_available [OF demo_fresh(1)], of 3 0]
  by auto

section \<open>A counter beyond twice the capacity\<close>

lemma recoverable_puts:
  assumes "recoverable cfg (length xs + n) (db, w)" "list_all (entry_fits (db, w)) xs"
  shows "\<exists>db' w'. foldl db_put (db, w) xs = (db', w') \<and> recoverable cfg n (db', w') \<and>
    config_part (header db') = config_part (header db) \<and> nrec (header db') = nrec (header db) + length xs"
  using assms
proof (induction xs arbitrary: db w)
  case (Cons x xs)
  have r: "recoverable cfg (Suc (length xs + n)) (db, w)" "entry_fits (db, w) x" using Cons.prems by simp_all
  have wr: "writable (Suc (length xs + n)) (db, w)" using r(1) by (simp add: recoverable_def Let_def)
  obtain db1 w1 where p: "db_put (db, w) x = (db1, w1)" "stored db w (entry_row (db, w) x) db1 w1"
    using db_put_stored [OF wr r(2)] by metis
  have fits: "list_all (entry_fits (db1, w1)) xs"
    using db_queue.put_fits [OF wr r(2)] p(1) Cons.prems by simp
  have r1: "recoverable cfg (length xs + n) (db1, w1)" "config_part (header db1) = config_part (header db)"
    using recoverable_put [OF r] p(1) by simp_all
  have "nrec (header db1) = nrec (header db) + 1" using p(2) by (simp add: stored_def)
  with Cons.IH [OF r1(1) fits] r1(2) p(1) show ?case by auto
qed simp

text \<open>
  C37: The sanity check bounds \<open>total_records\<close> by twice the capacity although it counts every
  record ever written. Once more than that was acknowledged, the sidecar is rejected
  after a crash and the database is opened with the older in-file header, whose counter
  lags: every record written since the header was last folded is gone.
\<close>

theorem second_wrap_drops_sidecar:
  assumes "recoverable cfg n (db, w)" "max_records (header db) \<noteq> 0" "2 * cap (header db) < nrec (header db)"
  shows "\<exists>db' h0. tsdb_read_header (db_file db) w = (ESP_OK, Some h0) \<and>
    tsdb_open_handle cfg (zero_tsdb 0) w = (Opened db', w) \<and> header db' = h0 \<and>
    nrec h0 \<le> 2 * cap (header db)"
proof -
  let ?p = "filepath db" and ?h = "header db"
  note r = assms(1) [unfolded recoverable_def Let_def prod.case]
  have q: "quiet w" "db_inv db w" and ci: "crash_inv db w" "side_inv db w" and p: "length ?p \<le> 127"
    using r by (auto simp: writable_def crash_inv_def)
  have f: "db_file db = Some ?p" using q(2) by (simp add: db_inv_def)
  obtain h0 where h0: "tsdb_read_header (Some ?p) w = (ESP_OK, Some h0)" "judge_header (ESP_OK, Some h0) = HeaderUsable"
    "config_part h0 = config_part ?h"
    "stored_header w ?p (param_names h0) = Some ?h \<or> stored_header w ?p (param_names h0) = None \<and> h0 = ?h"
    by (rule crash_inv_header [OF ci(1) f])
  have m: "unat (max_records ?h * 2) = 2 * cap ?h" "max_records h0 = max_records ?h"
    using sane_max_records [OF judge_ok(3) [OF h0(2)]] config_part_fields(7) [OF h0(3)]
    by (auto simp: word_le_nat_alt intro!: unat_mult_no_wrap [THEN trans])
  have insane: "\<not> tsdb_header_is_sane ?h" and le: "nrec h0 \<le> 2 * cap ?h"
    using assms(2,3) m judge_ok(3) [OF h0(2)] sane_iff [of h0] sane_iff [of ?h]
    by (auto simp: word_less_nat_alt unat_gt_0)
  have st: "stored_header w ?p (param_names h0) = Some ?h" using h0(4) insane judge_ok(3) [OF h0(2)] by auto
  obtain pl where run: "\<And>db2. adopt_sidecar ((start_db cfg 0 pl ?p)\<lparr>db_file := Some ?p, header := h0\<rparr>) w = (db2, w) \<Longrightarrow>
    config_part (header db2) = config_part ?h \<Longrightarrow>
    tsdb_open_handle cfg (zero_tsdb 0) w = (Opened (db2\<lparr>filepath := ?p, is_open := True\<rparr>), w)"
    by (rule open_adopting [OF assms(1) h0(1,2)]) blast
  let ?db0 = "(start_db cfg 0 pl ?p)\<lparr>db_file := Some ?p, header := h0\<rparr>"
  have fp: "filepath ?db0 = ?p" using p by (simp add: start_db_def)
  obtain db1 where l0: "tsdb_sidecar_load ?db0 h0 w =
      (if stored_header w ?p (param_names h0) = None then ESP_ERR_NOT_FOUND else ESP_OK,
       stored_header w ?p (param_names h0), db1, w)"
    "\<exists>a b c d e. db1 = ?db0\<lparr>sidecar_seq := a, legacy_seq := b, legacy_slot := c, sidecar_slot := d, legacy_mirrored := e\<rparr>"
    by (rule load_after_crash [OF q(1) ci(2) fp])
  have l: "tsdb_sidecar_load ?db0 h0 w = (ESP_OK, Some ?h, db1, w)" "header db1 = h0" using l0 st by auto
  have "adopt_sidecar ?db0 w = (db1, w)"
    using l insane by (simp add: adopt_sidecar_def sidecar_wins_def)
  from run [OF this] h0(1,3) f l(2) le show ?thesis
    by (intro exI [of _ "db1\<lparr>filepath := ?p, is_open := True\<rparr>"] exI [of _ h0]) simp
qed

theorem second_wrap_drops_sidecar_witness:
  "\<exists>db w db' w' db2. tsdb_open_handle (demo_config 3) (zero_tsdb 0) empty_world = (Opened db, w) \<and>
    foldl db_put (db, w) (replicate 7 (100, [5])) = (db', w') \<and> nrec (header db') = 7 \<and>
    tsdb_open_handle (demo_config 3) (zero_tsdb 0) w' = (Opened db2, w') \<and> nrec (header db2) \<le> 6"
proof -
  let ?xs = "replicate 7 (100 :: u32, [5 :: i16])"
  have n: "fits_file (demo_config 3) (length ?xs + 0)" by (rule demo_fits_file) simp
  have cb: "\<not> cfg_free_space_cb (demo_config 3)" by (simp add: demo_config_def)
  have ad: "admissible (demo_config 3)" by (rule demo_config_admissible) simp
  obtain db w where o1: "tsdb_open_handle (demo_config 3) (zero_tsdb 0) empty_world = (Opened db, w)"
    "recoverable (demo_config 3) (length ?xs + 0) (db, w)" "header db = new_header (demo_config 3)"
    "db_extra_param_count db = 0"
    by (rule open_recoverable [OF demo_fresh(1) ad demo_fresh(2) demo_available [OF demo_fresh(1)] cb n])
  have fits: "list_all (entry_fits (db, w)) ?xs"
    using o1(3,4) by (simp add: list_all_iff entry_fits_def new_header_fields) (simp add: demo_config_def)
  obtain db' w' where p: "foldl db_put (db, w) ?xs = (db', w')" "recoverable (demo_config 3) 0 (db', w')"
    "config_part (header db') = config_part (header db)" "nrec (header db') = nrec (header db) + length ?xs"
    using recoverable_puts [OF o1(2) fits] by blast
  have "max_records (header db') = 3" "nrec (header db') = 7"
    using config_part_fields(7) [OF p(3)] p(4) o1(3) by (simp_all add: new_header_fields) (simp add: demo_config_def)
  with second_wrap_drops_sidecar [OF p(2)] o1(1) p(1) show ?thesis by fastforce
qed

end
