(* ===== verification/Tsdb_Fold.thy ===== *)
theory Tsdb_Fold
  imports Tsdb_Repair Tsdb_Index
begin

text \<open>
  Folding the header and the rebuilt sparse index back into the file (\<open>tsdb_fold_header\<close> and
  \<open>tsdb_rebuild_index_\<close> in \<open>src/tsdb_core.c\<close>; the definitions are in \<open>Tsdb_Sidecar\<close>). The
  theorems show that afterwards the file is self-contained, that its records are untouched,
  and that the index answers searches like a scan over the retained slots.
\<close>

section \<open>The buffer that is written\<close>

lemma fold_entries_le: "unat (fold_entries db) \<le> unat (index_entries (header db))"
  by (auto simp: fold_entries_def Let_def word_less_nat_alt not_less split: if_splits)

lemma fold_len_exact:
  assumes "data_start (header db) < 2 ^ 32"
  shows "unat (fold_len db) =
    (if fold_entries db = 0 then 0 else unat (index_offset (header db)) + 8 * unat (fold_entries db))"
proof -
  let ?h = "header db"
  have b: "unat (index_offset ?h) + 8 * unat (fold_entries db) < 4294967296"
    using assms fold_entries_le [of db] by (simp add: data_start_def)
  then have "unat (fold_entries db * 8) = 8 * unat (fold_entries db)"
    by (subst unat_mult_no_wrap) simp_all
  with b have "unat (index_offset ?h + fold_entries db * 8) = unat (index_offset ?h) + 8 * unat (fold_entries db)"
    by (subst unat_add_no_wrap) simp_all
  then show ?thesis by (simp add: fold_len_def)
qed

text \<open>The bytes the rebuild stores for entry \<open>k\<close>, if the timestamp of its slot can be read.\<close>

definition index_bytes :: "tsdb_header \<Rightarrow> path \<Rightarrow> world \<Rightarrow> nat \<Rightarrow> bytes option" where
  "index_bytes h p w k =
     (let slot = of_nat k * index_stride h;
          block = slot div ucast (records_per_block h);
          r = slot mod ucast (records_per_block h)
      in map_option (\<lambda>ts. ts @ le32 block) (fread_at w p (unat (tsdb_calc_block_offset h block + 8 + r * 4)) 4))"

lemma rebuild_index_Suc:
  "tsdb_rebuild_index h p w buf (Suc k) =
    (case index_bytes h p w k of
       None \<Rightarrow> tsdb_rebuild_index h p w buf k
     | Some e \<Rightarrow> overlay (tsdb_rebuild_index h p w buf k) (unat (index_offset h) + k * 8) e)"
  by (simp add: index_bytes_def Let_def split: option.split)

declare tsdb_rebuild_index.simps(2) [simp del]

lemma length_index_bytes: "index_bytes h p w k = Some e \<Longrightarrow> length e = 8"
  by (auto simp: index_bytes_def Let_def fread_at_def length_chunk split: if_splits)

lemma length_rebuild_index:
  "unat (index_offset h) + 8 * k \<le> length buf \<Longrightarrow> length (tsdb_rebuild_index h p w buf k) = length buf"
proof (induction k)
  case (Suc k)
  then show ?case
    by (auto simp: rebuild_index_Suc length_overlay dest: length_index_bytes split: option.split)
qed simp

lemma chunk_rebuild_index:
  assumes "unat (index_offset h) + 8 * k \<le> length buf" "j < k" "index_bytes h p w j = Some e"
  shows "chunk (tsdb_rebuild_index h p w buf k) (unat (index_offset h) + 8 * j) 8 = e"
  using assms(1,2)
proof (induction k)
  case (Suc k)
  let ?b = "tsdb_rebuild_index h p w buf k"
  have len: "length ?b = length buf" using Suc.prems by (intro length_rebuild_index) simp
  show ?case
  proof (cases "j = k")
    case True
    with assms(3) length_index_bytes [OF assms(3)] show ?thesis
      by (simp add: rebuild_index_Suc chunk_overlay_same mult.commute)
  next
    case False
    then have "chunk ?b (unat (index_offset h) + 8 * j) 8 = e" using Suc by simp
    moreover have "unat (index_offset h) + 8 * j + 8 \<le> unat (index_offset h) + k * 8" using False Suc.prems by simp
    ultimately show ?thesis
      using Suc.prems len
      by (auto simp: rebuild_index_Suc chunk_overlay_disjoint dest: length_index_bytes split: option.split)
  qed
qed simp

section \<open>Folding in a quiet world\<close>

text \<open>What a fold writes at offset 0: the header, and possibly the index up to its last used entry.\<close>

definition folds :: "tsdb \<Rightarrow> bool" where
  "folds db \<longleftrightarrow> fold_len db > 0 \<and> fold_len db \<le> TSDB_FOLD_MAX_BYTES"

definition fold_data :: "tsdb \<Rightarrow> path \<Rightarrow> world \<Rightarrow> bytes" where
  "fold_data db p w = (if folds db then fold_buffer db p w else encode_header (header db))"

lemma quiet_fold_header:
  assumes "quiet w" "db_file db = Some p"
  shows "tsdb_fold_header db w =
    (ESP_OK,
     db\<lparr>in_file_header_stale := False, index_stale := False, side_dir_ready := False, legacy_mirrored := False,
        legacy_seq := 0\<rparr>,
     tsdb_sidecar_remove (filepath db) (put_file w p (overlay (content w p) 0 (fold_data db p w))))"
  using assms
  by (simp add: tsdb_fold_header_def folds_def fold_data_def quiet_next quiet_fwrite_checked quiet_io_checked quiet_put_file)

lemma fold_buffer_facts:
  assumes "header_wf (header db)" "584 \<le> unat (index_offset (header db))" "data_start (header db) < 2 ^ 32" "folds db"
  shows "length (fold_buffer db p w) = unat (fold_len db)"
    and "chunk (fold_buffer db p w) 0 584 = encode_header (header db)"
    and "j < unat (fold_entries db) \<Longrightarrow> index_bytes (header db) p w j = Some e \<Longrightarrow>
      chunk (fold_buffer db p w) (unat (index_offset (header db)) + 8 * j) 8 = e"
proof -
  let ?h = "header db" and ?len = "unat (fold_len db)" and ?n = "unat (fold_entries db)"
  define buf where "buf = fread_upto w p 0 ?len @ replicate (?len - length (fread_upto w p 0 ?len)) 0"
  define idx where "idx = tsdb_rebuild_index ?h p w buf ?n"
  have fl: "?len = unat (index_offset ?h) + 8 * ?n"
    using fold_len_exact [OF assms(3)] assms(4) by (auto simp: folds_def fold_len_def split: if_splits)
  have lb: "length buf = ?len" by (simp add: buf_def fread_upto_def length_chunk)
  then have li: "length idx = ?len" unfolding idx_def using fl by (subst length_rebuild_index) simp_all
  have le: "length (encode_header ?h) = 584" by (rule length_encode_header [OF assms(1)])
  have fb: "fold_buffer db p w = overlay idx 0 (encode_header ?h)"
    using li le assms(2) fl unfolding fold_buffer_def Let_def buf_def [symmetric] idx_def [symmetric]
    by (simp add: length_overlay)
  show "length (fold_buffer db p w) = ?len" using li le fl assms(2) by (simp add: fb length_overlay max_def)
  show "chunk (fold_buffer db p w) 0 584 = encode_header ?h" using le by (simp add: fb chunk_overlay_same)
  assume "j < ?n" "index_bytes ?h p w j = Some e"
  then have "chunk idx (unat (index_offset ?h) + 8 * j) 8 = e"
    unfolding idx_def using fl lb by (intro chunk_rebuild_index) simp_all
  then show "chunk (fold_buffer db p w) (unat (index_offset ?h) + 8 * j) 8 = e"
    using \<open>j < ?n\<close> le fl li assms(2) by (simp add: fb chunk_overlay_disjoint)
qed

lemma length_fold_data:
  assumes "header_wf (header db)" "584 \<le> unat (index_offset (header db))" "data_start (header db) < 2 ^ 32"
  shows "584 \<le> length (fold_data db p w)" "length (fold_data db p w) \<le> data_start (header db)"
    "chunk (fold_data db p w) 0 584 = encode_header (header db)"
proof -
  let ?h = "header db"
  have l: "unat (fold_len db) \<le> data_start ?h" "folds db \<Longrightarrow> 584 \<le> unat (fold_len db)"
    using fold_len_exact [OF assms(3)] fold_entries_le [of db] assms(2)
    by (auto simp: data_start_def folds_def word_gt_0 unat_eq_zero split: if_splits)
  have d: "584 \<le> data_start ?h" using assms(2) by (simp add: data_start_def)
  note f = fold_buffer_facts(1,2) [OF assms]
  show "584 \<le> length (fold_data db p w)" "length (fold_data db p w) \<le> data_start ?h"
    "chunk (fold_data db p w) 0 584 = encode_header ?h"
    using f l d length_encode_header [OF assms(1)] by (auto simp: fold_data_def)
qed

text \<open>The state after a fold, for everything that follows.\<close>

lemma quiet_fold:
  assumes "quiet w" "db_file db = Some p" "filepath db = p" "header_wf (header db)"
    and "584 \<le> unat (index_offset (header db))" "data_start (header db) < 2 ^ 32"
    and "tsdb_fold_header db w = (r, db', w')"
  shows "r = ESP_OK" "quiet w'"
    and "db' = db\<lparr>in_file_header_stale := False, index_stale := False, side_dir_ready := False,
        legacy_mirrored := False, legacy_seq := 0\<rparr>"
    and "content w' p = overlay (content w p) 0 (fold_data db p w)"
    and "tsdb_read_header (Some p) w' = (ESP_OK, Some (header db))"
    and "keeps (\<lambda>i. data_start (header db) \<le> i) (content w p) (content w' p)"
    and "\<And>q. q \<in> side_files p \<Longrightarrow> fs w' q = None"
    and "\<And>q. q \<noteq> p \<Longrightarrow> q \<notin> side_files p \<Longrightarrow> fs w' q = fs w q"
    and "\<And>q. q \<noteq> tsdb_side_dir p \<Longrightarrow> dirs w' q = dirs w q"
proof -
  note run = assms(7) [unfolded quiet_fold_header [OF assms(1,2)], simplified]
  let ?w = "put_file w p (overlay (content w p) 0 (fold_data db p w))"
  have q: "quiet ?w" using assms(1) by (simp add: quiet_put_file)
  note rm = quiet_sidecar_remove [OF q, where fp = p]
  have w': "w' = tsdb_sidecar_remove p ?w" using run assms(3) by simp
  show "r = ESP_OK" "db' = db\<lparr>in_file_header_stale := False, index_stale := False, side_dir_ready := False,
        legacy_mirrored := False, legacy_seq := 0\<rparr>" using run by auto
  show "quiet w'" "\<And>q. q \<in> side_files p \<Longrightarrow> fs w' q = None" "\<And>q. q \<noteq> p \<Longrightarrow> q \<notin> side_files p \<Longrightarrow> fs w' q = fs w q"
    "\<And>q. q \<noteq> tsdb_side_dir p \<Longrightarrow> dirs w' q = dirs w q"
    using rm by (auto simp: w')
  show c: "content w' p = overlay (content w p) 0 (fold_data db p w)"
    using rm(2) [where q = p] by (simp add: w' content_def)
  note d = length_fold_data [OF assms(4-6), of p w]
  have "chunk (content w' p) 0 584 = encode_header (header db)"
    using chunk_overlay_inside [of 0 584 "fold_data db p w" "content w p" 0] d by (simp add: c)
  then show "tsdb_read_header (Some p) w' = (ESP_OK, Some (header db))"
    using d(1) assms(4) by (intro read_header_chunk) (auto simp: c length_overlay \<open>quiet w'\<close> quiet_sound)
  have "keeps (\<lambda>i. data_start (header db) \<le> i) (content w p) (overlay (content w p) 0 (fold_data db p w))"
    by (rule keeps_mono [OF keeps_overlay]) (use d(2) in auto)
  then show "keeps (\<lambda>i. data_start (header db) \<le> i) (content w p) (content w' p)" by (simp only: c)
qed

section \<open>The file after a fold\<close>

text \<open>Everything behind the index is untouched, so the ring is.\<close>

lemma keeps_ring:
  assumes "keeps (\<lambda>i. data_start h \<le> i) f g" "ring_inv h f"
  shows "ring_inv h g" "retained h g = retained h f"
proof -
  have slot: "slot_ok h g s \<and> slot_row h g s = slot_row h f s" if "slot_ok h f s" for s
    using slot_keeps [OF assms(1) that] by (auto intro: order_trans [OF data_start_le_block_pos])
  then show "ring_inv h g" using assms(2) by (simp add: ring_inv_def)
  show "retained h g = retained h f"
    by (rule retained_cong) (use slot assms(2) slot_of_less in \<open>auto simp: ring_inv_def\<close>)
qed

lemma ring_inv_start: "ring_inv h f \<Longrightarrow> 0 < avail h \<Longrightarrow> data_start h < 2 ^ 32"
  using data_start_le_block_pos [of h 0] by (auto simp: ring_inv_def slot_ok_def block_pos_def dest: spec [of _ 0])

text \<open>
  C21: Folding makes the file self-contained: the header in the file is the handle's, no sidecar
  is left that a later open could prefer, and the retained records are unchanged.
\<close>

theorem fold_self_contained:
  assumes "quiet w" "db_inv db w" "584 \<le> unat (index_offset (header db))" "data_start (header db) < 2 ^ 32"
  shows "\<exists>db' w'. tsdb_fold_header db w = (ESP_OK, db', w') \<and> header db' = header db \<and>
    tsdb_read_header (db_file db') w' = (ESP_OK, Some (header db)) \<and>
    (\<forall>names. stored_header w' (filepath db) names = None) \<and>
    db_inv db' w' \<and> db_rows (db', w') = db_rows (db, w)"
proof -
  let ?p = "filepath db"
  have f: "db_file db = Some ?p" and r: "ring_inv (header db) (content w ?p)" and wf: "header_wf (header db)"
    and o1: "ovf_clear db"
    using assms(2) by (auto simp: db_inv_def ring_inv_def ring_hdr_def)
  obtain rr db' w' where run: "tsdb_fold_header db w = (rr, db', w')" by (metis prod_cases3)
  note q = quiet_fold [OF assms(1) f refl wf assms(3,4) run]
  note k = keeps_ring [OF q(6) r]
  have "db_inv db' w'" using f k(1) o1 q(2) by (simp add: q(3) db_inv_def ovf_clear_def)
  moreover have "db_rows (db', w') = db_rows (db, w)" using k(2) by (simp add: db_rows_def q(3))
  moreover have "stored_header w' ?p names = None" for names by (rule no_slots(3) [OF q(7)])
  ultimately show ?thesis using run q(1,3,5) f by simp
qed

theorem fold_self_contained_witness:
  "\<exists>db' w'. tsdb_fold_header (demo_db 3) (demo_world []) = (ESP_OK, db', w') \<and>
    tsdb_read_header (db_file db') w' = (ESP_OK, Some (demo_header 3)) \<and>
    stored_header w' ''/a.db'' [] = None \<and> db_rows (db', w') = []"
proof -
  have "584 \<le> unat (index_offset (header (demo_db 3)))" "data_start (header (demo_db 3)) < 2 ^ 32"
    "quiet (demo_world [])" "header (demo_db 3) = demo_header 3" "filepath (demo_db 3) = ''/a.db''"
    by (simp_all add: demo_db_def demo_header_def data_start_def quiet_def demo_world_def)
  moreover have "db_rows (demo_db 3, demo_world []) = []" by (simp add: db_rows_def demo_db_def demo_retained)
  ultimately show ?thesis using fold_self_contained [OF _ demo_inv, of "[]" 3] by auto
qed

section \<open>The rebuilt index\<close>

lemma fold_entries_cover:
  assumes "k < unat (fold_entries db)" "avail (header db) + unat (index_stride (header db)) < 2 ^ 32"
  shows "k * unat (index_stride (header db)) < avail (header db)" "index_stride (header db) \<noteq> 0"
proof -
  let ?h = "header db" and ?s = "unat (index_stride (header db))"
  let ?w = "if max_records ?h > 0 \<and> total_records ?h > max_records ?h then max_records ?h else total_records ?h"
  have av: "unat ?w = avail ?h" by (auto simp: avail_def word_less_nat_alt unat_eq_zero min_def)
  show nz: "index_stride ?h \<noteq> 0"
    using assms(1) by (auto simp: fold_entries_def Let_def split: if_splits)
  then have s: "0 < ?s" by (simp add: unat_gt_0)
  have "unat (?w + index_stride ?h) = avail ?h + ?s" using assms(2) av by (subst unat_add_no_wrap) simp_all
  then have "unat (?w + index_stride ?h - 1) = avail ?h + ?s - 1"
    using s by (subst unat_sub_no_wrap) simp_all
  then have "unat ((?w + index_stride ?h - 1) div index_stride ?h) = (avail ?h + ?s - 1) div ?s" by (simp add: unat_div)
  then have "unat (fold_entries db) \<le> (avail ?h + ?s - 1) div ?s"
    using assms(1) unfolding fold_entries_def Let_def
    by (auto simp: word_less_nat_alt split: if_splits)
  with assms(1) have "Suc k \<le> (avail ?h + ?s - 1) div ?s" by simp
  then have "Suc k * ?s \<le> avail ?h + ?s - 1" using s by (simp add: less_eq_div_iff_mult_less_eq)
  then show "k * ?s < avail ?h" using s by simp
qed

lemma index_bytes_slot:
  assumes "slot_ok h f s" "content w p = f" "sound w" "rpb h \<noteq> 0" "s = k * unat (index_stride h)" "s < 2 ^ 32" "geom (rpb h) m"
  shows "index_bytes h p w k = Some (le32 (fst (slot_row h f s)) @ le32 (of_nat (s div rpb h)))"
proof -
  let ?b = "s div rpb h" and ?r = "s mod rpb h"
  have sl: "unat (of_nat k * index_stride h) = s"
    using assms(5,6) by (simp add: unat_word_ariths unat_of_nat mod_mult_left_eq)
  have rm: "unat (of_nat k * index_stride h mod ucast (records_per_block h)) = ?r"
    using sl by (simp add: unat_mod unat_u16_u32)
  have b: "block_pos h ?b + 1024 \<le> length f" "block_pos h ?b + 1024 \<le> 2 ^ 32"
    using assms(1) by (simp_all add: slot_ok_def)
  have ub: "unat (of_nat ?b :: u32) = ?b"
    using assms(6) by (simp add: unat_of_nat) (meson div_le_dividend le_less_trans mod_less)
  have "unat (of_nat k * index_stride h div ucast (records_per_block h)) = unat (of_nat ?b :: u32)"
    using sl ub by (simp add: unat_div unat_u16_u32)
  then have bl: "of_nat k * index_stride h div ucast (records_per_block h) = of_nat ?b" by (rule unsigned_word_eqI)
  have ofs: "unat (tsdb_calc_block_offset h (of_nat ?b)) = block_pos h ?b"
    using calc_block_offset_exact [of h "of_nat ?b"] b(2) ub by simp
  have "?r < rpb h" using assms(4) by simp
  then have "4 * ?r + 4 \<le> rpb h * 4" by simp
  moreover have "rpb h * 4 \<le> 1016" using assms(7) by (simp add: geom_def)
  ultimately have r: "?r < rpb h" "8 + 4 * ?r + 4 \<le> 1024" using \<open>?r < rpb h\<close> by simp_all
  let ?x = "of_nat k * index_stride h mod ucast (records_per_block h) :: u32"
  have "unat (?x * 4) = ?r * 4" using rm r(2) by (subst unat_mult_no_wrap) simp_all
  moreover have "unat (tsdb_calc_block_offset h (of_nat ?b) + 8) = block_pos h ?b + 8"
    using ofs b(2) by (subst unat_add_no_wrap) simp_all
  ultimately have pos: "unat (tsdb_calc_block_offset h (of_nat ?b) + 8 + ?x * 4) = block_pos h ?b + 8 + ?r * 4"
    using b(2) r(2) by (subst unat_add_no_wrap) simp_all
  have "le32 (fst (slot_row h f s)) = chunk f (block_pos h ?b + 8 + ?r * 4) 4"
    using b(1) r(2)
    by (simp add: slot_row_def slot_block_def block_row_def TSDB_BLOCK_TS_def ts_off_def ld32_chunk le32_ld32 add.assoc)
  with pos b(1) r(2) assms(2) show ?thesis
    by (simp add: index_bytes_def Let_def bl fread_at_sound [OF assms(3)])
qed

text \<open>
  C22: The rebuilt index is the reference index: after a fold of a database with a stale index
  that fits the temporary buffer, entry \<open>k\<close> holds the timestamp stored in slot
  \<open>k * index_stride\<close> and the number of its block, for every entry whose slot is in use.
\<close>

theorem fold_rebuilds_index:
  assumes "quiet w" "db_inv db w" "584 \<le> unat (index_offset (header db))" "data_start (header db) < 2 ^ 32"
    and "folds db" "avail (header db) + unat (index_stride (header db)) < 2 ^ 32" "k < unat (fold_entries db)"
    and "tsdb_fold_header db w = (r, db', w')"
  shows "read_index_entry (filepath db) (header db) (int k) w' =
    Some (fst (slot_row (header db) (content w (filepath db)) (k * unat (index_stride (header db)))),
          of_nat (k * unat (index_stride (header db)) div rpb (header db)))"
proof -
  let ?p = "filepath db" and ?h = "header db" and ?s = "k * unat (index_stride (header db))"
  have f: "db_file db = Some ?p" and ri: "ring_inv ?h (content w ?p)" and wf: "header_wf ?h"
    and g: "geom (rpb ?h) (nparams ?h)"
    using assms(2) by (auto simp: db_inv_def ring_inv_def ring_hdr_def)
  note q = quiet_fold [OF assms(1) f refl wf assms(3,4,8)]
  note s = fold_entries_cover [OF assms(7,6)]
  have "slot_ok ?h (content w ?p) ?s" using ri s(1) by (simp add: ring_inv_def)
  then have ib: "index_bytes ?h ?p w k = Some (le32 (fst (slot_row ?h (content w ?p) ?s)) @ le32 (of_nat (?s div rpb ?h)))"
    using g s(1) assms(1,6) by (intro index_bytes_slot) (auto simp: geom_def)
  note fb = fold_buffer_facts [OF wf assms(3,4,5), where p = ?p and w = w]
  have lt: "unat (index_offset ?h) + 8 * k + 8 \<le> length (fold_buffer db ?p w)"
    using fb(1) fold_len_exact [OF assms(4)] assms(7) by auto
  have "chunk (content w' ?p) (unat (index_offset ?h) + 8 * k) 8 =
      le32 (fst (slot_row ?h (content w ?p) ?s)) @ le32 (of_nat (?s div rpb ?h))"
    using fb(3) [OF assms(7) ib] lt chunk_overlay_inside [of "unat (index_offset ?h) + 8 * k" 8 "fold_buffer db ?p w" "content w ?p" 0]
    by (simp add: q(4) fold_data_def assms(5))
  moreover have "unat (index_offset ?h + word_of_int (int k) * 8) = unat (index_offset ?h) + 8 * k"
  proof -
    have k: "unat (index_offset ?h) + 8 * k < 4294967296"
      using assms(4,7) fold_entries_le [of db] by (simp add: data_start_def)
    then have "unat (of_nat k * 8 :: u32) = 8 * k" by (simp add: unat_word_ariths unat_of_nat)
    with k show ?thesis by (subst unat_add_no_wrap) simp_all
  qed
  moreover have "unat (index_offset ?h) + 8 * k + 8 \<le> length (content w' ?p)"
    using lt by (auto simp: q(4) fold_data_def assms(5) length_overlay)
  ultimately show ?thesis
    using q(2) by (simp add: read_index_entry_def fread_at_sound [OF quiet_sound] ld32_append)
qed

text \<open>A database with one record and a stale index.\<close>

definition demo_stale :: tsdb where
  "demo_stale = (demo_db 3)\<lparr>header := (demo_header 3)\<lparr>total_records := 1\<rparr>, index_stale := True\<rparr>"

theorem fold_rebuilds_index_witness:
  "\<exists>r db' w'. tsdb_fold_header demo_stale (demo_disk (replicate 1032 0 @ demo_block)) = (r, db', w') \<and>
    read_index_entry ''/a.db'' (header demo_stale) 0 w' = Some (100, 0)"
proof -
  let ?f = "replicate 1032 0 @ demo_block" and ?h = "header demo_stale"
  let ?w = "demo_disk ?f"
  have h: "index_offset ?h = 1024" "index_entries ?h = 1" "index_stride ?h = 4" "records_per_block ?h = 4"
    "total_records ?h = 1" "max_records ?h = 3" "oldest_record_idx ?h = 0" "num_params ?h = 1" "filepath demo_stale = ''/a.db''"
    "header_wf ?h" "db_file demo_stale = Some ''/a.db''" "index_stale demo_stale" "db_extra_param_count demo_stale = 0"
    by (simp_all add: demo_stale_def demo_db_def demo_header_def zero_header_def header_wf_def)
  have sb: "slot_block ?h ?f 0 = demo_block"
    by (simp add: slot_block_def block_pos_def data_start_def h chunk_def demo_block_fields)
  have "db_inv demo_stale ?w"
    using sb by (simp add: db_inv_def h ring_inv_def ring_hdr_def geom_def data_start_def avail_def slot_ok_def
        block_pos_def demo_disk_content demo_block_fields ovf_clear_def)
  moreover have "quiet ?w" by (simp add: demo_disk_def demo_world_def quiet_def)
  moreover have e: "fold_entries demo_stale = 1" by (simp add: fold_entries_def Let_def h)
  moreover have "folds demo_stale" by (simp add: folds_def fold_len_def e h)
  ultimately have "read_index_entry ''/a.db'' ?h 0 w' = Some (fst (slot_row ?h ?f 0), 0)"
    if "tsdb_fold_header demo_stale ?w = (r, db', w')" for r db' w'
    using fold_rebuilds_index [of ?w demo_stale 0, OF _ _ _ _ _ _ _ that]
    by (simp add: h data_start_def avail_def demo_disk_content)
  moreover have "fst (slot_row ?h ?f 0) = 100" by (simp add: slot_row_def sb block_row_def demo_block_fields)
  ultimately show ?thesis by (metis prod_cases3)
qed

end
