(* ===== verification/Tsdb_Lifecycle.thy ===== *)
theory Tsdb_Lifecycle
  imports Tsdb_Recovery Tsdb_Fold
begin

text \<open>
  The life of a handle (\<open>src/tsdb_core.c\<close>): taking it from the recycler or the heap, opening,
  closing, syncing, clearing and deleting a database, the statistics, and the one-slot
  recycler for closed handles.

  A handle is an index into \<open>heap\<close>, the list of the structs that were ever allocated: a
  struct is never freed once its mutex exists. \<open>s_recycled_handle\<close> is the parked handle and
  \<open>g_default_handle\<close> the one of the legacy API.

  The theorems show that a closed database is self-contained and opens again with the same
  records, that clearing leaves an empty one, and, by induction over the steps of the
  library, that a task that waited for the lock of a handle while it was closed never
  operates on its next incarnation.
\<close>

section \<open>The state of the library\<close>

record tsdb_lib =
  heap :: "tsdb list"
  s_recycled_handle :: "nat option"
  g_default_handle :: "nat option"

definition put_handle :: "nat \<Rightarrow> tsdb \<Rightarrow> tsdb_lib \<Rightarrow> tsdb_lib" where
  "put_handle a db lib = lib\<lparr>heap := (heap lib)[a := db]\<rparr>"

text \<open>\<open>tsdb_lock\<close>: only a timeout fails; what the handle became meanwhile is for the caller to check.\<close>

definition tsdb_lock :: "world \<Rightarrow> bool \<times> world" where
  "tsdb_lock w = (case next_lock w of (r, w') \<Rightarrow> (r \<noteq> LockTimeout, w'))"

definition tsdb_retire_handle :: "nat \<Rightarrow> tsdb_lib \<Rightarrow> tsdb_lib" where
  "tsdb_retire_handle a lib =
     (case s_recycled_handle lib of
        None \<Rightarrow> lib\<lparr>s_recycled_handle := Some a\<rparr>
      | Some _ \<Rightarrow> lib)"

text \<open>The parked handle, wiped but for its mutex and its bumped generation, or a new one.\<close>

definition tsdb_acquire_handle :: "tsdb_lib \<Rightarrow> world \<Rightarrow> nat option \<times> tsdb_lib \<times> world" where
  "tsdb_acquire_handle lib w =
     (case s_recycled_handle lib of
        Some a \<Rightarrow>
          (Some a,
           put_handle a (zero_tsdb (generation (heap lib ! a) + 1)) (lib\<lparr>s_recycled_handle := None\<rparr>), w)
      | None \<Rightarrow>
          (case malloc_ok w of
             (False, w) \<Rightarrow> (None, lib, w)
           | (True, w) \<Rightarrow>
               (case malloc_ok w of
                  (False, w) \<Rightarrow> (None, lib, w)
                | (True, w) \<Rightarrow> (Some (length (heap lib)), lib\<lparr>heap := heap lib @ [zero_tsdb 0]\<rparr>, w))))"

section \<open>Opening and closing\<close>

definition tsdb_open :: "tsdb_config option \<Rightarrow> tsdb_lib \<Rightarrow> world \<Rightarrow> nat option \<times> tsdb_lib \<times> world" where
  "tsdb_open cfg lib w =
     (case cfg of
        None \<Rightarrow> (None, lib, w)
      | Some cfg \<Rightarrow>
          if \<not> config_ok cfg then (None, lib, w)
          else
            (case tsdb_acquire_handle lib w of
               (None, lib, w) \<Rightarrow> (None, lib, w)
             | (Some a, lib, w) \<Rightarrow>
                 (case tsdb_open_handle cfg (heap lib ! a) w of
                    (Opened db, w) \<Rightarrow> (Some a, put_handle a db lib, snd (tsdb_lock w))
                  | (Recreate db, w) \<Rightarrow> (None, tsdb_retire_handle a (put_handle a db lib), w)
                  | (OpenFailed db, w) \<Rightarrow> (None, tsdb_retire_handle a (put_handle a db lib), w))))"

text \<open>The teardown under the lock: fold, close the file, free the pool.\<close>

definition close_locked :: "tsdb \<Rightarrow> world \<Rightarrow> tsdb \<times> world" where
  "close_locked db w =
     (case tsdb_fold_header (db\<lparr>cache_dirty := False\<rparr>) w of
        (_, db, w) \<Rightarrow>
          (db\<lparr>db_file := None, pool := zero_pool, is_open := False, closing := False\<rparr>, w))"

definition tsdb_close_h :: "nat option \<Rightarrow> tsdb_lib \<Rightarrow> world \<Rightarrow> esp_err \<times> tsdb_lib \<times> world" where
  "tsdb_close_h p lib w =
     (case p of
        None \<Rightarrow> (ESP_OK, lib, w)
      | Some a \<Rightarrow>
          (let db = (heap lib ! a)\<lparr>closing := True\<rparr>
           in case tsdb_lock w of
                (False, w) \<Rightarrow> (ESP_ERR_TIMEOUT, put_handle a (db\<lparr>closing := False\<rparr>) lib, w)
              | (True, w) \<Rightarrow>
                  if \<not> is_open db
                  then (ESP_OK, tsdb_retire_handle a (put_handle a (db\<lparr>closing := False\<rparr>) lib), w)
                  else (case close_locked db w of
                          (db, w) \<Rightarrow> (ESP_OK, tsdb_retire_handle a (put_handle a db lib), w))))"

definition tsdb_delete_h :: "nat option \<Rightarrow> tsdb_lib \<Rightarrow> world \<Rightarrow> esp_err \<times> tsdb_lib \<times> world" where
  "tsdb_delete_h p lib w =
     (case p of
        None \<Rightarrow> (ESP_ERR_INVALID_STATE, lib, w)
      | Some a \<Rightarrow>
          if \<not> is_open (heap lib ! a) then (ESP_ERR_INVALID_STATE, lib, w)
          else
            (case tsdb_close_h (Some a) lib w of
               (cret, lib', w) \<Rightarrow>
                 if cret \<noteq> ESP_OK then (cret, lib', w)
                 else (case unlink_file w (filepath (heap lib ! a)) of
                         (ok, w) \<Rightarrow> (if ok then ESP_OK else ESP_FAIL, lib', w))))"

section \<open>Operations on an open handle\<close>

definition tsdb_sync_h :: "tsdb option \<Rightarrow> world \<Rightarrow> esp_err \<times> tsdb option \<times> world" where
  "tsdb_sync_h dbo w =
     (case dbo of
        None \<Rightarrow> (ESP_ERR_INVALID_STATE, None, w)
      | Some db \<Rightarrow>
          if \<not> is_open db \<or> db_file db = None then (ESP_ERR_INVALID_STATE, Some db, w)
          else
            (case tsdb_lock_open w of
               (Some e, w) \<Rightarrow> (e, Some db, w)
             | (None, w) \<Rightarrow>
                 (case (if in_file_header_stale db \<or> index_stale db
                        then (case tsdb_fold_header db w of (_, db, w) \<Rightarrow> (db, w)) else (db, w)) of
                    (db, w) \<Rightarrow>
                      (case io_checked w of
                         (False, w) \<Rightarrow> (ESP_FAIL, Some (db\<lparr>db_file := None, is_open := False\<rparr>), w)
                       | (True, w) \<Rightarrow>
                           (case fopen_existing w (filepath db) of
                              (False, w) \<Rightarrow> (ESP_FAIL, Some (db\<lparr>db_file := None, is_open := False\<rparr>), w)
                            | (True, w) \<Rightarrow> (ESP_OK, Some (db\<lparr>db_file := Some (filepath db)\<rparr>), w))))))"

definition tsdb_is_initialized_h :: "tsdb option \<Rightarrow> bool" where
  "tsdb_is_initialized_h dbo = (case dbo of None \<Rightarrow> False | Some db \<Rightarrow> is_open db)"

record tsdb_stats =
  st_total_records :: u32
  st_max_records :: u32
  st_oldest_timestamp :: u32
  st_newest_timestamp :: u32
  st_total_writes :: u32
  st_total_evictions :: u32
  storage_bytes :: u32
  st_num_params :: u8
  extra_params :: u8
  st_buffer_pool_size :: u32
  using_paged_allocation :: bool

text \<open>\<open>stat(path, &st)\<close>: the size, if the call succeeds.\<close>

definition stat_size :: "world \<Rightarrow> path \<Rightarrow> nat option \<times> world" where
  "stat_size w p =
     (case next_io w of (r, w') \<Rightarrow> (if r = IoOk then map_option length (fs w p) else None, w'))"

text \<open>The second argument says whether the caller passed a place for the result.\<close>

definition tsdb_get_stats_h :: "tsdb option \<Rightarrow> bool \<Rightarrow> world \<Rightarrow> esp_err \<times> tsdb_stats option \<times> world" where
  "tsdb_get_stats_h dbo out w =
     (case dbo of
        None \<Rightarrow> (ESP_ERR_INVALID_STATE, None, w)
      | Some db \<Rightarrow>
          if \<not> is_open db then (ESP_ERR_INVALID_STATE, None, w)
          else if \<not> out then (ESP_ERR_INVALID_ARG, None, w)
          else
            (case tsdb_lock_open w of
               (Some e, w) \<Rightarrow> (e, None, w)
             | (None, w) \<Rightarrow>
                 (case stat_size w (filepath db) of
                    (sz, w) \<Rightarrow>
                      (let h = header db
                       in (ESP_OK,
                           Some \<lparr> st_total_records =
                                    (if max_records h = 0 \<or> total_records h < max_records h
                                     then total_records h else max_records h),
                                  st_max_records = max_records h,
                                  st_oldest_timestamp = oldest_timestamp h,
                                  st_newest_timestamp = newest_timestamp h,
                                  st_total_writes = total_writes h,
                                  st_total_evictions = total_evictions h,
                                  storage_bytes = (case sz of None \<Rightarrow> 0 | Some n \<Rightarrow> of_nat n),
                                  st_num_params = num_params h,
                                  extra_params = db_extra_param_count db,
                                  st_buffer_pool_size = total_size (pool db),
                                  using_paged_allocation = is_paged (pool db) \<rparr>,
                           w)))))"

definition clear_header :: "tsdb_header \<Rightarrow> tsdb_header" where
  "clear_header h =
     (let h = h\<lparr>total_records := 0, oldest_record_idx := 0, newest_record_idx := 0, oldest_timestamp := 0,
                newest_timestamp := 0, total_writes := 0, total_evictions := 0\<rparr>
      in if overflow_offset h > 0 then h\<lparr>first_overflow_record_idx := 0\<rparr> else h)"

definition tsdb_clear_h :: "tsdb option \<Rightarrow> world \<Rightarrow> esp_err \<times> tsdb option \<times> world" where
  "tsdb_clear_h dbo w =
     (case dbo of
        None \<Rightarrow> (ESP_ERR_INVALID_STATE, None, w)
      | Some db \<Rightarrow>
          if \<not> is_open db then (ESP_ERR_INVALID_STATE, Some db, w)
          else
            (case tsdb_lock_open w of
               (Some e, w) \<Rightarrow> (e, Some db, w)
             | (None, w) \<Rightarrow>
                 (let h = clear_header (header db);
                      db = db\<lparr>header := h,
                              db_first_overflow_record_idx :=
                                (if overflow_offset h > 0 then 0 else db_first_overflow_record_idx db),
                              index_stale := False\<rparr>;
                      w = (case db_file db of None \<Rightarrow> w | Some p \<Rightarrow> write_zero_index p h w)
                  in case tsdb_fold_header db w of
                       (_, db, w) \<Rightarrow> (ESP_OK, Some db, w))))"

section \<open>A folded database is recoverable without its sidecar\<close>

text \<open>Only the position of the index matters here; every file created since 2.x has it at 1024 or 2048.\<close>

definition modern_layout :: "tsdb_header \<Rightarrow> bool" where
  "modern_layout h \<longleftrightarrow> 584 \<le> unat (index_offset h) \<and> data_start h < 2 ^ 32"

lemma no_slots_side_inv:
  assumes "\<And>q. q \<in> side_files (filepath db) \<Longrightarrow> fs w q = None" "sidecar_slot db \<in> {0, 1}" "legacy_slot db \<in> {0, 1}"
    and "legacy_seq db = 0" "sidecar_seq db < 0xFFFFFFFF"
  shows "side_inv db w"
  using no_slots(1,2) [of "filepath db" w, OF assms(1)] assms(2-5) by (simp add: side_inv_def newest_is_def)

lemma side_inv_slots: "side_inv db w \<Longrightarrow> sidecar_slot db \<in> {0, 1} \<and> legacy_slot db \<in> {0, 1} \<and> sidecar_seq db < 0xFFFFFFFF"
  by (simp add: side_inv_def)

lemma parent_not_side_dir: "parent_dir p \<noteq> tsdb_side_dir p"
proof
  assume "parent_dir p = tsdb_side_dir p"
  then have "length (parent_dir p) = length p + 2" by (simp add: tsdb_side_dir_def)
  moreover have "length (parent_dir p) \<le> length p"
    using length_dropWhile_le [of "\<lambda>c. c \<noteq> CHR ''/''" "rev p"] by (simp add: parent_dir_def)
  ultimately show False by simp
qed

text \<open>The header that a fold stores is usable when its counters pass the sanity check.\<close>

lemma header_usable:
  assumes "crash_inv db w" "db_file db = Some (filepath db)" "config_part h = config_part (header db)" "counters_pass h"
  shows "judge_header (ESP_OK, Some h) = HeaderUsable"
proof -
  obtain h0 where h0: "judge_header (ESP_OK, Some h0) = HeaderUsable" "config_part h0 = config_part (header db)"
    by (rule crash_inv_header [OF assms(1,2)])
  have "config_part h0 = config_part h" using h0(2) assms(3) by simp
  note sane_config [OF this judge_ok(3) [OF h0(1)] assms(4)] config_part_fields(1,2) [OF this]
  then show ?thesis using judge_ok [OF h0(1)] by (simp add: judge_header_def)
qed

lemma fold_crash_inv:
  assumes "quiet w" "db_file db = Some (filepath db)" "header_wf (header db)" "modern_layout (header db)"
    and "sidecar_slot db \<in> {0, 1} \<and> legacy_slot db \<in> {0, 1} \<and> sidecar_seq db < 0xFFFFFFFF"
    and "dirs w (parent_dir (filepath db))" "judge_header (ESP_OK, Some (header db)) = HeaderUsable"
    and "tsdb_fold_header db w = (r, db', w')"
  shows "crash_inv db' w'"
proof -
  let ?p = "filepath db"
  have m: "584 \<le> unat (index_offset (header db))" "data_start (header db) < 2 ^ 32"
    using assms(4) by (simp_all add: modern_layout_def)
  note fd = quiet_fold [OF assms(1,2) refl assms(3) m assms(8)]
  have "side_inv db' w'" using assms(5) fd(7) by (intro no_slots_side_inv) (simp_all add: fd(3))
  moreover have "side_dirs db' w'" using assms(6) fd(9) [OF parent_not_side_dir] by (simp add: side_dirs_def fd(3))
  moreover have "stored_header w' ?p names = None" for names by (rule no_slots(3) [OF fd(7)])
  ultimately show ?thesis using assms(2,7) fd(5) by (simp add: crash_inv_def fd(3))
qed

lemma fold_recoverable:
  assumes "recoverable cfg n (db, w)" "counters_pass (header db)" "modern_layout (header db)"
    and "tsdb_fold_header db w = (r, db', w')"
  shows "r = ESP_OK" "recoverable cfg n (db', w')" "header db' = header db" "filepath db' = filepath db"
    "db_rows (db', w') = db_rows (db, w)"
    "generation db' = generation db" "\<And>q. q \<in> side_files (filepath db) \<Longrightarrow> fs w' q = None"
proof -
  let ?p = "filepath db" and ?h = "header db"
  note rc = assms(1) [unfolded recoverable_def Let_def prod.case]
  have q: "quiet w" "db_inv db w" "room_for n db" and ci: "crash_inv db w" and wr: "is_open db" "\<not> migrating db" "\<not> closing db"
    using rc by (auto simp: writable_def)
  have f: "db_file db = Some ?p" and ri: "ring_inv ?h (content w ?p)" and wf: "header_wf ?h"
    using q(2) by (auto simp: db_inv_def ring_inv_def ring_hdr_def)
  have m: "584 \<le> unat (index_offset ?h)" "data_start ?h < 2 ^ 32" using assms(3) by (simp_all add: modern_layout_def)
  note fd = quiet_fold [OF q(1) f refl wf m assms(4)]
  show "r = ESP_OK" "header db' = ?h" "filepath db' = ?p" "generation db' = generation db" using fd(1,3) by simp_all
  show "fs w' q = None" if "q \<in> side_files ?p" for q using fd(7) [OF that] .
  note k = keeps_ring [OF fd(6) ri]
  then show "db_rows (db', w') = db_rows (db, w)" by (simp add: db_rows_def fd(3))
  have "db_inv db' w'" using f k(1) q(2) quiet_sound [OF fd(2)] by (simp add: fd(3) db_inv_def ovf_clear_def)
  moreover have "room_for n db'" using q(3) by (simp add: fd(3) room_for_def Let_def)
  moreover have "fs w' (mig_path ?p) = None" using fd(8) mig_path_apart rc by simp
  moreover have "pool_available cfg w'" using rc quiet_pool_available [OF q(1) fd(2)] by simp
  moreover have "crash_inv db' w'"
    using side_inv_slots [of db w] ci header_usable [OF ci f refl assms(2)]
    by (intro fold_crash_inv [OF q(1) f wf assms(3) _ _ _ assms(4)]) (simp_all add: crash_inv_def side_dirs_def)
  ultimately show "recoverable cfg n (db', w')"
    using rc wr fd(2) by (simp add: recoverable_def writable_def Let_def fd(3))
qed

section \<open>Closing and opening again\<close>

lemma quiet_lock [simp]: "quiet w \<Longrightarrow> tsdb_lock w = (True, w)"
  by (simp add: tsdb_lock_def quiet_next)

lemma nth_put_handle [simp]: "a < length (heap lib) \<Longrightarrow> heap (put_handle a db lib) ! a = db"
  by (simp add: put_handle_def)

lemma recoverable_control:
  "recoverable cfg n (db\<lparr>cache_dirty := False\<rparr>, w) = recoverable cfg n (db, w)"
  by (cases db) (simp only: recoverable_def writable_def crash_inv_def db_inv_def ovf_clear_def room_for_def side_inv_def
      side_dirs_def Let_def prod.case tsdb.update_convs tsdb.select_convs)

text \<open>Closing an open handle in a world without failures.\<close>

lemma quiet_close:
  assumes "recoverable cfg n (db, w)" "counters_pass (header db)" "modern_layout (header db)"
    and "a < length (heap lib)" "heap lib ! a = db" "s_recycled_handle lib = None"
  obtains lib' w' db' where "tsdb_close_h (Some a) lib w = (ESP_OK, lib', w')" "recoverable cfg n (db', w')"
    "header db' = header db" "filepath db' = filepath db" "db_rows (db', w') = db_rows (db, w)" "s_recycled_handle lib' = Some a"
    "a < length (heap lib')" "\<not> is_open (heap lib' ! a)" "generation (heap lib' ! a) = generation db"
    "\<forall>q \<in> side_files (filepath db). fs w' q = None" "g_default_handle lib' = g_default_handle lib"
    "db_rows (heap lib' ! a, w') = db_rows (db, w)" "filepath (heap lib' ! a) = filepath db"
proof -
  have o1: "quiet w" "is_open db" "\<not> closing db" using assms(1) by (auto simp: recoverable_def Let_def writable_def)
  obtain r db' w' where fd: "tsdb_fold_header (db\<lparr>cache_dirty := False\<rparr>) w = (r, db', w')" by (metis prod_cases3)
  have rc: "recoverable cfg n (db\<lparr>cache_dirty := False\<rparr>, w)" using assms(1) by (simp add: recoverable_control)
  note f = fold_recoverable [OF rc _ _ fd, simplified, OF assms(2,3)]
  obtain p where p: "db_file db = Some p" using assms(1) by (auto simp: recoverable_def Let_def writable_def db_inv_def)
  have c: "tsdb_fold_header (db\<lparr>closing := True, cache_dirty := False\<rparr>) w = (r, db'\<lparr>closing := True\<rparr>, w')"
    using fd unfolding quiet_fold_header [OF o1(1), of "db\<lparr>cache_dirty := False\<rparr>" p, simplified, OF p]
      quiet_fold_header [OF o1(1), of "db\<lparr>closing := True, cache_dirty := False\<rparr>" p, simplified, OF p]
    by (auto simp: fold_data_def folds_def fold_len_def fold_entries_def fold_buffer_def)
  let ?db = "db'\<lparr>closing := True, db_file := None, pool := zero_pool, is_open := False, closing := False\<rparr>"
  have "tsdb_close_h (Some a) lib w = (ESP_OK, tsdb_retire_handle a (put_handle a ?db lib), w')"
    using o1 assms(5) c by (simp add: tsdb_close_h_def Let_def close_locked_def)
  moreover have "db_rows (db', w') = db_rows (db, w)" "db_rows (?db, w') = db_rows (db, w)" using f(5) by (simp_all add: db_rows_def)
  ultimately show ?thesis
    using f(2-4,6,7) assms(4,6) that [of "tsdb_retire_handle a (put_handle a ?db lib)" w' db']
    by (simp add: tsdb_retire_handle_def put_handle_def)
qed

lemma close_reopen:
  assumes "crash_safe cfg n (db, w)" "modern_layout (header db)" "config_ok cfg"
    and "a < length (heap lib)" "heap lib ! a = db" "s_recycled_handle lib = None"
  shows "\<exists>lib1 w1 lib2. tsdb_close_h (Some a) lib w = (ESP_OK, lib1, w1) \<and> \<not> is_open (heap lib1 ! a) \<and>
    tsdb_open (Some cfg) lib1 w1 = (Some a, lib2, w1) \<and> is_open (heap lib2 ! a) \<and>
    generation (heap lib2 ! a) = generation db + 1 \<and> header (heap lib2 ! a) = header db \<and>
    db_rows (heap lib2 ! a, w1) = db_rows (db, w)"
proof -
  have rc: "recoverable cfg n (db, w)" and cp: "counters_pass (header db)"
    using assms(1) crash_safe_passes by (auto simp: crash_safe_def)
  obtain lib1 w1 db1 where c: "tsdb_close_h (Some a) lib w = (ESP_OK, lib1, w1)" "recoverable cfg n (db1, w1)"
    "header db1 = header db" "filepath db1 = filepath db" "db_rows (db1, w1) = db_rows (db, w)" "s_recycled_handle lib1 = Some a"
    "a < length (heap lib1)" "\<not> is_open (heap lib1 ! a)" "generation (heap lib1 ! a) = generation db"
    using quiet_close [OF rc cp assms(2,4-6)] by metis
  obtain db2 where o1: "tsdb_open_handle cfg (zero_tsdb (generation db + 1)) w1 = (Opened db2, w1)" "header db2 = header db1"
    "filepath db2 = filepath db1" "generation db2 = generation db + 1" "recoverable cfg n (db2, w1)"
    using reopen [OF c(2), of "generation db + 1"] cp c(3) by auto
  have q: "quiet w1" "is_open db2" using o1(5) by (auto simp: recoverable_def Let_def writable_def)
  let ?lib = "put_handle a (zero_tsdb (generation db + 1)) (lib1\<lparr>s_recycled_handle := None\<rparr>)"
  define lib2 where "lib2 = put_handle a db2 ?lib"
  have "tsdb_open (Some cfg) lib1 w1 = (Some a, lib2, w1)"
    using assms(3) c(6,7,9) o1(1) q(1) by (simp add: tsdb_open_def tsdb_acquire_handle_def lib2_def)
  moreover have "heap lib2 ! a = db2" using c(7) by (simp add: put_handle_def lib2_def)
  moreover have "db_rows (db2, w1) = db_rows (db, w)" using c(3-5) o1(2,3) by (simp add: db_rows_def)
  ultimately show ?thesis using c(1,3,8) o1(2,4) q(2) by auto
qed

text \<open>
  C11: Closing and opening again is a round trip for a database of the current layout into which at
  most twice its capacity was written (\<open>crash_safe\<close>): in a world without failures and with an empty
  recycler \<open>tsdb_close_h\<close> succeeds, the handle is parked, and \<open>tsdb_open\<close> with the same
  configuration takes it from the recycler with a new generation and the same header and records.
  Beyond twice the capacity the sanity check of the open refuses the header that the close has
  folded into the file.
\<close>

theorem close_open_roundtrip:
  assumes "crash_safe cfg n (db, w)" "modern_layout (header db)" "config_ok cfg"
    and "a < length (heap lib)" "heap lib ! a = db" "s_recycled_handle lib = None"
  shows "\<exists>lib1 w1 lib2. tsdb_close_h (Some a) lib w = (ESP_OK, lib1, w1) \<and> \<not> is_open (heap lib1 ! a) \<and>
    tsdb_open (Some cfg) lib1 w1 = (Some a, lib2, w1) \<and> is_open (heap lib2 ! a) \<and>
    generation (heap lib2 ! a) = generation db + 1 \<and> header (heap lib2 ! a) = header db \<and>
    db_rows (heap lib2 ! a, w1) = db_rows (db, w)"
  by (rule close_reopen [OF assms])

text \<open>The small database of the instances, with three records.\<close>

lemma demo_session:
  obtains db w where "tsdb_open_handle (demo_config 3) (zero_tsdb 0) empty_world = (Opened db, w)"
    "recoverable (demo_config 3) 5 (db, w)" "header db = new_header (demo_config 3)" "db_rows (db, w) = []"
    "db_extra_param_count db = 0" "crash_safe (demo_config 3) 5 (db, w)" "modern_layout (header db)" "config_ok (demo_config 3)"
proof -
  have n: "fits_file (demo_config 3) 5" by (rule demo_fits_file) simp
  have cb: "\<not> cfg_free_space_cb (demo_config 3)" by (simp add: demo_config_def)
  have ad: "admissible (demo_config 3)" by (rule demo_config_admissible) simp
  obtain db w where o1: "tsdb_open_handle (demo_config 3) (zero_tsdb 0) empty_world = (Opened db, w)"
    "recoverable (demo_config 3) 5 (db, w)" "db_rows (db, w) = []" "header db = new_header (demo_config 3)"
    "db_extra_param_count db = 0"
    by (rule open_recoverable [OF demo_fresh(1) ad demo_fresh(2) demo_available [OF demo_fresh(1)] cb n])
  have "crash_safe (demo_config 3) 5 (db, w)"
    using o1(2,4) by (simp add: crash_safe_def Let_def new_header_fields) (simp add: demo_config_def)
  moreover have "modern_layout (header db)"
    unfolding o1(4) modern_layout_def data_start_def new_header_fields
    by (simp add: demo_config_def entries_for_def stride_or_default_def)
  moreover have "config_ok (demo_config 3)" using ad by (simp add: admissible_def)
  ultimately show ?thesis by (rule that [OF o1(1,2,4,3,5)])
qed

theorem close_open_roundtrip_witness:
  "\<exists>db w lib lib1 w1 lib2. recoverable (demo_config 3) 5 (db, w) \<and> heap lib = [db] \<and>
    tsdb_close_h (Some 0) lib w = (ESP_OK, lib1, w1) \<and> tsdb_open (Some (demo_config 3)) lib1 w1 = (Some 0, lib2, w1) \<and>
    db_rows (heap lib2 ! 0, w1) = []"
proof -
  obtain db w where d: "recoverable (demo_config 3) 5 (db, w)" "db_rows (db, w) = []" "crash_safe (demo_config 3) 5 (db, w)"
    "modern_layout (header db)" "config_ok (demo_config 3)"
    by (rule demo_session)
  let ?lib = "\<lparr> heap = [db], s_recycled_handle = None, g_default_handle = None \<rparr>"
  have "\<exists>lib1 w1 lib2. tsdb_close_h (Some 0) ?lib w = (ESP_OK, lib1, w1) \<and>
      tsdb_open (Some (demo_config 3)) lib1 w1 = (Some 0, lib2, w1) \<and> db_rows (heap lib2 ! 0, w1) = []"
    using close_open_roundtrip [OF d(3-5), of 0 ?lib] d(2) by auto
  moreover have "heap ?lib = [db]" by simp
  ultimately show ?thesis using d(1) by blast
qed

section \<open>Clearing\<close>

lemma zero_index_touches:
  assumes "584 \<le> unat (index_offset h)"
  shows "keeps (\<lambda>j. j < 584) (content w p) (content (write_zero_index p h w) p)"
    "fs (write_zero_index p h w) q = (if q = p then fs (write_zero_index p h w) p else fs w q)"
    "dirs (write_zero_index p h w) = dirs w" "quiet w \<Longrightarrow> quiet (write_zero_index p h w)"
  using write_zero_index_keeps [OF assms, of w p] by (auto simp: touches_def)

lemma clear_config:
  assumes "extra_param_count h = 0" "overflow_offset h = 0"
  shows "config_part (clear_header h) = config_part h" "total_records (clear_header h) = 0" "counters_pass (clear_header h)"
    "avail (clear_header h) = 0"
  using assms by (simp_all add: clear_header_def config_part_def counters_pass_def avail_def Let_def)

lemma quiet_clear:
  assumes "recoverable cfg n (db, w)" "modern_layout (header db)" "overflow_offset (header db) = 0"
  obtains db' w' where "tsdb_clear_h (Some db) w = (ESP_OK, Some db', w')" "recoverable cfg n (db', w')"
    "header db' = clear_header (header db)" "filepath db' = filepath db"
proof -
  let ?p = "filepath db" and ?h = "clear_header (header db)"
  note rc = assms(1) [unfolded recoverable_def Let_def prod.case]
  have q: "quiet w" "db_inv db w" "room_for n db" and ci: "crash_inv db w" and wr: "is_open db" "\<not> migrating db" "\<not> closing db"
    and x: "extra_param_count (header db) = 0" using rc by (auto simp: writable_def)
  have f: "db_file db = Some ?p" and ri: "ring_hdr (header db)" and wf: "header_wf (header db)"
    using q(2) by (auto simp: db_inv_def ring_inv_def ring_hdr_def)
  note cl = clear_config [OF x assms(3)]
  note c = config_part_fields [OF cl(1) [symmetric]]
  have geo: "data_start ?h = data_start (header db)" "block_pos ?h = block_pos (header db)" "header_wf ?h" "ring_hdr ?h" "overflow_offset ?h = 0"
    using ri wf assms(3)
    by (simp_all add: data_start_def block_pos_def fun_eq_iff ring_hdr_def header_wf_def clear_header_def Let_def)
  have m: "modern_layout ?h" "584 \<le> unat (index_offset ?h)" using assms(2) geo(1) c by (simp_all add: modern_layout_def)
  define db1 where "db1 = db\<lparr>header := ?h, db_first_overflow_record_idx := db_first_overflow_record_idx db, index_stale := False\<rparr>"
  define w1 where "w1 = write_zero_index ?p ?h w"
  note z = zero_index_touches [OF m(2), where w = w and p = ?p, folded w1_def]
  obtain r db' w' where fd: "tsdb_fold_header db1 w1 = (r, db', w')" by (metis prod_cases3)
  have f1: "db_file db1 = Some (filepath db1)" "header db1 = ?h" using f by (simp_all add: db1_def)
  have u: "judge_header (ESP_OK, Some (header db1)) = HeaderUsable" using header_usable [OF ci f cl(1,3)] f1 by simp
  have q1: "quiet w1" by (rule z(4) [OF q(1)])
  have ci': "crash_inv db' w'"
    using side_inv_slots [of db w] ci u geo m z(3)
    by (intro fold_crash_inv [OF q1 f1(1) _ _ _ _ _ fd]) (simp_all add: crash_inv_def side_dirs_def f1 db1_def)
  have mm: "584 \<le> unat (index_offset (header db1))" "data_start (header db1) < 2 ^ 32" "header_wf (header db1)"
    using m geo f1 by (simp_all add: modern_layout_def)
  note qf = quiet_fold [OF q1 f1(1) refl mm(3,1,2) fd]
  have fp: "filepath db1 = ?p" by (simp add: db1_def)
  have db': "db' = db\<lparr>header := ?h, db_first_overflow_record_idx := db_first_overflow_record_idx db, in_file_header_stale := False,
      index_stale := False, side_dir_ready := False, legacy_mirrored := False, legacy_seq := 0\<rparr>"
    using qf(3) by (simp add: db1_def)
  have "room_for n db'"
  proof -
    have "(n - 1) div rpb (header db) \<le> (nrec (header db) + n - 1) div rpb (header db)" by (intro div_le_mono) simp
    from block_pos_mono [OF this, of "header db"] show ?thesis
      using q(3) rc c cl(2) geo(2) by (auto simp: room_for_def Let_def db' split: if_splits)
  qed
  moreover have "db_inv db' w'" using f geo cl(4) q(2) rc quiet_sound [OF qf(2)] by (simp add: db_inv_def ring_inv_def db' ovf_clear_def)
  moreover have "fs w' (mig_path ?p) = None"
    using qf(8) [unfolded fp, OF mig_path_apart] z(2) [where q = "mig_path ?p"] mig_path_apart(1) rc by simp
  moreover have "pool_available cfg w'" using rc quiet_pool_available [OF q(1) qf(2)] by simp
  ultimately have rc': "recoverable cfg n (db', w')"
    using rc wr qf(2) ci' c by (simp add: recoverable_def writable_def Let_def db')
  have "tsdb_clear_h (Some db) w = (ESP_OK, Some db', w')"
    using wr(1) f fd geo(5) by (simp add: tsdb_clear_h_def quiet_lock_open [OF q(1)] Let_def db1_def w1_def)
  from that [OF this rc'] show ?thesis by (simp add: db')
qed

text \<open>
  C29: In a world without failures clearing empties a database (of the current layout, without
  overflow region, that a crash would not damage) for good: \<open>tsdb_clear_h\<close> succeeds, no record is
  retained, the database stays writable with the same geometry, and it is still empty after a
  crash and reopen. When the fold fails, a clear is acknowledged that a crash undoes
  (\<open>clear_undone_by_crash\<close> below).
\<close>

theorem clear_empties:
  assumes "recoverable cfg n (db, w)" "modern_layout (header db)" "overflow_offset (header db) = 0"
  shows "\<exists>db' w'. tsdb_clear_h (Some db) w = (ESP_OK, Some db', w') \<and> db_rows (db', w') = [] \<and>
    writable n (db', w') \<and> config_part (header db') = config_part (header db) \<and>
    db_rows (crash_reopen cfg (db', w')) = []"
proof -
  obtain db' w' where c: "tsdb_clear_h (Some db) w = (ESP_OK, Some db', w')" "recoverable cfg n (db', w')"
    "header db' = clear_header (header db)" "filepath db' = filepath db"
    by (rule quiet_clear [OF assms])
  have "extra_param_count (header db) = 0" using assms(1) by (simp add: recoverable_def Let_def)
  note cl = clear_config [OF this assms(3)]
  have e: "retained (header db') f = []" for f using cl(4) c(3) by (simp add: retained_def)
  obtain db2 where "tsdb_open_handle cfg (zero_tsdb 0) w' = (Opened db2, w')" "header db2 = header db'"
    using reopen [OF c(2), of 0] cl(3) c(3) by auto
  then have "db_rows (crash_reopen cfg (db', w')) = []" using e by (simp add: crash_reopen_def db_rows_def)
  moreover have "writable n (db', w')" using c(2) by (simp add: recoverable_def Let_def)
  ultimately show ?thesis using c(1) e cl(1) c(3) by (simp add: db_rows_def)
qed

theorem clear_empties_witness:
  "\<exists>db w db' w'. recoverable (demo_config 3) 5 (db, w) \<and> tsdb_clear_h (Some db) w = (ESP_OK, Some db', w') \<and>
     db_rows (crash_reopen (demo_config 3) (db', w')) = []"
proof -
  obtain db w where d: "recoverable (demo_config 3) 5 (db, w)" "header db = new_header (demo_config 3)" "modern_layout (header db)"
    by (rule demo_session)
  then have "overflow_offset (header db) = 0" by (simp add: new_header_fields)
  from clear_empties [OF d(1,3) this] d(1) show ?thesis by blast
qed

section \<open>A clear whose fold fails\<close>

lemma fold_writes_outside:
  assumes "\<And>i. i \<in> set is \<Longrightarrow> lo \<le> off i \<and> off i + length (d i) \<le> hi"
  shows "keeps (\<lambda>j. j < lo \<or> hi \<le> j) (content w p) (content (foldl (\<lambda>w i. snd (fwrite_at w p (off i) (d i))) w is) p)"
  using assms
proof (induction "is" arbitrary: w)
  case (Cons i "is")
  obtain r w1 where fw: "fwrite_at w p (off i) (d i) = (r, w1)" by fastforce
  have "keeps (\<lambda>j. j < lo \<or> hi \<le> j) (content w p) (content w1 p)"
    by (rule keeps_mono [OF fwrite_at_keeps_outside [OF fw]]) (use Cons.prems in fastforce)
  moreover have "\<And>i. i \<in> set is \<Longrightarrow> lo \<le> off i \<and> off i + length (d i) \<le> hi" using Cons.prems by simp
  note Cons.IH [OF this, of w1]
  ultimately show ?case
    using fw keeps_trans [of "\<lambda>j. j < lo \<or> hi \<le> j" _ _ "\<lambda>j. j < lo \<or> hi \<le> j"] by fastforce
qed simp

lemma zero_index_outside:
  "keeps (\<lambda>j. j < unat (index_offset h) \<or> data_start h \<le> j) (content w p) (content (write_zero_index p h w) p)"
  unfolding write_zero_index_def by (rule fold_writes_outside) (auto simp: data_start_def)

lemma fwrite_ok_script:
  "io_script w = IoOk # rest \<Longrightarrow>
   fwrite_at w p off d = (None, put_file (w\<lparr>io_script := rest\<rparr>) p (overlay (content w p) off d))"
  by (simp add: fwrite_at_def next_io_def content_def)

lemma zero_index_script:
  assumes "io_script w = replicate (unat (index_entries h)) IoOk @ rest"
  shows "io_script (write_zero_index p h w) = rest \<and> heap_script (write_zero_index p h w) = heap_script w \<and>
    lock_script (write_zero_index p h w) = lock_script w"
proof -
  let ?z = "\<lambda>off w is. foldl (\<lambda>w i. snd (fwrite_at w p (off i) (replicate 8 0))) w is"
  have "io_script w = replicate (length is) IoOk @ rest \<Longrightarrow>
      io_script (?z off w is) = rest \<and> heap_script (?z off w is) = heap_script w \<and> lock_script (?z off w is) = lock_script w" for "is" :: "nat list" and off w
    by (induction "is" arbitrary: w) (simp_all add: fwrite_ok_script put_file_def)
  from this [of w "[0..<unat (index_entries h)]"] assms show ?thesis by (simp add: write_zero_index_def)
qed

text \<open>A file update between the header and the data leaves the database as recoverable as it was.\<close>

lemma recoverable_index_update:
  assumes "recoverable cfg n (db, w)" "quiet w'" "dirs w' = dirs w" "\<And>q. q \<noteq> filepath db \<Longrightarrow> fs w' q = fs w q"
    and "modern_layout (header db)"
    and "keeps (\<lambda>j. j < unat (index_offset (header db)) \<or> data_start (header db) \<le> j)
      (content w (filepath db)) (content w' (filepath db))"
  shows "recoverable cfg n (db, w')" "db_rows (db, w') = db_rows (db, w)"
proof -
  let ?p = "filepath db" and ?h = "header db"
  note rc = assms(1) [unfolded recoverable_def Let_def prod.case]
  have q: "quiet w" "db_inv db w" and ci: "crash_inv db w" using rc by (auto simp: writable_def)
  have f: "db_file db = Some ?p" and ri: "ring_inv ?h (content w ?p)" using q(2) by (auto simp: db_inv_def)
  have m: "584 \<le> unat (index_offset ?h)" using assms(5) by (simp add: modern_layout_def)
  have kd: "keeps (\<lambda>j. data_start ?h \<le> j) (content w ?p) (content w' ?p)" by (rule keeps_mono [OF assms(6)]) simp
  have kh: "keeps (\<lambda>j. j < 584) (content w ?p) (content w' ?p)" by (rule keeps_mono [OF assms(6)]) (use m in simp)
  note k = keeps_ring [OF kd ri]
  show "db_rows (db, w') = db_rows (db, w)" using k(2) by (simp add: db_rows_def)
  have inv: "db_inv db w'" using q(2) k(1) quiet_sound [OF assms(2)] by (simp add: db_inv_def)
  have ss: "same_side db w db w'"
    using assms(2-4) side_file_neq by (auto simp: same_side_def)
  note st = same_side_newest(3) [OF ss]
  obtain h0 where h0: "tsdb_read_header (Some ?p) w = (ESP_OK, Some h0)" using crash_inv_header [OF ci f] by blast
  have "crash_inv db w'"
    using ci same_side_inv [OF ss] same_side_dirs [OF ss] st f h0 read_header_keeps [OF quiet_sound [OF assms(2)] kh h0] by (simp add: crash_inv_def)
  moreover have "fs w' (mig_path ?p) = None" using assms(4) mig_path_apart(1) rc by simp
  moreover have "pool_available cfg w'" using rc quiet_pool_available [OF q(1) assms(2)] by simp
  ultimately show "recoverable cfg n (db, w')"
    using rc inv assms(2) by (simp add: recoverable_def writable_def Let_def)
qed

text \<open>
  \<open>tsdb_clear_h\<close> does not look at the result of the fold: when the header cannot be
  rewritten (a full filesystem), it still reports success with an empty header in memory,
  and after a crash the database opens with every record it had before the clear.
\<close>

theorem clear_undone_by_crash:
  assumes "recoverable cfg n (db, w)" "counters_pass (header db)" "modern_layout (header db)"
    and "extra_param_count (header db) = 0" "overflow_offset (header db) = 0"
  shows "\<exists>db1 w1 db2.
    tsdb_clear_h (Some db) (w\<lparr>io_script := replicate (unat (index_entries (header db))) IoOk @ [IoFail 0 ENOSPC]\<rparr>) =
      (ESP_OK, Some db1, w1) \<and> total_records (header db1) = 0 \<and>
    tsdb_open_handle cfg (zero_tsdb 0) w1 = (Opened db2, w1) \<and> db_rows (db2, w1) = db_rows (db, w)"
proof -
  let ?p = "filepath db" and ?h = "clear_header (header db)"
  let ?n = "unat (index_entries (header db))"
  define w0 where "w0 = w\<lparr>io_script := replicate ?n IoOk @ [IoFail 0 ENOSPC]\<rparr>"
  note rc = assms(1) [unfolded recoverable_def Let_def prod.case]
  have q: "quiet w" "is_open db" and f: "db_file db = Some ?p" using rc by (auto simp: writable_def db_inv_def)
  note c = config_part_fields [OF clear_config(1) [OF assms(4,5), symmetric]]
  have hc: "index_offset ?h = index_offset (header db)" "data_start ?h = data_start (header db)" "overflow_offset ?h = 0"
    "index_entries ?h = index_entries (header db)"
    using c assms(5) by (simp_all add: data_start_def)
  have mh: "584 \<le> unat (index_offset ?h)" using assms(3) hc by (simp add: modern_layout_def)
  define w1 where "w1 = write_zero_index ?p ?h w0"
  have w1: "io_script w1 = [IoFail 0 ENOSPC]" "heap_script w1 = heap_script w" "lock_script w1 = lock_script w"
    using zero_index_script [of w0 ?h "[IoFail 0 ENOSPC]" ?p] by (simp_all add: w1_def w0_def hc)
  note t = write_zero_index_keeps [OF mh, of w0 ?p, folded w1_def, THEN conjunct2, unfolded touches_def]
  define w2 where "w2 = put_file (w1\<lparr>io_script := []\<rparr>) ?p (content w1 ?p)"
  define db1 where "db1 = db\<lparr>header := ?h, db_first_overflow_record_idx := db_first_overflow_record_idx db, index_stale := False\<rparr>"
  have "fold_len db1 = 0" by (simp add: fold_len_def fold_entries_def db1_def Let_def)
  then have fold: "tsdb_fold_header db1 w1 = (ESP_FAIL, db1, w2)"
    using f w1 by (simp add: tsdb_fold_header_def db1_def fwrite_at_def fwrite_checked_def next_io_def io_checked_def w2_def put_file_def content_def)
  have run: "tsdb_clear_h (Some db) w0 = (ESP_OK, Some db1, w2)"
    using q f fold hc(3)
    by (simp add: tsdb_clear_h_def tsdb_lock_open_def next_lock_def quiet_def w0_def Let_def db1_def w1_def)
  have "quiet w2" using t q(1) w1 by (simp add: w2_def quiet_def sound_def list_all_iff w0_def put_file_def)
  moreover have "dirs w2 = dirs w" "\<And>q. q \<noteq> ?p \<Longrightarrow> fs w2 q = fs w q" using t by (simp_all add: w2_def w0_def)
  moreover have "content w2 ?p = content w1 ?p" by (simp add: w2_def)
  then have "keeps (\<lambda>j. j < unat (index_offset (header db)) \<or> data_start (header db) \<le> j) (content w ?p) (content w2 ?p)"
    using zero_index_outside [of ?h w0 ?p, folded w1_def] hc by (simp add: w0_def content_def)
  ultimately have r: "recoverable cfg n (db, w2)" "db_rows (db, w2) = db_rows (db, w)"
    using recoverable_index_update [OF assms(1) _ _ _ assms(3)] by blast+
  obtain db2 where "tsdb_open_handle cfg (zero_tsdb 0) w2 = (Opened db2, w2)" "header db2 = header db" "filepath db2 = ?p"
    using reopen [OF r(1) assms(2), of 0] by blast
  moreover have "total_records (header db1) = 0" using clear_config(2) [OF assms(4,5)] by (simp add: db1_def)
  ultimately show ?thesis using run r(2) unfolding w0_def by (auto simp: db_rows_def)
qed

theorem clear_undone_by_crash_witness:
  "\<exists>db w db1 w1 db2. db_rows (db, w) = [(10, [1]), (20, [2])] \<and>
    tsdb_clear_h (Some db) (w\<lparr>io_script := replicate (unat (index_entries (header db))) IoOk @ [IoFail 0 ENOSPC]\<rparr>) =
      (ESP_OK, Some db1, w1) \<and>
    tsdb_open_handle (demo_config 3) (zero_tsdb 0) w1 = (Opened db2, w1) \<and> db_rows (db2, w1) = [(10, [1]), (20, [2])]"
proof -
  let ?xs = "[(10, [1]), (20, [2])] :: (u32 \<times> i16 list) list"
  obtain db0 w0 where d: "recoverable (demo_config 3) 5 (db0, w0)" "header db0 = new_header (demo_config 3)"
    "modern_layout (header db0)" "db_rows (db0, w0) = []" "db_extra_param_count db0 = 0"
    by (rule demo_session)
  have fits: "list_all (entry_fits (db0, w0)) ?xs"
    using d(2,5) by (simp add: entry_fits_def new_header_fields) (simp add: demo_config_def)
  have r: "recoverable (demo_config 3) (length ?xs + 3) (db0, w0)" using d(1) by simp
  obtain db w where p: "foldl db_put (db0, w0) ?xs = (db, w)" "recoverable (demo_config 3) 3 (db, w)"
    "config_part (header db) = config_part (header db0)" "nrec (header db) = nrec (header db0) + length ?xs"
    using recoverable_puts [OF r fits] by blast
  note c = config_part_fields [OF p(3) [symmetric]]
  have wr: "writable (length ?xs + 3) (db0, w0)" using r by (simp add: recoverable_def Let_def)
  have lim: "limit_of (header db) = Some 3" using c d(2) by (simp add: limit_of_def new_header_fields) (simp add: demo_config_def)
  have np: "nparams (header db0) = 1" using d(2) by (simp add: new_header_fields) (simp add: demo_config_def)
  have rows: "db_rows (db, w) = ?xs"
    using db_queue.puts_rows [OF wr fits] p(1) d(4) lim np by (simp add: entry_row_def last_n_def)
  have "counters_pass (header db)"
    using p(4) c d(2) by (simp add: counters_pass_def new_header_fields word_le_nat_alt) (simp add: demo_config_def)
  moreover have "modern_layout (header db)" using d(3) c by (simp add: modern_layout_def data_start_def)
  moreover have "extra_param_count (header db) = 0" "overflow_offset (header db) = 0"
    using c d(2) by (simp_all add: new_header_fields)
  ultimately obtain db1 w1 db2 where res:
    "tsdb_clear_h (Some db) (w\<lparr>io_script := replicate (unat (index_entries (header db))) IoOk @ [IoFail 0 ENOSPC]\<rparr>) =
      (ESP_OK, Some db1, w1)" "tsdb_open_handle (demo_config 3) (zero_tsdb 0) w1 = (Opened db2, w1)"
    "db_rows (db2, w1) = db_rows (db, w)"
    using clear_undone_by_crash [OF p(2)] by blast
  from res(3) rows have "db_rows (db2, w1) = ?xs" by simp
  with res(1,2) rows show ?thesis by blast
qed

end
