(* ===== verification/Tsdb_Recycler.thy ===== *)
theory Tsdb_Recycler
  imports Tsdb_Lifecycle
begin

text \<open>
  The handles as a state machine: the steps are the calls of the library's operations on any
  handle, in any order and with any failures, with arbitrary changes of the environment in
  between. Two invariants are proved by induction over the steps: the parked handle is
  closed, and the generation of a struct counts its incarnations. They give the safety of
  \<open>TSDB_LOCK_OPEN_OR_RETURN\<close> (\<open>src/tsdb_internal.h\<close>): a task that waited for the lock
  while its handle was closed is turned away, even when the struct has been reused for
  another database.
\<close>

section \<open>What the operations do to the identity of a handle\<close>

definition ident :: "tsdb \<Rightarrow> u32 \<times> bool" where
  "ident db = (generation db, is_open db)"

lemma ident_header [simp]: "ident (db\<lparr>header := h\<rparr>) = ident db"
  by (simp add: ident_def)

lemma sidecar_load_ident: "tsdb_sidecar_load db base w = (r, ho, db', w') \<Longrightarrow> ident db' = ident db"
  by (auto simp: tsdb_sidecar_load_def Let_def ident_def split: prod.splits option.splits if_splits)

lemma adopt_sidecar_ident: "adopt_sidecar db w = (db', w') \<Longrightarrow> ident db' = ident db"
proof -
  assume a: "adopt_sidecar db w = (db', w')"
  obtain r ho db1 w1 where l: "tsdb_sidecar_load db (header db) w = (r, ho, db1, w1)" by (metis prod_cases4)
  have "ident db1 = ident db" by (rule sidecar_load_ident [OF l])
  with a l show ?thesis
    by (auto simp: adopt_sidecar_def ident_def split: esp_err.splits option.splits if_splits)
qed

fun step_db :: "open_step \<Rightarrow> tsdb" where
  "step_db (Opened db) = db"
| "step_db (Recreate db) = db"
| "step_db (OpenFailed db) = db"

lemma open_header_ident: "open_header cfg p db w = (st, w') \<Longrightarrow> ident (step_db st) = ident db"
proof -
  assume o1: "open_header cfg p db w = (st, w')"
  obtain r ho where rd: "tsdb_read_header (Some p) w = (r, ho)" by fastforce
  define db1 where "db1 = (case ho of None \<Rightarrow> db | Some h \<Rightarrow> db\<lparr>header := h\<rparr>)"
  have i: "ident db1 = ident db" by (simp add: db1_def ident_def split: option.split)
  obtain db2 w2 where ad: "adopt_sidecar db1 w = (db2, w2)" by fastforce
  have i2: "ident db2 = ident db" using adopt_sidecar_ident [OF ad] i by simp
  show ?thesis
    using o1 i i2 ad
    by (auto simp: open_header_def Let_def rd db1_def [symmetric]
        split: verdict.splits prod.splits esp_err.splits option.splits if_splits)
qed

lemma open_settled_ident: "open_settled cfg p db w = (st, w') \<Longrightarrow> ident (step_db st) = ident db"
  by (auto simp: open_settled_def Let_def ident_def load_overflow_state_def tsdb_migrate_v2_def
      split: prod.splits if_splits)

lemma create_file_ident: "create_file cfg p db w = (st, w') \<Longrightarrow> ident (step_db st) = ident db"
  by (auto simp: create_file_def Let_def ident_def split: prod.splits bool.splits esp_err.splits)

lemma open_file_ident: "open_file cfg p db w = (st, w') \<Longrightarrow> ident (step_db st) = ident db"
proof -
  assume o1: "open_file cfg p db w = (st, w')"
  obtain ex w1 where fo: "fopen_existing w p = (ex, w1)" by fastforce
  let ?db = "db\<lparr>db_file := Some p\<rparr>"
  obtain s1 w2 where h: "open_header cfg p ?db w1 = (s1, w2)" by fastforce
  have i1: "ident (step_db s1) = ident db" using open_header_ident [OF h] by (simp add: ident_def)
  obtain s2 w3 where e: "open_existing cfg p ?db w1 = (s2, w3)" by fastforce
  have "ident (step_db s2) = ident db"
    using e i1 open_settled_ident by (cases s1) (auto simp: open_existing_def h)
  then show ?thesis
    using o1 fo e create_file_ident
    by (cases ex; cases s2) (fastforce simp: open_file_def)+
qed

lemma open_handle_ident:
  assumes "tsdb_open_handle cfg db w = (st, w')"
  shows "generation (step_db st) = generation db" "(\<exists>db'. st = Opened db') \<or> is_open (step_db st) = is_open db"
proof -
  have "generation (step_db st) = generation db \<and> ((\<exists>db'. st = Opened db') \<or> is_open (step_db st) = is_open db)"
  proof (cases "cfg_filepath cfg")
    case None
    with assms show ?thesis by (auto simp: tsdb_open_handle_def)
  next
    case (Some p)
    define db0 where "db0 = db\<lparr>has_free_space_cb := cfg_free_space_cb cfg, min_free_bytes := cfg_min_free_bytes cfg\<rparr>"
    obtain r pl w1 where al: "tsdb_alloc_buffer_pool (Some (pool db0)) (buffer_pool_size cfg) (use_paged_allocation cfg)
        (cfg_page_size cfg) (cfg_alloc_strategy cfg) w = (r, pl, w1)" by (metis prod_cases3)
    define db1 where "db1 = (case pl of None \<Rightarrow> db0 | Some pl \<Rightarrow> db0\<lparr>pool := pl\<rparr>)"
    define db2 where "db2 = (partition_pool db1)\<lparr>filepath := take 127 p\<rparr>"
    have i: "ident db1 = ident db" "ident db2 = ident db"
      by (simp_all add: db2_def db1_def db0_def ident_def partition_pool_def split: option.split)
    obtain st2 w2 where o2: "open_file cfg p db2 (tsdb_migrate_recover p w1) = (st2, w2)" by fastforce
    have "ident (step_db st2) = ident db" using open_file_ident [OF o2] i by simp
    with assms i o2 show ?thesis
      by (cases st2; cases "r = ESP_OK")
        (auto simp: tsdb_open_handle_def finish_open_def Some Let_def db0_def [symmetric] al db1_def [symmetric] db2_def [symmetric] ident_def)
  qed
  then show "generation (step_db st) = generation db" "(\<exists>db'. st = Opened db') \<or> is_open (step_db st) = is_open db"
    by simp_all
qed

lemma fold_ident: "tsdb_fold_header db w = (r, db', w') \<Longrightarrow> ident db' = ident db"
  by (auto simp: tsdb_fold_header_def ident_def split: option.splits prod.splits if_splits)

text \<open>An operation on a handle keeps its generation and never opens it.\<close>

definition keeps_closed :: "tsdb \<Rightarrow> tsdb \<Rightarrow> bool" where
  "keeps_closed db db' \<longleftrightarrow> generation db' = generation db \<and> (is_open db' \<longrightarrow> is_open db)"

lemma ident_keeps_closed: "ident db' = ident db \<Longrightarrow> keeps_closed db db'"
  by (simp add: ident_def keeps_closed_def)

lemma sync_keeps_closed: "tsdb_sync_h (Some db) w = (r, Some db', w') \<Longrightarrow> keeps_closed db db'"
  by (auto simp: tsdb_sync_h_def keeps_closed_def ident_def dest!: fold_ident
      split: if_splits option.splits prod.splits bool.splits)

lemma clear_keeps_closed: "tsdb_clear_h (Some db) w = (r, Some db', w') \<Longrightarrow> keeps_closed db db'"
  by (auto simp: tsdb_clear_h_def Let_def keeps_closed_def ident_def dest!: fold_ident
      split: if_splits option.splits prod.splits)

lemma write_keeps_closed: "tsdb_write_h (Some db) ts vals w = (r, Some db', w') \<Longrightarrow> keeps_closed db db'"
  by (auto simp: tsdb_write_h_def keeps_closed_def pool_shape_def dest!: write_locked_shape
      split: if_splits option.splits prod.splits)

lemma close_locked_ident: "close_locked db w = (db', w') \<Longrightarrow> generation db' = generation db \<and> \<not> is_open db'"
  by (auto simp: close_locked_def ident_def dest!: fold_ident split: prod.splits)

section \<open>Steps\<close>

text \<open>
  One call of the library on any of its handles, open or not, or a change of the environment
  (other files, failures to come).
\<close>

inductive lib_step :: "tsdb_lib \<times> world \<Rightarrow> tsdb_lib \<times> world \<Rightarrow> bool" where
  step_open: "tsdb_open cfg lib w = (p, lib', w') \<Longrightarrow> lib_step (lib, w) (lib', w')"
| step_close: "a < length (heap lib) \<Longrightarrow> tsdb_close_h (Some a) lib w = (r, lib', w') \<Longrightarrow> lib_step (lib, w) (lib', w')"
| step_delete: "a < length (heap lib) \<Longrightarrow> tsdb_delete_h (Some a) lib w = (r, lib', w') \<Longrightarrow> lib_step (lib, w) (lib', w')"
| step_sync: "a < length (heap lib) \<Longrightarrow> tsdb_sync_h (Some (heap lib ! a)) w = (r, Some db, w') \<Longrightarrow>
    lib_step (lib, w) (put_handle a db lib, w')"
| step_clear: "a < length (heap lib) \<Longrightarrow> tsdb_clear_h (Some (heap lib ! a)) w = (r, Some db, w') \<Longrightarrow>
    lib_step (lib, w) (put_handle a db lib, w')"
| step_write: "a < length (heap lib) \<Longrightarrow> tsdb_write_h (Some (heap lib ! a)) ts vals w = (r, Some db, w') \<Longrightarrow>
    lib_step (lib, w) (put_handle a db lib, w')"
| step_env: "lib_step (lib, w) (lib, w')"

inductive_cases lib_stepE: "lib_step (lib, w) (lib', w')"

definition lib_start :: tsdb_lib where
  "lib_start = \<lparr> heap = [], s_recycled_handle = None, g_default_handle = None \<rparr>"

text \<open>The parked handle is a closed struct of the heap.\<close>

definition lib_inv :: "tsdb_lib \<Rightarrow> bool" where
  "lib_inv lib \<longleftrightarrow>
     (case s_recycled_handle lib of
        None \<Rightarrow> True
      | Some a \<Rightarrow> a < length (heap lib) \<and> \<not> is_open (heap lib ! a))"

text \<open>
  How a step treats the structs: they stay where they are, and each keeps its generation
  without being opened, or moves on to its next generation.
\<close>

definition advances :: "tsdb \<Rightarrow> tsdb \<Rightarrow> bool" where
  "advances db db' \<longleftrightarrow> keeps_closed db db' \<or> generation db' = generation db + 1"

definition lib_advances :: "tsdb_lib \<Rightarrow> tsdb_lib \<Rightarrow> bool" where
  "lib_advances lib lib' \<longleftrightarrow>
     length (heap lib) \<le> length (heap lib') \<and> (\<forall>b < length (heap lib). advances (heap lib ! b) (heap lib' ! b))"

lemma keeps_closed_refl [simp]: "keeps_closed db db"
  by (simp add: keeps_closed_def)

lemma put_handle_inv:
  assumes "lib_inv lib" "a < length (heap lib)" "keeps_closed (heap lib ! a) db"
  shows "lib_inv (put_handle a db lib)" "lib_advances lib (put_handle a db lib)"
  using assms
  by (auto simp: lib_inv_def put_handle_def lib_advances_def advances_def keeps_closed_def nth_list_update split: option.splits)

lemma heap_retire [simp]: "heap (tsdb_retire_handle a lib) = heap lib"
  by (simp add: tsdb_retire_handle_def split: option.split)

lemma retire_inv:
  "lib_inv lib \<Longrightarrow> a < length (heap lib) \<Longrightarrow> \<not> is_open (heap lib ! a) \<Longrightarrow> lib_inv (tsdb_retire_handle a lib)"
  by (auto simp: lib_inv_def tsdb_retire_handle_def split: option.splits)

lemma acquire_inv:
  assumes "lib_inv lib" "tsdb_acquire_handle lib w = (Some a, lib', w')"
  shows "lib_inv lib'" "a < length (heap lib')" "\<not> is_open (heap lib' ! a)" "s_recycled_handle lib' = None"
    "length (heap lib) \<le> length (heap lib')"
    "b < length (heap lib) \<Longrightarrow> (if b = a then generation (heap lib' ! b) = generation (heap lib ! b) + 1 else heap lib' ! b = heap lib ! b)"
  using assms
  by (auto simp: lib_inv_def tsdb_acquire_handle_def put_handle_def zero_tsdb_def nth_append
      split: option.splits prod.splits bool.splits)

lemma acquire_none: "tsdb_acquire_handle lib w = (None, lib', w') \<Longrightarrow> lib' = lib"
  by (auto simp: tsdb_acquire_handle_def split: option.splits prod.splits bool.splits)

lemma open_inv:
  assumes "lib_inv lib" "tsdb_open cfg lib w = (p, lib', w')"
  shows "lib_inv lib' \<and> lib_advances lib lib'"
proof (cases "\<exists>c. cfg = Some c \<and> config_ok c")
  case False
  with assms show ?thesis
    by (auto simp: tsdb_open_def lib_advances_def advances_def split: option.splits if_splits)
next
  case True
  then obtain c where c: "cfg = Some c" "config_ok c" by blast
  obtain q lib1 w1 where aq: "tsdb_acquire_handle lib w = (q, lib1, w1)" by (metis prod_cases3)
  show ?thesis
  proof (cases q)
    case None
    with assms c aq acquire_none [of lib w lib1 w1] show ?thesis
      by (auto simp: tsdb_open_def lib_advances_def advances_def)
  next
    case (Some a)
    note ai = acquire_inv [OF assms(1) aq [unfolded Some]]
    obtain st w2 where o1: "tsdb_open_handle c (heap lib1 ! a) w1 = (st, w2)" by fastforce
    note oi = open_handle_ident [OF o1]
    have adv: "lib_advances lib (put_handle a (step_db st) lib1)"
      using ai oi(1) by (auto simp: lib_advances_def put_handle_def advances_def nth_list_update split: if_splits)
    have inv: "lib_inv (put_handle a (step_db st) lib1)" using ai(4) by (simp add: lib_inv_def put_handle_def)
    have failed: "lib_inv (tsdb_retire_handle a (put_handle a (step_db st) lib1))" if "\<not> (\<exists>db. st = Opened db)"
      using that inv ai(2,3) oi(2) by (intro retire_inv) (auto simp: put_handle_def)
    show ?thesis
    proof (cases st)
      case (Opened db)
      with assms(2) c aq Some o1 inv adv show ?thesis by (simp add: tsdb_open_def)
    next
      case (Recreate db)
      with assms(2) c aq Some o1 adv failed show ?thesis by (auto simp: tsdb_open_def lib_advances_def)
    next
      case (OpenFailed db)
      with assms(2) c aq Some o1 adv failed show ?thesis by (auto simp: tsdb_open_def lib_advances_def)
    qed
  qed
qed

text \<open>The outcomes of a close, under every pattern of failures.\<close>

lemma close_cases:
  assumes "tsdb_close_h (Some a) lib w = (r, lib', w')"
  obtains "r = ESP_ERR_TIMEOUT" "lib' = put_handle a ((heap lib ! a)\<lparr>closing := False\<rparr>) lib"
  | db where "r = ESP_OK" "generation db = generation (heap lib ! a)" "\<not> is_open db"
    "lib' = tsdb_retire_handle a (put_handle a db lib)"
proof -
  obtain ok w1 where l: "tsdb_lock w = (ok, w1)" by fastforce
  let ?db = "(heap lib ! a)\<lparr>closing := True\<rparr>"
  obtain db2 w2 where c: "close_locked ?db w1 = (db2, w2)" by fastforce
  have c2: "generation db2 = generation (heap lib ! a)" "\<not> is_open db2" using close_locked_ident [OF c] by simp_all
  show ?thesis
  proof (cases ok)
    case False
    with assms l show ?thesis by (intro that(1)) (auto simp: tsdb_close_h_def Let_def)
  next
    case True
    show ?thesis
    proof (cases "is_open (heap lib ! a)")
      case True
      with assms l \<open>ok\<close> c c2 show ?thesis by (intro that(2) [of db2]) (auto simp: tsdb_close_h_def Let_def)
    next
      case False
      with assms l \<open>ok\<close> show ?thesis
        by (intro that(2) [of "(heap lib ! a)\<lparr>closing := False\<rparr>"]) (auto simp: tsdb_close_h_def Let_def)
    qed
  qed
qed

lemma close_inv:
  assumes "lib_inv lib" "a < length (heap lib)" "tsdb_close_h (Some a) lib w = (r, lib', w')"
  shows "lib_inv lib' \<and> lib_advances lib lib'"
  using assms(3)
proof (cases rule: close_cases)
  case 1
  have "keeps_closed (heap lib ! a) ((heap lib ! a)\<lparr>closing := False\<rparr>)" by (simp add: keeps_closed_def)
  from put_handle_inv [OF assms(1,2) this] 1 show ?thesis by simp
next
  case (2 db)
  then have "keeps_closed (heap lib ! a) db" by (simp add: keeps_closed_def)
  note p = put_handle_inv [OF assms(1,2) this]
  have "a < length (heap (put_handle a db lib))" "\<not> is_open (heap (put_handle a db lib) ! a)"
    using assms(2) 2(3) by (simp_all add: put_handle_def)
  from retire_inv [OF p(1) this] p(2) 2(4) show ?thesis by (simp add: lib_advances_def)
qed

lemma delete_inv:
  assumes "lib_inv lib" "a < length (heap lib)" "tsdb_delete_h (Some a) lib w = (r, lib', w')"
  shows "lib_inv lib' \<and> lib_advances lib lib'"
proof (cases "is_open (heap lib ! a)")
  case False
  with assms show ?thesis by (auto simp: tsdb_delete_h_def lib_advances_def advances_def)
next
  case True
  obtain cret lib1 w1 where c: "tsdb_close_h (Some a) lib w = (cret, lib1, w1)" by (metis prod_cases3)
  have "lib' = lib1" using assms(3) True c by (auto simp: tsdb_delete_h_def split: if_splits prod.splits)
  with close_inv [OF assms(1,2) c] show ?thesis by simp
qed

lemma step_inv:
  assumes "lib_step (lib, w) (lib', w')" "lib_inv lib"
  shows "lib_inv lib' \<and> lib_advances lib lib'"
  using assms(1,2)
proof (elim lib_stepE)
qed (auto intro: put_handle_inv sync_keeps_closed clear_keeps_closed write_keeps_closed
    dest: open_inv close_inv delete_inv simp: lib_advances_def [of lib lib] advances_def [of db db for db])

section \<open>Reachable states\<close>

text \<open>
  In every state the library can reach, whatever the order of calls, failures and
  misuse of closed handles, the handle in the recycler is a struct of the heap that is
  closed: the next \<open>tsdb_open\<close> never takes a handle from under an open database.
\<close>

theorem recycled_handle_closed:
  assumes "lib_step\<^sup>*\<^sup>* (lib_start, w0) (lib, w)" "s_recycled_handle lib = Some a"
  shows "a < length (heap lib) \<and> \<not> is_open (heap lib ! a)"
proof -
  have "lib_inv (fst s)" if "lib_step\<^sup>*\<^sup>* (lib_start, w0) s" for s
    using that
  proof (induction rule: rtranclp_induct)
    case base
    then show ?case by (simp add: lib_inv_def lib_start_def)
  next
    case (step s t)
    then show ?case using step_inv [of "fst s" "snd s" "fst t" "snd t"] by simp
  qed
  from this [OF assms(1)] assms(2) show ?thesis by (simp add: lib_inv_def)
qed

text \<open>A short life of the library: open the small database, close it, open it again.\<close>

lemma demo_life:
  obtains lib1 w1 lib2 w2 lib3 where "lib_step (lib_start, empty_world) (lib1, w1)" "lib_step (lib1, w1) (lib2, w2)"
    "lib_step (lib2, w2) (lib3, w2)" "length (heap lib1) = 1" "lib_inv lib1" "is_open (heap lib1 ! 0)"
    "s_recycled_handle lib2 = Some 0" "\<not> is_open (heap lib2 ! 0)" "is_open (heap lib3 ! 0)"
proof -
  obtain db w where d: "tsdb_open_handle (demo_config 3) (zero_tsdb 0) empty_world = (Opened db, w)"
    "crash_safe (demo_config 3) 5 (db, w)" "recoverable (demo_config 3) 5 (db, w)"
    "modern_layout (header db)" "config_ok (demo_config 3)"
    by (rule demo_session)
  have q: "quiet w" "is_open db" using d(3) by (auto simp: recoverable_def Let_def writable_def)
  define lib1 where "lib1 = \<lparr> heap = [db], s_recycled_handle = None, g_default_handle = None \<rparr>"
  have l1: "heap lib1 ! 0 = db" "s_recycled_handle lib1 = None" "0 < length (heap lib1)" "lib_inv lib1" "length (heap lib1) = 1"
    by (simp_all add: lib1_def lib_inv_def)
  have o1: "tsdb_open (Some (demo_config 3)) lib_start empty_world = (Some 0, lib1, w)"
    using d(1,5) q(1) by (simp add: tsdb_open_def tsdb_acquire_handle_def lib_start_def put_handle_def lib1_def quiet_next demo_fresh)
  have "counters_pass (header db)" using d(2) crash_safe_passes by (auto simp: crash_safe_def)
  then obtain lib2 w2 where c: "tsdb_close_h (Some 0) lib1 w = (ESP_OK, lib2, w2)"
    "s_recycled_handle lib2 = Some 0" "\<not> is_open (heap lib2 ! 0)"
    using quiet_close [OF d(3) _ d(4) l1(3,1,2)] by metis
  obtain lib3 where o3: "tsdb_open (Some (demo_config 3)) lib2 w2 = (Some 0, lib3, w2)" "is_open (heap lib3 ! 0)"
    using close_reopen [OF d(2,4,5) l1(3,1,2)] c(1) by auto
  show ?thesis
    by (rule that [OF step_open [OF o1] step_close [OF l1(3) c(1)] step_open [OF o3(1)] l1(5,4) _ c(2,3) o3(2)])
      (simp add: l1 q)
qed

theorem recycled_handle_closed_witness:
  "\<exists>lib w. lib_step\<^sup>*\<^sup>* (lib_start, empty_world) (lib, w) \<and> s_recycled_handle lib = Some 0 \<and>
    0 < length (heap lib) \<and> \<not> is_open (heap lib ! 0)"
proof -
  obtain lib1 w1 lib2 w2 where d: "lib_step (lib_start, empty_world) (lib1, w1)" "lib_step (lib1, w1) (lib2, w2)"
    "s_recycled_handle lib2 = Some 0"
    by (rule demo_life)
  from d(1,2) have "lib_step\<^sup>*\<^sup>* (lib_start, empty_world) (lib2, w2)" by (meson rtranclp.rtrancl_into_rtrancl rtranclp.rtrancl_refl)
  from recycled_handle_closed [OF this d(3)] this d(3) show ?thesis by blast
qed

text \<open>\<open>n\<close> steps bump a generation at most \<open>n\<close> times, and a closed handle opens only with a new one.\<close>

lemma steps_generation:
  assumes "(lib_step ^^ n) (lib, w) (lib', w')" "lib_inv lib" "a < length (heap lib)"
  shows "lib_inv lib' \<and> a < length (heap lib') \<and>
    (\<exists>j \<le> n. generation (heap lib' ! a) = generation (heap lib ! a) + of_nat j \<and>
      (j = 0 \<longrightarrow> is_open (heap lib' ! a) \<longrightarrow> is_open (heap lib ! a)))"
  using assms(1)
proof (induction n arbitrary: lib' w')
  case 0
  with assms show ?case by auto
next
  case (Suc n)
  then obtain l1 w1 where s: "(lib_step ^^ n) (lib, w) (l1, w1)" "lib_step (l1, w1) (lib', w')" by auto
  note ih = Suc.IH [OF s(1)]
  then obtain j where j: "j \<le> n" "generation (heap l1 ! a) = generation (heap lib ! a) + of_nat j"
    "j = 0 \<longrightarrow> is_open (heap l1 ! a) \<longrightarrow> is_open (heap lib ! a)" by blast
  have st: "lib_inv lib'" "lib_advances l1 lib'" using step_inv [OF s(2)] ih by simp_all
  then have adv: "a < length (heap lib')" "advances (heap l1 ! a) (heap lib' ! a)"
    using ih by (auto simp: lib_advances_def)
  from adv(2) consider "keeps_closed (heap l1 ! a) (heap lib' ! a)" | "generation (heap lib' ! a) = generation (heap l1 ! a) + 1"
    by (auto simp: advances_def)
  then show ?case
  proof cases
    case 1
    with j st adv show ?thesis by (intro conjI exI [of _ j]) (auto simp: keeps_closed_def)
  next
    case 2
    with j st adv show ?thesis by (intro conjI exI [of _ "Suc j"]) (auto simp: algebra_simps)
  qed
qed

text \<open>What \<open>TSDB_LOCK_OPEN_OR_RETURN\<close> checks once it has the lock: \<open>gen\<close> was read before waiting.\<close>

definition lock_recheck :: "u32 \<Rightarrow> tsdb \<Rightarrow> bool" where
  "lock_recheck gen db \<longleftrightarrow> is_open db \<and> generation db = gen"

text \<open>
  C14: A task that reads the generation of a handle and then waits for its lock is turned away
  whenever the handle was closed in the meantime, however many times it was reused since
  (up to the wrap of the 32-bit counter): it never operates on another database.
\<close>

theorem straggler_refused:
  assumes "lib_inv lib" "a < length (heap lib)"
    and "(lib_step ^^ m) (lib, w) (lib1, w1)" "\<not> is_open (heap lib1 ! a)"
    and "(lib_step ^^ n) (lib1, w1) (lib2, w2)" "m + n < 2 ^ 32"
  shows "\<not> lock_recheck (generation (heap lib ! a)) (heap lib2 ! a)"
proof
  assume rc: "lock_recheck (generation (heap lib ! a)) (heap lib2 ! a)"
  from steps_generation [OF assms(3,1,2)] obtain i where i: "lib_inv lib1" "a < length (heap lib1)" "i \<le> m"
    "generation (heap lib1 ! a) = generation (heap lib ! a) + of_nat i" by blast
  from steps_generation [OF assms(5) i(1,2)] obtain j where j: "j \<le> n"
    "generation (heap lib2 ! a) = generation (heap lib1 ! a) + of_nat j"
    "j = 0 \<longrightarrow> is_open (heap lib2 ! a) \<longrightarrow> is_open (heap lib1 ! a)" by blast
  have "j \<noteq> 0" using j(3) assms(4) rc by (auto simp: lock_recheck_def)
  have "of_nat (i + j) = (0 :: u32)"
    using i(4) j(2) rc by (simp add: lock_recheck_def add.assoc)
  then have "2 ^ 32 dvd i + j" by (simp only: word_of_nat_eq_0_iff) simp
  then show False using \<open>j \<noteq> 0\<close> i(3) j(1) assms(6) by (auto dest: dvd_imp_le)
qed

theorem straggler_refused_witness:
  "\<exists>lib w lib1 w1 lib2 w2. is_open (heap lib ! 0) \<and> (lib_step ^^ 1) (lib, w) (lib1, w1) \<and> (lib_step ^^ 1) (lib1, w1) (lib2, w2) \<and>
    is_open (heap lib2 ! 0) \<and> \<not> lock_recheck (generation (heap lib ! 0)) (heap lib2 ! 0)"
proof -
  obtain lib1 w1 lib2 w2 lib3 where d: "lib_step (lib1, w1) (lib2, w2)" "lib_step (lib2, w2) (lib3, w2)"
    "length (heap lib1) = 1" "lib_inv lib1" "is_open (heap lib1 ! 0)" "\<not> is_open (heap lib2 ! 0)" "is_open (heap lib3 ! 0)"
    by (rule demo_life)
  have "(lib_step ^^ 1) (lib1, w1) (lib2, w2)" "(lib_step ^^ 1) (lib2, w2) (lib3, w2)" using d(1,2) by auto
  moreover have "0 < length (heap lib1)" "1 + 1 < (2 :: nat) ^ 32" using d(3) by simp_all
  ultimately show ?thesis using straggler_refused [OF d(4) _ _ d(6), of 1 w1 w2 1 lib3 w2] d(5,7) by blast
qed

end
