(* ===== verification/Tsdb_Overflow.thy ===== *)
theory Tsdb_Overflow
  imports Tsdb_Query Tsdb_Recycler
begin

text \<open>
  The overflow region of \<open>src/tsdb_core.c\<close>: extra parameters added to a database after its
  creation live in a row-wise region behind a 1024-byte header at the end of the file.
  The theory has the overflow header and its image, adding extra parameters, replacing them
  (with a copy of the columns whose name is kept), and the lookup of parameter names in the
  three places that store them.

  A name list is an array of at least \<open>count\<close> strings, \<open>None\<close> a NULL pointer. In the column
  map \<open>None\<close> stands for the \<open>-1\<close> of a new column.

  The lemmas show that a replacement keeps every value of a kept column and every base
  record, that the names are found again, and in which situation the region is overwritten
  by the ring.
\<close>

section \<open>The overflow header\<close>

record tsdb_overflow_header =
  ovf_magic :: u32
  ovf_param_count :: u8
  ovf_reserved :: bytes
  ovf_first_record_idx :: u32
  ovf_param_names :: bytes
  ovf_padding :: bytes

definition encode_overflow :: "tsdb_overflow_header \<Rightarrow> bytes" where
  "encode_overflow o1 =
     le32 (ovf_magic o1) @ [ovf_param_count o1] @ ovf_reserved o1 @ le32 (ovf_first_record_idx o1) @
     ovf_param_names o1 @ ovf_padding o1"

definition decode_overflow :: "bytes \<Rightarrow> tsdb_overflow_header" where
  "decode_overflow b = \<lparr>
     ovf_magic = ld32 b 0, ovf_param_count = ld8 b 4, ovf_reserved = chunk b 5 3,
     ovf_first_record_idx = ld32 b 8, ovf_param_names = chunk b 12 960, ovf_padding = chunk b 972 52 \<rparr>"

definition overflow_header_for :: "cstr list \<Rightarrow> nat \<Rightarrow> u32 \<Rightarrow> tsdb_overflow_header" where
  "overflow_header_for names count first = \<lparr>
     ovf_magic = TSDB_OVERFLOW_MAGIC, ovf_param_count = of_nat count, ovf_reserved = replicate 3 0,
     ovf_first_record_idx = first,
     ovf_param_names = concat (map (\<lambda>i. if i < count then name_field 20 (names ! i) else replicate 20 0) [0..<48]),
     ovf_padding = replicate 52 0 \<rparr>"

text \<open>\<open>fseek(f, 0, SEEK_END)\<close> and \<open>(uint32_t)ftell(f)\<close>.\<close>

definition file_end :: "world \<Rightarrow> path \<Rightarrow> u32" where
  "file_end w p = of_nat (length (content w p))"

section \<open>Adding extra parameters\<close>

definition overflow_fields :: "tsdb_header \<Rightarrow> u8 \<Rightarrow> u32 \<Rightarrow> u32 \<Rightarrow> tsdb_header" where
  "overflow_fields h count off first =
     h\<lparr>extra_param_count := count, overflow_record_size := ucast count * 2, overflow_offset := off,
       first_overflow_record_idx := first\<rparr>"

definition add_extra_locked :: "tsdb \<Rightarrow> path \<Rightarrow> cstr list \<Rightarrow> u8 \<Rightarrow> world \<Rightarrow> esp_err \<times> tsdb \<times> world" where
  "add_extra_locked db p names count w =
     (let off = file_end w p;
          first = total_records (header db)
      in case fwrite_at w p (unat off) (encode_overflow (overflow_header_for names (unat count) first)) of
           (Some _, w) \<Rightarrow> (ESP_FAIL, db, w)
         | (None, w) \<Rightarrow>
             (let db = db\<lparr>header := overflow_fields (header db) count off first\<rparr>
              in case tsdb_write_header (Some p) (header db) w of
                   (r, w) \<Rightarrow>
                     if r \<noteq> ESP_OK then (ESP_FAIL, db, w)
                     else (ESP_OK,
                           db\<lparr>db_extra_param_count := count, db_overflow_record_size := ucast count * 2,
                              db_first_overflow_record_idx := first,
                              overflow_data_offset := off + TSDB_OVERFLOW_HEADER_SIZE\<rparr>, w)))"

text \<open>An open handle has a file, so the branch without one is never taken.\<close>

definition tsdb_add_extra_params_h ::
  "tsdb option \<Rightarrow> cstr list option \<Rightarrow> u8 \<Rightarrow> world \<Rightarrow> esp_err \<times> tsdb option \<times> world" where
  "tsdb_add_extra_params_h dbo names count w =
     (case dbo of
        None \<Rightarrow> (ESP_ERR_INVALID_STATE, None, w)
      | Some db \<Rightarrow>
          if \<not> is_open db then (ESP_ERR_INVALID_STATE, Some db, w)
          else
            (case names of
               None \<Rightarrow> (ESP_ERR_INVALID_ARG, Some db, w)
             | Some ns \<Rightarrow>
                 if count = 0 \<or> count > 48 then (ESP_ERR_INVALID_ARG, Some db, w)
                 else if unat (num_params (header db)) + unat count > TSDB_MAX_PARAMS
                 then (ESP_ERR_INVALID_ARG, Some db, w)
                 else if db_extra_param_count db > 0 then (ESP_ERR_INVALID_STATE, Some db, w)
                 else
                   (case tsdb_lock_open w of
                      (Some e, w) \<Rightarrow> (e, Some db, w)
                    | (None, w) \<Rightarrow>
                        (case db_file db of
                           None \<Rightarrow> (ESP_FAIL, Some db, w)
                         | Some p \<Rightarrow>
                             (case add_extra_locked db p ns count w of (r, db, w) \<Rightarrow> (r, Some db, w))))))"

section \<open>Replacing the extra parameters\<close>

text \<open>\<open>strncmp(a, b, n) == 0\<close> on strings without their NUL.\<close>

definition strncmp_eq :: "nat \<Rightarrow> cstr \<Rightarrow> cstr \<Rightarrow> bool" where
  "strncmp_eq n a b \<longleftrightarrow> take n a = take n b"

definition old_extra_name :: "tsdb_overflow_header \<Rightarrow> nat \<Rightarrow> cstr" where
  "old_extra_name old j = cstr_of (chunk (ovf_param_names old) (20 * j) 20)"

definition extra_col_map :: "tsdb_overflow_header \<Rightarrow> nat \<Rightarrow> cstr list \<Rightarrow> nat \<Rightarrow> nat option list" where
  "extra_col_map old old_count names new_count =
     map (\<lambda>i. find (\<lambda>j. strncmp_eq 19 (names ! i) (old_extra_name old j)) [0..<old_count]) [0..<new_count]"

definition extras_match :: "tsdb_overflow_header \<Rightarrow> nat \<Rightarrow> cstr list \<Rightarrow> nat \<Rightarrow> bool" where
  "extras_match old old_count names new_count \<longleftrightarrow>
     old_count = new_count \<and> (\<forall>i\<in>set [0..<new_count]. strncmp_eq 19 (names ! i) (old_extra_name old i))"

text \<open>
  One record: the values that could be read (a short read leaves the zeros of the
  \<open>memset\<close>), reordered and written to the new region. The result of the write is ignored.
\<close>

definition old_val :: "bytes \<Rightarrow> nat \<Rightarrow> i16" where
  "old_val b j = ld16 (b @ replicate 96 0) (2 * j)"

definition remap_vals :: "nat option list \<Rightarrow> bytes \<Rightarrow> i16 list" where
  "remap_vals cols b = map (\<lambda>c. case c of None \<Rightarrow> 0 | Some j \<Rightarrow> old_val b j) cols"

definition extra_copy_step :: "tsdb \<Rightarrow> path \<Rightarrow> u32 \<Rightarrow> nat option list \<Rightarrow> world \<Rightarrow> nat \<Rightarrow> world" where
  "extra_copy_step db p new_data_offset cols w r =
     (let old_pos = overflow_data_offset db + of_nat r * ucast (db_overflow_record_size db);
          b = fread_upto w p (unat old_pos) (2 * unat (db_extra_param_count db));
          new_pos = new_data_offset + of_nat r * of_nat (2 * length cols)
      in snd (fwrite_at w p (unat new_pos) (concat (map le16 (remap_vals cols b)))))"

definition extra_records :: "tsdb \<Rightarrow> u32" where
  "extra_records db =
     (if total_records (header db) > db_first_overflow_record_idx db
      then total_records (header db) - db_first_overflow_record_idx db else 0)"

definition migrate_overflow_locked ::
  "tsdb \<Rightarrow> path \<Rightarrow> cstr list \<Rightarrow> u8 \<Rightarrow> world \<Rightarrow> esp_err \<times> tsdb \<times> world" where
  "migrate_overflow_locked db p names new_count w =
     (case fread_at w p (unat (overflow_offset (header db))) 1024 of
        None \<Rightarrow> (ESP_FAIL, db, w)
      | Some b \<Rightarrow>
          (let old = decode_overflow b; old_count = unat (db_extra_param_count db); n = unat new_count
           in if ovf_magic old \<noteq> TSDB_OVERFLOW_MAGIC then (ESP_FAIL, db, w)
              else if extras_match old old_count names n then (ESP_OK, db, w)
              else
                (let off = file_end w p;
                     cols = extra_col_map old old_count names n
                 in case fwrite_at w p (unat off)
                           (encode_overflow (overflow_header_for names n (db_first_overflow_record_idx db))) of
                      (Some _, w) \<Rightarrow> (ESP_FAIL, db, w)
                    | (None, w) \<Rightarrow>
                        (let new_data_offset = off + TSDB_OVERFLOW_HEADER_SIZE;
                             w = foldl (extra_copy_step db p new_data_offset cols) w [0..<unat (extra_records db)];
                             h = (header db)\<lparr>overflow_offset := off, extra_param_count := new_count,
                                             overflow_record_size := ucast new_count * 2\<rparr>;
                             w = snd (tsdb_write_header (Some p) h w)
                         in (ESP_OK,
                             db\<lparr>header := h, db_extra_param_count := new_count,
                                db_overflow_record_size := ucast new_count * 2,
                                overflow_data_offset := new_data_offset\<rparr>, w)))))"

definition drop_overflow :: "tsdb \<Rightarrow> tsdb" where
  "drop_overflow db =
     db\<lparr>header := overflow_fields (header db) 0 0 0, db_extra_param_count := 0, db_overflow_record_size := 0,
        overflow_data_offset := 0, db_first_overflow_record_idx := 0\<rparr>"

definition tsdb_migrate_overflow_h ::
  "tsdb option \<Rightarrow> cstr list option \<Rightarrow> u8 \<Rightarrow> world \<Rightarrow> esp_err \<times> tsdb option \<times> world" where
  "tsdb_migrate_overflow_h dbo names new_count w =
     (case dbo of
        None \<Rightarrow> (ESP_ERR_INVALID_STATE, None, w)
      | Some db \<Rightarrow>
          if \<not> is_open db then (ESP_ERR_INVALID_STATE, Some db, w)
          else if new_count > 48 then (ESP_ERR_INVALID_ARG, Some db, w)
          else if new_count > 0 \<and> names = None then (ESP_ERR_INVALID_ARG, Some db, w)
          else if db_extra_param_count db = 0 \<and> new_count = 0 then (ESP_OK, Some db, w)
          else if db_extra_param_count db = 0 then tsdb_add_extra_params_h (Some db) names new_count w
          else
            (case tsdb_lock_open w of
               (Some e, w) \<Rightarrow> (e, Some db, w)
             | (None, w) \<Rightarrow>
                 if new_count = 0
                 then (let db = drop_overflow db
                       in (ESP_OK, Some db, snd (tsdb_write_header (db_file db) (header db) w)))
                 else
                   (case (names, db_file db) of
                      (Some ns, Some p) \<Rightarrow>
                        (case migrate_overflow_locked db p ns new_count w of (r, db, w) \<Rightarrow> (r, Some db, w))
                    | _ \<Rightarrow> (ESP_FAIL, Some db, w))))"

section \<open>Names and counts\<close>

definition tsdb_get_total_params_h :: "tsdb option \<Rightarrow> u8" where
  "tsdb_get_total_params_h dbo =
     (case dbo of
        None \<Rightarrow> 0
      | Some db \<Rightarrow> if \<not> is_open db then 0 else num_params (header db) + db_extra_param_count db)"

text \<open>A name read from the file into a static buffer of 20 bytes, whose last byte is set to NUL.\<close>

definition read_name :: "tsdb \<Rightarrow> u32 \<Rightarrow> world \<Rightarrow> cstr option" where
  "read_name db off w =
     (case db_file db of
        None \<Rightarrow> None
      | Some p \<Rightarrow> map_option (\<lambda>b. cstr_of (take 19 b @ [0])) (fread_at w p (unat off) 20))"

definition tsdb_get_param_name_h :: "tsdb option \<Rightarrow> u8 \<Rightarrow> world \<Rightarrow> cstr option" where
  "tsdb_get_param_name_h dbo index w =
     (case dbo of
        None \<Rightarrow> None
      | Some db \<Rightarrow>
          if \<not> is_open db then None
          else if index < num_params (header db) then
            if index < 16 then Some (cstr_of (drop (32 * unat index) (param_names (header db))))
            else read_name db (of_nat TSDB_V4_EXT_NAMES_OFFSET + ucast (index - 16) * of_nat TSDB_V4_EXT_NAME_LEN) w
          else
            (let extra_idx = index - num_params (header db)
             in if extra_idx \<ge> db_extra_param_count db \<or> overflow_offset (header db) = 0 then None
                else read_name db (overflow_offset (header db) + 12 + ucast extra_idx * 20) w))"

definition tsdb_has_overflow_h :: "tsdb option \<Rightarrow> bool" where
  "tsdb_has_overflow_h dbo =
     (case dbo of None \<Rightarrow> False | Some db \<Rightarrow> is_open db \<and> db_extra_param_count db > 0)"

section \<open>Arrays of fields of one size\<close>

lemma length_concat_equal: "(\<And>x. x \<in> set xs \<Longrightarrow> length (f x) = k) \<Longrightarrow> length (concat (map f xs)) = length xs * k"
  by (induction xs) simp_all

lemma chunk_concat_equal:
  "(\<And>x. x \<in> set xs \<Longrightarrow> length (f x) = k) \<Longrightarrow> i < length xs \<Longrightarrow> chunk (concat (map f xs)) (k * i) k = f (xs ! i)"
proof (induction xs arbitrary: i)
  case (Cons x xs)
  show ?case
  proof (cases i)
    case 0
    with Cons.prems show ?thesis by (simp add: chunk_append_left)
  next
    case (Suc j)
    have "chunk (concat (map f xs)) (k * j) k = f (xs ! j)" using Cons.prems Suc by (intro Cons.IH) auto
    with Cons.prems(1) Suc show ?thesis by (simp add: chunk_append_right)
  qed
qed simp

lemma ld16_values: "i < length vs \<Longrightarrow> ld16 (concat (map le16 vs)) (2 * i) = vs ! i"
  using chunk_concat_equal [of vs le16 2 i] by (simp add: ld16_def)

section \<open>The image of the overflow header\<close>

lemma length_ovf_names [simp]: "length (ovf_param_names (overflow_header_for names count first)) = 960"
proof -
  let ?f = "\<lambda>i. if i < count then name_field 20 (names ! i) else replicate 20 0"
  have "length (concat (map ?f [0..<48])) = length [0..<48] * 20" by (rule length_concat_equal) simp
  then show ?thesis by (simp add: overflow_header_for_def)
qed

lemma length_encode_overflow [simp]: "length (encode_overflow (overflow_header_for names count first)) = 1024"
proof -
  have "length (ovf_reserved (overflow_header_for names count first)) = 3"
    "length (ovf_padding (overflow_header_for names count first)) = 52"
    by (simp_all add: overflow_header_for_def)
  then show ?thesis by (simp add: encode_overflow_def)
qed

lemma encode_overflow_fields:
  "ld32 (encode_overflow (overflow_header_for names count first)) 0 = TSDB_OVERFLOW_MAGIC"
  "i < count \<Longrightarrow> i < 48 \<Longrightarrow> chunk (encode_overflow (overflow_header_for names count first)) (12 + 20 * i) 20 = name_field 20 (names ! i)"
proof -
  let ?o = "overflow_header_for names count first"
  show "ld32 (encode_overflow ?o) 0 = TSDB_OVERFLOW_MAGIC"
    by (simp add: encode_overflow_def image_simps) (simp add: overflow_header_for_def)
  assume i: "i < count" "i < 48"
  let ?pre = "le32 (ovf_magic ?o) @ [ovf_param_count ?o] @ ovf_reserved ?o @ le32 (ovf_first_record_idx ?o)"
  have l: "length ?pre = 12" by (simp add: overflow_header_for_def)
  have e: "encode_overflow ?o = ?pre @ ovf_param_names ?o @ ovf_padding ?o" by (simp add: encode_overflow_def)
  have "chunk (encode_overflow ?o) (12 + 20 * i) 20 = chunk (ovf_param_names ?o @ ovf_padding ?o) (20 * i) 20"
    unfolding e by (subst chunk_append_right) (simp_all only: l, simp_all)
  also have "\<dots> = chunk (ovf_param_names ?o) (20 * i) 20" using i by (intro chunk_append_left) simp
  also have "\<dots> = name_field 20 (names ! i)"
  proof -
    let ?f = "\<lambda>i. if i < count then name_field 20 (names ! i) else replicate 20 0"
    have "chunk (concat (map ?f [0..<48])) (20 * i) 20 = ?f ([0..<48] ! i)"
      using i by (intro chunk_concat_equal) auto
    then show ?thesis using i by (simp add: overflow_header_for_def)
  qed
  finally show "chunk (encode_overflow ?o) (12 + 20 * i) 20 = name_field 20 (names ! i)" .
qed

text \<open>The string in a field of 20 bytes, as the lookup and as \<open>strncmp\<close> see it.\<close>

definition field_name :: "bytes \<Rightarrow> cstr" where
  "field_name b = cstr_of (take 19 b @ [0])"

lemma cstr_of_terminated: "cstr_of (xs @ 0 # ys) = cstr_of xs"
  by (simp add: cstr_of_def takeWhile_tail)

lemma take_cstr_of: "take n (cstr_of b) = cstr_of (take n b)"
  by (induction b arbitrary: n) (auto simp: cstr_of_def take_Cons split: nat.splits)

lemma field_name_take: "field_name b = take 19 (cstr_of b)"
  by (simp add: field_name_def cstr_of_terminated take_cstr_of)

lemma cstr_of_no_nul: "0 \<notin> set s \<Longrightarrow> cstr_of s = s"
  by (induction s) (auto simp: cstr_of_def)

lemma cstr_of_name_field:
  assumes "0 \<notin> set s" "0 < n"
  shows "cstr_of (name_field n s @ rest) = take (n - 1) s"
proof -
  have t: "cstr_of (take (n - 1) s) = take (n - 1) s" using assms(1) by (intro cstr_of_no_nul) (auto dest: in_set_takeD)
  show ?thesis
  proof (cases "n - 1 - length s")
    case 0
    then show ?thesis using t by (simp add: name_field_def strncpy_bytes_def cstr_of_terminated)
  next
    case (Suc k)
    then show ?thesis using t by (simp add: name_field_def strncpy_bytes_def cstr_of_terminated)
  qed
qed

lemma field_name_field: "0 \<notin> set s \<Longrightarrow> field_name (name_field 20 s) = take 19 s"
  using cstr_of_name_field [of s 20 "[]"] by (simp add: field_name_take)

section \<open>Copying the columns\<close>

abbreviation extras :: "tsdb \<Rightarrow> nat" where "extras db \<equiv> unat (db_extra_param_count db)"

text \<open>Value \<open>j\<close> of the \<open>r\<close>-th record of the overflow region, in the bytes \<open>f\<close> of the file.\<close>

definition extra_cell :: "tsdb \<Rightarrow> bytes \<Rightarrow> nat \<Rightarrow> nat \<Rightarrow> i16" where
  "extra_cell db f r j = ld16 f (unat (overflow_data_offset db) + r * (2 * extras db) + 2 * j)"

lemma unat_cell:
  assumes "unat (x :: u32) + m * unat y < 4294967296" "m < 4294967296"
  shows "unat (x + of_nat m * y) = unat x + m * unat y"
proof -
  have m: "unat (of_nat m :: u32) = m" using assms(2) by (simp add: unat_of_nat)
  have "unat (of_nat m * y) = m * unat y" using assms(1) m by (subst unat_mult_no_wrap) auto
  with assms(1) show ?thesis by (subst unat_add_no_wrap) auto
qed

lemma length_remap_vals [simp]: "length (remap_vals cols b) = length cols" "remap_vals cols b = [] \<longleftrightarrow> cols = []"
  by (simp_all add: remap_vals_def)

text \<open>Where step \<open>m\<close> of the copy reads and writes; no offset wraps.\<close>

lemma extra_copy_positions:
  assumes "unat (db_overflow_record_size db) = 2 * extras db" "unat (overflow_data_offset db) + n * (2 * extras db) \<le> unat (new_off :: u32)"
    and "unat new_off + n * (2 * length cols) < 2 ^ 32" "n < 2 ^ 32" "length cols < 2 ^ 8" "Suc m \<le> n"
  shows "unat (overflow_data_offset db + of_nat m * ucast (db_overflow_record_size db)) = unat (overflow_data_offset db) + m * (2 * extras db)"
    "unat (new_off + of_nat m * of_nat (2 * length cols)) = unat new_off + m * (2 * length cols)"
    "unat (overflow_data_offset db) + m * (2 * extras db) + 2 * extras db \<le> unat new_off"
proof -
  let ?S = "2 * extras db" and ?K = "2 * length cols"
  have mS: "m * ?S + ?S \<le> n * ?S" "m * ?K + ?K \<le> n * ?K"
    using mult_le_mono1 [OF assms(6), of ?S] mult_le_mono1 [OF assms(6), of ?K] by simp_all
  then show "unat (overflow_data_offset db) + m * ?S + ?S \<le> unat new_off" using assms(2) by linarith
  show "unat (overflow_data_offset db + of_nat m * ucast (db_overflow_record_size db)) = unat (overflow_data_offset db) + m * ?S"
    using assms(1,2,4,6) mS(1) unat_u32_bound [of new_off] by (subst unat_cell) (simp_all add: unat_u16_u32)
  have "unat (of_nat (2 * length cols) :: u32) = ?K" using assms(5) by (simp add: unat_of_nat del: of_nat_mult)
  then show "unat (new_off + of_nat m * of_nat (2 * length cols)) = unat new_off + m * ?K"
    using assms(3,4,6) mS(2) by (subst unat_cell) simp_all
qed

lemma extra_copy_loop:
  assumes q: "quiet w" and size: "unat (db_overflow_record_size db) = 2 * extras db"
    and apart: "unat (overflow_data_offset db) + n * (2 * extras db) \<le> unat new_off" "unat new_off = length (content w p)"
    and room: "unat new_off + n * (2 * length cols) < 2 ^ 32" "n < 2 ^ 32" "length cols < 2 ^ 8"
    and m: "m \<le> n"
    and w': "w' = foldl (extra_copy_step db p new_off cols) w [0..<m]"
  shows "quiet w' \<and> dirs w' = dirs w \<and> (\<forall>q. q \<noteq> p \<longrightarrow> fs w' q = fs w q) \<and>
    keeps (\<lambda>i. i < unat new_off) (content w p) (content w' p) \<and>
    length (content w' p) = unat new_off + m * (2 * length cols) \<and>
    (\<forall>r < m. chunk (content w' p) (unat new_off + r * (2 * length cols)) (2 * length cols) =
      concat (map le16 (remap_vals cols (chunk (content w p) (unat (overflow_data_offset db) + r * (2 * extras db)) (2 * extras db)))))"
  using m w'
proof (induction m arbitrary: w')
  case 0
  with q apart(2) show ?case by simp
next
  case (Suc m)
  let ?O = "unat (overflow_data_offset db)" and ?S = "2 * extras db" and ?D = "unat new_off" and ?K = "2 * length cols"
  define w1 where "w1 = foldl (extra_copy_step db p new_off cols) w [0..<m]"
  note ih = Suc.IH [OF _ w1_def]
  have i: "quiet w1" "dirs w1 = dirs w" "\<forall>q. q \<noteq> p \<longrightarrow> fs w1 q = fs w q" "keeps (\<lambda>i. i < ?D) (content w p) (content w1 p)"
    "length (content w1 p) = ?D + m * ?K"
    and cells: "\<And>r. r < m \<Longrightarrow> chunk (content w1 p) (?D + r * ?K) ?K =
      concat (map le16 (remap_vals cols (chunk (content w p) (?O + r * ?S) ?S)))"
    using ih Suc.prems(1) by auto
  note pos = extra_copy_positions [OF size apart(1) room Suc.prems(1)]
  let ?old = "chunk (content w p) (?O + m * ?S) ?S"
  have old: "chunk (content w1 p) (?O + m * ?S) ?S = ?old"
    using apart pos(3) by (intro keeps_chunk [OF i(4)]) auto
  let ?d = "concat (map le16 (remap_vals cols ?old))"
  have ld: "length ?d = ?K" by simp
  have w'_eq: "w' = put_file w1 p (overlay (content w1 p) (?D + m * ?K) ?d)"
  proof -
    have "w' = extra_copy_step db p new_off cols w1 m" using Suc.prems(2) by (simp add: w1_def)
    with i(1) pos(1,2) old show ?thesis by (simp add: extra_copy_step_def Let_def quiet_fwrite_at fread_upto_sound)
  qed
  have kp: "keeps (\<lambda>i. i < ?D) (content w p) (content w' p)"
  proof -
    have "keeps (\<lambda>i. i < ?D) (content w1 p) (content w' p)"
      by (simp add: w'_eq) (rule keeps_mono [OF keeps_overlay], simp)
    from keeps_trans [OF i(4) this] show ?thesis by simp
  qed
  have cell: "chunk (content w' p) (?D + r * ?K) ?K =
      concat (map le16 (remap_vals cols (chunk (content w p) (?O + r * ?S) ?S)))" if "r < Suc m" for r
  proof (cases "r = m")
    case True
    then show ?thesis using ld by (simp add: w'_eq chunk_overlay_same)
  next
    case False
    with that have "r < m" by simp
    then have "r * ?K + ?K \<le> m * ?K" using mult_le_mono1 [of "Suc r" m ?K] by simp
    then have "chunk (content w' p) (?D + r * ?K) ?K = chunk (content w1 p) (?D + r * ?K) ?K"
      using i(5) by (simp add: w'_eq) (intro chunk_overlay_disjoint, auto)
    with cells [OF \<open>r < m\<close>] show ?thesis by simp
  qed
  have "length (content w' p) = ?D + Suc m * ?K" using i(5) ld by (auto simp: w'_eq length_overlay)
  with i cell kp show ?case by (simp add: w'_eq quiet_put_file)
qed

text \<open>What the copy leaves in the new region, cell by cell.\<close>

lemma remapped_cell:
  assumes "chunk g (D + r * (2 * length cols)) (2 * length cols) = concat (map le16 (remap_vals cols (chunk f P (2 * n))))"
    and "i < length cols" "n \<le> 48" "P + 2 * n \<le> length f" "\<And>j. cols ! i = Some j \<Longrightarrow> j < n"
  shows "ld16 g (D + r * (2 * length cols) + 2 * i) = (case cols ! i of None \<Rightarrow> 0 | Some j \<Rightarrow> ld16 f (P + 2 * j))"
proof -
  have "ld16 g (D + r * (2 * length cols) + 2 * i) = ld16 (chunk g (D + r * (2 * length cols)) (2 * length cols)) (2 * i)"
    using assms(2) by (simp add: ld16_chunk)
  also have "\<dots> = remap_vals cols (chunk f P (2 * n)) ! i"
    unfolding assms(1) using assms(2) by (intro ld16_values) (simp add: remap_vals_def)
  also have "\<dots> = (case cols ! i of None \<Rightarrow> 0 | Some j \<Rightarrow> ld16 f (P + 2 * j))"
  proof (cases "cols ! i")
    case None
    with assms(2) show ?thesis by (simp add: remap_vals_def)
  next
    case (Some j)
    have l: "length (chunk f P (2 * n)) = 2 * n" using assms(4) by (simp add: length_chunk)
    have "old_val (chunk f P (2 * n)) j = ld16 f (P + 2 * j)"
      unfolding old_val_def ld16_def using l assms(5) [OF Some]
      by (subst chunk_append_left) (simp_all add: chunk_chunk)
    with Some assms(2) show ?thesis by (simp add: remap_vals_def)
  qed
  finally show ?thesis .
qed

section \<open>Looking up names\<close>

text \<open>
  A well-formed overflow region: in a readable file, behind its header, with the magic, and
  with all records it counts.
\<close>

definition extras_wf :: "tsdb \<Rightarrow> world \<Rightarrow> bool" where
  "extras_wf db w \<longleftrightarrow>
     (let off = unat (overflow_offset (header db)); f = content w (filepath db)
      in sound w \<and> db_file db = Some (filepath db) \<and> nparams (header db) \<le> 64 \<and> 0 < extras db \<and> extras db \<le> 48 \<and>
         extra_param_count (header db) = db_extra_param_count db \<and>
         db_overflow_record_size db = ucast (db_extra_param_count db) * 2 \<and>
         overflow_data_offset db = overflow_offset (header db) + 1024 \<and>
         TSDB_HDR_SIZE \<le> off \<and> off + 1024 + unat (extra_records db) * (2 * extras db) \<le> length f \<and> length f < 2 ^ 32 \<and>
         ld32 f off = TSDB_OVERFLOW_MAGIC)"

definition extra_name :: "tsdb \<Rightarrow> world \<Rightarrow> nat \<Rightarrow> cstr option" where
  "extra_name db w j = tsdb_get_param_name_h (Some db) (num_params (header db) + of_nat j) w"

lemma extra_name_field:
  assumes "is_open db" "extras_wf db w" "j < extras db"
  shows "extra_name db w j = Some (field_name (chunk (content w (filepath db)) (unat (overflow_offset (header db)) + 12 + 20 * j) 20))"
proof -
  let ?h = "header db" and ?i = "num_params (header db) + of_nat j" and ?off = "unat (overflow_offset (header db))"
  note wf = assms(2) [unfolded extras_wf_def Let_def]
  have j: "j < 48" using assms(3) wf by simp
  have uj: "unat (of_nat j :: u8) = j" using j by (simp add: unat_of_nat)
  have i: "\<not> ?i < num_params ?h" using uj wf j by (simp add: word_less_nat_alt unat_word_ariths)
  have e: "?i - num_params ?h = of_nat j" by simp
  have c: "\<not> of_nat j \<ge> db_extra_param_count db" "overflow_offset ?h \<noteq> 0"
    using uj assms(3) wf by (auto simp: word_le_nat_alt)
  have "ucast (of_nat j :: u8) = (of_nat j :: u32)" using uj j by (simp add: word_unat_eq_iff unat_u8_u32 unat_of_nat)
  moreover have "unat (overflow_offset ?h + 12 + of_nat j * 20) = ?off + 12 + 20 * j"
  proof -
    have 1: "unat (overflow_offset ?h + 12) = ?off + 12" using wf by (subst unat_add_no_wrap) auto
    then show ?thesis using wf j by (subst unat_cell) (auto simp: 1)
  qed
  moreover have "fread_at w (filepath db) (?off + 12 + 20 * j) 20 = Some (chunk (content w (filepath db)) (?off + 12 + 20 * j) 20)"
    using wf j by (simp add: fread_at_sound)
  ultimately show ?thesis
    using assms(1) i c wf unfolding extra_name_def tsdb_get_param_name_h_def
    by (simp add: e read_name_def field_name_def)
qed

text \<open>The comparison that builds the column map agrees with the names the lookup returns.\<close>

lemma old_name_match:
  assumes "is_open db" "extras_wf db w" "j < extras db"
    and "old = decode_overflow (chunk (content w (filepath db)) (unat (overflow_offset (header db))) 1024)"
  shows "strncmp_eq 19 s (old_extra_name old j) \<longleftrightarrow> extra_name db w j = Some (take 19 s)"
proof -
  have j: "j < 48" using assms(2,3) by (simp add: extras_wf_def Let_def)
  have "old_extra_name old j = cstr_of (chunk (content w (filepath db)) (unat (overflow_offset (header db)) + 12 + 20 * j) 20)"
    using j by (simp add: old_extra_name_def assms(4) decode_overflow_def chunk_chunk add.assoc)
  then show ?thesis
    using extra_name_field [OF assms(1-3)] by (auto simp: strncmp_eq_def field_name_take)
qed

definition column_of :: "tsdb \<Rightarrow> world \<Rightarrow> cstr \<Rightarrow> nat option" where
  "column_of db w s = find (\<lambda>j. extra_name db w j = Some (take 19 s)) [0..<extras db]"

lemma find_cong': "(\<And>x. x \<in> set xs \<Longrightarrow> P x = Q x) \<Longrightarrow> find P xs = find Q xs"
  by (induction xs) auto

lemma extra_col_map:
  assumes "is_open db" "extras_wf db w"
    and "old = decode_overflow (chunk (content w (filepath db)) (unat (overflow_offset (header db))) 1024)"
  shows "extra_col_map old (extras db) names n = map (\<lambda>i. column_of db w (names ! i)) [0..<n]"
  unfolding extra_col_map_def column_of_def
  by (rule map_cong [OF refl], rule find_cong') (use old_name_match [OF assms(1,2) _ assms(3)] in auto)

lemma column_of_Some: "column_of db w s = Some j \<Longrightarrow> j < extras db \<and> extra_name db w j = Some (take 19 s)"
  by (auto simp: column_of_def find_Some_iff)

text \<open>A header whose overflow fields change describes the same ring.\<close>

lemma ring_same:
  assumes "same_geom h k" "total_records k = total_records h" "max_records k = max_records h" "oldest_record_idx k = oldest_record_idx h"
  shows "ring_inv k f = ring_inv h f" "retained k f = retained h f"
proof -
  note g = same_geom_simps [OF assms(1)]
  have a: "avail k = avail h" "slot_of k = slot_of h" using assms(2,3) by (simp_all add: avail_def slot_of_def fun_eq_iff)
  show "ring_inv k f = ring_inv h f" using assms g a by (simp add: ring_inv_def ring_hdr_def)
  show "retained k f = retained h f" using assms g a by (intro retained_cong) simp_all
qed

section \<open>Replacing the extra parameters keeps the columns by name\<close>

text \<open>A header write only touches the first 584 bytes.\<close>

lemma overlay_header:
  assumes "header_wf h" "TSDB_HDR_SIZE \<le> length f"
  shows "length (overlay f 0 (encode_header h)) = length f" "keeps (\<lambda>i. TSDB_HDR_SIZE \<le> i) f (overlay f 0 (encode_header h))"
proof -
  have l: "length (encode_header h) = 584" by (rule length_encode_header [OF assms(1)])
  then show "length (overlay f 0 (encode_header h)) = length f" using assms(2) by (auto simp: length_overlay)
  show "keeps (\<lambda>i. TSDB_HDR_SIZE \<le> i) f (overlay f 0 (encode_header h))"
    by (rule keeps_mono [OF keeps_overlay]) (simp add: l)
qed

definition moved_overflow :: "tsdb \<Rightarrow> u32 \<Rightarrow> u8 \<Rightarrow> tsdb" where
  "moved_overflow db off count =
     db\<lparr>header := (header db)\<lparr>overflow_offset := off, extra_param_count := count, overflow_record_size := ucast count * 2\<rparr>,
        db_extra_param_count := count, db_overflow_record_size := ucast count * 2, overflow_data_offset := off + 1024\<rparr>"

text \<open>The file with the new overflow header appended and the rows copied behind it.\<close>

lemma extra_region_copied:
  assumes p_def: "p = filepath db" and q: "quiet w" and wf: "extras_wf db w"
    and n: "0 < n" "n \<le> 48" "length cols = n" and li: "length img = 1024"
    and room: "length (content w p) + 1024 + unat (extra_records db) * (2 * n) < 2 ^ 32"
    and w2: "w2 = foldl (extra_copy_step db p (of_nat (length (content w p)) + 1024) cols)
      (put_file w p (overlay (content w p) (length (content w p)) img)) [0..<unat (extra_records db)]"
  shows "quiet w2" "keeps (\<lambda>i. i < length (content w p) + 1024) (content w p @ img) (content w2 p)"
    "length (content w2 p) = length (content w p) + 1024 + unat (extra_records db) * (2 * n)"
    "r < unat (extra_records db) \<Longrightarrow> chunk (content w2 p) (length (content w p) + 1024 + r * (2 * n)) (2 * n) =
      concat (map le16 (remap_vals cols (chunk (content w p) (unat (overflow_data_offset db) + r * (2 * extras db)) (2 * extras db))))"
proof -
  note x = wf [unfolded extras_wf_def Let_def, folded p_def]
  let ?f = "content w p" and ?off = "of_nat (length (content w p)) :: u32" and ?P = "\<lambda>r. unat (overflow_data_offset db) + r * (2 * extras db)"
  define w1 where "w1 = put_file w p (overlay ?f (length ?f) img)"
  have off: "unat ?off = length ?f" using x by (simp add: unat_of_nat)
  have noff: "unat (?off + 1024) = length ?f + 1024" using room off by (subst unat_add_no_wrap) simp_all
  have doff: "unat (overflow_data_offset db) = unat (overflow_offset (header db)) + 1024"
    using x by (simp, subst unat_add_no_wrap) auto
  have rs: "unat (db_overflow_record_size db) = 2 * extras db" using x by (simp add: unat_word_ariths unat_u8_u16)
  have f1: "content w1 p = ?f @ img" by (auto simp: w1_def overlay_def)
  have q1: "quiet w1" using q by (simp add: w1_def quiet_put_file)
  note loop = extra_copy_loop [OF q1 rs, of "unat (extra_records db)" "?off + 1024" p cols, OF _ _ _ _ _ order_refl w2 [folded w1_def]]
  have l: "quiet w2 \<and> dirs w2 = dirs w1 \<and> (\<forall>q. q \<noteq> p \<longrightarrow> fs w2 q = fs w1 q) \<and>
    keeps (\<lambda>i. i < unat (?off + 1024)) (content w1 p) (content w2 p) \<and>
    length (content w2 p) = unat (?off + 1024) + unat (extra_records db) * (2 * length cols) \<and>
    (\<forall>r < unat (extra_records db). chunk (content w2 p) (unat (?off + 1024) + r * (2 * length cols)) (2 * length cols) =
      concat (map le16 (remap_vals cols (chunk (content w1 p) (?P r) (2 * extras db)))))"
    by (rule loop) (use x room doff noff n li unat_u32_bound [of "extra_records db"] in \<open>simp_all add: f1\<close>)
  then show "quiet w2" "keeps (\<lambda>i. i < length ?f + 1024) (?f @ img) (content w2 p)"
    "length (content w2 p) = length ?f + 1024 + unat (extra_records db) * (2 * n)"
    using noff n(3) f1 by simp_all
  assume r: "r < unat (extra_records db)"
  have "r * (2 * extras db) + 2 * extras db \<le> unat (extra_records db) * (2 * extras db)"
    using mult_le_mono1 [of "Suc r" "unat (extra_records db)" "2 * extras db"] r by simp
  then have "?P r + 2 * extras db \<le> length ?f" using x doff by linarith
  then show "chunk (content w2 p) (length ?f + 1024 + r * (2 * n)) (2 * n) =
      concat (map le16 (remap_vals cols (chunk ?f (?P r) (2 * extras db))))"
    using l r noff n(3) f1 by (simp add: chunk_append_left)
qed

text \<open>A cell of the new region, once the copied row is in place.\<close>

lemma moved_cell:
  assumes p_def: "p = filepath db" and wf: "extras_wf db w" and n: "n \<le> 48"
    and room: "length (content w p) + 1024 + unat (extra_records db) * (2 * n) < 2 ^ 32"
    and db': "db' = moved_overflow db (of_nat (length (content w p))) (of_nat n)"
    and cols: "cols = map (\<lambda>i. column_of db w (names ! i)) [0..<n]"
    and row: "chunk g (length (content w p) + 1024 + r * (2 * n)) (2 * n) =
      concat (map le16 (remap_vals cols (chunk (content w p) (unat (overflow_data_offset db) + r * (2 * extras db)) (2 * extras db))))"
    and g: "length g = length (content w p) + 1024 + unat (extra_records db) * (2 * n)"
    and r: "r < unat (extra_records db)" and i: "i < n"
  shows "extra_cell db' g r i = (case column_of db w (names ! i) of None \<Rightarrow> 0 | Some j \<Rightarrow> extra_cell db (content w p) r j)"
proof -
  note x = wf [unfolded extras_wf_def Let_def, folded p_def]
  let ?f = "content w p" and ?off = "of_nat (length (content w p)) :: u32"
  let ?P = "unat (overflow_data_offset db) + r * (2 * extras db)"
  have off: "unat ?off = length ?f" using x by (simp add: unat_of_nat)
  have lc: "length cols = n" by (simp add: cols)
  have rb: "r * (2 * extras db) + 2 * extras db \<le> unat (extra_records db) * (2 * extras db)"
    using mult_le_mono1 [of "Suc r" "unat (extra_records db)" "2 * extras db"] r by simp
  have "unat (overflow_data_offset db) = unat (overflow_offset (header db)) + 1024"
    using x by (simp, subst unat_add_no_wrap) auto
  then have old_in: "?P + 2 * extras db \<le> length ?f" using x rb by linarith
  have "ld16 g (length ?f + 1024 + r * (2 * length cols) + 2 * i) =
      (case cols ! i of None \<Rightarrow> 0 | Some j \<Rightarrow> ld16 ?f (?P + 2 * j))"
    using x i lc old_in row column_of_Some by (intro remapped_cell) (auto simp: cols)
  moreover have "unat (?off + 1024) = length ?f + 1024" using room off by (subst unat_add_no_wrap) simp_all
  then have "unat (overflow_data_offset db') = length ?f + 1024" "extras db' = n"
    using n by (simp_all add: db' moved_overflow_def unat_of_nat)
  ultimately show ?thesis using i lc by (simp add: extra_cell_def cols split: option.split)
qed

lemma migrate_overflow_moves:
  assumes p_def: "p = filepath db" and q: "quiet w" and op: "is_open db" and wf: "extras_wf db w" and hw: "header_wf (header db)"
    and n: "0 < n" "n \<le> 48"
    and room: "length (content w p) + 1024 + unat (extra_records db) * (2 * n) < 2 ^ 32"
    and old: "old = decode_overflow (chunk (content w p) (unat (overflow_offset (header db))) 1024)"
    and nm: "\<not> extras_match old (extras db) names n"
    and db': "db' = moved_overflow db (of_nat (length (content w p))) (of_nat n)"
  obtains w' where "migrate_overflow_locked db p names (of_nat n) w = (ESP_OK, db', w')" "quiet w'"
    "keeps (\<lambda>i. TSDB_HDR_SIZE \<le> i) (content w p) (content w' p)"
    "length (content w' p) = length (content w p) + 1024 + unat (extra_records db) * (2 * n)"
    "chunk (content w' p) (length (content w p)) 1024 = encode_overflow (overflow_header_for names n (db_first_overflow_record_idx db))"
    "\<And>r i. r < unat (extra_records db) \<Longrightarrow> i < n \<Longrightarrow> extra_cell db' (content w' p) r i =
      (case column_of db w (names ! i) of None \<Rightarrow> 0 | Some j \<Rightarrow> extra_cell db (content w p) r j)"
proof -
  note x = wf [unfolded extras_wf_def Let_def, folded p_def]
  let ?f = "content w p" and ?off = "of_nat (length (content w p)) :: u32" and ?n = "of_nat n :: u8"
  let ?img = "encode_overflow (overflow_header_for names n (db_first_overflow_record_idx db))"
  have off: "unat ?off = length ?f" using x by (simp add: unat_of_nat)
  have un: "unat ?n = n" using n(2) by (simp add: unat_of_nat)
  define cols where "cols = map (\<lambda>i. column_of db w (names ! i)) [0..<n]"
  have cm: "extra_col_map old (extras db) names n = cols"
    unfolding cols_def by (rule extra_col_map [OF op wf]) (simp add: old p_def)
  have lc: "length cols = n" by (simp add: cols_def)
  define w1 where "w1 = put_file w p (overlay ?f (length ?f) ?img)"
  define w2 where "w2 = foldl (extra_copy_step db p (?off + 1024) cols) w1 [0..<unat (extra_records db)]"
  note l = extra_region_copied [OF p_def q wf n lc _ room w2_def [unfolded w1_def], simplified]
  define w' where "w' = put_file w2 p (overlay (content w2 p) 0 (encode_header (header db')))"
  have hw': "header_wf (header db')" using hw by (simp add: db' moved_overflow_def header_wf_def)
  have sz: "TSDB_HDR_SIZE \<le> length (content w2 p)" using l(3) by simp
  note oh = overlay_header [OF hw' sz]
  have m: "ovf_magic old = TSDB_OVERFLOW_MAGIC" using x by (simp add: old decode_overflow_def ld32_chunk)
  have rd: "fread_at w p (unat (overflow_offset (header db))) 1024 = Some (chunk ?f (unat (overflow_offset (header db))) 1024)"
    using x by (simp add: fread_at_sound)
  have fw: "fwrite_at w p (unat (file_end w p)) ?img = (None, w1)" using off by (simp add: quiet_fwrite_at [OF q] file_end_def w1_def)
  have run: "migrate_overflow_locked db p names ?n w = (ESP_OK, db', w')"
    unfolding migrate_overflow_locked_def rd option.case Let_def un old [symmetric] cm fw prod.case
    using m nm by (simp add: file_end_def w2_def [symmetric] quiet_write_header [OF l(1)])
      (simp add: db' moved_overflow_def w'_def)
  have k2: "keeps (\<lambda>i. TSDB_HDR_SIZE \<le> i) (content w2 p) (content w' p)" using oh(2) by (simp add: w'_def)
  have keep: "keeps (\<lambda>i. TSDB_HDR_SIZE \<le> i) ?f (content w' p)"
  proof -
    have "keeps (\<lambda>i. True) ?f (?f @ ?img)" by (simp add: keeps_def nth_append)
    from keeps_trans [OF keeps_trans [OF this l(2)] k2] show ?thesis by (auto simp: keeps_def)
  qed
  have at2: "chunk (content w' p) a k = chunk (content w2 p) a k" if "TSDB_HDR_SIZE \<le> a" "a + k \<le> length (content w2 p)" for a k
    using that by (intro keeps_chunk [OF k2]) auto
  have img: "chunk (content w' p) (length ?f) 1024 = ?img"
  proof -
    have "chunk (content w' p) (length ?f) 1024 = chunk (content w2 p) (length ?f) 1024" using x l(3) by (intro at2) auto
    also have "\<dots> = chunk (?f @ ?img) (length ?f) 1024" by (intro keeps_chunk [OF l(2)]) auto
    finally show ?thesis by (simp add: chunk_append_right)
  qed
  have cell: "extra_cell db' (content w' p) r i =
      (case column_of db w (names ! i) of None \<Rightarrow> 0 | Some j \<Rightarrow> extra_cell db ?f r j)"
    if r: "r < unat (extra_records db)" and i: "i < n" for r i
  proof (rule moved_cell [OF p_def wf n(2) room db' cols_def _ _ r i])
    have "r * (2 * n) + 2 * n \<le> unat (extra_records db) * (2 * n)"
      using mult_le_mono1 [of "Suc r" "unat (extra_records db)" "2 * n"] r by simp
    then have "chunk (content w' p) (length ?f + 1024 + r * (2 * n)) (2 * n) = chunk (content w2 p) (length ?f + 1024 + r * (2 * n)) (2 * n)"
      using x l(3) by (intro at2) auto
    then show "chunk (content w' p) (length ?f + 1024 + r * (2 * n)) (2 * n) =
        concat (map le16 (remap_vals cols (chunk ?f (unat (overflow_data_offset db) + r * (2 * extras db)) (2 * extras db))))"
      using l(4) [OF r] by simp
  qed (simp add: w'_def oh(1) l(3))
  show ?thesis by (rule that [OF run _ keep _ img cell]) (simp_all add: w'_def oh(1) l(1,3) quiet_put_file)
qed

lemma moved_overflow_fields [simp]:
  "header (moved_overflow db off c) =
    (header db)\<lparr>overflow_offset := off, extra_param_count := c, overflow_record_size := ucast c * 2\<rparr>"
  "db_extra_param_count (moved_overflow db off c) = c" "db_file (moved_overflow db off c) = db_file db"
  "filepath (moved_overflow db off c) = filepath db" "is_open (moved_overflow db off c) = is_open db"
  "extra_records (moved_overflow db off c) = extra_records db"
  "overflow_data_offset (moved_overflow db off c) = off + 1024"
  "db_overflow_record_size (moved_overflow db off c) = ucast c * 2"
  by (simp_all add: moved_overflow_def extra_records_def)

lemma moved_ring:
  assumes "db_inv db w" "extras_wf db w" "keeps (\<lambda>i. TSDB_HDR_SIZE \<le> i) (content w (filepath db)) (content w' (filepath db))"
    and "unat (overflow_offset (header db)) \<le> unat off" "unat off + 1024 < 2 ^ 32" "sound w'"
  shows "db_inv (moved_overflow db off c) w'" "db_rows (moved_overflow db off c, w') = db_rows (db, w)"
proof -
  let ?k = "header (moved_overflow db off c)" and ?p = "filepath db"
  have inv: "ring_inv (header db) (content w ?p)" "ovf_clear db" "db_file db = Some ?p" using assms(1) by (simp_all add: db_inv_def)
  have "keeps (\<lambda>i. data_start (header db) \<le> i) (content w ?p) (content w' ?p)"
    by (rule keeps_mono [OF assms(3)]) (use inv(1) in \<open>simp add: ring_inv_def ring_hdr_def\<close>)
  note kr = keeps_ring [OF this inv(1)]
  have g: "same_geom (header db) ?k" by (simp add: same_geom_def header_wf_def)
  note rs = ring_same [OF g, where f = "content w' ?p"]
  note x = assms(2) [unfolded extras_wf_def Let_def]
  have "unat (overflow_data_offset db) \<le> unat (off + 1024)"
    using x assms(4,5) by (simp, subst (1 2) unat_add_no_wrap) auto
  then have "ovf_clear (moved_overflow db off c)"
    using inv(2) x same_geom_simps(2) [OF g] by (auto simp: ovf_clear_def Let_def)
  then show "db_inv (moved_overflow db off c) w'" using inv(3) kr(1) rs(1) assms(6) by (simp add: db_inv_def)
  show "db_rows (moved_overflow db off c, w') = db_rows (db, w)" using kr(2) rs(2) by (simp add: db_rows_def)
qed

definition names_ok :: "cstr list \<Rightarrow> nat \<Rightarrow> bool" where
  "names_ok names k \<longleftrightarrow> 0 < k \<and> k \<le> 48 \<and> k \<le> length names \<and> (\<forall>s\<in>set names. 0 \<notin> set s)"

lemma names_in_image:
  assumes "names_ok names k" "is_open db" "extras_wf db w" "extras db = k" "j < k"
    and "chunk (content w (filepath db)) (unat (overflow_offset (header db))) 1024 = encode_overflow (overflow_header_for names k first)"
  shows "extra_name db w j = Some (take 19 (names ! j))"
proof -
  let ?f = "content w (filepath db)" and ?off = "unat (overflow_offset (header db))"
  have j: "j < 48" "0 \<notin> set (names ! j)" using assms(1,5) by (auto simp: names_ok_def)
  have "chunk ?f (?off + 12 + 20 * j) 20 = chunk (chunk ?f ?off 1024) (12 + 20 * j) 20"
    using j by (subst chunk_chunk) (simp_all add: add.assoc)
  also have "\<dots> = name_field 20 (names ! j)" unfolding assms(6) using assms(5) j by (intro encode_overflow_fields(2)) simp_all
  finally show ?thesis
    using extra_name_field [OF assms(2,3), of j] assms(4,5) j by (simp add: field_name_field)
qed

lemma column_of_self:
  assumes "inj_on (extra_name db w) {..<extras db}" "i < extras db" "extra_name db w i = Some (take 19 s)"
  shows "column_of db w s = Some i"
proof -
  have "extra_name db w j \<noteq> Some (take 19 s)" if "j < i" for j
    using inj_onD [OF assms(1), of i j] assms(2,3) that by fastforce
  then show ?thesis using assms(2,3) by (auto simp: column_of_def find_Some_iff intro!: exI [of _ i])
qed

lemma moved_wf:
  assumes "extras_wf db w" "sound w'" "0 < n" "n \<le> 48" "length f + 1024 + unat (extra_records db) * (2 * n) < 2 ^ 32" "TSDB_HDR_SIZE \<le> length f"
    and "length (content w' (filepath db)) = length f + 1024 + unat (extra_records db) * (2 * n)"
    and "chunk (content w' (filepath db)) (length f) 1024 = encode_overflow (overflow_header_for names n first)"
  shows "extras_wf (moved_overflow db (of_nat (length f)) (of_nat n)) w'"
proof -
  have off: "unat (of_nat (length f) :: u32) = length f" using assms(5) by (simp add: unat_of_nat)
  have un: "unat (of_nat n :: u8) = n" using assms(4) by (simp add: unat_of_nat)
  have "ld32 (content w' (filepath db)) (length f) = ld32 (chunk (content w' (filepath db)) (length f) 1024) 0" by (simp add: ld32_chunk)
  also have "\<dots> = TSDB_OVERFLOW_MAGIC" unfolding assms(8) by (rule encode_overflow_fields(1))
  finally show ?thesis
    using assms(1-7) off un by (simp add: extras_wf_def Let_def)
qed

text \<open>
  C13: Replacing the extra parameters is a migration by name: in a world without failures it
  succeeds, afterwards the new names are the extra parameters, a column whose name existed
  before has the values it had in every record, a new column is zero everywhere, and the base
  records are unchanged.
\<close>

theorem migrate_overflow_by_name:
  assumes "quiet w" "is_open db" "db_inv db w" "extras_wf db w" "0 < n" "n \<le> 48" "\<forall>s\<in>set names. 0 \<notin> set s" "n \<le> length names"
    and "length (content w (filepath db)) + 1024 + unat (extra_records db) * (2 * n) < 2 ^ 32"
    and "inj_on (extra_name db w) {..<extras db}"
  shows "\<exists>db' w'. tsdb_migrate_overflow_h (Some db) (Some names) (of_nat n) w = (ESP_OK, Some db', w') \<and>
    extras db' = n \<and> (\<forall>i < n. extra_name db' w' i = Some (take 19 (names ! i))) \<and>
    (\<forall>r < unat (extra_records db). \<forall>i < n. extra_cell db' (content w' (filepath db)) r i =
      (case column_of db w (names ! i) of None \<Rightarrow> 0 | Some j \<Rightarrow> extra_cell db (content w (filepath db)) r j)) \<and>
    db_inv db' w' \<and> extras_wf db' w' \<and> db_rows (db', w') = db_rows (db, w)"
proof -
  let ?p = "filepath db" and ?f = "content w (filepath db)"
  note x = assms(4) [unfolded extras_wf_def Let_def]
  define old where "old = decode_overflow (chunk ?f (unat (overflow_offset (header db))) 1024)"
  have un: "unat (of_nat n :: u8) = n" using assms(6) by (simp add: unat_of_nat)
  have g: "\<not> (of_nat n :: u8) > 48" "(of_nat n :: u8) \<noteq> 0" "db_extra_param_count db \<noteq> 0"
    using un assms(5,6) x by (auto simp: word_less_nat_alt)
  have run: "tsdb_migrate_overflow_h (Some db) (Some names) (of_nat n) w =
      (case migrate_overflow_locked db ?p names (of_nat n) w of (r, db, w) \<Rightarrow> (r, Some db, w))"
    using assms(2) g x by (simp add: tsdb_migrate_overflow_h_def quiet_lock_open [OF assms(1)])
  note nmatch = old_name_match [OF assms(2,4) _ old_def]
  show ?thesis
  proof (cases "extras_match old (extras db) names n")
    case True
    have m: "ovf_magic old = TSDB_OVERFLOW_MAGIC" using x by (simp add: old_def decode_overflow_def ld32_chunk)
    have "migrate_overflow_locked db ?p names (of_nat n) w = (ESP_OK, db, w)"
      using x m True un by (simp add: migrate_overflow_locked_def fread_at_sound Let_def old_def [symmetric])
    moreover have n: "extras db = n" "\<And>i. i < n \<Longrightarrow> extra_name db w i = Some (take 19 (names ! i))"
      using True nmatch by (auto simp: extras_match_def)
    moreover have "column_of db w (names ! i) = Some i" if "i < n" for i
      using column_of_self [OF assms(10)] n that by simp
    ultimately show ?thesis using run assms(3,4) by auto
  next
    case False
    have hw: "header_wf (header db)" using assms(3) by (simp add: db_inv_def ring_inv_def ring_hdr_def)
    define db' where "db' = moved_overflow db (of_nat (length ?f)) (of_nat n)"
    obtain w' where m: "migrate_overflow_locked db ?p names (of_nat n) w = (ESP_OK, db', w')" "quiet w'"
      "keeps (\<lambda>i. TSDB_HDR_SIZE \<le> i) ?f (content w' ?p)"
      "length (content w' ?p) = length ?f + 1024 + unat (extra_records db) * (2 * n)"
      "chunk (content w' ?p) (length ?f) 1024 = encode_overflow (overflow_header_for names n (db_first_overflow_record_idx db))"
      "\<And>r i. r < unat (extra_records db) \<Longrightarrow> i < n \<Longrightarrow> extra_cell db' (content w' ?p) r i =
        (case column_of db w (names ! i) of None \<Rightarrow> 0 | Some j \<Rightarrow> extra_cell db ?f r j)"
      by (rule migrate_overflow_moves [OF refl assms(1,2,4) hw assms(5,6,9) old_def False db'_def]) blast
    have off: "unat (of_nat (length ?f) :: u32) = length ?f" using x by (simp add: unat_of_nat)
    have xw: "extras_wf db' w'"
      unfolding db'_def by (rule moved_wf [OF assms(4) _ assms(5,6,9) _ m(4,5)]) (use x m(2) in simp_all)
    have "names_ok names n" using assms(5-8) by (simp add: names_ok_def)
    then have "extra_name db' w' i = Some (take 19 (names ! i))" if "i < n" for i
      using names_in_image [OF _ _ xw, of names n i] assms(2) m(5) that un off by (simp add: db'_def)
    moreover have "db_inv db' w'" "db_rows (db', w') = db_rows (db, w)"
      using moved_ring [OF assms(3,4) m(3), of "of_nat (length ?f)" "of_nat n"] off x assms(9) m(2) by (simp_all add: db'_def quiet_sound)
    ultimately show ?thesis using run m(1,6) xw un by (auto simp: db'_def)
  qed
qed

section \<open>Writes append to the overflow region\<close>

text \<open>
  The state in which writes with extra values are safe: the whole ring is allocated in front
  of the overflow region, and \<open>n\<close> more rows fit the 32-bit offsets.
\<close>

definition extras_writable :: "nat \<Rightarrow> tsdb \<times> world \<Rightarrow> bool" where
  "extras_writable n s \<longleftrightarrow>
     (let (db, w) = s; h = header db
      in writable n s \<and> \<not> has_free_space_cb db \<and> extras_wf db w \<and> max_records h \<noteq> 0 \<and>
         block_pos h ((cap h - 1) div rpb h) + TSDB_BLOCK_SIZE \<le> unat (overflow_offset h) \<and>
         unat (db_first_overflow_record_idx db) \<le> nrec h \<and>
         length (content w (filepath db)) + n * (2 * extras db) < 2 ^ 32)"

definition extra_rows :: "tsdb \<times> world \<Rightarrow> i16 list list" where
  "extra_rows s =
     (let (db, w) = s
      in map (\<lambda>r. map (extra_cell db (content w (filepath db)) r) [0..<extras db]) [0..<unat (extra_records db)])"

lemma unat_extra_records: "unat (extra_records db) = nrec (header db) - unat (db_first_overflow_record_idx db)"
  by (auto simp: extra_records_def word_less_nat_alt unat_sub_no_wrap)

text \<open>The bytes after one write: the block of the ring, then the extra values behind the last row.\<close>

lemma write_extra_bytes:
  assumes sw: "extras_writable (Suc n) (db, w)" and len: "length vals = nparams (header db) + extras db"
    and wl: "write_locked db ts vals w = (r, db', w')"
  obtains d B where "length d = 1024" "B + 1024 \<le> unat (overflow_offset (header db))" "TSDB_HDR_SIZE \<le> B"
    "content w' (filepath db) = overlay (overlay (content w (filepath db)) B d)
       (unat (overflow_data_offset db) + unat (extra_records db) * (2 * extras db)) (concat (map le16 (drop (nparams (header db)) vals)))"
    "config_part (header db') = config_part (header db)" "has_free_space_cb db' = has_free_space_cb db"
proof -
  let ?h = "header db" and ?p = "filepath db" and ?e = "extras db" and ?t = "slot_of (header db) (nrec (header db))"
  note x = sw [unfolded extras_writable_def Let_def prod.case]
  note wf = x [THEN conjunct2, THEN conjunct2, THEN conjunct1, unfolded extras_wf_def Let_def]
  have v: "quiet w" "db_inv db w" "room db" using x room_for_room by (auto simp: writable_def)
  have g: "geom (rpb ?h) (nparams ?h)" "TSDB_HDR_SIZE \<le> data_start ?h" and f: "db_file db = Some ?p"
    using v(2) by (simp_all add: db_inv_def ring_inv_def ring_hdr_def)
  let ?bn = "next_record_idx ?h div ucast (records_per_block ?h)"
  obtain pl d where run: "write_locked db ts vals w =
      finish_write (evicted db pl) (next_record_idx ?h) (next_is_eviction ?h) ts vals
        (put_file w ?p (overlay (content w ?p) (unat (tsdb_calc_block_offset ?h ?bn)) d))" and d: "length d = 1024"
    using quiet_write_run [OF v(1) _ f, of ts vals] x g(1) len by (metis le_add1)
  have bn: "unat ?bn = ?t div rpb ?h" by (simp add: unat_div next_record_idx unat_u16_u32)
  have pos: "unat (tsdb_calc_block_offset ?h ?bn) = block_pos ?h (?t div rpb ?h)"
    using v(3) bn by (subst calc_block_offset_exact) (auto simp: room_def Let_def)
  have "?t \<le> cap ?h - 1" using x cap_pos [of ?h] mod_less_divisor [of "cap ?h" "nrec ?h"]
    by (auto simp: slot_of_def less_eq_Suc_le simp del: mod_less_divisor)
  then have "block_pos ?h (?t div rpb ?h) \<le> block_pos ?h ((cap ?h - 1) div rpb ?h)" by (intro block_pos_mono div_le_mono)
  then have B: "block_pos ?h (?t div rpb ?h) + 1024 \<le> unat (overflow_offset ?h)" using x by linarith
  have lo: "TSDB_HDR_SIZE \<le> block_pos ?h (?t div rpb ?h)" using g(2) data_start_le_block_pos le_trans by blast
  let ?w1 = "put_file w ?p (overlay (content w ?p) (block_pos ?h (?t div rpb ?h)) d)"
  note fin = run [unfolded wl pos, symmetric]
  have ge: "db_first_overflow_record_idx db \<le> total_records ?h" "db_extra_param_count db > 0"
    using x wf by (simp_all add: word_le_nat_alt word_less_nat_alt)
  have idx: "unat (total_records ?h - db_first_overflow_record_idx db) = unat (extra_records db)"
    using x by (simp add: unat_extra_records unat_sub_no_wrap)
  have doff: "unat (overflow_data_offset db) = unat (overflow_offset ?h) + 1024" using wf by (simp, subst unat_add_no_wrap) auto
  have rs: "unat (db_overflow_record_size db) = 2 * ?e" using wf by (simp add: unat_word_ariths unat_u8_u16)
  let ?V = "unat (overflow_data_offset db) + unat (extra_records db) * (2 * ?e)"
  have V: "unat (overflow_data_offset db + (total_records ?h - db_first_overflow_record_idx db) * ucast (db_overflow_record_size db)) = ?V"
  proof -
    have "?V < 4294967296" using wf doff by simp
    then have m: "unat ((total_records ?h - db_first_overflow_record_idx db) * ucast (db_overflow_record_size db)) = unat (extra_records db) * (2 * ?e)"
      using idx rs by (subst unat_mult_no_wrap) (auto simp: unat_u16_u32)
    with \<open>?V < 4294967296\<close> show ?thesis by (subst unat_add_no_wrap) auto
  qed
  have q1: "quiet ?w1" using v(1) by (simp add: quiet_put_file)
  have "content (write_overflow (evicted db pl) vals ?w1) ?p =
      overlay (content ?w1 ?p) ?V (concat (map le16 (drop (nparams ?h) vals)))"
    using ge f V len by (simp add: write_overflow_def evicted_def evict_header_def Let_def quiet_fwrite_at [OF q1])
  then have "content w' ?p = overlay (overlay (content w ?p) (block_pos ?h (?t div rpb ?h)) d) ?V (concat (map le16 (drop (nparams ?h) vals)))"
    using finish_write(6) [OF fin] by (simp add: evicted_def)
  moreover have "config_part (header db') = config_part ?h" "has_free_space_cb db' = has_free_space_cb db"
    using finish_write_config [OF fin] by (simp_all add: evicted_def evict_header_def config_part_def)
  ultimately show ?thesis by (rule that [OF d B lo])
qed

lemma overlay_twice_cell:
  assumes "B + length d \<le> a" "a + k \<le> V" "V \<le> length f"
  shows "chunk (overlay (overlay f B d) V c) a k = chunk f a k"
proof -
  have l: "length (overlay f B d) = length f" using assms by (auto simp: length_overlay)
  have "chunk (overlay (overlay f B d) V c) a k = chunk (overlay f B d) a k"
    using assms l by (intro chunk_overlay_disjoint) auto
  also have "\<dots> = chunk f a k" using assms by (intro chunk_overlay_disjoint) auto
  finally show ?thesis .
qed

lemma extras_after_write:
  assumes sw: "extras_writable (Suc n) (db, w)" and len: "length vals = nparams (header db) + extras db"
    and wl: "write_locked db ts vals w = (r, db', w')" and st: "stored db w x db' w'" and wr: "writable n (db', w')"
  shows "extras_writable n (db', w')" "extra_rows (db', w') = extra_rows (db, w) @ [drop (nparams (header db)) vals]"
    "j < extras db \<Longrightarrow> extra_name db' w' j = extra_name db w j"
proof -
  let ?h = "header db" and ?p = "filepath db" and ?e = "extras db" and ?R = "unat (extra_records db)"
  let ?V = "unat (overflow_data_offset db) + ?R * (2 * ?e)" and ?c = "concat (map le16 (drop (nparams ?h) vals))"
  let ?f = "content w ?p" and ?g = "content w' ?p" and ?off = "unat (overflow_offset ?h)"
  note y = sw [unfolded extras_writable_def Let_def prod.case]
  note wf = y [THEN conjunct2, THEN conjunct2, THEN conjunct1, unfolded extras_wf_def Let_def]
  obtain d B where b: "length d = 1024" "B + 1024 \<le> ?off" "TSDB_HDR_SIZE \<le> B" "?g = overlay (overlay ?f B d) ?V ?c"
    "config_part (header db') = config_part ?h" "has_free_space_cb db' = has_free_space_cb db"
    by (rule write_extra_bytes [OF sw len wl])
  note cf = config_part_fields [OF b(5) [symmetric]]
  have fr: "same_frame db db'" "nrec (header db') = nrec ?h + 1" using st by (simp_all add: stored_def)
  have same: "filepath db' = ?p" "db_extra_param_count db' = db_extra_param_count db" "overflow_data_offset db' = overflow_data_offset db"
    "db_first_overflow_record_idx db' = db_first_overflow_record_idx db" "db_overflow_record_size db' = db_overflow_record_size db"
    "db_file db' = db_file db"
    using fr(1) by (simp_all add: same_frame_def)
  have R: "unat (extra_records db') = Suc ?R" using y fr(2) same by (simp add: unat_extra_records Suc_diff_le)
  have doff: "unat (overflow_data_offset db) = ?off + 1024" using wf by (simp, subst unat_add_no_wrap) auto
  have V: "?V \<le> length ?f" using wf doff by simp
  have lc: "length ?c = 2 * ?e" using len by simp
  have lg: "length ?g = max (length ?f) (?V + 2 * ?e)" using b(1,2) wf lc len by (auto simp: b(4) length_overlay)
  have kept: "chunk ?g a k = chunk ?f a k" if "?off \<le> a" "a + k \<le> ?V" for a k
    unfolding b(4) using that b(1,2) V by (intro overlay_twice_cell) auto
  have "ld32 ?g ?off = ld32 ?f ?off" unfolding ld32_def using doff by (subst kept) auto
  then have xw: "extras_wf db' w'"
    using wf y lg same R doff cf wr by (auto simp: extras_wf_def Let_def writable_def)
  have op: "is_open db" "is_open db'" using y wr by (auto simp: writable_def)
  show "extra_name db' w' j = extra_name db w j" if "j < ?e"
    using extra_name_field [OF op(2) xw, of j] extra_name_field [OF op(1), of w j] y wf that doff
    by (simp add: same cf kept)
  note xw
  moreover have "2 * ?e + n * (2 * ?e) = Suc n * (2 * ?e)" by simp
  ultimately show "extras_writable n (db', w')"
    using y wr lg same cf fr b(6) V by (auto simp: extras_writable_def Let_def data_start_def block_pos_def)
  have old: "extra_cell db' ?g r j = extra_cell db ?f r j" if "r < ?R" "j < ?e" for r j
  proof -
    have "r * (2 * ?e) + 2 * ?e \<le> ?R * (2 * ?e)" using mult_le_mono1 [of "Suc r" ?R "2 * ?e"] that(1) by simp
    then show ?thesis unfolding extra_cell_def ld16_def using that(2) doff by (simp add: same) (subst kept, auto)
  qed
  have new: "extra_cell db' ?g ?R j = drop (nparams ?h) vals ! j" if "j < ?e" for j
  proof -
    have "extra_cell db' ?g ?R j = ld16 (overlay (overlay ?f B d) ?V ?c) (?V + 2 * j)" by (simp add: extra_cell_def same b(4))
    also have "\<dots> = ld16 ?c (2 * j)" using that lc by (intro ld16_overlay_inside) simp
    also have "\<dots> = drop (nparams ?h) vals ! j" using that len by (intro ld16_values) simp
    finally show ?thesis .
  qed
  have "map (extra_cell db' ?g ?R) [0..<?e] = drop (nparams ?h) vals"
    using new len by (intro nth_equalityI) simp_all
  moreover have "map (\<lambda>r. map (extra_cell db' ?g r) [0..<?e]) [0..<?R] = map (\<lambda>r. map (extra_cell db ?f r) [0..<?e]) [0..<?R]"
    using old by simp
  ultimately show "extra_rows (db', w') = extra_rows (db, w) @ [drop (nparams ?h) vals]"
    by (simp add: extra_rows_def R same)
qed

text \<open>The overflow region is a queue without a limit: the writer's contract holds for it as well.\<close>

interpretation extra_log: record_queue extras_writable entry_fits "\<lambda>s x. drop (nparams (header (fst s))) (snd x)"
  "\<lambda>s. None" extra_rows db_put
proof
  fix n :: nat and s :: "tsdb \<times> world" and x :: "u32 \<times> i16 list"
  show "within None (extra_rows s) = extra_rows s" by simp
  assume a: "extras_writable (Suc n) s" "entry_fits s x"
  obtain db w where s: "s = (db, w)" by fastforce
  have wr: "writable (Suc n) (db, w)" using a(1) s by (simp add: extras_writable_def Let_def)
  obtain db' w' where p: "tsdb_write_h (Some db) (fst x) (Some (snd x)) w = (ESP_OK, Some db', w')"
    "db_put (db, w) x = (db', w')" "stored db w (entry_row (db, w) x) db' w'" "writable n (db', w')"
    using db_put_stored [OF wr] a(2) s by metis
  have wl: "write_locked db (fst x) (snd x) w = (ESP_OK, db', w')"
    using p(1) wr write_h_open [of db w "fst x" "snd x"] by (auto simp: writable_def split: prod.splits)
  have len: "length (snd x) = nparams (header db) + extras db" using a(2) s by (simp add: entry_fits_def)
  note e = extras_after_write [OF a(1) [unfolded s] len wl p(3,4)]
  show "extras_writable n (db_put s x)" using e(1) p(2) s by simp
  show "entry_fits (db_put s x) = entry_fits s" by (rule db_queue.put_fits [OF wr [folded s] a(2)])
  have "num_params (header db') = num_params (header db)" using p(3) by (simp add: stored_def same_frame_def same_geom_def)
  then show "(\<lambda>y. drop (nparams (header (fst (db_put s x)))) (snd y)) = (\<lambda>y. drop (nparams (header (fst s))) (snd y))"
    using p(2) s by simp
  show "limit_le None None" by simp
  show "extra_rows (db_put s x) = within None (extra_rows s @ [drop (nparams (header (fst s))) (snd x)])"
    using e(2) p(2) s by simp
qed

section \<open>Adding extra parameters to an allocated ring\<close>

definition ring_allocated :: "tsdb \<Rightarrow> world \<Rightarrow> bool" where
  "ring_allocated db w \<longleftrightarrow>
     max_records (header db) \<noteq> 0 \<and>
     block_pos (header db) ((cap (header db) - 1) div rpb (header db)) + TSDB_BLOCK_SIZE \<le> length (content w (filepath db))"

definition with_extras :: "tsdb \<Rightarrow> u32 \<Rightarrow> u8 \<Rightarrow> tsdb" where
  "with_extras db off c =
     db\<lparr>header := overflow_fields (header db) c off (total_records (header db)), db_extra_param_count := c,
        db_overflow_record_size := ucast c * 2, db_first_overflow_record_idx := total_records (header db),
        overflow_data_offset := off + 1024\<rparr>"

lemma with_extras_fields [simp]:
  "header (with_extras db off c) = overflow_fields (header db) c off (total_records (header db))"
  "db_extra_param_count (with_extras db off c) = c" "db_overflow_record_size (with_extras db off c) = ucast c * 2"
  "db_first_overflow_record_idx (with_extras db off c) = total_records (header db)"
  "overflow_data_offset (with_extras db off c) = off + 1024" "filepath (with_extras db off c) = filepath db"
  "db_file (with_extras db off c) = db_file db" "is_open (with_extras db off c) = is_open db"
  "migrating (with_extras db off c) = migrating db" "closing (with_extras db off c) = closing db"
  "has_free_space_cb (with_extras db off c) = has_free_space_cb db" "extra_records (with_extras db off c) = 0"
  by (simp_all add: with_extras_def extra_records_def overflow_fields_def)

lemma overflow_fields_geom:
  "same_geom h (overflow_fields h c off first)" "total_records (overflow_fields h c off first) = total_records h"
  "max_records (overflow_fields h c off first) = max_records h"
  "oldest_record_idx (overflow_fields h c off first) = oldest_record_idx h"
  "overflow_offset (overflow_fields h c off first) = off" "extra_param_count (overflow_fields h c off first) = c"
  "num_params (overflow_fields h c off first) = num_params h" "header_wf (overflow_fields h c off first) = header_wf h"
  "records_per_block (overflow_fields h c off first) = records_per_block h"
  by (simp_all add: overflow_fields_def same_geom_def header_wf_def)

text \<open>Adding succeeds in a world without failures: the overflow header is appended, the file header rewritten.\<close>

lemma add_extra_run:
  assumes "quiet w" "is_open db" "db_file db = Some (filepath db)" "header_wf (header db)" "db_extra_param_count db = 0"
    and "names_ok names k" "nparams (header db) + k \<le> 64"
    and "length (content w (filepath db)) + 1024 < 2 ^ 32" "TSDB_HDR_SIZE \<le> length (content w (filepath db))"
    and db': "db' = with_extras db (of_nat (length (content w (filepath db)))) (of_nat k)"
    and img: "img = encode_overflow (overflow_header_for names k (total_records (header db)))"
  obtains w' where "tsdb_add_extra_params_h (Some db) (Some names) (of_nat k) w = (ESP_OK, Some db', w')" "quiet w'"
    "keeps (\<lambda>i. TSDB_HDR_SIZE \<le> i) (content w (filepath db) @ img) (content w' (filepath db))"
    "length (content w' (filepath db)) = length (content w (filepath db)) + 1024"
    "chunk (content w' (filepath db)) (length (content w (filepath db))) 1024 = img"
proof -
  let ?h = "header db" and ?p = "filepath db" and ?f = "content w (filepath db)" and ?k = "of_nat k :: u8"
  have uk: "unat ?k = k" using assms(6) by (simp add: names_ok_def unat_of_nat)
  have k: "?k \<noteq> 0" "\<not> ?k > 48" using uk assms(6) by (auto simp: names_ok_def word_less_nat_alt)
  have uo: "unat (of_nat (length ?f) :: u32) = length ?f" using assms(8) by (simp add: unat_of_nat)
  have li: "length img = 1024" by (simp add: img)
  define w1 where "w1 = put_file w ?p (overlay ?f (length ?f) img)"
  have c1: "content w1 ?p = ?f @ img" using li by (auto simp: w1_def overlay_def)
  define w' where "w' = put_file w1 ?p (overlay (content w1 ?p) 0 (encode_header (header db')))"
  have c': "content w' ?p = overlay (?f @ img) 0 (encode_header (header db'))" by (simp add: w'_def c1)
  have hw: "header_wf (header db')" using assms(4) by (simp add: db' overflow_fields_geom)
  have "TSDB_HDR_SIZE \<le> length (?f @ img)" using assms(9) by simp
  note oh = overlay_header [OF hw this, folded c']
  have q1: "quiet w1" using assms(1) by (simp add: w1_def quiet_put_file)
  have "fwrite_at w ?p (unat (file_end w ?p)) img = (None, w1)"
    using uo by (simp add: quiet_fwrite_at [OF assms(1)] file_end_def w1_def)
  then have "add_extra_locked db ?p names ?k w = (ESP_OK, db', w')"
    by (simp add: add_extra_locked_def Let_def uk quiet_write_header [OF q1] flip: img)
      (simp add: db' with_extras_def w'_def file_end_def overflow_fields_def)
  then have run: "tsdb_add_extra_params_h (Some db) (Some names) ?k w = (ESP_OK, Some db', w')"
    using assms(2,3,5,7) k uk by (simp add: tsdb_add_extra_params_h_def quiet_lock_open [OF assms(1)])
  have "chunk (content w' ?p) (length ?f) 1024 = chunk (?f @ img) (length ?f) 1024"
    using assms(9) li by (intro keeps_chunk [OF oh(2)]) auto
  then have "chunk (content w' ?p) (length ?f) 1024 = img" using li by (simp add: chunk_append_right)
  moreover have "length (content w' ?p) = length ?f + 1024" using oh(1) li by simp
  moreover have "quiet w'" using q1 by (simp add: w'_def quiet_put_file)
  ultimately show ?thesis using that [OF run _ oh(2)] by blast
qed

lemma add_extra_ready:
  assumes wr: "writable N (db, w)" "n \<le> N" "\<not> has_free_space_cb db" "db_extra_param_count db = 0"
    and nm: "names_ok names k" "nparams (header db) + k \<le> 64"
    and ra: "ring_allocated db w" "length (content w (filepath db)) + 1024 + n * (2 * k) < 2 ^ 32"
    and db': "db' = with_extras db (of_nat (length (content w (filepath db)))) (of_nat k)"
  obtains w' where "tsdb_add_extra_params_h (Some db) (Some names) (of_nat k) w = (ESP_OK, Some db', w')"
    "extras_writable n (db', w')" "extras db' = k" "extra_rows (db', w') = []" "db_rows (db', w') = db_rows (db, w)"
    "\<And>j. j < k \<Longrightarrow> extra_name db' w' j = Some (take 19 (names ! j))"
proof -
  let ?h = "header db" and ?p = "filepath db" and ?f = "content w (filepath db)" and ?off = "of_nat (length (content w (filepath db))) :: u32"
  let ?img = "encode_overflow (overflow_header_for names k (total_records ?h))"
  have v: "quiet w" "db_inv db w" "room_for N db" "is_open db" "\<not> migrating db" "\<not> closing db" using wr(1) by (auto simp: writable_def)
  have inv: "db_file db = Some ?p" "ring_inv ?h ?f" "header_wf ?h" "TSDB_HDR_SIZE \<le> data_start ?h"
    using v(2) by (simp_all add: db_inv_def ring_inv_def ring_hdr_def)
  have size: "TSDB_HDR_SIZE \<le> length ?f" "length ?f + 1024 < 2 ^ 32"
    using ra inv(4) data_start_le_block_pos [of ?h] by (fastforce simp: ring_allocated_def intro: le_trans)+
  obtain w' where a: "tsdb_add_extra_params_h (Some db) (Some names) (of_nat k) w = (ESP_OK, Some db', w')" "quiet w'"
    "keeps (\<lambda>i. TSDB_HDR_SIZE \<le> i) (?f @ ?img) (content w' ?p)" "length (content w' ?p) = length ?f + 1024"
    "chunk (content w' ?p) (length ?f) 1024 = ?img"
    by (rule add_extra_run [OF v(1,4) inv(1,3) wr(4) nm size(2,1) db' refl])
  have uk: "unat (of_nat k :: u8) = k" using nm(1) by (simp add: names_ok_def unat_of_nat)
  have rsz: "unat (ucast (of_nat k :: u8) * 2 :: u16) = 2 * k" using uk nm(1) by (simp add: unat_word_ariths unat_u8_u16 names_ok_def)
  have uo: "unat ?off = length ?f" using size(2) by (simp add: unat_of_nat)
  have doff: "unat (?off + 1024) = length ?f + 1024" using uo size(2) by (subst unat_add_no_wrap) auto
  note of = overflow_fields_geom [of ?h "of_nat k" ?off "total_records ?h"]
  have "keeps (\<lambda>i. True) ?f (?f @ ?img)" by (simp add: keeps_def nth_append)
  from keeps_trans [OF this a(3)] have "keeps (\<lambda>i. data_start ?h \<le> i) ?f (content w' ?p)"
    by (rule keeps_mono) (use inv(4) in simp)
  note kr = keeps_ring [OF this inv(2)]
  note rs = ring_same [OF of(1-4), where f = "content w' ?p"] and gs = same_geom_simps [OF of(1)]
  have mg: "ld32 (content w' ?p) (length ?f) = TSDB_OVERFLOW_MAGIC"
    using encode_overflow_fields(1) [of names k "total_records ?h"] a(5) ld32_chunk [of 0 1024 "content w' ?p" "length ?f"] by simp
  have xw: "extras_wf db' w'"
    using nm uk inv(1) uo size a(2,4) mg of by (simp add: extras_wf_def Let_def db' names_ok_def)
  have "ovf_clear db'" using ra(1) doff gs(2,5) of(3) by (auto simp: ovf_clear_def Let_def ring_allocated_def db')
  then have "db_inv db' w'" using inv(1) kr(1) rs(1) a(2) by (simp add: db_inv_def db')
  moreover have "room_for n db'"
    using v(3) wr(2) ra doff gs(2,5) of rsz by (auto simp: room_for_def Let_def db' ring_allocated_def)
  ultimately have "writable n (db', w')" using v(4-6) a(2) by (simp add: writable_def db')
  then have ew: "extras_writable n (db', w')"
    using wr(3) xw ra uo uk gs(2,5) of a(4) by (simp add: extras_writable_def Let_def db' ring_allocated_def)
  have nmj: "extra_name db' w' j = Some (take 19 (names ! j))" if "j < k" for j
    using uo a(5) uk v(4) that of(5) by (intro names_in_image [OF nm(1) _ xw]) (simp_all add: db')
  show ?thesis
    using uk kr(2) rs(2) by (intro that [OF a(1) ew _ _ _ nmj]) (simp_all add: db' extra_rows_def db_rows_def)
qed

section \<open>Properties of the overflow region\<close>

lemma puts_same_frame:
  "writable (length xs + n) (db, w) \<Longrightarrow> list_all (entry_fits (db, w)) xs \<Longrightarrow> foldl db_put (db, w) xs = (db', w') \<Longrightarrow> same_frame db db'"
proof (induction xs arbitrary: db w)
  case (Cons x xs)
  then have a: "writable (Suc (length xs + n)) (db, w)" "entry_fits (db, w) x" by simp_all
  obtain db1 w1 where p: "db_put (db, w) x = (db1, w1)" "stored db w (entry_row (db, w) x) db1 w1" "writable (length xs + n) (db1, w1)"
    using db_put_stored [OF a] by metis
  have "list_all (entry_fits (db1, w1)) xs" using db_queue.put_fits [OF a] p(1) Cons.prems(2) by simp
  from Cons.IH [OF p(3) this] p(1,2) Cons.prems(3) show ?case
    using same_frame_trans by (fastforce simp: stored_def)
qed simp

text \<open>A query reads the cell of the record and the column.\<close>

lemma overflow_value_cell:
  assumes "extras_wf db w" "q_file q = db_file db" "num_params (q_header q) = num_params (header db)"
    and "i < unat (extra_records db)" "j < extras db" "unat (db_first_overflow_record_idx db) \<le> nrec (header db)"
  shows "overflow_value db q (of_nat (unat (db_first_overflow_record_idx db) + i)) w (num_params (header db) + of_nat j) =
    extra_cell db (content w (filepath db)) i j"
proof -
  let ?first = "db_first_overflow_record_idx db" and ?e = "extras db" and ?p = "filepath db"
  note x = assms(1) [unfolded extras_wf_def Let_def]
  have j: "unat (of_nat j :: u8) = j" "j < 48" using x assms(5) by (auto simp: unat_of_nat)
  have np: "unat (num_params (header db) + of_nat j) = nparams (header db) + j"
    using x j by (simp add: unat_word_ariths)
  have "i < 2 ^ 32" using assms(4) unat_u32_bound [of "extra_records db"] by simp
  then have i: "unat (of_nat i :: u32) = i" by (simp add: unat_of_nat)
  have ab: "of_nat (unat ?first + i) = ?first + of_nat i" by simp
  have "unat (?first + of_nat i) = unat ?first + i"
    using assms(4,6) i unat_u32_bound [of "total_records (header db)"]
    by (subst unat_add_no_wrap) (auto simp: unat_extra_records)
  then have ge: "?first + of_nat i \<ge> ?first" by (simp add: word_le_nat_alt)
  have doff: "unat (overflow_data_offset db) = unat (overflow_offset (header db)) + 1024" using x by (simp, subst unat_add_no_wrap) auto
  have rs: "unat (db_overflow_record_size db) = 2 * ?e" using x by (simp add: unat_word_ariths unat_u8_u16)
  have row: "i * (2 * ?e) + 2 * ?e \<le> unat (extra_records db) * (2 * ?e)"
    using mult_le_mono1 [of "Suc i" "unat (extra_records db)" "2 * ?e"] assms(4) by simp
  let ?pos = "unat (overflow_data_offset db) + i * (2 * ?e) + 2 * j"
  have fit: "?pos + 2 \<le> length (content w ?p)" using x doff row assms(5) by linarith
  have "unat (overflow_data_offset db + of_nat i * ucast (db_overflow_record_size db)) = unat (overflow_data_offset db) + i * (2 * ?e)"
    using fit x \<open>i < 2 ^ 32\<close> rs by (subst unat_cell) (simp_all add: unat_u16_u32)
  moreover have "unat (ucast (of_nat j :: u8) * 2 :: u32) = 2 * j"
    using j by (subst unat_mult_no_wrap) (simp_all add: unat_u8_u32)
  ultimately have pos: "unat (overflow_data_offset db + of_nat i * ucast (db_overflow_record_size db) + ucast (of_nat j :: u8) * 2) = ?pos"
    using fit x by (subst unat_add_no_wrap) auto
  have "db_extra_param_count db > 0" using x by (simp add: word_less_nat_alt)
  then show ?thesis
    using x assms(2,3,5) np ge pos fit unfolding ab
    by (simp add: overflow_value_def Let_def fread_at_sound extra_cell_def ld16_def)
qed

text \<open>
  C20: Extra parameters make a round trip: adding \<open>k\<close> of them to an open database whose ring is
  allocated succeeds, they are found under their names, and of every record written
  afterwards a query returns the extra values that were written, while the base values
  follow the queue as before.
\<close>

theorem extra_values_roundtrip:
  assumes "writable N (db, w)" "length xs \<le> N" "\<not> has_free_space_cb db" "db_extra_param_count db = 0"
    and "names_ok names k" "nparams (header db) + k \<le> 64" "ring_allocated db w"
    and "length (content w (filepath db)) + 1024 + length xs * (2 * k) < 2 ^ 32"
    and "list_all (\<lambda>x. length (snd x) = nparams (header db) + k) xs"
  shows "\<exists>db1 w1 db2 w2. tsdb_add_extra_params_h (Some db) (Some names) (of_nat k) w = (ESP_OK, Some db1, w1) \<and>
    (\<forall>j < k. extra_name db1 w1 j = Some (take 19 (names ! j))) \<and> foldl db_put (db1, w1) xs = (db2, w2) \<and>
    db_rows (db2, w2) = within (limit_of (header db2)) (db_rows (db, w) @ map (\<lambda>x. (fst x, take (nparams (header db)) (snd x))) xs) \<and>
    (\<forall>q i j. q_file q = db_file db2 \<longrightarrow> num_params (q_header q) = num_params (header db2) \<longrightarrow> i < length xs \<longrightarrow> j < k \<longrightarrow>
      overflow_value db2 q (of_nat (nrec (header db) + i)) w2 (num_params (header db) + of_nat j) = snd (xs ! i) ! (nparams (header db) + j))"
proof -
  define db1 where "db1 = with_extras db (of_nat (length (content w (filepath db)))) (of_nat k)"
  obtain w1 where a: "tsdb_add_extra_params_h (Some db) (Some names) (of_nat k) w = (ESP_OK, Some db1, w1)"
    "extras_writable (length xs) (db1, w1)" "extras db1 = k" "extra_rows (db1, w1) = []" "db_rows (db1, w1) = db_rows (db, w)"
    "\<And>j. j < k \<Longrightarrow> extra_name db1 w1 j = Some (take 19 (names ! j))"
    using add_extra_ready [OF assms(1-8) db1_def] by blast
  obtain db2 w2 where s: "foldl db_put (db1, w1) xs = (db2, w2)" by fastforce
  have np: "num_params (header db1) = num_params (header db)" "unat (db_first_overflow_record_idx db1) = nrec (header db)"
    "nrec (header db1) = nrec (header db)"
    by (simp_all add: db1_def overflow_fields_geom)
  have fits: "list_all (entry_fits (db1, w1)) xs" using assms(9) a(3) np by (simp add: list_all_iff entry_fits_def)
  have ew: "extras_writable (length xs + 0) (db1, w1)" using a(2) by simp
  have rows: "extra_rows (db2, w2) = map (\<lambda>x. drop (nparams (header db)) (snd x)) xs"
    using extra_log.puts_rows [OF ew fits] s a(4) np by simp
  have ew2: "extras_writable 0 (db2, w2)" using extra_log.puts_inv [OF ew fits] s by simp
  have wr: "writable (length xs + 0) (db1, w1)" using a(2) by (simp add: extras_writable_def Let_def)
  have base: "db_rows (db2, w2) = within (limit_of (header db2)) (db_rows (db, w) @ map (\<lambda>x. (fst x, take (nparams (header db)) (snd x))) xs)"
    using db_queue.puts_rows [OF wr fits] s a(5) np by (simp add: entry_row_def [abs_def])
  have fr: "same_frame db1 db2" using puts_same_frame [OF wr fits s] .
  have np2: "num_params (header db2) = num_params (header db)" "extras db2 = k" "unat (db_first_overflow_record_idx db2) = nrec (header db)"
    using fr np a(3) by (simp_all add: same_frame_def same_geom_def)
  have n2: "unat (extra_records db2) = length xs" using arg_cong [OF rows, of length] by (simp add: extra_rows_def)
  have "overflow_value db2 q (of_nat (nrec (header db) + i)) w2 (num_params (header db) + of_nat j) = snd (xs ! i) ! (nparams (header db) + j)"
    if q: "q_file q = db_file db2" "num_params (q_header q) = num_params (header db2)" and ij: "i < length xs" "j < k" for q i j
  proof -
    have "overflow_value db2 q (of_nat (nrec (header db) + i)) w2 (num_params (header db) + of_nat j) =
        extra_cell db2 (content w2 (filepath db2)) i j"
      using overflow_value_cell [OF _ q, of w2 i j] ew2 np2 n2 ij by (simp add: extras_writable_def Let_def)
    also have "\<dots> = extra_rows (db2, w2) ! i ! j" using ij n2 np2(2) by (simp add: extra_rows_def)
    also have "\<dots> = snd (xs ! i) ! (nparams (header db) + j)"
      using ij assms(9) by (simp add: rows list_all_length)
    finally show ?thesis .
  qed
  with a(1,6) s base show ?thesis by blast
qed

text \<open>The small database with an allocated ring, two extra parameters \<open>a\<close> and \<open>b\<close>, and one record.\<close>

definition demo_allocated :: world where
  "demo_allocated = demo_disk (replicate 1032 0 @ demo_block)"

lemma demo_allocated: "writable 999 (demo_db 3, demo_allocated)" "ring_allocated (demo_db 3) demo_allocated"
  "length (content demo_allocated (filepath (demo_db 3))) = 2056" "nparams (header (demo_db 3)) = 1"
  "\<not> has_free_space_cb (demo_db 3)" "db_extra_param_count (demo_db 3) = 0" "nrec (header (demo_db 3)) = 0"
  "num_params (header (demo_db 3)) = 1"
proof -
  have h: "index_offset (demo_header 3) = 1024" "index_entries (demo_header 3) = 1" "index_stride (demo_header 3) = 4"
    "records_per_block (demo_header 3) = 4" "total_records (demo_header 3) = 0" "max_records (demo_header 3) = 3"
    "oldest_record_idx (demo_header 3) = 0" "num_params (demo_header 3) = 1" "header_wf (demo_header 3)"
    by (simp_all add: demo_header_def zero_header_def header_wf_def)
  have d: "header (demo_db 3) = demo_header 3" "filepath (demo_db 3) = ''/a.db''" "db_file (demo_db 3) = Some ''/a.db''"
    "is_open (demo_db 3)" "\<not> migrating (demo_db 3)" "\<not> closing (demo_db 3)" "\<not> has_free_space_cb (demo_db 3)"
    "db_extra_param_count (demo_db 3) = 0"
    by (simp_all add: demo_db_def)
  show l: "length (content demo_allocated (filepath (demo_db 3))) = 2056"
    by (simp add: demo_allocated_def d demo_disk_content demo_block_fields)
  have "quiet demo_allocated" by (simp add: demo_allocated_def demo_disk_def demo_world_def quiet_def)
  moreover have "db_inv (demo_db 3) demo_allocated"
    by (simp add: demo_allocated_def db_inv_def d ring_inv_def ring_hdr_def h geom_def data_start_def avail_def ovf_clear_def)
  ultimately show "writable 999 (demo_db 3, demo_allocated)"
    by (simp add: writable_def d room_for_def h block_pos_def data_start_def)
  show "ring_allocated (demo_db 3) demo_allocated"
    using l by (simp add: ring_allocated_def d h block_pos_def data_start_def)
  show "nparams (header (demo_db 3)) = 1" "\<not> has_free_space_cb (demo_db 3)" "db_extra_param_count (demo_db 3) = 0"
    "nrec (header (demo_db 3)) = 0" "num_params (header (demo_db 3)) = 1"
    by (simp_all add: d h)
qed

theorem extra_values_roundtrip_witness:
  "\<exists>db1 w1 db2 w2. tsdb_add_extra_params_h (Some (demo_db 3)) (Some [[0x61], [0x62]]) 2 demo_allocated = (ESP_OK, Some db1, w1) \<and>
     extra_name db1 w1 0 = Some [0x61] \<and> foldl db_put (db1, w1) [(10, [1, 2, 3]), (20, [4, 5, 6])] = (db2, w2) \<and>
     (\<forall>q. q_file q = db_file db2 \<longrightarrow> num_params (q_header q) = num_params (header db2) \<longrightarrow> overflow_value db2 q 1 w2 2 = 6)"
proof -
  let ?xs = "[(10, [1, 2, 3]), (20, [4, 5, 6])] :: (u32 \<times> i16 list) list" and ?n = "[[0x61], [0x62]] :: cstr list"
  have l: "list_all (\<lambda>x. length (snd x) = nparams (header (demo_db 3)) + 2) ?xs" "names_ok ?n 2"
    by (simp_all add: demo_allocated names_ok_def)
  obtain db1 w1 db2 w2 where r: "tsdb_add_extra_params_h (Some (demo_db 3)) (Some ?n) (of_nat 2) demo_allocated = (ESP_OK, Some db1, w1)"
    "\<forall>j < 2. extra_name db1 w1 j = Some (take 19 (?n ! j))" "foldl db_put (db1, w1) ?xs = (db2, w2)"
    "\<forall>q i j. q_file q = db_file db2 \<longrightarrow> num_params (q_header q) = num_params (header db2) \<longrightarrow> i < length ?xs \<longrightarrow> j < 2 \<longrightarrow>
      overflow_value db2 q (of_nat (nrec (header (demo_db 3)) + i)) w2 (num_params (header (demo_db 3)) + of_nat j) = snd (?xs ! i) ! (nparams (header (demo_db 3)) + j)"
    using extra_values_roundtrip [OF demo_allocated(1) _ demo_allocated(5,6) l(2) _ demo_allocated(2) _ l(1)] demo_allocated(3,4) by auto
  have "overflow_value db2 q 1 w2 2 = 6" if "q_file q = db_file db2" "num_params (q_header q) = num_params (header db2)" for q
    using r(4) [rule_format, of q 1 1] that by (simp add: demo_allocated)
  moreover have "extra_name db1 w1 0 = Some [0x61]" using r(2) by simp
  ultimately show ?thesis using r(1,3) by auto
qed

lemma demo_extras:
  obtains db w where "quiet w" "is_open db" "db_inv db w" "extras_wf db w" "extras db = 2" "unat (extra_records db) = 1"
    "extra_name db w 0 = Some [0x61]" "extra_name db w 1 = Some [0x62]" "extra_rows (db, w) = [[2, 3]]"
    "length (content w (filepath db)) + 3992 < 2 ^ 32"
proof -
  let ?n = "[[0x61], [0x62]] :: cstr list"
  define db1 where "db1 = with_extras (demo_db 3) (of_nat (length (content demo_allocated (filepath (demo_db 3))))) (of_nat 2)"
  have ok: "names_ok ?n 2" by (simp add: names_ok_def)
  obtain w1 where a: "extras_writable 999 (db1, w1)" "extras db1 = 2" "extra_rows (db1, w1) = []"
    "\<And>j. j < 2 \<Longrightarrow> extra_name db1 w1 j = Some (take 19 (?n ! j))"
    using add_extra_ready [OF demo_allocated(1) order_refl demo_allocated(5,6) ok _ demo_allocated(2) _ db1_def]
    by (auto simp: demo_allocated)
  have np: "nparams (header db1) = 1" by (simp add: db1_def overflow_fields_geom demo_allocated)
  have e: "extras_writable (Suc 998) (db1, w1)" using a(1) by simp
  have wr: "writable (Suc 998) (db1, w1)" using e by (simp add: extras_writable_def Let_def)
  have fits: "entry_fits (db1, w1) (10, [1, 2, 3])" using a(2) np by (simp add: entry_fits_def)
  obtain db2 w2 where p: "tsdb_write_h (Some db1) 10 (Some [1, 2, 3]) w1 = (ESP_OK, Some db2, w2)"
    "stored db1 w1 (entry_row (db1, w1) (10, [1, 2, 3])) db2 w2" "writable 998 (db2, w2)"
    using db_put_stored [OF wr fits] by (metis fst_conv snd_conv)
  have wl: "write_locked db1 10 [1, 2, 3] w1 = (ESP_OK, db2, w2)"
    using p(1) wr write_h_open [of db1 w1 10 "[1, 2, 3]"] by (auto simp: writable_def split: prod.splits)
  have len: "length ([1, 2, 3] :: i16 list) = nparams (header db1) + extras db1" using np a(2) by simp
  note w = extras_after_write [OF e len wl p(2,3)]
  have x: "extras db2 = 2" using p(2) a(2) by (simp add: stored_def same_frame_def)
  have rows: "extra_rows (db2, w2) = [[2, 3]]" using w(2) a(3) np by simp
  have "length (extra_rows (db2, w2)) = unat (extra_records db2)" by (simp add: extra_rows_def)
  then have "unat (extra_records db2) = 1" by (simp add: rows)
  moreover have "extra_name db2 w2 0 = Some [0x61]" "extra_name db2 w2 1 = Some [0x62]"
    using w(3) [of 0] w(3) [of 1] a(2,4) by simp_all
  ultimately show ?thesis
    using w(1) p(3) x rows by (intro that [of w2 db2]) (auto simp: extras_writable_def writable_def Let_def)
qed

theorem migrate_overflow_by_name_witness:
  "\<exists>db w db' w'. extra_rows (db, w) = [[2, 3]] \<and> extra_name db w 1 = Some [0x62] \<and>
     tsdb_migrate_overflow_h (Some db) (Some [[0x62], [0x63]]) 2 w = (ESP_OK, Some db', w') \<and>
     extra_name db' w' 1 = Some [0x63] \<and>
     extra_cell db' (content w' (filepath db)) 0 0 = 3 \<and> extra_cell db' (content w' (filepath db)) 0 1 = 0"
proof -
  let ?n = "[[0x62], [0x63]] :: cstr list"
  obtain db w where d: "quiet w" "is_open db" "db_inv db w" "extras_wf db w" "extras db = 2" "unat (extra_records db) = 1"
    "extra_name db w 0 = Some [0x61]" "extra_name db w 1 = Some [0x62]" "extra_rows (db, w) = [[2, 3]]"
    "length (content w (filepath db)) + 3992 < 2 ^ 32"
    by (rule demo_extras)
  have two: "{..<2 :: nat} = {0, 1}" by auto
  have inj: "inj_on (extra_name db w) {..<extras db}" using d(5,7,8) by (simp add: two inj_on_def)
  have "[0..<2] = [0, 1 :: nat]" by (simp add: upt_rec)
  then have col: "column_of db w [0x62] = Some 1" "column_of db w [0x63] = None"
    using d(5,7,8) by (simp_all add: column_of_def)
  have cell: "extra_cell db (content w (filepath db)) 0 1 = 3"
    using d(5,6,9) \<open>[0..<2] = [0, 1]\<close> by (simp add: extra_rows_def)
  obtain db' w' where r: "tsdb_migrate_overflow_h (Some db) (Some ?n) (of_nat 2) w = (ESP_OK, Some db', w')"
    "\<forall>i < 2. extra_name db' w' i = Some (take 19 (?n ! i))"
    "\<forall>r < unat (extra_records db). \<forall>i < 2. extra_cell db' (content w' (filepath db)) r i =
      (case column_of db w (?n ! i) of None \<Rightarrow> 0 | Some j \<Rightarrow> extra_cell db (content w (filepath db)) r j)"
    using migrate_overflow_by_name [OF d(1-4) _ _ _ _ _ inj, of 2 ?n] d(6,10) by auto
  have "extra_cell db' (content w' (filepath db)) 0 0 = 3" "extra_cell db' (content w' (filepath db)) 0 1 = 0"
    using r(3) [rule_format, of 0 0] r(3) [rule_format, of 0 1] d(6) col cell by simp_all
  moreover have "extra_name db' w' 1 = Some [0x63]" using r(2) by simp
  ultimately show ?thesis using r(1) d(8,9) by auto
qed

section \<open>A region that the ring overwrites\<close>

text \<open>A write whose block starts where the overflow header is.\<close>

lemma block_over_region:
  assumes q: "quiet w" and op: "is_open db" "\<not> migrating db" "\<not> closing db" "\<not> has_free_space_cb db" "db_file db = Some (filepath db)"
    and g: "geom (rpb (header db)) (nparams (header db))" "nparams (header db) \<le> length vals"
    and off: "block_pos (header db) (slot_of (header db) (nrec (header db)) div rpb (header db)) = off"
      "unat (overflow_offset (header db)) = off" "unat (overflow_data_offset db) = off + 1024" "off + 1024 < 2 ^ 32"
      "length (content w (filepath db)) = off + 1024" "db_first_overflow_record_idx db = total_records (header db)"
  obtains db2 w2 where "tsdb_write_h (Some db) ts (Some vals) w = (ESP_OK, Some db2, w2)" "quiet w2" "same_frame (evicted db pl) db2"
    "unat (overflow_offset (header db2)) = off" "off + 1024 \<le> length (content w2 (filepath db))"
    "ld32 (content w2 (filepath db)) off = BLKT_MAGIC"
proof -
  let ?k = "header db" and ?p = "filepath db"
  let ?bn = "next_record_idx ?k div ucast (records_per_block ?k)"
  obtain pl' d where run: "write_locked db ts vals w =
      finish_write (evicted db pl') (next_record_idx ?k) (next_is_eviction ?k) ts vals
        (put_file w ?p (overlay (content w ?p) (unat (tsdb_calc_block_offset ?k ?bn)) d))"
    and d: "length d = 1024" "TSDB_BLOCK_MAGIC d = BLKT_MAGIC"
    using quiet_write_run [OF q op(4,5), of ts vals] g by metis
  have bn: "unat ?bn = slot_of ?k (nrec ?k) div rpb ?k" by (simp add: unat_div next_record_idx unat_u16_u32)
  have pos: "unat (tsdb_calc_block_offset ?k ?bn) = off"
    using off(1,4) bn by (subst calc_block_offset_exact) simp_all
  let ?w = "put_file w ?p (overlay (content w ?p) off d)"
  obtain r db2 w2 where fin: "finish_write (evicted db pl') (next_record_idx ?k) (next_is_eviction ?k) ts vals ?w = (r, db2, w2)"
    by (metis prod_cases3)
  have wr: "tsdb_write_h (Some db) ts (Some vals) w = (ESP_OK, Some db2, w2)"
    using write_h_open [of db w ts vals] run pos fin finish_write(1) [OF fin] q op by simp
  have q2: "quiet w2" using quiet_finish_write [OF _ fin] q by (simp add: quiet_put_file)
  have fr: "same_frame (evicted db pl) db2" using finish_write(2) [OF fin] by (simp add: same_frame_def evicted_def)
  have o2: "unat (overflow_offset (header db2)) = off"
    using config_part_fields(13,15) [OF finish_write_config(1) [OF fin, symmetric]] off(2) by (simp add: evicted_def evict_header_def)
  have ro: "ovf_room (evicted db pl')" using off by (simp add: ovf_room_def evicted_def evict_header_def)
  have fe: "db_file (evicted db pl') = Some ?p" using op(5) by (simp add: evicted_def)
  have c2: "content w2 ?p = content (write_overflow (evicted db pl') vals ?w) ?p"
    using finish_write(6) [OF fin] by (simp add: evicted_def)
  have kp: "keeps (\<lambda>i. i < off + 1024) (content ?w ?p) (content w2 ?p)"
    unfolding c2 by (rule keeps_mono [OF write_overflow_keeps [OF fe ro]]) (use off in \<open>simp add: evicted_def\<close>)
  have lw: "length (content ?w ?p) = off + 1024" using off(5) d(1) by (auto simp: length_overlay)
  then have len: "off + 1024 \<le> length (content w2 ?p)" using keeps_length [OF kp] by simp
  have c: "chunk (content w2 ?p) off 1024 = d"
    using keeps_chunk [OF kp, of off 1024] lw d(1) by (simp add: chunk_overlay_same)
  have "ld32 (content w2 ?p) off = ld32 (chunk (content w2 ?p) off 1024) 0" by (simp add: ld32_chunk)
  also have "\<dots> = BLKT_MAGIC" using d(2) by (simp add: c TSDB_BLOCK_MAGIC_def)
  finally show ?thesis by (rule that [OF wr q2 fr o2 len])
qed

text \<open>
  C36: Extra parameters added while the ring still grows are destroyed by the next write that
  starts a block: the block lands on the overflow header, so that the extra parameters can
  no longer be replaced (the header's magic is gone), although every call reported success.
\<close>

theorem growing_ring_overwrites_overflow:
  assumes "quiet w" "is_open db" "\<not> migrating db" "\<not> closing db" "db_inv db w" "\<not> has_free_space_cb db" "db_extra_param_count db = 0"
    and "names_ok names k" "nparams (header db) + k \<le> 64" "length vals = nparams (header db) + k"
    and "max_records (header db) = 0 \<or> nrec (header db) < cap (header db)" "nrec (header db) mod rpb (header db) = 0"
    and "block_pos (header db) (nrec (header db) div rpb (header db)) = length (content w (filepath db))"
    and "length (content w (filepath db)) + 1024 < 2 ^ 32"
  shows "\<exists>db1 w1 db2 w2. tsdb_add_extra_params_h (Some db) (Some names) (of_nat k) w = (ESP_OK, Some db1, w1) \<and>
    tsdb_write_h (Some db1) ts (Some vals) w1 = (ESP_OK, Some db2, w2) \<and>
    (\<forall>names' m. 0 < m \<longrightarrow> m \<le> 48 \<longrightarrow> tsdb_migrate_overflow_h (Some db2) (Some names') m w2 = (ESP_FAIL, Some db2, w2))"
proof -
  let ?h = "header db" and ?p = "filepath db" and ?f = "content w (filepath db)"
  have inv: "db_file db = Some ?p" "header_wf ?h" "geom (rpb ?h) (nparams ?h)" "TSDB_HDR_SIZE \<le> data_start ?h"
    using assms(5) by (simp_all add: db_inv_def ring_inv_def ring_hdr_def)
  have size: "TSDB_HDR_SIZE \<le> length ?f" using inv(4) assms(13) data_start_le_block_pos [of ?h] by (metis le_trans)
  define db1 where "db1 = with_extras db (of_nat (length ?f)) (of_nat k)"
  obtain w1 where a: "tsdb_add_extra_params_h (Some db) (Some names) (of_nat k) w = (ESP_OK, Some db1, w1)" "quiet w1"
    "length (content w1 ?p) = length ?f + 1024"
    by (rule add_extra_run [OF assms(1,2) inv(1,2) assms(7,8,9,14) size db1_def refl])
  let ?k = "header db1"
  note of = overflow_fields_geom [of ?h "of_nat k" "of_nat (length ?f)" "total_records ?h"]
  note gs = same_geom_simps [OF of(1)]
  have un: "unat (of_nat (length ?f) :: u32) = length ?f" using assms(14) by (simp add: unat_of_nat)
  then have doff: "unat (overflow_data_offset db1) = length ?f + 1024"
    using assms(14) by (simp add: db1_def, subst unat_add_no_wrap) auto
  have "slot_of ?k (nrec ?k) = nrec ?h" using assms(11) of by (auto simp: slot_of_def db1_def)
  then have pos: "block_pos ?k (slot_of ?k (nrec ?k) div rpb ?k) = length ?f" using assms(13) gs by (simp add: db1_def of)
  obtain db2 w2 where b: "tsdb_write_h (Some db1) ts (Some vals) w1 = (ESP_OK, Some db2, w2)" "quiet w2"
    "same_frame (evicted db1 (pool db1)) db2" "unat (overflow_offset (header db2)) = length ?f"
    "length ?f + 1024 \<le> length (content w2 (filepath db1))" "ld32 (content w2 (filepath db1)) (length ?f) = BLKT_MAGIC"
    by (rule block_over_region [where db = db1 and vals = vals and ts = ts and pl = "pool db1", OF a(2) _ _ _ _ _ _ _ pos _ doff assms(14)])
      (use assms(2-4,6,10) inv gs a(3) un in \<open>simp_all add: db1_def of\<close>)
  have x2: "db_extra_param_count db2 \<noteq> 0" "is_open db2" "db_file db2 = Some ?p"
    using b(3) assms(2,8) inv(1)
    by (auto simp: same_frame_def evicted_def db1_def names_ok_def word_unat_eq_iff unat_of_nat)
  have "migrate_overflow_locked db2 ?p names' m w2 = (ESP_FAIL, db2, w2)" for names' m
    using b(4-6) quiet_sound [OF b(2)] by (simp add: migrate_overflow_locked_def fread_at_sound Let_def decode_overflow_def ld32_chunk db1_def)
  then have "tsdb_migrate_overflow_h (Some db2) (Some names') m w2 = (ESP_FAIL, Some db2, w2)" if "0 < m" "m \<le> 48" for names' m
    using that x2 by (auto simp: tsdb_migrate_overflow_h_def quiet_lock_open [OF b(2)])
  with a(1) b(1) show ?thesis by blast
qed

theorem growing_ring_overwrites_overflow_witness:
  "\<exists>db1 w1 db2 w2. tsdb_add_extra_params_h (Some (demo_db 3)) (Some [[0x61]]) 1 (demo_disk (replicate 1032 0)) = (ESP_OK, Some db1, w1) \<and>
    tsdb_write_h (Some db1) 10 (Some [1, 2]) w1 = (ESP_OK, Some db2, w2) \<and>
    tsdb_migrate_overflow_h (Some db2) (Some [[0x62]]) 1 w2 = (ESP_FAIL, Some db2, w2)"
proof -
  let ?w = "demo_disk (replicate 1032 0)"
  have h: "index_offset (demo_header 3) = 1024" "index_entries (demo_header 3) = 1" "index_stride (demo_header 3) = 4"
    "records_per_block (demo_header 3) = 4" "total_records (demo_header 3) = 0" "max_records (demo_header 3) = 3"
    "oldest_record_idx (demo_header 3) = 0" "num_params (demo_header 3) = 1" "header_wf (demo_header 3)"
    by (simp_all add: demo_header_def zero_header_def header_wf_def)
  have d: "header (demo_db 3) = demo_header 3" "filepath (demo_db 3) = ''/a.db''" "db_file (demo_db 3) = Some ''/a.db''"
    "is_open (demo_db 3)" "\<not> migrating (demo_db 3)" "\<not> closing (demo_db 3)" "\<not> has_free_space_cb (demo_db 3)"
    "db_extra_param_count (demo_db 3) = 0"
    by (simp_all add: demo_db_def)
  have "quiet ?w" by (simp add: demo_disk_def demo_world_def quiet_def)
  moreover have "db_inv (demo_db 3) ?w"
    by (simp add: db_inv_def d ring_inv_def ring_hdr_def h geom_def data_start_def avail_def ovf_clear_def)
  moreover have "names_ok [[0x61]] 1" by (simp add: names_ok_def)
  ultimately obtain db1 w1 db2 w2 where r:
    "tsdb_add_extra_params_h (Some (demo_db 3)) (Some [[0x61]]) (of_nat 1) ?w = (ESP_OK, Some db1, w1)"
    "tsdb_write_h (Some db1) 10 (Some [1, 2]) w1 = (ESP_OK, Some db2, w2)"
    "\<forall>names' m. 0 < m \<longrightarrow> m \<le> 48 \<longrightarrow> tsdb_migrate_overflow_h (Some db2) (Some names') m w2 = (ESP_FAIL, Some db2, w2)"
    using growing_ring_overwrites_overflow [of ?w "demo_db 3" "[[0x61]]" 1 "[1, 2]" 10]
    by (auto simp: d h block_pos_def data_start_def demo_disk_content)
  then show ?thesis by auto
qed

end
