(* ===== verification/Tsdb_Migrate.thy ===== *)
theory Tsdb_Migrate
  imports Tsdb_Overflow
begin

text \<open>
  The schema migration of \<open>src/tsdb_migrate.c\<close>: the streaming rewrite of a database into a
  sibling file \<open><path>.mig\<close> with other columns or another capacity, the swap that puts it in
  place, and the resize operation with its header-only fast path.

  The engine is split into its phases: column mapping, plan (how many records are kept and
  with which capacity), copy into the sibling file, and swap. A progress callback is code of
  the application; the engine returns the list of calls it made. The column map and the row
  buffer are arrays of 64 elements; where the code would store beyond them the result of the
  operation is \<open>None\<close>.

  The lemmas show that the migrated file holds the newest records with every column found by
  its name, that a failure leaves the original file or the complete new one, and what a
  leftover sidecar does after a resize.
\<close>

section \<open>Options and the plan\<close>

record tsdb_migrate_opts =
  free_space_bytes :: u32
  allow_trim :: bool
  has_progress :: bool
  opt_progress_every :: u32

definition migrate_file_size :: "u32 \<Rightarrow> u16 \<Rightarrow> u32 \<Rightarrow> u32 \<Rightarrow> u32" where
  "migrate_file_size idx_offset per_block idx_entries n_records =
     (let blocks = (if per_block \<noteq> 0 then (n_records + ucast per_block - 1) div ucast per_block else 0)
      in idx_offset + idx_entries * 8 + blocks * 1024)"

definition old_columns :: "tsdb \<Rightarrow> u8" where
  "old_columns db = num_params (header db) + db_extra_param_count db"

text \<open>The old column that the \<open>i\<close>-th new name stands for, \<open>None\<close> for the \<open>-1\<close> of a new column.\<close>

definition column_matches :: "cstr \<Rightarrow> nat \<Rightarrow> cstr option \<Rightarrow> bool" where
  "column_matches new_name j old_name \<longleftrightarrow>
     (case old_name of
        None \<Rightarrow> False
      | Some old \<Rightarrow> if j < 16 then new_name = old else strncmp_eq 19 new_name old)"

definition map_columns :: "tsdb \<Rightarrow> world \<Rightarrow> cstr list \<Rightarrow> nat \<Rightarrow> nat option list" where
  "map_columns db w new_names n =
     map (\<lambda>i. find (\<lambda>j. column_matches (new_names ! i) j (tsdb_get_param_name_h (Some db) (of_nat j) w))
               [0..<unat (old_columns db)]) [0..<n]"

text \<open>Number of columns, column map, and whether the schema stays the same; \<open>None\<close> is the same-schema mode.\<close>

definition column_plan :: "tsdb \<Rightarrow> world \<Rightarrow> cstr list option \<Rightarrow> u8 \<Rightarrow> u8 \<times> nat option list \<times> bool" where
  "column_plan db w new_names new_count =
     (case new_names of
        None \<Rightarrow> (old_columns db, map Some [0..<unat (old_columns db)], db_extra_param_count db = 0)
      | Some names \<Rightarrow>
          (let cols = map_columns db w names (unat new_count)
           in (new_count, cols,
               new_count = num_params (header db) \<and> db_extra_param_count db = 0 \<and>
               cols = map Some [0..<unat new_count])))"

definition retained_count :: "tsdb_header \<Rightarrow> u32" where
  "retained_count h =
     (if max_records h = 0 then total_records h
      else if total_records h < max_records h then total_records h else max_records h)"

definition mig_index_offset :: "u8 \<Rightarrow> u32" where
  "mig_index_offset n = (if n > 16 then TSDB_V4_INDEX_OFFSET else 1024)"

text \<open>
  Records to keep, capacity and index entries of the new file: first the requested capacity,
  then the free-space budget. \<open>None\<close> is the refusal with \<open>ESP_ERR_NO_MEM\<close>.
\<close>

definition plan_capacity :: "tsdb_header \<Rightarrow> bool \<Rightarrow> u32 \<Rightarrow> u32 \<times> u32 \<times> u32" where
  "plan_capacity h set_max new_max_override =
     (let available = retained_count h;
          new_max = (if set_max then new_max_override else max_records h);
          retain = (if new_max > 0 \<and> available > new_max then new_max else available)
      in (retain, new_max, entries_for new_max (index_stride h)))"

definition plan_budget ::
  "tsdb_header \<Rightarrow> u8 \<Rightarrow> tsdb_migrate_opts option \<Rightarrow> u32 \<times> u32 \<times> u32 \<Rightarrow> (u32 \<times> u32 \<times> u32) option" where
  "plan_budget h n opts plan =
     (case opts of
        None \<Rightarrow> Some plan
      | Some opt \<Rightarrow>
          if free_space_bytes opt = 0 then Some plan
          else
            (let (retain, new_max, entries) = plan;
                 budget = free_space_bytes opt - free_space_bytes opt div 100 * 5;
                 needed = migrate_file_size (mig_index_offset n) (blocks_records n) entries retain
             in if needed \<le> budget then Some plan
                else if \<not> allow_trim opt then None
                else
                  (let fixed = mig_index_offset n + entries * 8;
                       blocks_budget = (if budget > fixed then (budget - fixed) div 1024 else 0);
                       fit = blocks_budget * ucast (blocks_records n)
                   in if fit = 0 then None
                      else if fit < retain then
                        (if new_max = 0 \<or> new_max > fit then Some (fit, fit, fit div index_stride h + 1)
                         else Some (fit, new_max, entries))
                      else Some plan)))"

section \<open>The new file\<close>

definition engine_new_name :: "tsdb \<Rightarrow> world \<Rightarrow> cstr list option \<Rightarrow> nat \<Rightarrow> cstr option" where
  "engine_new_name db w new_names i =
     (case new_names of Some names \<Rightarrow> Some (names ! i) | None \<Rightarrow> tsdb_get_param_name_h (Some db) (of_nat i) w)"

definition new_name_or_empty :: "tsdb \<Rightarrow> world \<Rightarrow> cstr list option \<Rightarrow> nat \<Rightarrow> cstr" where
  "new_name_or_empty db w new_names i = (case engine_new_name db w new_names i of None \<Rightarrow> [] | Some s \<Rightarrow> s)"

definition migrated_header :: "tsdb \<Rightarrow> world \<Rightarrow> cstr list option \<Rightarrow> u8 \<Rightarrow> u32 \<Rightarrow> u32 \<Rightarrow> tsdb_header" where
  "migrated_header db w new_names n new_max entries =
     zero_header\<lparr>magic := TSDB_MAGIC,
       version := (if n > 16 then TSDB_VERSION_WIDE else TSDB_VERSION),
       num_params := n, base_params := n, param_size := 2, record_size := ucast (record_bytes n),
       records_per_block := blocks_records n, max_records := new_max,
       index_stride := index_stride (header db), index_offset := mig_index_offset n, index_entries := entries,
       param_names := concat (map (\<lambda>i. if i < unat n then name_field 32 (new_name_or_empty db w new_names i)
                                       else replicate 32 0) [0..<16])\<rparr>"

text \<open>A sequence of writes that stops at the first failure.\<close>

fun write_all :: "path \<Rightarrow> (nat \<times> bytes) list \<Rightarrow> world \<Rightarrow> bool \<times> world" where
  "write_all p [] w = (True, w)"
| "write_all p ((off, d) # rest) w =
     (case fwrite_at w p off d of
        (Some _, w) \<Rightarrow> (False, w)
      | (None, w) \<Rightarrow> write_all p rest w)"

definition preamble :: "tsdb \<Rightarrow> world \<Rightarrow> cstr list option \<Rightarrow> tsdb_header \<Rightarrow> (nat \<times> bytes) list" where
  "preamble db w new_names nh =
     (0, encode_header nh) #
     map (\<lambda>i. (TSDB_V4_EXT_NAMES_OFFSET + (i - 16) * TSDB_V4_EXT_NAME_LEN,
               name_field TSDB_V4_EXT_NAME_LEN (new_name_or_empty db w new_names i))) [16..<unat (num_params nh)] @
     map (\<lambda>i. (unat (index_offset nh) + 8 * i, replicate 8 0)) [0..<unat (index_entries nh)]"

section \<open>Copying the records\<close>

text \<open>
  One retained record by its position (0 is the oldest): its timestamp and its values, base
  parameters first. \<open>None\<close> is an unreadable block. The block buffer and the number of the
  block it holds are threaded through.
\<close>

definition read_extras :: "tsdb \<Rightarrow> path \<Rightarrow> u32 \<Rightarrow> u32 \<Rightarrow> world \<Rightarrow> i16 list" where
  "read_extras db p k available w =
     (let n = unat (db_extra_param_count db);
          abs_idx = (total_records (header db) - available) + k
      in if db_extra_param_count db = 0 then []
         else if abs_idx \<ge> db_first_overflow_record_idx db then
           (let ovf_offset = overflow_data_offset db +
                  (abs_idx - db_first_overflow_record_idx db) * ucast (db_overflow_record_size db)
            in case fread_at w p (unat ovf_offset) (2 * n) of
                 None \<Rightarrow> replicate n 0
               | Some b \<Rightarrow> map (\<lambda>j. ld16 b (2 * j)) [0..<n])
         else replicate n 0)"

definition migrate_read_record ::
  "tsdb \<Rightarrow> path \<Rightarrow> u32 \<Rightarrow> u32 \<Rightarrow> bytes \<times> u32 \<Rightarrow> world \<Rightarrow> (u32 \<times> i16 list \<times> bytes \<times> u32) option" where
  "migrate_read_record db p k available cache w =
     (let h = header db;
          n = ucast (records_per_block h) :: u32;
          slot = (if max_records h = 0 then k else (oldest_record_idx h + k) mod max_records h);
          blk = slot div n;
          off = unat (slot mod n)
      in case (if snd cache \<noteq> blk
               then (case tsdb_read_block db blk w of (ESP_OK, Some b) \<Rightarrow> Some (b, blk) | _ \<Rightarrow> None)
               else Some cache) of
           None \<Rightarrow> None
         | Some (b, blk) \<Rightarrow>
             Some (TSDB_BLOCK_TS b off,
                   map (\<lambda>i. TSDB_BLOCK_PARAM b (unat (records_per_block h)) i off) [0..<unat (num_params h)] @
                   read_extras db p k available w, b, blk))"

record copy_state =
  cp_world :: world
  cp_cache :: "bytes \<times> u32"
  cp_blk :: bytes
  cp_written :: u32
  cp_oldest :: u32
  cp_newest :: u32
  cp_err :: esp_err
  cp_log :: "(u32 \<times> u32) list"

definition empty_block :: bytes where
  "empty_block = set_block_magic (replicate TSDB_BLOCK_SIZE 0) BLKT_MAGIC"

definition remap_row :: "nat option list \<Rightarrow> i16 list \<Rightarrow> i16 list" where
  "remap_row cols row = map (\<lambda>c. case c of None \<Rightarrow> 0 | Some j \<Rightarrow> row ! j) cols"

text \<open>The record goes into the output block, and into the sparse index at a stride boundary.\<close>

definition place_record :: "tsdb_header \<Rightarrow> bytes \<Rightarrow> nat \<Rightarrow> u32 \<Rightarrow> i16 list \<Rightarrow> bytes" where
  "place_record nh blk off ts vals =
     set_block_count
       (set_block_params (set_block_ts blk off ts) (unat (records_per_block nh)) off (\<lambda>i. vals ! i) (unat (num_params nh)))
       (of_nat (off + 1))"

definition index_write :: "tsdb_header \<Rightarrow> path \<Rightarrow> u32 \<Rightarrow> u32 \<Rightarrow> world \<Rightarrow> world" where
  "index_write nh mp written ts w =
     (if written mod index_stride nh = 0 \<and> written div index_stride nh < index_entries nh
      then snd (fwrite_at w mp (unat (index_offset nh + (written div index_stride nh) * 8))
                  (le32 ts @ le32 (written div ucast (records_per_block nh))))
      else w)"

text \<open>The part of an iteration after the record was read; \<open>final\<close> says that it is the last one.\<close>

text \<open>One record: into the output block and, at a stride boundary, into the index.\<close>

definition append_record :: "tsdb_header \<Rightarrow> path \<Rightarrow> u32 \<Rightarrow> i16 list \<Rightarrow> copy_state \<Rightarrow> copy_state" where
  "append_record nh mp ts vals st =
     (let off = unat (cp_written st mod ucast (records_per_block nh))
      in st\<lparr>cp_blk := place_record nh (cp_blk st) off ts vals,
            cp_world := index_write nh mp (cp_written st) ts (cp_world st),
            cp_oldest := (if cp_written st = 0 then ts else cp_oldest st), cp_newest := ts,
            cp_written := cp_written st + 1\<rparr>)"

text \<open>The output block goes to the file; its error stops the copy.\<close>

definition flush_block :: "tsdb_header \<Rightarrow> path \<Rightarrow> copy_state \<Rightarrow> copy_state" where
  "flush_block nh mp st =
     (let blk_num = (cp_written st - 1) div ucast (records_per_block nh);
          data_offset = index_offset nh + index_entries nh * 8
      in case fwrite_at (cp_world st) mp (unat (data_offset + blk_num * 1024)) (cp_blk st) of
           (None, w) \<Rightarrow> st\<lparr>cp_world := w, cp_blk := empty_block\<rparr>
         | (Some ENOSPC, w) \<Rightarrow> st\<lparr>cp_world := w, cp_err := ESP_ERR_NO_MEM\<rparr>
         | (Some _, w) \<Rightarrow> st\<lparr>cp_world := w, cp_err := ESP_FAIL\<rparr>)"

definition copy_record ::
  "tsdb_header \<Rightarrow> path \<Rightarrow> nat option list \<Rightarrow> bool \<Rightarrow> u32 \<Rightarrow> i16 list \<Rightarrow> copy_state \<Rightarrow> copy_state" where
  "copy_record nh mp cols final ts row st =
     (let off = unat (cp_written st mod ucast (records_per_block nh));
          st = append_record nh mp ts (remap_row cols row) st
      in if off = unat (records_per_block nh) - 1 \<or> final then flush_block nh mp st else st)"

definition report_progress :: "bool \<Rightarrow> u32 \<Rightarrow> u32 \<Rightarrow> copy_state \<Rightarrow> copy_state" where
  "report_progress on retain every st =
     (if on \<and> cp_err st = ESP_OK \<and> cp_written st < retain \<and> cp_written st mod every = 0
      then st\<lparr>cp_log := cp_log st @ [(cp_written st, retain)]\<rparr> else st)"

text \<open>The loop over \<open>k\<close> with \<open>n\<close> records to go; it also ends at an error and at an unreadable block.\<close>

fun copy_loop ::
  "tsdb \<Rightarrow> path \<Rightarrow> tsdb_header \<Rightarrow> path \<Rightarrow> nat option list \<Rightarrow> u32 \<Rightarrow> bool \<times> u32 \<times> u32 \<Rightarrow> u32 \<Rightarrow> nat \<Rightarrow> copy_state \<Rightarrow> copy_state"
where
  "copy_loop db p nh mp cols available prog k 0 st = st"
| "copy_loop db p nh mp cols available prog k (Suc n) st =
     (if cp_err st \<noteq> ESP_OK then st
      else (case migrate_read_record db p k available (cp_cache st) (cp_world st) of
              None \<Rightarrow> st
            | Some (ts, row, b, blk) \<Rightarrow>
                copy_loop db p nh mp cols available prog (k + 1) n
                  (case prog of (on, retain, every) \<Rightarrow>
                     report_progress on retain every
                       (copy_record nh mp cols (k = available - 1) ts row (st\<lparr>cp_cache := (b, blk)\<rparr>)))))"

text \<open>The header as it is committed once all records are written.\<close>

definition final_header :: "tsdb_header \<Rightarrow> copy_state \<Rightarrow> tsdb_header" where
  "final_header nh st =
     nh\<lparr>oldest_timestamp := cp_oldest st, newest_timestamp := cp_newest st, total_records := cp_written st,
        total_writes := cp_written st, oldest_record_idx := 0,
        newest_record_idx := (if cp_written st > 0 then cp_written st - 1 else 0), total_evictions := 0\<rparr>"

text \<open>Phase 6: without an error the final header replaces the first one.\<close>

definition commit_copy :: "tsdb_header \<Rightarrow> path \<Rightarrow> copy_state \<Rightarrow> esp_err \<times> tsdb_header \<times> world" where
  "commit_copy nh mp st =
     (if cp_err st \<noteq> ESP_OK then (cp_err st, nh, cp_world st)
      else (case fwrite_at (cp_world st) mp 0 (encode_header (final_header nh st)) of
              (None, w) \<Rightarrow> (ESP_OK, final_header nh st, w)
            | (Some _, w) \<Rightarrow> (ESP_FAIL, final_header nh st, w)))"

definition progress_step :: "tsdb_migrate_opts option \<Rightarrow> u32 \<Rightarrow> bool \<times> u32 \<times> u32" where
  "progress_step opts retain =
     (case opts of
        None \<Rightarrow> (False, retain, 1)
      | Some opt \<Rightarrow>
          (has_progress opt, retain,
           if opt_progress_every opt > 0 then opt_progress_every opt
           else if retain div 100 > 0 then retain div 100 else 1))"

text \<open>Phases 4 to 6: header and index, the records, the final header.\<close>

definition engine_copy ::
  "tsdb \<Rightarrow> path \<Rightarrow> cstr list option \<Rightarrow> u8 \<Rightarrow> nat option list \<Rightarrow> tsdb_migrate_opts option \<Rightarrow> u32 \<times> u32 \<times> u32 \<Rightarrow> world \<Rightarrow>
   esp_err \<times> tsdb_header \<times> (u32 \<times> u32) list \<times> world" where
  "engine_copy db p new_names n cols opts plan w =
     (let (retain, new_max, entries) = plan;
          mp = mig_path (filepath db);
          nh = migrated_header db w new_names n new_max entries;
          prog = progress_step opts retain;
          available = retained_count (header db);
          skip = available - retain
      in case write_all mp (preamble db w new_names nh) w of
           (ok, w) \<Rightarrow>
             (let st = copy_loop db p nh mp cols available prog skip (unat available - unat skip)
                         \<lparr> cp_world = w, cp_cache = ([], 0xFFFFFFFF), cp_blk = empty_block, cp_written = 0, cp_oldest = 0,
                           cp_newest = 0, cp_err = (if ok then ESP_OK else ESP_FAIL),
                           cp_log = (if fst prog then [(0, retain)] else []) \<rparr>;
                  log = (if fst prog then cp_log st @ [(cp_written st, retain)] else cp_log st)
              in case commit_copy nh mp st of (err, fh, w) \<Rightarrow> (err, fh, log, w)))"

definition adopt_schema :: "tsdb \<Rightarrow> tsdb_header \<Rightarrow> tsdb" where
  "adopt_schema db nh =
     db\<lparr>db_file := Some (filepath db), header := nh, db_extra_param_count := 0, db_overflow_record_size := 0,
        overflow_data_offset := 0, db_first_overflow_record_idx := 0, capacity_adapted := False, migrating := False\<rparr>"

text \<open>Phases 7 and 8: the original is removed, the new file takes its name and its schema is adopted.\<close>

definition engine_swap :: "tsdb \<Rightarrow> tsdb_header \<Rightarrow> world \<Rightarrow> esp_err \<times> tsdb \<times> world" where
  "engine_swap db nh w =
     (let lost = db\<lparr>db_file := None, is_open := False, migrating := False\<rparr>;
          w = snd (unlink_file w (filepath db))
      in case rename_file w (mig_path (filepath db)) (filepath db) of
           (False, w) \<Rightarrow> (ESP_FAIL, lost, w)
         | (True, w) \<Rightarrow>
             (case fopen_existing w (filepath db) of
                (False, w) \<Rightarrow> (ESP_FAIL, lost, w)
              | (True, w) \<Rightarrow> (ESP_OK, adopt_schema db nh, w)))"

text \<open>
  Phase 3 and the sequence of the phases, with the lock held. In same-schema mode the column map
  is filled with every old column at once; when records are copied, a row has every old column.
\<close>

definition col_map_overrun :: "tsdb \<Rightarrow> cstr list option \<Rightarrow> bool" where
  "col_map_overrun db new_names \<longleftrightarrow> new_names = None \<and> unat (old_columns db) > TSDB_MAX_PARAMS"

definition row_overrun :: "tsdb \<Rightarrow> bool" where
  "row_overrun db \<longleftrightarrow>
     unat (num_params (header db)) + unat (db_extra_param_count db) > TSDB_MAX_PARAMS"

text \<open>The end of the copy: a failure removes the sibling file, success swaps it in.\<close>

definition engine_finish ::
  "tsdb \<Rightarrow> esp_err \<times> tsdb_header \<times> (u32 \<times> u32) list \<times> world \<Rightarrow>
   esp_err \<times> tsdb \<times> (u32 \<times> u32) list \<times> world" where
  "engine_finish db copied =
     (case copied of
        (err, nh, log, w) \<Rightarrow>
          if err \<noteq> ESP_OK
          then (err, db\<lparr>migrating := False\<rparr>, log, snd (unlink_file w (mig_path (filepath db))))
          else (case engine_swap db nh w of (r, db, w) \<Rightarrow> (r, db, log, w)))"

definition engine_rewrite ::
  "tsdb \<Rightarrow> path \<Rightarrow> cstr list option \<Rightarrow> u8 \<Rightarrow> nat option list \<Rightarrow> tsdb_migrate_opts option \<Rightarrow> u32 \<times> u32 \<times> u32 \<Rightarrow> world \<Rightarrow>
   esp_err \<times> tsdb \<times> (u32 \<times> u32) list \<times> world" where
  "engine_rewrite db p new_names n cols opts plan w =
     (let mp = mig_path (filepath db); quit = db\<lparr>migrating := False\<rparr>
      in case malloc_ok (snd (unlink_file w mp)) of (ok1, w) \<Rightarrow>
         case malloc_ok w of (ok2, w) \<Rightarrow>
         case fopen_trunc w mp of (ok3, w) \<Rightarrow>
           if \<not> ok1 \<or> \<not> ok2 \<or> \<not> ok3
           then (ESP_ERR_NO_MEM, quit, [], if ok3 then snd (unlink_file w mp) else w)
           else engine_finish db (engine_copy db p new_names n cols opts plan w))"

definition migrate_engine_locked ::
  "tsdb \<Rightarrow> cstr list option \<Rightarrow> u8 \<Rightarrow> tsdb_migrate_opts option \<Rightarrow> bool \<Rightarrow> u32 \<Rightarrow> world \<Rightarrow>
   (esp_err \<times> tsdb \<times> (u32 \<times> u32) list \<times> world) option" where
  "migrate_engine_locked db new_names new_count opts set_max new_max_override w =
     (if col_map_overrun db new_names then None
      else
        (case column_plan db w new_names new_count of
           (n, cols, identical) \<Rightarrow>
             if identical \<and> \<not> (set_max \<and> new_max_override \<noteq> max_records (header db))
             then Some (ESP_OK, db, [], w)
             else
               (case plan_budget (header db) n opts (plan_capacity (header db) set_max new_max_override) of
                  None \<Rightarrow> Some (ESP_ERR_NO_MEM, db, [], w)
                | Some plan \<Rightarrow>
                    (case db_file db of
                       None \<Rightarrow> Some (ESP_FAIL, db, [], w)
                     | Some p \<Rightarrow>
                         if row_overrun db then None
                         else Some (engine_rewrite db p new_names n cols opts plan w)))))"

section \<open>The operations\<close>

definition tsdb_migrate_schema_h ::
  "tsdb option \<Rightarrow> cstr list option \<Rightarrow> u8 \<Rightarrow> tsdb_migrate_opts option \<Rightarrow> world \<Rightarrow>
   (esp_err \<times> tsdb option \<times> (u32 \<times> u32) list \<times> world) option" where
  "tsdb_migrate_schema_h dbo new_names new_count opts w =
     (case dbo of
        None \<Rightarrow> Some (ESP_ERR_INVALID_STATE, None, [], w)
      | Some db \<Rightarrow>
          if \<not> is_open db then Some (ESP_ERR_INVALID_STATE, Some db, [], w)
          else if new_names = None \<or> new_count = 0 \<or> new_count > of_nat TSDB_MAX_PARAMS
          then Some (ESP_ERR_INVALID_ARG, Some db, [], w)
          else
            (case tsdb_lock_open w of
               (Some e, w) \<Rightarrow> Some (e, Some db, [], w)
             | (None, w) \<Rightarrow>
                 map_option (\<lambda>(r, db, log, w). (r, Some db, log, w))
                   (migrate_engine_locked db new_names new_count opts False 0 w)))"

text \<open>
  The slow path takes the lock a second time; the mutex is recursive, so the owner always
  gets it, and the handle cannot have changed.
\<close>

definition linear_ring :: "tsdb_header \<Rightarrow> bool" where
  "linear_ring h \<longleftrightarrow> oldest_record_idx h = 0 \<and> (max_records h = 0 \<or> total_records h \<le> max_records h)"

definition tsdb_resize_h ::
  "tsdb option \<Rightarrow> u32 \<Rightarrow> tsdb_migrate_opts option \<Rightarrow> world \<Rightarrow>
   (esp_err \<times> tsdb option \<times> (u32 \<times> u32) list \<times> world) option" where
  "tsdb_resize_h dbo new_max_records opts w =
     (case dbo of
        None \<Rightarrow> Some (ESP_ERR_INVALID_STATE, None, [], w)
      | Some db \<Rightarrow>
          if \<not> is_open db then Some (ESP_ERR_INVALID_STATE, Some db, [], w)
          else
            (case tsdb_lock_open w of
               (Some e, w) \<Rightarrow> Some (e, Some db, [], w)
             | (None, w) \<Rightarrow>
                 (let h = header db
                  in if new_max_records = max_records h then Some (ESP_OK, Some db, [], w)
                     else if linear_ring h \<and> (new_max_records = 0 \<or> new_max_records \<ge> total_records h) \<and>
                             db_extra_param_count db = 0
                     then (case tsdb_fold_header (db\<lparr>header := h\<lparr>max_records := new_max_records\<rparr>\<rparr>) w of
                             (r, db, w) \<Rightarrow>
                               if r \<noteq> ESP_OK
                               then Some (r, Some (db\<lparr>header := (header db)\<lparr>max_records := max_records h\<rparr>\<rparr>), [], w)
                               else Some (r, Some (db\<lparr>capacity_adapted := False\<rparr>), [], w))
                     else map_option (\<lambda>(r, db, log, w). (r, Some db, log, w))
                            (migrate_engine_locked db None 0 opts True new_max_records w))))"

text \<open>
  A same-schema rewrite stores one entry per old column into \<open>col_map[64]\<close>. \<open>tsdb_migrate_overflow_h\<close>
  checks the number of extra parameters only, so base and extra columns can be more than 64.
\<close>

lemma resize_overruns:
  assumes "is_open db" and "tsdb_lock_open w = (None, w1)" and "m \<noteq> max_records (header db)"
    and "db_extra_param_count db \<noteq> 0" and "unat (old_columns db) > TSDB_MAX_PARAMS"
  shows "tsdb_resize_h (Some db) m opts w = None"
  using assms by (simp add: tsdb_resize_h_def Let_def migrate_engine_locked_def col_map_overrun_def)

section \<open>Reading the records of the original\<close>

text \<open>The full row at a position: the base row of the ring, then the extra values, zero before the region starts.\<close>

definition extras_at :: "tsdb \<Rightarrow> bytes \<Rightarrow> nat \<Rightarrow> i16 list" where
  "extras_at db f j =
     (if db_extra_param_count db = 0 then []
      else if unat (db_first_overflow_record_idx db) \<le> j
      then map (extra_cell db f (j - unat (db_first_overflow_record_idx db))) [0..<extras db]
      else replicate (extras db) 0)"

definition full_row :: "tsdb \<Rightarrow> bytes \<Rightarrow> nat \<Rightarrow> row" where
  "full_row db f k =
     (let r = slot_row (header db) f (pos_slot (header db) k)
      in (fst r, snd r @ extras_at db f (nrec (header db) - avail (header db) + k)))"

definition full_rows :: "tsdb \<times> world \<Rightarrow> row list" where
  "full_rows s =
     (let (db, w) = s in map (full_row db (content w (filepath db))) [0..<avail (header db)])"

definition readable :: "tsdb \<Rightarrow> world \<Rightarrow> bool" where
  "readable db w \<longleftrightarrow> db_inv db w \<and> (db_extra_param_count db = 0 \<or> extras_wf db w)"

definition cache_ok :: "tsdb_header \<Rightarrow> bytes \<Rightarrow> bytes \<times> u32 \<Rightarrow> bool" where
  "cache_ok h f c \<longleftrightarrow> snd c = 0xFFFFFFFF \<or> fst c = chunk f (block_pos h (unat (snd c))) TSDB_BLOCK_SIZE"

lemma retained_count: "unat (retained_count h) = avail h"
  by (auto simp: retained_count_def avail_def word_less_nat_alt)

lemma length_full_row: "length (snd (full_row db f k)) = nparams (header db) + extras db"
  by (auto simp: full_row_def Let_def slot_row_def block_row_def extras_at_def)

lemma read_extras:
  assumes rd: "readable db w" and k: "unat k < avail (header db)"
    and c: "content w1 (filepath db) = content w (filepath db)" "sound w1"
  shows "read_extras db (filepath db) k (retained_count (header db)) w1 =
    extras_at db (content w (filepath db)) (nrec (header db) - avail (header db) + unat k)"
proof (cases "db_extra_param_count db = 0")
  case True
  then show ?thesis by (simp add: read_extras_def extras_at_def Let_def)
next
  case False
  let ?h = "header db" and ?p = "filepath db" and ?f = "content w (filepath db)" and ?e = "extras db"
  let ?j = "nrec ?h - avail ?h + unat k" and ?first = "db_first_overflow_record_idx db"
  let ?abs = "(total_records ?h - retained_count ?h) + k"
  have xw: "extras_wf db w" using rd False by (simp add: readable_def)
  note x = xw [unfolded extras_wf_def Let_def]
  have a: "avail ?h \<le> nrec ?h" by (simp add: avail_def)
  then have t: "unat (total_records ?h - retained_count ?h) = nrec ?h - avail ?h"
    by (simp add: unat_sub_no_wrap retained_count)
  then have abs: "unat ?abs = ?j"
    using a k unat_u32_bound [of "total_records ?h"] by (subst unat_add_no_wrap) auto
  show ?thesis
  proof (cases "unat ?first \<le> ?j")
    case False
    with \<open>db_extra_param_count db \<noteq> 0\<close> abs show ?thesis
      by (simp add: read_extras_def extras_at_def Let_def word_le_nat_alt)
  next
    case True
    let ?i = "?j - unat ?first"
    have d: "unat (?abs - ?first) = ?i" using True abs by (simp add: unat_sub_no_wrap)
    have doff: "unat (overflow_data_offset db) = unat (overflow_offset ?h) + 1024" using x by (simp, subst unat_add_no_wrap) auto
    have rs: "unat (db_overflow_record_size db) = 2 * ?e" using x by (simp add: unat_word_ariths unat_u8_u16)
    have "?i < unat (extra_records db)" using True k a by (simp add: unat_extra_records)
    then have row: "?i * (2 * ?e) + 2 * ?e \<le> unat (extra_records db) * (2 * ?e)"
      using mult_le_mono1 [of "Suc ?i" "unat (extra_records db)" "2 * ?e"] by simp
    let ?pos = "unat (overflow_data_offset db) + ?i * (2 * ?e)"
    have fit: "?pos + 2 * ?e \<le> length ?f" using x doff row by linarith
    have lt: "length ?f < 4294967296" using x by simp
    have "unat ((?abs - ?first) * ucast (db_overflow_record_size db)) = ?i * (2 * ?e)"
    proof -
      have "?i * (2 * ?e) < 4294967296" using fit lt by linarith
      then show ?thesis using d rs by (subst unat_mult_no_wrap) (simp_all add: unat_u16_u32)
    qed
    then have pos: "unat (overflow_data_offset db + (?abs - ?first) * ucast (db_overflow_record_size db)) = ?pos"
      using fit lt by (subst unat_add_no_wrap) auto
    have ge: "?abs \<ge> ?first" using True abs by (simp add: word_le_nat_alt)
    have rd: "fread_at w1 ?p ?pos (2 * ?e) = Some (chunk ?f ?pos (2 * ?e))" using fit c by (simp add: fread_at_sound)
    have "read_extras db ?p k (retained_count ?h) w1 = map (\<lambda>j. ld16 (chunk ?f ?pos (2 * ?e)) (2 * j)) [0..<?e]"
      using \<open>db_extra_param_count db \<noteq> 0\<close> ge unfolding read_extras_def Let_def pos rd by simp
    also have "\<dots> = map (extra_cell db ?f ?i) [0..<?e]" by (simp add: extra_cell_def ld16_chunk)
    finally show ?thesis using \<open>db_extra_param_count db \<noteq> 0\<close> True by (simp add: extras_at_def)
  qed
qed

lemma read_record:
  assumes rd: "readable db w" and k: "unat k < avail (header db)" and co: "cache_ok (header db) (content w (filepath db)) cache"
    and c: "content w1 (filepath db) = content w (filepath db)" "sound w1"
  obtains b blk where "migrate_read_record db (filepath db) k (retained_count (header db)) cache w1 =
      Some (fst (full_row db (content w (filepath db)) (unat k)), snd (full_row db (content w (filepath db)) (unat k)), b, blk)"
    "cache_ok (header db) (content w (filepath db)) (b, blk)"
proof -
  let ?h = "header db" and ?f = "content w (filepath db)" and ?s = "pos_slot (header db) (unat k)"
  have inv: "ring_inv ?h ?f" "db_file db = Some (filepath db)" using rd by (simp_all add: readable_def db_inv_def)
  have slot: "(if max_records ?h = 0 then k else (oldest_record_idx ?h + k) mod max_records ?h) = ring_slot ?h (first_slot_of ?h) k"
    by (simp add: ring_slot_def first_slot_of_def)
  have us: "unat (ring_slot ?h (first_slot_of ?h) k) = ?s" using k by (intro ring_slot_pos [OF inv(1)]) simp
  let ?sl = "ring_slot ?h (first_slot_of ?h) k" and ?n = "ucast (records_per_block ?h) :: u32"
  have ub: "unat (?sl div ?n) = ?s div rpb ?h" "unat (?sl mod ?n) = ?s mod rpb ?h"
    using us by (simp_all add: unat_div unat_mod unat_u16_u32)
  have "avail ?h \<le> nrec ?h" by (simp add: avail_def)
  then have "?s < avail ?h" unfolding pos_slot_def using k by (intro slot_of_less) auto
  then have ok: "slot_ok ?h ?f ?s" using inv(1) by (simp add: ring_inv_def)
  let ?b = "chunk ?f (block_pos ?h (?s div rpb ?h)) TSDB_BLOCK_SIZE"
  have "tsdb_read_block db (?sl div ?n) w1 = (ESP_OK, Some ?b)"
    using ok inv(2) c(1) ub(1) by (subst read_block_Some [OF c(2)]) (auto simp: slot_ok_def)
  moreover have "?sl div ?n \<noteq> 0xFFFFFFFF"
    using ok ub(1) by (auto simp: slot_ok_def block_pos_def)
  then have "fst cache = ?b" if "snd cache = ?sl div ?n" using co that ub(1) by (simp add: cache_ok_def)
  ultimately have get: "(if snd cache \<noteq> ?sl div ?n
      then (case tsdb_read_block db (?sl div ?n) w1 of (ESP_OK, Some b) \<Rightarrow> Some (b, ?sl div ?n) | _ \<Rightarrow> None)
      else Some cache) = Some (?b, ?sl div ?n)"
    by (cases cache) auto
  have row: "full_row db ?f (unat k) = (TSDB_BLOCK_TS ?b (?s mod rpb ?h),
      map (\<lambda>i. TSDB_BLOCK_PARAM ?b (rpb ?h) i (?s mod rpb ?h)) [0..<nparams ?h] @
      extras_at db ?f (nrec ?h - avail ?h + unat k))"
    by (simp add: full_row_def Let_def slot_row_def slot_block_def block_row_def)
  have r: "migrate_read_record db (filepath db) k (retained_count ?h) cache w1 =
      Some (fst (full_row db ?f (unat k)), snd (full_row db ?f (unat k)), ?b, ?sl div ?n)"
    unfolding migrate_read_record_def Let_def slot get row using ub(2) read_extras [OF rd k c] by simp
  show ?thesis by (rule that [OF r]) (use ub(1) in \<open>simp add: cache_ok_def\<close>)
qed

section \<open>Writing the records of the new file\<close>

text \<open>
  After \<open>m\<close> records the first \<open>F\<close> of them are in the file and the rest in the output block.
  \<open>x s\<close> is the row the \<open>s\<close>-th record should have.
\<close>

definition out_ok :: "tsdb_header \<Rightarrow> path \<Rightarrow> (nat \<Rightarrow> row) \<Rightarrow> nat \<Rightarrow> nat \<Rightarrow> copy_state \<Rightarrow> bool" where
  "out_ok nh mp x m F st \<longleftrightarrow>
     (let g = content (cp_world st) mp
      in unat (cp_written st) = m \<and>
         length (cp_blk st) = TSDB_BLOCK_SIZE \<and> TSDB_BLOCK_MAGIC (cp_blk st) = BLKT_MAGIC \<and>
         (\<forall>s < F. slot_ok nh g s \<and> slot_row nh g s = x s) \<and>
         (\<forall>s < m. F \<le> s \<longrightarrow> block_row (rpb nh) (nparams nh) (cp_blk st) (s mod rpb nh) = x s) \<and>
         (m > 0 \<longrightarrow> cp_oldest st = fst (x 0) \<and> cp_newest st = fst (x (m - 1))))"

text \<open>What stays the same: other files and the part of the new file in front of its index.\<close>

definition copy_frame :: "tsdb_header \<Rightarrow> path \<Rightarrow> world \<Rightarrow> world \<Rightarrow> bool" where
  "copy_frame nh mp w w' \<longleftrightarrow>
     dirs w' = dirs w \<and> (\<forall>q. q \<noteq> mp \<longrightarrow> fs w' q = fs w q) \<and>
     keeps (\<lambda>i. i < unat (index_offset nh)) (content w mp) (content w' mp) \<and> (fs w mp \<noteq> None \<longrightarrow> fs w' mp \<noteq> None) \<and>
     (sound w \<longrightarrow> sound w')"

lemma copy_frame_refl [simp]: "copy_frame nh mp w w"
  by (simp add: copy_frame_def)

lemma copy_frame_trans: "copy_frame nh mp a b \<Longrightarrow> copy_frame nh mp b c \<Longrightarrow> copy_frame nh mp a c"
  by (auto simp: copy_frame_def keeps_def)

text \<open>One write, whatever becomes of it.\<close>

lemma fwrite_at_effect:
  assumes "fwrite_at w p off d = (r, w')"
  shows "dirs w' = dirs w" "q \<noteq> p \<Longrightarrow> fs w' q = fs w q" "fs w' p \<noteq> None" "quiet w \<Longrightarrow> r = None \<and> quiet w'"
    "r = None \<Longrightarrow> sound w \<Longrightarrow> content w' p = overlay (content w p) off d" "sound w \<Longrightarrow> sound w'"
proof -
  show "dirs w' = dirs w" "q \<noteq> p \<Longrightarrow> fs w' q = fs w q" "fs w' p \<noteq> None"
    using assms by (auto simp: fwrite_at_def next_io_def split: list.splits io_outcome.splits)
  show "quiet w \<Longrightarrow> r = None \<and> quiet w'" using assms by (auto simp: quiet_fwrite_at quiet_put_file)
  show "r = None \<Longrightarrow> sound w \<Longrightarrow> content w' p = overlay (content w p) off d"
    using fwrite_at_cases [OF assms] by (metis take_all)
  show "sound w \<Longrightarrow> sound w'" by (rule sound_fwrite_at [OF assms])
qed

lemma copy_frame_write:
  assumes "fwrite_at w mp off d = (r, w')" "unat (index_offset nh) \<le> off"
  shows "copy_frame nh mp w w'"
  using fwrite_at_effect(1-3,6) [OF assms(1)] assms(2)
  by (auto simp: copy_frame_def intro: keeps_mono [OF fwrite_at_keeps_outside [OF assms(1)]])

text \<open>A new file whose geometry is consistent and whose blocks up to the \<open>R\<close>-th record are reachable.\<close>

definition mig_geom :: "tsdb_header \<Rightarrow> nat \<Rightarrow> bool" where
  "mig_geom nh R \<longleftrightarrow>
     geom (rpb nh) (nparams nh) \<and> header_wf nh \<and> index_stride nh \<noteq> 0 \<and> TSDB_HDR_SIZE \<le> unat (index_offset nh) \<and>
     R < 2 ^ 32 \<and> block_pos nh (R div rpb nh) + TSDB_BLOCK_SIZE \<le> 2 ^ 32"

lemma index_write_effect:
  assumes "mig_geom nh R"
  shows "copy_frame nh mp w (index_write nh mp n ts w)"
    "keeps (\<lambda>i. data_start nh \<le> i) (content w mp) (content (index_write nh mp n ts w) mp)"
    "quiet w \<Longrightarrow> quiet (index_write nh mp n ts w)"
proof -
  let ?e = "n div index_stride nh" and ?d = "le32 ts @ le32 (n div ucast (records_per_block nh))"
  have "copy_frame nh mp w (index_write nh mp n ts w) \<and>
      keeps (\<lambda>i. data_start nh \<le> i) (content w mp) (content (index_write nh mp n ts w) mp) \<and>
      (quiet w \<longrightarrow> quiet (index_write nh mp n ts w))"
  proof (cases "n mod index_stride nh = 0 \<and> ?e < index_entries nh")
    case False
    then show ?thesis by (auto simp: index_write_def)
  next
    case True
    then have e: "unat ?e < unat (index_entries nh)" by (simp add: word_less_nat_alt)
    have "data_start nh \<le> block_pos nh (R div rpb nh)" by (rule data_start_le_block_pos)
    then have ds: "data_start nh < 4294967296" by (rule le_less_trans) (use assms in \<open>simp add: mig_geom_def\<close>)
    have m: "unat (?e * 8) = unat ?e * 8" using e ds by (subst unat_mult_no_wrap) (auto simp: data_start_def)
    then have pos: "unat (index_offset nh + ?e * 8) = unat (index_offset nh) + unat ?e * 8"
      using e ds by (subst unat_add_no_wrap) (auto simp: data_start_def)
    obtain r w' where f: "fwrite_at w mp (unat (index_offset nh) + unat ?e * 8) ?d = (r, w')" by fastforce
    have "index_write nh mp n ts w = w'" using True by (simp add: index_write_def pos f)
    moreover have "keeps (\<lambda>i. data_start nh \<le> i) (content w mp) (content w' mp)"
      by (rule keeps_mono [OF fwrite_at_keeps_outside [OF f]]) (use e in \<open>simp add: data_start_def\<close>)
    ultimately show ?thesis using copy_frame_write [OF f] fwrite_at_effect(4) [OF f] by simp
  qed
  then show "copy_frame nh mp w (index_write nh mp n ts w)"
    "keeps (\<lambda>i. data_start nh \<le> i) (content w mp) (content (index_write nh mp n ts w) mp)"
    "quiet w \<Longrightarrow> quiet (index_write nh mp n ts w)" by simp_all
qed

lemma place_record:
  assumes "geom (rpb nh) (nparams nh)" "length blk = TSDB_BLOCK_SIZE" "off < rpb nh" "length vals = nparams nh"
  shows "length (place_record nh blk off ts vals) = TSDB_BLOCK_SIZE"
    "TSDB_BLOCK_MAGIC (place_record nh blk off ts vals) = TSDB_BLOCK_MAGIC blk"
    "r < rpb nh \<Longrightarrow> block_row (rpb nh) (nparams nh) (place_record nh blk off ts vals) r =
      (if r = off then (ts, vals) else block_row (rpb nh) (nparams nh) blk r)"
proof -
  have e: "place_record nh blk off ts vals = set_block_count (put_row (rpb nh) (nparams nh) blk off (ts, vals)) (of_nat (off + 1))"
    by (simp add: place_record_def put_row_def)
  have l: "length (put_row (rpb nh) (nparams nh) blk off (ts, vals)) = TSDB_BLOCK_SIZE"
    using assms(1-3) by (rule length_put_row)
  show "length (place_record nh blk off ts vals) = TSDB_BLOCK_SIZE" by (simp add: e length_set_block l)
  show "TSDB_BLOCK_MAGIC (place_record nh blk off ts vals) = TSDB_BLOCK_MAGIC blk"
    using assms by (simp add: e magic_set_count l magic_put_row)
  show "block_row (rpb nh) (nparams nh) (place_record nh blk off ts vals) r =
      (if r = off then (ts, vals) else block_row (rpb nh) (nparams nh) blk r)" if "r < rpb nh"
    using assms that by (simp add: e block_row_set_count l block_row_put_row)
qed

lemma empty_block [simp]: "length empty_block = TSDB_BLOCK_SIZE" "TSDB_BLOCK_MAGIC empty_block = BLKT_MAGIC"
  by (simp_all add: empty_block_def length_set_block TSDB_BLOCK_MAGIC_def set_block_magic_def ld32_st32_same length_st32)

lemma slots_kept:
  assumes "keeps (\<lambda>i. data_start nh \<le> i) g g'" "\<forall>s < F. slot_ok nh g s \<and> slot_row nh g s = x s"
  shows "\<forall>s < F. slot_ok nh g' s \<and> slot_row nh g' s = x s"
proof -
  have "slot_ok nh g' s \<and> slot_row nh g' s = slot_row nh g s" if "slot_ok nh g s" for s
    using slot_keeps [OF assms(1) that] order_trans [OF data_start_le_block_pos] by blast
  with assms(2) show ?thesis by simp
qed

text \<open>A block written over the file: its own slots come from it, the slots of other blocks stay.\<close>

lemma flushed_block:
  assumes g: "\<forall>s < F. slot_ok nh g s \<and> slot_row nh g s = x s" and F: "F = b * rpb nh" and m: "m < F + rpb nh"
    and blk: "length blk = TSDB_BLOCK_SIZE" "TSDB_BLOCK_MAGIC blk = BLKT_MAGIC"
    and rows: "\<forall>s \<le> m. F \<le> s \<longrightarrow> block_row (rpb nh) (nparams nh) blk (s mod rpb nh) = x s"
    and pos: "block_pos nh b + TSDB_BLOCK_SIZE \<le> 2 ^ 32" "0 < rpb nh"
  shows "\<forall>s \<le> m. slot_ok nh (overlay g (block_pos nh b) blk) s \<and> slot_row nh (overlay g (block_pos nh b) blk) s = x s"
proof (intro allI impI)
  fix s
  assume s: "s \<le> m"
  let ?g = "overlay g (block_pos nh b) blk"
  show "slot_ok nh ?g s \<and> slot_row nh ?g s = x s"
  proof (cases "s < F")
    case True
    then have "s div rpb nh < b" using F pos(2) by (simp add: less_mult_imp_div_less)
    then have ne: "s div rpb nh \<noteq> b" by simp
    have k: "keeps (\<lambda>i. i < block_pos nh b \<or> block_pos nh b + 1024 \<le> i) g ?g"
      by (rule keeps_mono [OF keeps_overlay]) (use blk(1) in auto)
    have "i < block_pos nh b \<or> block_pos nh b + 1024 \<le> i"
      if "block_pos nh (s div rpb nh) \<le> i" "i < block_pos nh (s div rpb nh) + 1024" for i
      using block_pos_apart [OF ne, of nh] that by auto
    with slot_keeps [OF k, of nh s] g True show ?thesis by auto
  next
    case False
    then have sd: "s div rpb nh = b"
      using F m s by (intro div_nat_eqI) (simp_all add: mult.commute)
    have sb: "slot_block nh ?g s = blk" using blk(1) by (simp add: slot_block_def sd chunk_overlay_same)
    have "length ?g \<ge> block_pos nh b + 1024" using blk(1) by (auto simp: length_overlay)
    then have "slot_ok nh ?g s" using sb blk(2) pos(1) by (simp add: slot_ok_def sd)
    moreover have "slot_row nh ?g s = x s" using rows s False by (simp add: slot_row_def sb)
    ultimately show ?thesis by simp
  qed
qed

text \<open>The rows of the output block after the next record was placed in it.\<close>

lemma placed_rows:
  assumes g: "geom (rpb nh) (nparams nh)" and blk: "length blk = TSDB_BLOCK_SIZE" and l: "length vals = nparams nh"
    and x: "x m = (ts, vals)"
    and old: "\<forall>s < m. m div rpb nh * rpb nh \<le> s \<longrightarrow> block_row (rpb nh) (nparams nh) blk (s mod rpb nh) = x s"
  shows "\<forall>s \<le> m. m div rpb nh * rpb nh \<le> s \<longrightarrow>
    block_row (rpb nh) (nparams nh) (place_record nh blk (m mod rpb nh) ts vals) (s mod rpb nh) = x s"
proof (intro allI impI)
  let ?N = "rpb nh" and ?F = "m div rpb nh * rpb nh"
  fix s
  assume s: "s \<le> m" "?F \<le> s"
  have N: "0 < ?N" using g by (simp add: geom_def)
  then have r: "m mod ?N < ?N" "m < ?F + ?N" using dividend_less_div_times [OF N, of m] by (simp_all add: add.commute)
  have "block_row ?N (nparams nh) (place_record nh blk (m mod ?N) ts vals) (s mod ?N) =
      (if s mod ?N = m mod ?N then (ts, vals) else block_row ?N (nparams nh) blk (s mod ?N))"
    using N by (intro place_record(3) [OF g blk r(1) l]) simp
  moreover have "s = m" if "s mod ?N = m mod ?N"
  proof -
    have "s div ?N = m div ?N" using s r(2) by (intro div_nat_eqI) (simp_all add: mult.commute)
    with that show ?thesis by (metis div_mult_mod_eq)
  qed
  ultimately show "block_row ?N (nparams nh) (place_record nh blk (m mod ?N) ts vals) (s mod ?N) = x s"
    using s old x by (cases "s = m") auto
qed

text \<open>A block that is flushed at its last row or at the end of the copy: where it goes and what it completes.\<close>

lemma flush_position:
  assumes g: "mig_geom nh R" and m: "m < R" "unat k = m"
  shows "block_pos nh (m div rpb nh) + 1024 \<le> 2 ^ 32"
    "unat (index_offset nh + index_entries nh * 8 + k div ucast (records_per_block nh) * 1024) = block_pos nh (m div rpb nh)"
    "unat (index_offset nh) \<le> block_pos nh (m div rpb nh)"
proof -
  have bn: "unat (k div ucast (records_per_block nh)) = m div rpb nh" by (simp add: unat_div m(2) unat_u16_u32)
  have "m div rpb nh \<le> R div rpb nh" using m(1) by (intro div_le_mono) simp
  then show le: "block_pos nh (m div rpb nh) + 1024 \<le> 2 ^ 32"
    using block_pos_mono [of "m div rpb nh" "R div rpb nh" nh] g unfolding mig_geom_def by linarith
  show "unat (index_offset nh + index_entries nh * 8 + k div ucast (records_per_block nh) * 1024) = block_pos nh (m div rpb nh)"
    using calc_block_offset_exact [of nh "k div ucast (records_per_block nh)"] bn le by (simp add: tsdb_calc_block_offset_def)
  show "unat (index_offset nh) \<le> block_pos nh (m div rpb nh)"
    by (rule order_trans [OF _ data_start_le_block_pos]) (simp add: data_start_def)
qed

lemma flushed_count:
  assumes "m mod n = n - 1 \<or> final" "0 < n"
  shows "(if final then m + 1 else (m + 1) div n * n) = m + (1 :: nat)"
proof (cases final)
  case False
  with assms have "(m + 1) mod n = 0" by (simp add: mod_Suc)
  then show ?thesis using False div_mult_mod_eq [of "m + 1" n] by simp
qed simp

lemma append_record_step:
  assumes st: "out_ok nh mp x m (m div rpb nh * rpb nh) st" and g: "mig_geom nh R" and m: "m < R"
    and x: "x m = (ts, vals)" and lv: "length vals = nparams nh"
    and st': "st' = append_record nh mp ts vals st"
  shows "out_ok nh mp x (m + 1) (m div rpb nh * rpb nh) st'"
    "copy_frame nh mp (cp_world st) (cp_world st')" "cp_cache st' = cp_cache st" "cp_log st' = cp_log st"
    "cp_err st' = cp_err st" "quiet (cp_world st) \<Longrightarrow> quiet (cp_world st')"
proof -
  let ?N = "rpb nh" and ?n = "ucast (records_per_block nh) :: u32" and ?w = "cp_world st"
  let ?blk = "place_record nh (cp_blk st) (m mod ?N) ts vals"
  note o1 = st [unfolded out_ok_def Let_def]
  have gm: "geom ?N (nparams nh)" "0 < ?N" "R < 2 ^ 32"
    using g by (auto simp: mig_geom_def geom_def)
  have uw: "unat (cp_written st) = m" using o1 by simp
  have off: "unat (cp_written st mod ?n) = m mod ?N" by (simp add: unat_mod uw unat_u16_u32)
  have r: "m mod ?N < ?N" using gm(2) by simp
  have "length (cp_blk st) = TSDB_BLOCK_SIZE" using o1 by simp
  note pr = place_record(1,2) [OF gm(1) this r lv, where ts = ts]
  define w1 where "w1 = index_write nh mp (cp_written st) ts ?w"
  note iw = index_write_effect [OF g, where mp = mp and w = ?w and n = "cp_written st" and ts = ts, folded w1_def]
  have old: "\<forall>s < m div ?N * ?N. slot_ok nh (content w1 mp) s \<and> slot_row nh (content w1 mp) s = x s"
    by (rule slots_kept [OF iw(2)]) (use o1 in simp)
  have rows: "\<forall>s \<le> m. m div ?N * ?N \<le> s \<longrightarrow> block_row ?N (nparams nh) ?blk (s mod ?N) = x s"
    by (rule placed_rows [where x = x and m = m, OF gm(1) _ lv x]) (use o1 in simp_all)
  have inc: "unat (cp_written st + 1) = m + 1" using uw m gm(3) by (subst unat_inc_no_wrap) auto
  have z: "cp_written st = 0 \<longleftrightarrow> m = 0" using uw by (simp add: unat_eq_0 [symmetric])
  have e: "st' = st\<lparr>cp_blk := ?blk, cp_world := w1,
      cp_oldest := (if m = 0 then ts else cp_oldest st), cp_newest := ts, cp_written := cp_written st + 1\<rparr>"
    by (simp add: st' append_record_def off w1_def z)
  show "out_ok nh mp x (m + 1) (m div ?N * ?N) st'"
    using o1 old rows inc pr x by (auto simp: e out_ok_def Let_def less_Suc_eq_le)
  show "copy_frame nh mp ?w (cp_world st')" "cp_cache st' = cp_cache st" "cp_log st' = cp_log st"
    "cp_err st' = cp_err st" "quiet ?w \<Longrightarrow> quiet (cp_world st')"
    using iw(1,3) by (simp_all add: e)
qed

lemma flush_block_step:
  assumes st: "out_ok nh mp x (m + 1) (m div rpb nh * rpb nh) st" "sound (cp_world st)" and g: "mig_geom nh R" and m: "m < R"
    and ok: "cp_err st = ESP_OK" and st': "st' = flush_block nh mp st"
  shows "cp_err st' = ESP_OK \<Longrightarrow> out_ok nh mp x (m + 1) (m + 1) st'"
    "copy_frame nh mp (cp_world st) (cp_world st')" "cp_cache st' = cp_cache st" "cp_log st' = cp_log st"
    "quiet (cp_world st) \<Longrightarrow> quiet (cp_world st') \<and> cp_err st' = ESP_OK"
proof -
  let ?N = "rpb nh" and ?w = "cp_world st" and ?pos = "block_pos nh (m div rpb nh)"
  note o1 = st(1) [unfolded out_ok_def Let_def]
  have N: "0 < ?N" using g by (auto simp: mig_geom_def geom_def)
  have "1 \<le> unat (cp_written st)" using o1 by simp
  then have "unat (cp_written st - 1) = m" using o1 by (subst unat_sub_no_wrap) simp_all
  note fp = flush_position [OF g m this]
  obtain r w2 where f: "fwrite_at ?w mp ?pos (cp_blk st) = (r, w2)" by fastforce
  define err where "err = (case r of None \<Rightarrow> ESP_OK | Some ENOSPC \<Rightarrow> ESP_ERR_NO_MEM | Some _ \<Rightarrow> ESP_FAIL)"
  have err: "err = ESP_OK \<longleftrightarrow> r = None" by (simp add: err_def split: option.splits errno.splits)
  have e: "st' = st\<lparr>cp_world := w2, cp_err := err, cp_blk := (if r = None then empty_block else cp_blk st)\<rparr>"
    using ok by (simp add: st' flush_block_def Let_def fp(2) f err_def split: option.split errno.split)
  have mF: "m < m div ?N * ?N + ?N" using dividend_less_div_times [OF N, of m] by (simp add: add.commute)
  have new: "\<forall>s \<le> m. slot_ok nh (content w2 mp) s \<and> slot_row nh (content w2 mp) s = x s" if "r = None"
    using flushed_block [OF _ refl mF _ _ _ fp(1) N, where blk = "cp_blk st" and x = x and g = "content ?w mp"]
      o1 fwrite_at_effect(5) [OF f that st(2)] by (simp add: less_Suc_eq_le)
  show "cp_err st' = ESP_OK \<Longrightarrow> out_ok nh mp x (m + 1) (m + 1) st'"
    using o1 new err by (auto simp: e out_ok_def Let_def less_Suc_eq_le)
  show "copy_frame nh mp ?w (cp_world st')" "cp_cache st' = cp_cache st" "cp_log st' = cp_log st"
    "quiet ?w \<Longrightarrow> quiet (cp_world st') \<and> cp_err st' = ESP_OK"
    using copy_frame_write [OF f fp(3)] fwrite_at_effect(4) [OF f] err by (simp_all add: e)
qed

lemma copy_record_step:
  assumes st: "out_ok nh mp x m (m div rpb nh * rpb nh) st" "sound (cp_world st)" and g: "mig_geom nh R" and m: "m < R"
    and x: "x m = (ts, remap_row cols row)" and cols: "length cols = nparams nh" and ok: "cp_err st = ESP_OK"
    and st': "st' = copy_record nh mp cols final ts row st"
  shows "cp_err st' = ESP_OK \<Longrightarrow> out_ok nh mp x (m + 1) (if final then m + 1 else (m + 1) div rpb nh * rpb nh) st'"
    "copy_frame nh mp (cp_world st) (cp_world st')" "cp_cache st' = cp_cache st" "cp_log st' = cp_log st"
    "quiet (cp_world st) \<Longrightarrow> quiet (cp_world st') \<and> cp_err st' = ESP_OK"
proof -
  let ?N = "rpb nh"
  have N: "0 < ?N" using g by (auto simp: mig_geom_def geom_def)
  have off: "unat (cp_written st mod ucast (records_per_block nh)) = m mod ?N"
    using st(1) by (simp add: out_ok_def Let_def unat_mod unat_u16_u32)
  define st1 where "st1 = append_record nh mp ts (remap_row cols row) st"
  have lv: "length (remap_row cols row) = nparams nh" using cols by (simp add: remap_row_def)
  note a = append_record_step [OF st(1) g m x lv st1_def]
  have "(cp_err st' = ESP_OK \<longrightarrow> out_ok nh mp x (m + 1) (if final then m + 1 else (m + 1) div ?N * ?N) st') \<and>
    copy_frame nh mp (cp_world st) (cp_world st') \<and> cp_cache st' = cp_cache st \<and> cp_log st' = cp_log st \<and>
    (quiet (cp_world st) \<longrightarrow> quiet (cp_world st') \<and> cp_err st' = ESP_OK)"
  proof (cases "m mod ?N = ?N - 1 \<or> final")
    case False
    then have "st' = st1" by (simp add: st' copy_record_def off st1_def)
    moreover have "(m + 1) div ?N = m div ?N" using False N by (auto simp: div_Suc mod_Suc)
    ultimately show ?thesis using False a ok by simp
  next
    case True
    then have fl: "st' = flush_block nh mp st1" by (simp add: st' copy_record_def off st1_def)
    have "sound (cp_world st1)" using a(2) st(2) by (simp add: copy_frame_def)
    note f = flush_block_step [OF a(1) this g m a(5) [unfolded ok] fl]
    show ?thesis unfolding flushed_count [OF True N]
      using f a(2-4,6) copy_frame_trans by auto
  qed
  then show "cp_err st' = ESP_OK \<Longrightarrow> out_ok nh mp x (m + 1) (if final then m + 1 else (m + 1) div rpb nh * rpb nh) st'"
    "copy_frame nh mp (cp_world st) (cp_world st')" "cp_cache st' = cp_cache st" "cp_log st' = cp_log st"
    "quiet (cp_world st) \<Longrightarrow> quiet (cp_world st') \<and> cp_err st' = ESP_OK" by simp_all
qed

text \<open>The row that the \<open>s\<close>-th record of the new file should have: the newest \<open>R\<close> records, remapped.\<close>

definition target_row :: "tsdb \<Rightarrow> bytes \<Rightarrow> nat option list \<Rightarrow> nat \<Rightarrow> nat \<Rightarrow> row" where
  "target_row db f cols R s =
     (let r = full_row db f (avail (header db) - R + s) in (fst r, remap_row cols (snd r)))"

lemma out_ok_update [simp]:
  "out_ok nh mp x m F (st\<lparr>cp_cache := c\<rparr>) = out_ok nh mp x m F st"
  "out_ok nh mp x m F (st\<lparr>cp_log := l\<rparr>) = out_ok nh mp x m F st"
  by (simp_all add: out_ok_def)

lemma report_progress_fields [simp]:
  "out_ok nh mp x m F (report_progress on retain every st) = out_ok nh mp x m F st"
  "cp_world (report_progress on retain every st) = cp_world st" "cp_cache (report_progress on retain every st) = cp_cache st"
  "cp_err (report_progress on retain every st) = cp_err st"
  by (simp_all add: report_progress_def)

lemma final_position:
  assumes "unat k = avail h - R + m" "m < R" "R \<le> avail h"
  shows "k = retained_count h - 1 \<longleftrightarrow> m + 1 = R"
proof -
  have "unat (retained_count h - 1) = avail h - 1"
    using assms by (subst unat_sub_no_wrap) (simp_all add: retained_count)
  then show ?thesis using assms by (auto simp: word_unat_eq_iff)
qed

lemma copy_loop_result:
  assumes rd: "readable db w" and mp: "mp \<noteq> filepath db" and R: "R \<le> avail (header db)" and g: "mig_geom nh R"
    and cols: "length cols = nparams nh"
    and x: "x = target_row db (content w (filepath db)) cols R"
    and m: "m + n = R" "unat k = avail (header db) - R + m \<or> n = 0"
    and st: "cp_err st = ESP_OK \<Longrightarrow> out_ok nh mp x m (if m = R then R else m div rpb nh * rpb nh) st"
      "cache_ok (header db) (content w (filepath db)) (cp_cache st)" "content (cp_world st) (filepath db) = content w (filepath db)"
      "sound (cp_world st)"
    and st': "st' = copy_loop db (filepath db) nh mp cols (retained_count (header db)) prog k n st"
  shows "(cp_err st' = ESP_OK \<longrightarrow> out_ok nh mp x R R st') \<and> copy_frame nh mp (cp_world st) (cp_world st') \<and>
    (quiet (cp_world st) \<longrightarrow> cp_err st = ESP_OK \<longrightarrow> quiet (cp_world st') \<and> cp_err st' = ESP_OK)"
  using m st st'
proof (induction n arbitrary: m k st)
  case 0
  then show ?case by simp
next
  case (Suc n)
  let ?h = "header db" and ?f = "content w (filepath db)" and ?A = "retained_count (header db)"
  have mR: "m < R" and uk: "unat k = avail ?h - R + m" using Suc.prems(1,2) by auto
  then have ka: "unat k < avail ?h" using R by simp
  obtain on retain every where prog: "prog = (on, retain, every)" by (metis prod_cases3)
  obtain b blk where rr: "migrate_read_record db (filepath db) k ?A (cp_cache st) (cp_world st) =
      Some (fst (full_row db ?f (unat k)), snd (full_row db ?f (unat k)), b, blk)" "cache_ok ?h ?f (b, blk)"
    using read_record [OF rd ka Suc.prems(4-6)] by blast
  show ?case
  proof (cases "cp_err st = ESP_OK")
    case False
    then show ?thesis using Suc.prems(7) by simp
  next
    case ok: True
    define final where "final \<longleftrightarrow> k = ?A - 1"
    have fin: "final \<longleftrightarrow> m + 1 = R" unfolding final_def by (rule final_position [OF uk mR R])
    define st1 where "st1 = copy_record nh mp cols final (fst (full_row db ?f (unat k))) (snd (full_row db ?f (unat k))) (st\<lparr>cp_cache := (b, blk)\<rparr>)"
    have xm: "x m = (fst (full_row db ?f (unat k)), remap_row cols (snd (full_row db ?f (unat k))))"
      by (simp add: x target_row_def Let_def uk)
    have o1: "out_ok nh mp x m (m div rpb nh * rpb nh) (st\<lparr>cp_cache := (b, blk)\<rparr>)"
      using Suc.prems(3) [OF ok] mR by simp
    have ok1: "cp_err (st\<lparr>cp_cache := (b, blk)\<rparr>) = ESP_OK" using ok by simp
    have "sound (cp_world (st\<lparr>cp_cache := (b, blk)\<rparr>))" using Suc.prems(6) by simp
    note step = copy_record_step [OF o1 this g mR xm cols ok1 st1_def]
    define st2 where "st2 = report_progress on retain every st1"
    have o2: "out_ok nh mp x (m + 1) (if m + 1 = R then R else (m + 1) div rpb nh * rpb nh) st2" if "cp_err st2 = ESP_OK"
      using step(1) fin that by (simp add: st2_def split: if_splits)
    have fr: "copy_frame nh mp (cp_world st) (cp_world st2)" using step(2) by (simp add: st2_def)
    then have c2: "content (cp_world st2) (filepath db) = ?f" "sound (cp_world st2)"
      using mp Suc.prems(5,6) by (simp_all add: copy_frame_def content_def)
    have uk1: "unat (k + 1) = avail ?h - R + (m + 1) \<or> n = 0"
      using uk ka unat_u32_bound [of ?A] by (subst unat_inc_no_wrap) (auto simp: retained_count)
    have "st' = copy_loop db (filepath db) nh mp cols ?A prog (k + 1) n st2"
      using Suc.prems(7) ok rr(1) by (simp add: prog st2_def st1_def final_def)
    note ih = Suc.IH [OF _ uk1 o2 _ c2 this]
    have "(cp_err st' = ESP_OK \<longrightarrow> out_ok nh mp x R R st') \<and> copy_frame nh mp (cp_world st2) (cp_world st') \<and>
        (quiet (cp_world st2) \<longrightarrow> cp_err st2 = ESP_OK \<longrightarrow> quiet (cp_world st') \<and> cp_err st' = ESP_OK)"
      using step(3) rr(2) Suc.prems(1) by (intro ih) (simp_all add: st2_def)
    moreover have "quiet (cp_world st) \<Longrightarrow> quiet (cp_world st2) \<and> cp_err st2 = ESP_OK" using step(5) by (simp add: st2_def)
    ultimately show ?thesis using fr copy_frame_trans by blast
  qed
qed

section \<open>The copy as a whole\<close>

definition overlays :: "(nat \<times> bytes) list \<Rightarrow> bytes \<Rightarrow> bytes" where
  "overlays ws f = foldl (\<lambda>f (off, d). overlay f off d) f ws"

lemma write_all_effect:
  "write_all p ws w = (ok, w') \<Longrightarrow> dirs w' = dirs w \<and> (\<forall>q. q \<noteq> p \<longrightarrow> fs w' q = fs w q) \<and>
     (fs w p \<noteq> None \<longrightarrow> fs w' p \<noteq> None) \<and> (ok \<longrightarrow> sound w \<longrightarrow> content w' p = overlays ws (content w p)) \<and>
     (quiet w \<longrightarrow> ok \<and> quiet w') \<and> (sound w \<longrightarrow> sound w')"
proof (induction ws arbitrary: w)
  case Nil
  then show ?case by (auto simp: overlays_def)
next
  case (Cons x ws)
  obtain off d where x: "x = (off, d)" by fastforce
  obtain r w1 where f: "fwrite_at w p off d = (r, w1)" by fastforce
  note fe = fwrite_at_effect [OF f]
  show ?case
  proof (cases r)
    case None
    with Cons.prems have "write_all p ws w1 = (ok, w')" by (simp add: x f)
    from Cons.IH [OF this] fe None show ?thesis by (simp add: x overlays_def)
  next
    case (Some e)
    with Cons.prems fe show ?thesis by (auto simp: x f)
  qed
qed

lemma final_header_fields:
  assumes "unat (cp_written st) = R"
  shows "same_geom nh (final_header nh st)" "nrec (final_header nh st) = R" "max_records (final_header nh st) = max_records nh"
    "oldest_record_idx (final_header nh st) = 0" "config_part (final_header nh st) = config_part nh"
    "header_wf (final_header nh st) = header_wf nh"
  using assms by (simp_all add: final_header_def same_geom_def config_part_def header_wf_def)

text \<open>A header for the copied records over a file that holds them in order is a ring with exactly these rows.\<close>

lemma final_ring:
  assumes g: "mig_geom nh R" and h: "same_geom nh fh" "nrec fh = R" "max_records fh = 0 \<or> R \<le> cap fh" "oldest_record_idx fh = 0"
    and rows: "\<forall>s < R. slot_ok nh f s \<and> slot_row nh f s = x s"
  shows "ring_inv fh f" "retained fh f = map x [0..<R]"
proof -
  note gs = same_geom_simps [OF h(1)]
  have a: "avail fh = R" using h(2,3) by (auto simp: avail_def)
  have sl: "slot_of fh j = j" if "j < R" for j using h(3) that by (auto simp: slot_of_def)
  have "TSDB_HDR_SIZE \<le> data_start nh" using g by (simp add: mig_geom_def data_start_def)
  then show "ring_inv fh f"
    using g rows h a gs by (auto simp: ring_inv_def ring_hdr_def mig_geom_def)
  show "retained fh f = map x [0..<R]"
    using a sl h(2) rows gs by (simp add: retained_def)
qed

text \<open>The complete new file: its header, the extended names, and the newest \<open>R\<close> records in order.\<close>

definition new_file ::
  "tsdb \<Rightarrow> world \<Rightarrow> cstr list option \<Rightarrow> tsdb_header \<Rightarrow> nat option list \<Rightarrow> nat \<Rightarrow> tsdb_header \<Rightarrow> bytes \<Rightarrow> bool" where
  "new_file db w names nh cols R fh g \<longleftrightarrow>
     config_part fh = config_part nh \<and> nrec fh = R \<and> header_wf fh \<and> ring_inv fh g \<and>
     retained fh g = map (target_row db (content w (filepath db)) cols R) [0..<R] \<and>
     TSDB_HDR_SIZE \<le> length g \<and> chunk g 0 TSDB_HDR_SIZE = encode_header fh \<and>
     keeps (\<lambda>i. TSDB_HDR_SIZE \<le> i \<and> i < unat (index_offset nh)) (overlays (preamble db w names nh) []) g"

lemma new_file_header_write:
  assumes g: "mig_geom nh R" and o1: "out_ok nh mp (target_row db (content w (filepath db)) cols R) R R st"
    and pre: "content w1 mp = overlays (preamble db w names nh) []" and fr: "copy_frame nh mp w1 (cp_world st)"
    and lim: "max_records nh = 0 \<or> R \<le> cap nh"
    and f: "fwrite_at (cp_world st) mp 0 (encode_header (final_header nh st)) = (None, w')" "sound (cp_world st)"
  shows "new_file db w names nh cols R (final_header nh st) (content w' mp)"
proof -
  let ?x = "target_row db (content w (filepath db)) cols R" and ?fh = "final_header nh st" and ?g = "content (cp_world st) mp"
  note u = o1 [unfolded out_ok_def Let_def]
  have "unat (cp_written st) = R" using u by simp
  note ff = final_header_fields [OF this, of nh]
  have hw: "header_wf nh" and io: "TSDB_HDR_SIZE \<le> unat (index_offset nh)" using g by (simp_all add: mig_geom_def)
  have le: "length (encode_header ?fh) = TSDB_HDR_SIZE" using ff(6) hw by (simp add: length_encode_header)
  have cw: "content w' mp = overlay ?g 0 (encode_header ?fh)" by (rule fwrite_at_effect(5) [OF f(1) refl f(2)])
  have k: "keeps (\<lambda>i. TSDB_HDR_SIZE \<le> i) ?g (content w' mp)" unfolding cw by (rule keeps_mono [OF keeps_overlay]) (simp add: le)
  have rows: "\<forall>s < R. slot_ok nh (content w' mp) s \<and> slot_row nh (content w' mp) s = ?x s"
    by (rule slots_kept [of nh ?g]) (use u io in \<open>auto simp: data_start_def intro: keeps_mono [OF k]\<close>)
  have mx: "max_records ?fh = 0 \<or> R \<le> cap ?fh" using lim ff(3) by simp
  note ring = final_ring [OF g ff(1,2) mx ff(4) rows]
  have "keeps (\<lambda>i. TSDB_HDR_SIZE \<le> i \<and> i < unat (index_offset nh)) (overlays (preamble db w names nh) []) (content w' mp)"
    using fr k by (auto simp: copy_frame_def pre keeps_def)
  then show ?thesis
    using ff hw ring le by (auto simp: new_file_def cw chunk_overlay_same length_overlay)
qed

text \<open>The copy, whatever fails: only the new file changes, and if the copy reports success it is complete.\<close>

text \<open>The commit changes the header only, and succeeds exactly when copy and header write did.\<close>

lemma commit_copy_result:
  assumes c: "commit_copy nh mp st = (err, fh, w')" and some: "fs (cp_world st) mp \<noteq> None"
  shows "dirs w' = dirs (cp_world st)" "q \<noteq> mp \<Longrightarrow> fs w' q = fs (cp_world st) q" "fs w' mp \<noteq> None"
    "quiet (cp_world st) \<Longrightarrow> cp_err st = ESP_OK \<Longrightarrow> err = ESP_OK \<and> quiet w'"
    "err = ESP_OK \<Longrightarrow> cp_err st = ESP_OK \<and> fh = final_header nh st \<and>
       fwrite_at (cp_world st) mp 0 (encode_header fh) = (None, w')"
proof -
  obtain r w2 where f: "fwrite_at (cp_world st) mp 0 (encode_header (final_header nh st)) = (r, w2)" by fastforce
  note fe = fwrite_at_effect [OF f]
  show "dirs w' = dirs (cp_world st)" "q \<noteq> mp \<Longrightarrow> fs w' q = fs (cp_world st) q" "fs w' mp \<noteq> None"
    "quiet (cp_world st) \<Longrightarrow> cp_err st = ESP_OK \<Longrightarrow> err = ESP_OK \<and> quiet w'"
    "err = ESP_OK \<Longrightarrow> cp_err st = ESP_OK \<and> fh = final_header nh st \<and>
       fwrite_at (cp_world st) mp 0 (encode_header fh) = (None, w')"
    using c some fe f by (auto simp: commit_copy_def split: if_splits option.splits)
qed

lemma engine_copy_result:
  fixes n :: u8
  assumes rd: "readable db w" and p: "p = filepath db" and mp: "mp = mig_path p" "mp \<noteq> p" "fs w mp = Some []"
    and nh: "nh = migrated_header db w names n new_max entries" and g: "mig_geom nh (unat retain)"
    and R: "unat retain \<le> avail (header db)" "new_max = 0 \<or> unat retain \<le> unat new_max" and cols: "length cols = nparams nh"
    and run: "engine_copy db p names n cols opts (retain, new_max, entries) w = (err, fh, log, w')"
  shows "dirs w' = dirs w" "q \<noteq> mp \<Longrightarrow> fs w' q = fs w q" "fs w' mp \<noteq> None" "quiet w \<Longrightarrow> err = ESP_OK \<and> quiet w'"
    "err = ESP_OK \<Longrightarrow> new_file db w names nh cols (unat retain) fh (content w' mp)"
proof -
  let ?h = "header db" and ?R = "unat retain" and ?f = "content w p" and ?A = "retained_count (header db)"
  let ?x = "target_row db ?f cols ?R" and ?prog = "progress_step opts retain" and ?skip = "?A - retain"
  have sw: "sound w" using rd by (simp add: readable_def db_inv_def)
  obtain ok w1 where wa: "write_all mp (preamble db w names nh) w = (ok, w1)" by fastforce
  have pre: "dirs w1 = dirs w" "\<forall>q. q \<noteq> mp \<longrightarrow> fs w1 q = fs w q" "fs w1 mp \<noteq> None" "quiet w \<longrightarrow> ok \<and> quiet w1"
    "ok \<longrightarrow> content w1 mp = overlays (preamble db w names nh) []" "sound w1"
    using write_all_effect [OF wa] mp(3) sw by (auto simp: content_def)
  define st where "st = \<lparr> cp_world = w1, cp_cache = ([] :: bytes, 0xFFFFFFFF :: u32), cp_blk = empty_block, cp_written = 0, cp_oldest = 0,
      cp_newest = 0, cp_err = (if ok then ESP_OK else ESP_FAIL), cp_log = (if fst ?prog then [(0, retain)] else []) \<rparr>"
  define st' where "st' = copy_loop db p nh mp cols ?A ?prog ?skip (unat ?A - unat ?skip) st"
  have us: "unat ?skip = avail ?h - ?R" using R(1) by (subst unat_sub_no_wrap) (simp_all add: retained_count)
  then have n: "unat ?A - unat ?skip = ?R" using R(1) by (simp add: retained_count)
  have c1: "content w1 p = ?f" using pre(2) mp(2) by (simp add: content_def)
  have loop: "(cp_err st' = ESP_OK \<longrightarrow> out_ok nh mp ?x ?R ?R st') \<and> copy_frame nh mp (cp_world st) (cp_world st') \<and>
      (quiet (cp_world st) \<longrightarrow> cp_err st = ESP_OK \<longrightarrow> quiet (cp_world st') \<and> cp_err st' = ESP_OK)"
    by (rule copy_loop_result [OF rd mp(2) [unfolded p] R(1) g cols _ _ _ _ _ _ _ st'_def [unfolded n p], where m = 0])
      (use us c1 pre(6) in \<open>auto simp: p st_def out_ok_def Let_def cache_ok_def\<close>)
  then have fr: "copy_frame nh mp w1 (cp_world st')" by (simp add: st_def)
  then have sound_st: "sound (cp_world st')" using pre(6) by (simp add: copy_frame_def)
  define out where "out = (if fst ?prog then cp_log st' @ [(cp_written st', retain)] else cp_log st')"
  have wa2: "write_all (mig_path (filepath db)) (preamble db w names (migrated_header db w names n new_max entries)) w = (ok, w1)"
    using wa by (simp only: mp(1) p nh)
  have e: "engine_copy db p names n cols opts (retain, new_max, entries) w =
      (case commit_copy nh mp st' of (err, fh, w) \<Rightarrow> (err, fh, out, w))"
    by (simp only: engine_copy_def Let_def prod.case wa2 out_def st'_def st_def mp(1) p nh)
  have c: "commit_copy nh mp st' = (err, fh, w')" using run unfolding e by (auto split: prod.splits)
  have some: "fs (cp_world st') mp \<noteq> None" using fr pre(3) by (auto simp: copy_frame_def)
  note cc = commit_copy_result [OF c some]
  show "dirs w' = dirs w" "fs w' mp \<noteq> None" "q \<noteq> mp \<Longrightarrow> fs w' q = fs w q"
    using cc(1-3) fr pre(1,2) by (auto simp: copy_frame_def)
  show "quiet w \<Longrightarrow> err = ESP_OK \<and> quiet w'"
    using cc(4) loop pre(4) by (auto simp: st_def)
  assume "err = ESP_OK"
  note cc5 = cc(5) [OF this]
  have "cp_err st = ESP_OK"
  proof (rule ccontr)
    assume ne: "cp_err st \<noteq> ESP_OK"
    then have "st' = st" by (cases "unat ?A - unat ?skip") (simp_all add: st'_def)
    with cc5 ne show False by simp
  qed
  then have ok by (simp add: st_def split: if_splits)
  then have "content w1 mp = overlays (preamble db w names nh) []" using pre(5) by simp
  moreover have "max_records nh = 0 \<or> ?R \<le> cap nh" using R(2) by (auto simp: nh migrated_header_def)
  ultimately show "new_file db w names nh cols ?R fh (content w' mp)"
    using loop cc5 fr sound_st by (auto intro!: new_file_header_write [OF g] simp: p)
qed

text \<open>The end of the new file: its header region, the index, and the blocks of \<open>R\<close> records.\<close>

definition new_file_end :: "u8 \<Rightarrow> u32 \<Rightarrow> nat \<Rightarrow> nat" where
  "new_file_end n entries R =
     unat (mig_index_offset n) + 8 * unat entries + 1024 * (R div unat (blocks_records n) + 1)"

lemma migrated_header_fields:
  "num_params (migrated_header db w names n new_max entries) = n"
  "records_per_block (migrated_header db w names n new_max entries) = blocks_records n"
  "index_offset (migrated_header db w names n new_max entries) = mig_index_offset n"
  "index_entries (migrated_header db w names n new_max entries) = entries"
  "index_stride (migrated_header db w names n new_max entries) = index_stride (header db)"
  "max_records (migrated_header db w names n new_max entries) = new_max"
  "magic (migrated_header db w names n new_max entries) = TSDB_MAGIC"
  "extra_param_count (migrated_header db w names n new_max entries) = 0"
  "header_wf (migrated_header db w names n new_max entries)"
proof -
  let ?f = "\<lambda>i. if i < unat n then name_field 32 (new_name_or_empty db w names i) else replicate 32 0"
  have "length (concat (map ?f [0..<16])) = length [0..<16] * 32" by (rule length_concat_equal) simp
  then show "header_wf (migrated_header db w names n new_max entries)"
    by (simp add: migrated_header_def header_wf_def zero_header_def)
qed (simp_all add: migrated_header_def zero_header_def)

lemma migrated_geom:
  assumes "n \<noteq> 0" "n \<le> 64" "index_stride (header db) \<noteq> 0" "R < 2 ^ 32" "new_file_end n entries R \<le> 2 ^ 32"
  shows "mig_geom (migrated_header db w names n new_max entries) R"
  using assms config_geom [OF assms(1,2)]
  by (simp add: mig_geom_def migrated_header_fields new_file_end_def block_pos_def data_start_def)
    (simp add: mig_index_offset_def)

lemma param_name_cong:
  assumes "content w' p = content w p" "sound w" "sound w'" "db_file db = Some p"
  shows "tsdb_get_param_name_h (Some db) i w' = tsdb_get_param_name_h (Some db) i w"
  using assms by (simp add: tsdb_get_param_name_h_def read_name_def fread_at_sound Let_def)

lemma migrated_header_cong:
  assumes "content w' p = content w p" "sound w" "sound w'" "db_file db = Some p"
  shows "migrated_header db w' names n new_max entries = migrated_header db w names n new_max entries"
    "preamble db w' names nh = preamble db w names nh"
proof -
  have "new_name_or_empty db w' names = new_name_or_empty db w names"
    by (simp add: fun_eq_iff new_name_or_empty_def engine_new_name_def param_name_cong [OF assms] split: option.split)
  then show "migrated_header db w' names n new_max entries = migrated_header db w names n new_max entries"
    "preamble db w' names nh = preamble db w names nh"
    by (simp_all only: migrated_header_def preamble_def)
qed

text \<open>The other operations on files, whatever becomes of them.\<close>

lemma unlink_effect:
  assumes "snd (unlink_file w p) = w'"
  shows "dirs w' = dirs w" "q \<noteq> p \<Longrightarrow> fs w' q = fs w q" "fs w' p = fs w p \<or> fs w' p = None" "quiet w \<Longrightarrow> quiet w' \<and> fs w' p = None"
    "sound w \<Longrightarrow> sound w'"
proof -
  show "dirs w' = dirs w" "q \<noteq> p \<Longrightarrow> fs w' q = fs w q" "fs w' p = fs w p \<or> fs w' p = None" "quiet w \<Longrightarrow> quiet w' \<and> fs w' p = None"
    using assms by (auto simp: unlink_file_def next_io_def quiet_def split: list.splits if_splits)
  show "sound w \<Longrightarrow> sound w'" using assms sound_files(4) by (metis prod.collapse)
qed

lemma malloc_effect:
  assumes "malloc_ok w = (ok, w')"
  shows "fs w' = fs w" "dirs w' = dirs w" "quiet w \<Longrightarrow> ok \<and> quiet w'" "sound w \<Longrightarrow> sound w'"
  using assms sound_scripts(1) [OF assms] by (auto simp: malloc_ok_def quiet_def split: list.splits)

lemma fopen_trunc_effect:
  assumes "fopen_trunc w p = (ok, w')"
  shows "dirs w' = dirs w" "q \<noteq> p \<Longrightarrow> fs w' q = fs w q" "ok \<Longrightarrow> fs w' p = Some []" "quiet w \<Longrightarrow> dirs w (parent_dir p) \<Longrightarrow> ok \<and> quiet w'"
    "sound w \<Longrightarrow> sound w'"
  using assms sound_files(2) [OF assms] by (auto simp: fopen_trunc_def next_io_def quiet_def put_file_def split: list.splits if_splits)

lemma rename_effect:
  assumes "rename_file w a b = (ok, w')" "a \<noteq> b"
  shows "dirs w' = dirs w" "ok \<Longrightarrow> fs w a \<noteq> None \<and> fs w' = (fs w)(b := fs w a, a := None)" "\<not> ok \<Longrightarrow> fs w' = fs w"
    "quiet w \<Longrightarrow> fs w a \<noteq> None \<Longrightarrow> ok \<and> quiet w'"
  using assms by (auto simp: rename_file_def next_io_def quiet_def split: list.splits if_splits)

lemma fopen_existing_effect:
  assumes "fopen_existing w p = (ok, w')"
  shows "fs w' = fs w" "dirs w' = dirs w" "quiet w \<Longrightarrow> fs w p \<noteq> None \<Longrightarrow> ok \<and> quiet w'"
  using assms by (auto simp: fopen_existing_def next_io_def quiet_def split: list.splits)

text \<open>
  The swap: either the original is still there (the swap failed), or the new file has taken its
  place, or it waits under its own name with no original (the swap failed in between).
\<close>

lemma engine_swap_result:
  assumes "fs w mp = Some g" "mp = mig_path (filepath db)" "mp \<noteq> filepath db"
    and run: "engine_swap db nh w = (err, db', w')"
  shows "dirs w' = dirs w" "q \<noteq> filepath db \<Longrightarrow> q \<noteq> mp \<Longrightarrow> fs w' q = fs w q" "quiet w \<Longrightarrow> err = ESP_OK \<and> quiet w'"
    "err = ESP_OK \<Longrightarrow> db' = adopt_schema db nh \<and> fs w' (filepath db) = Some g \<and> fs w' mp = None"
    "(fs w' (filepath db) = fs w (filepath db) \<and> err \<noteq> ESP_OK) \<or> (fs w' (filepath db) = Some g \<and> fs w' mp = None) \<or>
     (fs w' (filepath db) = None \<and> fs w' mp = Some g \<and> err \<noteq> ESP_OK)"
proof -
  let ?p = "filepath db"
  obtain w1 where u: "snd (unlink_file w ?p) = w1" by blast
  obtain ok w2 where r: "rename_file w1 mp ?p = (ok, w2)" by fastforce
  obtain ok2 w3 where f: "fopen_existing w2 ?p = (ok2, w3)" by fastforce
  note ue = unlink_effect [OF u] and re = rename_effect [OF r assms(3)] and fe = fopen_existing_effect [OF f]
  have g1: "fs w1 mp = Some g" using ue(2) [of mp] assms(1,3) by simp
  have res: "err = (if ok \<and> ok2 then ESP_OK else ESP_FAIL)" "w' = (if ok then w3 else w2)"
    "ok \<and> ok2 \<Longrightarrow> db' = adopt_schema db nh"
    using run u r f by (cases ok; cases ok2; auto simp: engine_swap_def Let_def assms(2))+
  show "dirs w' = dirs w" using res(2) ue(1) re(1) fe(2) by simp
  show "q \<noteq> ?p \<Longrightarrow> q \<noteq> mp \<Longrightarrow> fs w' q = fs w q" using res(2) ue(2) re(2,3) fe(1) by (cases ok) auto
  show "quiet w \<Longrightarrow> err = ESP_OK \<and> quiet w'" using res(1,2) ue(4) re(2,4) fe(3) g1 assms(3) by auto
  show "err = ESP_OK \<Longrightarrow> db' = adopt_schema db nh \<and> fs w' ?p = Some g \<and> fs w' mp = None"
    using res re(2) fe(1) g1 assms(3) by (auto split: if_splits)
  show "(fs w' ?p = fs w ?p \<and> err \<noteq> ESP_OK) \<or> (fs w' ?p = Some g \<and> fs w' mp = None) \<or>
     (fs w' ?p = None \<and> fs w' mp = Some g \<and> err \<noteq> ESP_OK)"
    using res re(2,3) fe(1) g1 ue(3) assms(3) by (cases ok) auto
qed

lemma readable_cong:
  assumes "readable db w" "fs w' (filepath db) = fs w (filepath db)" "sound w'"
  shows "readable db w'" "content w' (filepath db) = content w (filepath db)"
proof -
  show c: "content w' (filepath db) = content w (filepath db)" using assms(2) by (simp add: content_def)
  show "readable db w'" using assms(1,3) by (auto simp: readable_def db_inv_def extras_wf_def Let_def c)
qed

text \<open>
  The rewrite under any pattern of failures: either it reports an error and the original file is
  as before, or the complete new file exists, in the original's place or, after a swap that
  failed half way, still under its own name.
\<close>

definition rewritten :: "esp_err \<Rightarrow> tsdb \<Rightarrow> world \<Rightarrow> (tsdb_header \<Rightarrow> bytes \<Rightarrow> bool) \<Rightarrow> tsdb \<Rightarrow> world \<Rightarrow> bool" where
  "rewritten err db w complete db' w' \<longleftrightarrow>
     (let p = filepath db; mp = mig_path p
      in (fs w' p = fs w p \<and> err \<noteq> ESP_OK) \<or>
         (\<exists>fh f. complete fh f \<and> (err = ESP_OK \<longrightarrow> db' = adopt_schema db fh) \<and>
            (fs w' p = Some f \<and> fs w' mp = None \<or> fs w' p = None \<and> fs w' mp = Some f \<and> err \<noteq> ESP_OK)))"

lemma engine_finish_result:
  fixes n :: u8
  assumes rd: "readable db w" and p: "p = filepath db" and mp: "mp = mig_path p" "mp \<noteq> p" "fs w mp = Some []"
    and nh: "nh = migrated_header db w names n new_max entries" and g: "mig_geom nh (unat retain)"
    and R: "unat retain \<le> avail (header db)" "new_max = 0 \<or> unat retain \<le> unat new_max" and cols: "length cols = nparams nh"
    and run: "(case engine_copy db p names n cols opts (retain, new_max, entries) w of
        (err, nh, log, w) \<Rightarrow>
          if err \<noteq> ESP_OK then (err, quit, log, snd (unlink_file w mp))
          else (case engine_swap db nh w of (r, db, w) \<Rightarrow> (r, db, log, w))) = (err, db', log, w')"
  shows "dirs w' = dirs w" "q \<noteq> p \<Longrightarrow> q \<noteq> mp \<Longrightarrow> fs w' q = fs w q" "quiet w \<Longrightarrow> err = ESP_OK \<and> quiet w'"
    "rewritten err db w (new_file db w names nh cols (unat retain)) db' w'"
proof -
  obtain e1 fh l1 w1 where c: "engine_copy db p names n cols opts (retain, new_max, entries) w = (e1, fh, l1, w1)" by (metis prod_cases4)
  note ce = engine_copy_result [OF rd p mp(1-3) nh g R cols c]
  have p1: "fs w1 p = fs w p" using ce(2) mp(2) by simp
  obtain f where f: "fs w1 mp = Some f" using ce(3) by auto
  have "dirs w' = dirs w \<and> (q \<noteq> p \<longrightarrow> q \<noteq> mp \<longrightarrow> fs w' q = fs w q) \<and> (quiet w \<longrightarrow> err = ESP_OK \<and> quiet w') \<and>
    rewritten err db w (new_file db w names nh cols (unat retain)) db' w'"
  proof (cases "e1 = ESP_OK")
    case False
    then have r: "err = e1" "snd (unlink_file w1 mp) = w'" using run c by simp_all
    note ue = unlink_effect [OF r(2)]
    have "fs w' p = fs w p" using ue(2) [of p] mp(2) p1 by simp
    then show ?thesis using False r(1) ue(1,2) ce(1,2,4) by (auto simp: rewritten_def Let_def p)
  next
    case True
    have sw: "engine_swap db fh w1 = (err, db', w')" using run c True by (auto split: prod.splits)
    note se = engine_swap_result [OF f mp(1) [unfolded p] mp(2) [unfolded p] sw]
    have nf: "new_file db w names nh cols (unat retain) fh f" using ce(5) True f by (simp add: content_def)
    have "rewritten err db w (new_file db w names nh cols (unat retain)) db' w'"
      using se(4,5) nf p1 unfolding rewritten_def Let_def p [symmetric] mp(1) [symmetric] by auto
    then show ?thesis using se(1-3) ce(1,2,4) p by auto
  qed
  then show "dirs w' = dirs w" "q \<noteq> p \<Longrightarrow> q \<noteq> mp \<Longrightarrow> fs w' q = fs w q" "quiet w \<Longrightarrow> err = ESP_OK \<and> quiet w'"
    "rewritten err db w (new_file db w names nh cols (unat retain)) db' w'" by simp_all
qed

lemma engine_rewrite_result:
  fixes n :: u8
  assumes rd: "readable db w" and p: "p = filepath db" and mp: "mig_path p \<noteq> p"
    and nh: "nh = migrated_header db w names n new_max entries" and g: "mig_geom nh (unat retain)"
    and R: "unat retain \<le> avail (header db)" "new_max = 0 \<or> unat retain \<le> unat new_max" and cols: "length cols = unat n"
    and run: "engine_rewrite db p names n cols opts (retain, new_max, entries) w = (err, db', log, w')"
  shows "dirs w' = dirs w" "q \<noteq> p \<Longrightarrow> q \<noteq> mig_path p \<Longrightarrow> fs w' q = fs w q"
    "quiet w \<Longrightarrow> dirs w (parent_dir (mig_path p)) \<Longrightarrow> err = ESP_OK \<and> quiet w'"
    "rewritten err db w (new_file db w names nh cols (unat retain)) db' w'"
proof -
  let ?mp = "mig_path p"
  obtain w0 where u: "snd (unlink_file w ?mp) = w0" by blast
  obtain ok1 wa where m1: "malloc_ok w0 = (ok1, wa)" by fastforce
  obtain ok2 wb where m2: "malloc_ok wa = (ok2, wb)" by fastforce
  obtain ok3 w2 where ft: "fopen_trunc wb ?mp = (ok3, w2)" by fastforce
  note ue = unlink_effect [OF u] and me = malloc_effect [OF m1] malloc_effect [OF m2] and te = fopen_trunc_effect [OF ft]
  have f2: "fs w2 p = fs w p" "dirs w2 = dirs w" "\<And>q. q \<noteq> ?mp \<Longrightarrow> fs w2 q = fs w q" "ok3 \<Longrightarrow> fs w2 ?mp = Some []"
    using mp ue(1,2) me(1,2,5,6) te(1-3) by simp_all
  have sw: "sound w" using rd by (simp add: readable_def db_inv_def)
  then have s2: "sound w2" using ue(5) me(4,8) te(5) by blast
  have q2: "ok1 \<and> ok2 \<and> ok3 \<and> quiet w2" if "quiet w" "dirs w (parent_dir ?mp)"
    using that ue(1,4) me(2,3,6,7) te(4) by simp
  let ?finish = "\<lambda>w2. case engine_copy db p names n cols opts (retain, new_max, entries) w2 of
      (err, nh, log, w) \<Rightarrow>
        if err \<noteq> ESP_OK then (err, db\<lparr>migrating := False\<rparr>, log, snd (unlink_file w ?mp))
        else (case engine_swap db nh w of (r, db, w) \<Rightarrow> (r, db, log, w))"
  have start: "engine_rewrite db p names n cols opts (retain, new_max, entries) w =
      (if \<not> ok1 \<or> \<not> ok2 \<or> \<not> ok3
       then (ESP_ERR_NO_MEM, db\<lparr>migrating := False\<rparr>, [], if ok3 then snd (unlink_file w2 ?mp) else w2) else ?finish w2)"
    unfolding engine_rewrite_def engine_finish_def Let_def p by (simp only: u [unfolded p] m1 m2 ft [unfolded p] prod.case)
  have "dirs w' = dirs w \<and> (q \<noteq> p \<longrightarrow> q \<noteq> ?mp \<longrightarrow> fs w' q = fs w q) \<and>
    (quiet w \<longrightarrow> dirs w (parent_dir ?mp) \<longrightarrow> err = ESP_OK \<and> quiet w') \<and>
    rewritten err db w (new_file db w names nh cols (unat retain)) db' w'"
  proof (cases "ok1 \<and> ok2 \<and> ok3")
    case False
    then have r: "err = ESP_ERR_NO_MEM" "w' = (if ok3 then snd (unlink_file w2 ?mp) else w2)" using run start by auto
    note ue2 = unlink_effect [OF refl, where w = w2 and p = ?mp]
    have "fs w' p = fs w p" "dirs w' = dirs w" "q \<noteq> ?mp \<Longrightarrow> fs w' q = fs w q"
      using r(2) f2(1-3) ue2(1) ue2(2) mp by auto
    then show ?thesis using False q2 r(1) by (auto simp: rewritten_def Let_def p)
  next
    case True
    note r2 = readable_cong [OF rd f2(1) [unfolded p] s2, folded p]
    have df: "db_file db = Some p" using rd p by (simp add: readable_def db_inv_def)
    note nc = migrated_header_cong [OF r2(2) sw s2 df]
    have nh2: "nh = migrated_header db w2 names n new_max entries" by (simp add: nh nc(1))
    have cl: "length cols = nparams nh" using cols by (simp add: nh migrated_header_fields)
    have fin: "?finish w2 = (err, db', log, w')" using run start True by simp
    note er = engine_finish_result [OF r2(1) p refl mp _ nh2 g R cl fin, OF f2(4)]
    have "new_file db w2 names nh cols (unat retain) = new_file db w names nh cols (unat retain)"
      using r2(2) nc(2) p by (simp add: new_file_def fun_eq_iff)
    moreover have "rewritten err db w2 c db' w' = rewritten err db w c db' w'" for c
      using f2(1) p by (simp add: rewritten_def Let_def)
    ultimately show ?thesis using er True f2(2,3) q2 by auto
  qed
  then show "dirs w' = dirs w" "q \<noteq> p \<Longrightarrow> q \<noteq> ?mp \<Longrightarrow> fs w' q = fs w q"
    "quiet w \<Longrightarrow> dirs w (parent_dir ?mp) \<Longrightarrow> err = ESP_OK \<and> quiet w'"
    "rewritten err db w (new_file db w names nh cols (unat retain)) db' w'" by simp_all
qed

text \<open>When nothing fails.\<close>

lemma engine_rewrite_ok:
  fixes n :: u8
  assumes q: "quiet w" and rd: "readable db w" and p: "p = filepath db" and mp: "mig_path p \<noteq> p" "dirs w (parent_dir (mig_path p))"
    and nh: "nh = migrated_header db w names n new_max entries" and g: "mig_geom nh (unat retain)"
    and R: "unat retain \<le> avail (header db)" "new_max = 0 \<or> unat retain \<le> unat new_max" and cols: "length cols = unat n"
  obtains fh log w' where "engine_rewrite db p names n cols opts (retain, new_max, entries) w = (ESP_OK, adopt_schema db fh, log, w')"
    "quiet w'" "dirs w' = dirs w" "\<And>q. q \<noteq> p \<Longrightarrow> q \<noteq> mig_path p \<Longrightarrow> fs w' q = fs w q" "fs w' (mig_path p) = None"
    "new_file db w names nh cols (unat retain) fh (content w' p)"
proof -
  obtain err db' log w' where run: "engine_rewrite db p names n cols opts (retain, new_max, entries) w = (err, db', log, w')"
    by (metis prod_cases4)
  note r = engine_rewrite_result [OF rd p mp(1) nh g R cols run]
  have e: "err = ESP_OK" "quiet w'" using r(3) [OF q mp(2)] by simp_all
  obtain fh f where f: "new_file db w names nh cols (unat retain) fh f" "db' = adopt_schema db fh" "fs w' p = Some f"
    "fs w' (mig_path p) = None"
    using r(4) e(1) unfolding rewritten_def Let_def p [symmetric] by auto
  then have "new_file db w names nh cols (unat retain) fh (content w' p)" by (simp add: content_def)
  with f(2) e run r(2) show ?thesis by (intro that [of fh log w'] r(1) f(4)) auto
qed

end
