(* ===== verification/Tsdb_Schema.thy ===== *)
theory Tsdb_Schema
  imports Tsdb_Migrate
begin

text \<open>
  What \<open>tsdb_migrate_schema_h\<close> and \<open>tsdb_resize_h\<close> of \<open>src/tsdb_migrate.c\<close> promise: after a
  migration every retained record is there with its values under the new column list, found
  by name; a resize is the truncation of the queue to its newest records; whatever fails, the
  data survives in the original or in the new file. The last section shows what a sidecar
  that is left behind does to a resized database.
\<close>

section \<open>The names of the new columns\<close>

lemma take_eq_Cons: "take n xs = [x] \<Longrightarrow> 1 < n \<Longrightarrow> xs = [x]"
  by (cases xs; cases n) (auto simp: take_eq_Nil)

text \<open>Names are stored in fields of 32 bytes (the first 16) or 20 bytes, the last byte being NUL.\<close>

definition name_width :: "nat \<Rightarrow> nat" where
  "name_width i = (if i < 16 then 31 else 19)"

definition column_name :: "tsdb \<Rightarrow> world \<Rightarrow> nat \<Rightarrow> cstr option" where
  "column_name db w i = tsdb_get_param_name_h (Some db) (of_nat i) w"

lemma upt_split: "m \<le> i \<Longrightarrow> i < n \<Longrightarrow> [m..<n] = [m..<i] @ i # [Suc i..<n]"
  using upt_add_eq_append [of m i "n - i"] upt_conv_Cons [of i n] by simp

lemma overlays_chunk:
  assumes "ws = a @ (off, d) # b" "d \<noteq> []"
    and "\<And>off' d'. (off', d') \<in> set b \<Longrightarrow> off + length d \<le> off' \<or> off' + length d' \<le> off"
  shows "chunk (overlays ws f) off (length d) = d \<and> off + length d \<le> length (overlays ws f)"
  using assms
proof (induction b arbitrary: ws rule: rev_induct)
  case Nil
  then show ?case by (auto simp: overlays_def chunk_overlay_same length_overlay)
next
  case (snoc x b)
  obtain off' d' where x: "x = (off', d')" by fastforce
  let ?g = "overlays (a @ (off, d) # b) f"
  have g: "chunk ?g off (length d) = d" "off + length d \<le> length ?g" using snoc.IH [OF refl snoc.prems(2)] snoc.prems(3) by simp_all
  have "overlays ws f = overlay ?g off' d'" by (simp add: snoc.prems(1) overlays_def x)
  moreover have "off + length d \<le> off' \<or> off' + length d' \<le> off" using snoc.prems(3) x by simp
  ultimately show ?case using g by (auto simp: chunk_overlay_disjoint length_overlay)
qed

lemma preamble_name:
  assumes "16 \<le> i" "i < unat (num_params nh)" "TSDB_V4_EXT_NAMES_OFFSET + 20 * (unat (num_params nh) - 16) \<le> unat (index_offset nh)"
  shows "chunk (overlays (preamble db w names nh) f) (TSDB_V4_EXT_NAMES_OFFSET + (i - 16) * 20) 20 =
      name_field 20 (new_name_or_empty db w names i)"
    "TSDB_V4_EXT_NAMES_OFFSET + (i - 16) * 20 + 20 \<le> length (overlays (preamble db w names nh) f)"
proof -
  let ?n = "unat (num_params nh)"
  let ?e = "\<lambda>i. (TSDB_V4_EXT_NAMES_OFFSET + (i - 16) * 20, name_field 20 (new_name_or_empty db w names i))"
  let ?z = "map (\<lambda>i. (unat (index_offset nh) + 8 * i, replicate 8 0 :: bytes)) [0..<unat (index_entries nh)]"
  have s: "[16..<?n] = [16..<i] @ i # [Suc i..<?n]"
    using assms(1,2) by (rule upt_split)
  have p: "preamble db w names nh = ((0, encode_header nh) # map ?e [16..<i]) @ ?e i # (map ?e [Suc i..<?n] @ ?z)"
    by (simp add: preamble_def s)
  have apart: "TSDB_V4_EXT_NAMES_OFFSET + (i - 16) * 20 + length (name_field 20 (new_name_or_empty db w names i)) \<le> off'"
    if x: "(off', d') \<in> set (map ?e [Suc i..<?n] @ ?z)" for off' d'
  proof -
    have "?n - 16 \<ge> i - 16 + 1" using assms(1,2) by simp
    moreover have "j - 16 \<ge> i - 16 + 1" if "Suc i \<le> j" for j using that assms(1) by simp
    ultimately show ?thesis using x assms(3) by fastforce
  qed
  have "name_field 20 (new_name_or_empty db w names i) \<noteq> []" by (simp add: name_field_def)
  then have r: "chunk (overlays (preamble db w names nh) f) (TSDB_V4_EXT_NAMES_OFFSET + (i - 16) * 20)
        (length (name_field 20 (new_name_or_empty db w names i))) = name_field 20 (new_name_or_empty db w names i) \<and>
      TSDB_V4_EXT_NAMES_OFFSET + (i - 16) * 20 + length (name_field 20 (new_name_or_empty db w names i)) \<le>
        length (overlays (preamble db w names nh) f)"
    using apart by (intro overlays_chunk [OF p]) blast+
  show "chunk (overlays (preamble db w names nh) f) (TSDB_V4_EXT_NAMES_OFFSET + (i - 16) * 20) 20 =
      name_field 20 (new_name_or_empty db w names i)"
    "TSDB_V4_EXT_NAMES_OFFSET + (i - 16) * 20 + 20 \<le> length (overlays (preamble db w names nh) f)"
    using r by simp_all
qed

lemma drop_fields:
  assumes "\<And>j. length (f j) = 32" "i < 16"
  shows "drop (32 * i) (concat (map f [0..<16])) = f i @ concat (map f [Suc i..<16])"
proof -
  have s: "[0..<16] = [0..<i] @ i # [Suc i..<16]"
    using assms(2) by (intro upt_split) simp_all
  have "length (concat (map f [0..<i])) = length [0..<i] * 32" by (rule length_concat_equal) (simp add: assms(1))
  then show ?thesis by (simp add: s)
qed

lemma header_name:
  assumes "i < 16" "i < unat n" "0 \<notin> set (new_name_or_empty db w names i)"
  shows "cstr_of (drop (32 * i) (param_names (migrated_header db w names n new_max entries))) = take 31 (new_name_or_empty db w names i)"
proof -
  let ?f = "\<lambda>i. if i < unat n then name_field 32 (new_name_or_empty db w names i) else replicate 32 0"
  have "drop (32 * i) (param_names (migrated_header db w names n new_max entries)) = ?f i @ concat (map ?f [Suc i..<16])"
    by (simp add: migrated_header_def drop_fields assms(1))
  then show ?thesis using assms(2,3) by (simp add: cstr_of_name_field)
qed

text \<open>The names that a lookup finds in the new file.\<close>

lemma migrated_names:
  assumes op: "is_open db'" "db_file db' = Some p" "header db' = fh" and fh: "config_part fh = config_part nh"
    and nh: "nh = migrated_header db w (Some names) n new_max entries" and n: "n \<le> 64"
    and ext: "keeps (\<lambda>i. TSDB_HDR_SIZE \<le> i \<and> i < unat (index_offset nh)) (overlays (preamble db w (Some names) nh) []) (content w' p)"
    and i: "i < unat n" "0 \<notin> set (names ! i)" and sw: "sound w'"
  shows "column_name db' w' i = Some (take (name_width i) (names ! i))"
proof -
  note cf = config_part_fields [OF fh [symmetric]]
  have nn: "new_name_or_empty db w (Some names) i = names ! i" by (simp add: new_name_or_empty_def engine_new_name_def)
  have n64: "unat n \<le> 64" using n by (simp add: word_le_nat_alt)
  have ui: "unat (of_nat i :: u8) = i" using i(1) n64 by (simp add: unat_of_nat)
  have np: "num_params fh = n" using cf(3) by (simp add: nh migrated_header_fields)
  have lt: "of_nat i < num_params fh" using i(1) np ui by (simp add: word_less_nat_alt)
  show ?thesis
  proof (cases "i < 16")
    case True
    then have "of_nat i < (16 :: u8)" using ui by (simp add: word_less_nat_alt)
    then show ?thesis
      using op lt ui header_name [OF True i(1), of db w "Some names"] i(2) cf(11)
      by (simp add: column_name_def tsdb_get_param_name_h_def name_width_def nn nh True)
  next
    case False
    let ?off = "TSDB_V4_EXT_NAMES_OFFSET + (i - 16) * 20"
    have "\<not> of_nat i < (16 :: u8)" using ui False by (simp add: word_less_nat_alt)
    moreover have "n > 16" using False i(1) by (simp add: word_less_nat_alt)
    then have io: "unat (index_offset nh) = 2048" by (simp add: nh migrated_header_fields mig_index_offset_def)
    have nhn: "num_params nh = n" by (simp add: nh migrated_header_fields)
    have pn: "chunk (overlays (preamble db w (Some names) nh) []) ?off 20 = name_field 20 (names ! i)"
      "?off + 20 \<le> length (overlays (preamble db w (Some names) nh) [])"
      using preamble_name [of i nh db w "Some names" "[]"] False i(1) n64 io nhn nn by simp_all
    have "chunk (content w' p) ?off 20 = name_field 20 (names ! i)"
      using keeps_chunk [OF ext pn(2)] pn(1) io False i(1) n64 by simp
    moreover have "?off + 20 \<le> length (content w' p)" using pn(2) keeps_length [OF ext] by simp
    moreover have "unat (of_nat i - 16 :: u8) = i - 16"
      using ui False by (simp add: unat_sub word_le_nat_alt)
    then have "unat (of_nat TSDB_V4_EXT_NAMES_OFFSET + ucast (of_nat i - 16 :: u8) * of_nat TSDB_V4_EXT_NAME_LEN :: u32) = ?off"
      using i(1) n64 by (simp add: unat_word_ariths unat_u8_u32)
    ultimately show ?thesis
      using op lt by (simp add: column_name_def tsdb_get_param_name_h_def read_name_def fread_at_sound [OF sw] field_name_def [symmetric]
          field_name_field [OF i(2)] name_width_def False)
  qed
qed

section \<open>The engine as one operation\<close>

lemma full_rows_base:
  assumes "db_extra_param_count db = 0"
  shows "full_rows (db, w) = db_rows (db, w)"
  using assms by (intro nth_equalityI)
    (auto simp: full_rows_def db_rows_def retained_nth full_row_def extras_at_def length_retained Let_def)

lemma length_full_rows [simp]: "length (full_rows (db, w)) = avail (header db)"
  by (simp add: full_rows_def)

lemma target_rows:
  assumes "R \<le> avail (header db)"
  shows "map (target_row db (content w (filepath db)) cols R) [0..<R] =
    last_n R (map (\<lambda>r. (fst r, remap_row cols (snd r))) (full_rows (db, w)))"
  using assms by (intro nth_equalityI) (simp_all add: last_n_def target_row_def full_rows_def Let_def)

lemma adopt_schema_fields:
  "header (adopt_schema db h) = h" "filepath (adopt_schema db h) = filepath db" "db_file (adopt_schema db h) = Some (filepath db)"
  "db_extra_param_count (adopt_schema db h) = 0" "is_open (adopt_schema db h) = is_open db"
  by (simp_all add: adopt_schema_def)

text \<open>The budget, if the caller gives one, is large enough for the plan.\<close>

definition budget_suffices :: "tsdb_header \<Rightarrow> u8 \<Rightarrow> tsdb_migrate_opts option \<Rightarrow> u32 \<times> u32 \<times> u32 \<Rightarrow> bool" where
  "budget_suffices h n opts plan \<longleftrightarrow> plan_budget h n opts plan = Some plan"

lemma budget_suffices_None [simp]: "budget_suffices h n None plan"
  by (simp add: budget_suffices_def plan_budget_def)

lemma engine_fits:
  assumes "nparams (header db) + extras db \<le> 64"
  shows "\<not> col_map_overrun db names" "\<not> row_overrun db"
  using assms by (simp_all add: col_map_overrun_def row_overrun_def old_columns_def unat_word_ariths)

lemma migrate_schema_returns:
  assumes "nparams (header db) + extras db \<le> 64"
  shows "\<exists>r db' log w'. tsdb_migrate_schema_h (Some db) names n opts w = Some (r, Some db', log, w')"
  using engine_fits [OF assms]
  by (auto simp: tsdb_migrate_schema_h_def migrate_engine_locked_def split: prod.split option.split)
    (metis prod_cases4)

text \<open>
  The engine with every phase in place: \<open>retain\<close> of the records are kept, remapped by \<open>cols\<close>.
\<close>

lemma migrate_engine_ok:
  assumes q: "quiet w" and rd: "readable db w" and len: "length (filepath db) \<le> 127" "dirs w (parent_dir (mig_path (filepath db)))"
    and cp: "column_plan db w names cnt = (n, cols, identical)" "\<not> (identical \<and> \<not> (set_max \<and> m \<noteq> max_records (header db)))"
    and pb: "plan_budget (header db) n opts (plan_capacity (header db) set_max m) = Some (retain, new_max, entries)"
    and R: "unat retain \<le> avail (header db)" "new_max = 0 \<or> unat retain \<le> unat new_max"
    and n: "n \<noteq> 0" "n \<le> 64" "length cols = unat n" and e: "new_file_end n entries (unat retain) \<le> 2 ^ 32"
    and fit: "nparams (header db) + extras db \<le> 64"
  obtains db' log w' where "migrate_engine_locked db names cnt opts set_max m w = Some (ESP_OK, db', log, w')"
    "quiet w'" "readable db' w'" "num_params (header db') = n" "max_records (header db') = new_max" "db_extra_param_count db' = 0"
    "filepath db' = filepath db" "is_open db' = is_open db"
    "full_rows (db', w') = last_n (unat retain) (map (\<lambda>r. (fst r, remap_row cols (snd r))) (full_rows (db, w)))"
    "\<And>ns i. names = Some ns \<Longrightarrow> is_open db \<Longrightarrow> i < unat n \<Longrightarrow> 0 \<notin> set (ns ! i) \<Longrightarrow>
      column_name db' w' i = Some (take (name_width i) (ns ! i))"
    "dirs w' = dirs w" "\<And>q. q \<noteq> filepath db \<Longrightarrow> q \<noteq> mig_path (filepath db) \<Longrightarrow> fs w' q = fs w q"
    "fs w' (mig_path (filepath db)) = None"
    "new_file db w names (migrated_header db w names n new_max entries) cols (unat retain) (header db') (content w' (filepath db))"
proof -
  let ?p = "filepath db"
  define nh where "nh = migrated_header db w names n new_max entries"
  have inv: "db_file db = Some ?p" "index_stride (header db) \<noteq> 0"
    using rd by (simp_all add: readable_def db_inv_def ring_inv_def ring_hdr_def)
  have g: "mig_geom nh (unat retain)" 
    unfolding nh_def by (rule migrated_geom [OF n(1,2) inv(2) _ e]) (use unat_u32_bound [of retain] in simp)
  obtain fh log w' where r: "engine_rewrite db ?p names n cols opts (retain, new_max, entries) w = (ESP_OK, adopt_schema db fh, log, w')"
    "quiet w'" "dirs w' = dirs w" "\<And>q. q \<noteq> ?p \<Longrightarrow> q \<noteq> mig_path ?p \<Longrightarrow> fs w' q = fs w q" "fs w' (mig_path ?p) = None"
    "new_file db w names nh cols (unat retain) fh (content w' ?p)"
    by (rule engine_rewrite_ok [OF q rd refl mig_path_apart(1) [OF len(1)] len(2) nh_def g R n(3), where opts = opts])
      (rule that, assumption+)
  let ?db = "adopt_schema db fh"
  note nf = r(6) [unfolded new_file_def]
  have cfg: "config_part fh = config_part nh" and ring: "ring_inv fh (content w' ?p)"
    and old: "retained fh (content w' ?p) = map (target_row db (content w ?p) cols (unat retain)) [0..<unat retain]"
    and ext: "keeps (\<lambda>i. TSDB_HDR_SIZE \<le> i \<and> i < unat (index_offset nh)) (overlays (preamble db w names nh) []) (content w' ?p)"
    using nf by blast+
  note af = adopt_schema_fields [of db fh]
  note cf = config_part_fields [OF cfg [symmetric]]
  have run: "migrate_engine_locked db names cnt opts set_max m w = Some (ESP_OK, ?db, log, w')"
    using cp(2) pb inv(1) r(1) engine_fits [OF fit] unfolding migrate_engine_locked_def cp(1) by auto
  have "db_inv ?db w'" using ring af quiet_sound [OF r(2)] by (simp add: db_inv_def ovf_clear_def)
  then have rd': "readable ?db w'" by (simp add: readable_def af)
  have rows: "full_rows (?db, w') = last_n (unat retain) (map (\<lambda>r. (fst r, remap_row cols (snd r))) (full_rows (db, w)))"
    using old target_rows [OF R(1)] by (simp add: full_rows_base af db_rows_def)
  have nm: "column_name ?db w' i = Some (take (name_width i) (ns ! i))"
    if "names = Some ns" "is_open db" "i < unat n" "0 \<notin> set (ns ! i)" for ns i
    using migrated_names [OF _ _ _ cfg nh_def [unfolded that(1)] n(2) ext [unfolded that(1)] that(3,4) quiet_sound [OF r(2)]] that(2) af by simp
  show ?thesis
    by (rule that [OF run r(2) rd' _ _ _ _ _ rows nm r(3) r(4) r(5)])
      (use cf(3,7) af r(6) in \<open>simp_all add: nh_def migrated_header_fields\<close>)
qed

section \<open>Migrating to other columns\<close>

text \<open>The value that a row of the old database has under a name: 0 if no old column has it.\<close>

definition value_named :: "tsdb \<Rightarrow> world \<Rightarrow> cstr \<Rightarrow> i16 list \<Rightarrow> i16" where
  "value_named db w s vals =
     (case find (\<lambda>j. column_matches s j (column_name db w j)) [0..<unat (old_columns db)] of
        None \<Rightarrow> 0
      | Some j \<Rightarrow> vals ! j)"

lemma remap_map_columns:
  "n \<le> length names \<Longrightarrow> remap_row (map_columns db w names n) vals = map (\<lambda>s. value_named db w s vals) (take n names)"
  by (intro nth_equalityI) (simp_all add: remap_row_def map_columns_def value_named_def column_name_def)

lemma remap_identity:
  assumes "length vals = n"
  shows "remap_row (map Some [0..<n]) vals = vals"
  using assms by (intro nth_equalityI) (simp_all add: remap_row_def)

lemma identical_name:
  assumes "map_columns db w names n = map Some [0..<n]" "i < n"
  shows "map_option (take (name_width i)) (column_name db w i) = Some (take (name_width i) (names ! i))"
proof -
  have "find (\<lambda>j. column_matches (names ! i) j (tsdb_get_param_name_h (Some db) (of_nat j) w)) [0..<unat (old_columns db)] = Some i"
    using arg_cong [OF assms(1), of "\<lambda>l. l ! i"] assms(2) by (simp add: map_columns_def)
  then have "column_matches (names ! i) i (column_name db w i)"
    by (auto simp: find_Some_iff column_name_def)
  then show ?thesis
    by (auto simp: column_matches_def name_width_def strncmp_eq_def split: option.splits if_splits)
qed

text \<open>When the engine finds nothing to do, the rows already are what the names ask for.\<close>

lemma schema_unchanged:
  assumes "n = num_params (header db)" "db_extra_param_count db = 0" "map_columns db w names (unat n) = map Some [0..<unat n]"
    and "length names = unat n"
  shows "db_rows (db, w) = map (\<lambda>r. (fst r, map (\<lambda>s. value_named db w s (snd r)) names)) (full_rows (db, w))"
proof -
  have "map (\<lambda>s. value_named db w s (snd r)) names = snd r" if r: "r \<in> set (full_rows (db, w))" for r
  proof -
    have "length (snd r) = unat n" using r assms(1,2) by (auto simp: full_rows_def length_full_row)
    then have "remap_row (map_columns db w names (unat n)) (snd r) = snd r" unfolding assms(3) by (rule remap_identity)
    then show ?thesis using assms(4) by (simp add: remap_map_columns)
  qed
  then have "map (\<lambda>r. (fst r, map (\<lambda>s. value_named db w s (snd r)) names)) (full_rows (db, w)) = full_rows (db, w)"
    by (simp add: map_idI)
  then show ?thesis using full_rows_base [OF assms(2)] by simp
qed

lemma full_plan:
  assumes "plan_capacity h False 0 = (retain, new_max, entries)"
  shows "unat retain = avail h" "new_max = max_records h" "entries = entries_for (max_records h) (index_stride h)"
  using assms by (auto simp: plan_capacity_def Let_def retained_count [symmetric] retained_count_def word_less_nat_alt split: if_splits)

text \<open>
  C7: Migrating an open database of at most 64 columns to a list of column names succeeds when
  nothing fails, the budget suffices and the new file stays below 4 GB: the capacity is unchanged, there is
  no overflow region any more, the columns are found under the new names, and every retained
  record is kept in order, with the value it had under each name (0 for a new one).
\<close>

theorem migrate_schema_by_name:
  assumes "quiet w" "is_open db" "readable db w" "length (filepath db) \<le> 127" "dirs w (parent_dir (mig_path (filepath db)))"
    and "0 < n" "n \<le> 64" "length names = unat n" "list_all (\<lambda>s. 0 \<notin> set s) names"
    and "budget_suffices (header db) n opts (plan_capacity (header db) False 0)"
    and "new_file_end n (entries_for (max_records (header db)) (index_stride (header db))) (avail (header db)) \<le> 2 ^ 32"
    and "nparams (header db) + extras db \<le> 64"
  shows "\<exists>db' log w'. tsdb_migrate_schema_h (Some db) (Some names) n opts w = Some (ESP_OK, Some db', log, w') \<and>
    readable db' w' \<and> num_params (header db') = n \<and> db_extra_param_count db' = 0 \<and>
    max_records (header db') = max_records (header db) \<and>
    (\<forall>i < unat n. map_option (take (name_width i)) (column_name db' w' i) = Some (take (name_width i) (names ! i))) \<and>
    db_rows (db', w') = map (\<lambda>r. (fst r, map (\<lambda>s. value_named db w s (snd r)) names)) (full_rows (db, w))"
proof -
  let ?cols = "map_columns db w names (unat n)"
  have run: "tsdb_migrate_schema_h (Some db) (Some names) n opts w =
      map_option (\<lambda>(r, db, log, w). (r, Some db, log, w)) (migrate_engine_locked db (Some names) n opts False 0 w)"
    using assms(1,2,6,7) by (auto simp: tsdb_migrate_schema_h_def quiet_lock_open)
  have remap: "(\<lambda>r. (fst r, remap_row ?cols (snd r))) = (\<lambda>r :: row. (fst r, map (\<lambda>s. value_named db w s (snd r)) names))"
    using assms(8) by (simp add: remap_map_columns)
  define identical where "identical \<longleftrightarrow>
    n = num_params (header db) \<and> db_extra_param_count db = 0 \<and> ?cols = map Some [0..<unat n]"
  have cp: "column_plan db w (Some names) n = (n, ?cols, identical)" by (simp add: column_plan_def identical_def Let_def)
  show ?thesis
  proof (cases identical)
    case True
    then have same: "migrate_engine_locked db (Some names) n opts False 0 w = Some (ESP_OK, db, [], w)"
      by (simp add: migrate_engine_locked_def cp engine_fits [OF assms(12)])
    have id: "n = num_params (header db)" "db_extra_param_count db = 0" "?cols = map Some [0..<unat n]"
      using True unfolding identical_def by blast+
    note id = id schema_unchanged [OF id assms(8)]
    with run same assms(3) id identical_name [OF id(3)] show ?thesis by auto
  next
    case False
    obtain retain new_max entries where pc: "plan_capacity (header db) False 0 = (retain, new_max, entries)" by (metis prod_cases3)
    note fp = full_plan [OF pc]
    have R: "unat retain \<le> avail (header db)" "new_max = 0 \<or> unat retain \<le> unat new_max"
      using fp(1,2) by (auto simp: avail_def)
    have "n \<noteq> 0" using assms(6) by auto
    have pb: "plan_budget (header db) n opts (plan_capacity (header db) False 0) = Some (retain, new_max, entries)"
      using assms(10) pc by (simp add: budget_suffices_def)
    have e: "new_file_end n entries (unat retain) \<le> 2 ^ 32" using assms(11) fp by simp
    obtain db' log w' where m: "migrate_engine_locked db (Some names) n opts False 0 w = Some (ESP_OK, db', log, w')"
      "quiet w'" "readable db' w'" "num_params (header db') = n" "max_records (header db') = new_max" "db_extra_param_count db' = 0"
      "full_rows (db', w') = last_n (unat retain) (map (\<lambda>r. (fst r, remap_row ?cols (snd r))) (full_rows (db, w)))"
      "\<And>ns i. Some names = Some ns \<Longrightarrow> is_open db \<Longrightarrow> i < unat n \<Longrightarrow> 0 \<notin> set (ns ! i) \<Longrightarrow>
        column_name db' w' i = Some (take (name_width i) (ns ! i))"
      by (rule migrate_engine_ok [OF assms(1,3-5) cp _ pb R \<open>n \<noteq> 0\<close> assms(7) _ e assms(12)])
        (use False in \<open>simp_all add: map_columns_def\<close>)
    have rows: "db_rows (db', w') = map (\<lambda>r. (fst r, map (\<lambda>s. value_named db w s (snd r)) names)) (full_rows (db, w))"
      using m(7) fp(1) unfolding remap full_rows_base [OF m(6)] by (simp add: last_n_def)
    have "column_name db' w' i = Some (take (name_width i) (names ! i))" if "i < unat n" for i
      using m(8) [OF refl assms(2) that] assms(8,9) that by (simp add: list_all_length)
    with run m(1,3-6) fp(2) rows show ?thesis by simp
  qed
qed

section \<open>Changing the capacity\<close>

text \<open>The number of records a capacity allows: 0 stands for no limit.\<close>

definition limit :: "u32 \<Rightarrow> nat option" where
  "limit m = (if m = 0 then None else Some (unat m))"

text \<open>A ring that has not wrapped keeps its contents under any capacity it fits into.\<close>

lemma linear_ring_capacity:
  assumes "ring_inv h f" "linear_ring h" "m = 0 \<or> total_records h \<le> m"
  shows "ring_inv (h\<lparr>max_records := m\<rparr>) f" "retained (h\<lparr>max_records := m\<rparr>) f = retained h f"
    "avail (h\<lparr>max_records := m\<rparr>) = avail h" "limit m = None \<or> avail h \<le> unat m"
proof -
  let ?h = "h\<lparr>max_records := m\<rparr>"
  have fit: "m = 0 \<or> nrec h \<le> unat m" "max_records h = 0 \<or> nrec h \<le> cap h" "oldest_record_idx h = 0"
    using assms(2,3) by (auto simp: linear_ring_def word_le_nat_alt)
  show a: "avail ?h = avail h" using fit by (auto simp: avail_def)
  have gm: "same_geom h ?h" by (simp add: same_geom_def header_wf_def)
  note gs = same_geom_simps [OF gm]
  have hd: "ring_hdr ?h"
    using assms(1) fit gs by (auto simp: ring_inv_def ring_hdr_def)
  then show "ring_inv ?h f" using assms(1) gs a by (simp add: ring_inv_def)
  have "slot_of ?h j = slot_of h j" if "j < nrec h" for j using fit that by (auto simp: slot_of_def)
  then show "retained ?h f = retained h f" by (intro retained_cong) (use a gs in simp_all)
  show "limit m = None \<or> avail h \<le> unat m" using fit by (auto simp: limit_def avail_def)
qed

lemma resize_linear:
  assumes q: "quiet w" and rd: "readable db w" and lr: "linear_ring (header db)" "m = 0 \<or> m \<ge> total_records (header db)"
    and x: "db_extra_param_count db = 0" and io: "584 \<le> unat (index_offset (header db))" "data_start (header db) < 2 ^ 32"
    and run: "tsdb_fold_header (db\<lparr>header := (header db)\<lparr>max_records := m\<rparr>\<rparr>) w = (r, db', w')"
  shows "r = ESP_OK" "readable db' w'" "max_records (header db') = m"
    "full_rows (db', w') = within (limit m) (full_rows (db, w))"
    "full_rows (db'\<lparr>capacity_adapted := False\<rparr>, w') = full_rows (db', w')" "readable (db'\<lparr>capacity_adapted := False\<rparr>) w'"
proof -
  let ?h = "(header db)\<lparr>max_records := m\<rparr>" and ?p = "filepath db"
  let ?db = "db\<lparr>header := ?h\<rparr>"
  have inv: "db_file db = Some ?p" "ring_inv (header db) (content w ?p)" using rd by (simp_all add: readable_def db_inv_def)
  note lc = linear_ring_capacity [OF inv(2) lr(1), of m]
  have ri: "ring_inv ?h (content w ?p)" using lc(1) lr(2) by simp
  have wf: "header_wf ?h" using ri by (simp add: ring_inv_def ring_hdr_def)
  have ds: "data_start ?h = data_start (header db)" by (simp add: data_start_def)
  note f = quiet_fold [of w ?db ?p r db' w', OF q _ _ _ _ _ run, simplified, OF inv(1) wf io(1)]
  have ds2: "data_start ?h < 4294967296" using io(2) ds by simp
  note f = f [OF ds2]
  show "r = ESP_OK" by (rule f(1))
  have fd: "header db' = ?h" "filepath db' = ?p" "db_file db' = Some ?p" "db_extra_param_count db' = 0"
    using x inv(1) by (simp_all add: f(3))
  note k = keeps_ring [OF f(6) ri]
  show "max_records (header db') = m" by (simp add: fd)
  have di: "db_inv db' w'" using k(1) fd quiet_sound [OF f(2)] by (simp add: db_inv_def ovf_clear_def)
  then show "readable db' w'" "readable (db'\<lparr>capacity_adapted := False\<rparr>) w'" using fd
    by (simp_all add: readable_def db_inv_def ovf_clear_def)
  have "full_rows (db', w') = full_rows (db, w)"
    using k(2) lc(2) lr(2) fd x by (simp add: full_rows_base db_rows_def)
  moreover have "within (limit m) (full_rows (db, w)) = full_rows (db, w)"
    using lc(4) lr(2) by (auto simp: limit_def last_n_all)
  ultimately show "full_rows (db', w') = within (limit m) (full_rows (db, w))" by simp
  show "full_rows (db'\<lparr>capacity_adapted := False\<rparr>, w') = full_rows (db', w')"
    using fd by (simp add: full_rows_base db_rows_def)
qed

lemma resize_plan:
  assumes "plan_capacity h True m = (retain, new_max, entries)"
  shows "unat retain = (if m = 0 then avail h else min (avail h) (unat m))" "new_max = m"
    "entries = entries_for m (index_stride h)"
  using assms by (auto simp: plan_capacity_def Let_def retained_count [symmetric] word_less_nat_alt min_def unat_eq_0 split: if_splits)

text \<open>The rewriting path: every column keeps its place, the extra ones become base columns.\<close>

definition kept_records :: "tsdb_header \<Rightarrow> u32 \<Rightarrow> nat" where
  "kept_records h m = (if m = 0 then avail h else min (avail h) (unat m))"

lemma full_rows_identity:
  assumes "n = nparams (header db) + extras db"
  shows "map (\<lambda>r. (fst r, remap_row (map Some [0..<n]) (snd r))) (full_rows (db, w)) = full_rows (db, w)"
proof -
  have "remap_row (map Some [0..<n]) (snd r) = snd r" if "r \<in> set (full_rows (db, w))" for r
    using that assms by (intro remap_identity) (auto simp: full_rows_def length_full_row)
  then show ?thesis by (simp add: map_idI)
qed

lemma resize_rewrites:
  assumes q: "quiet w" and op: "is_open db" and rd: "readable db w" and p: "length (filepath db) \<le> 127" "dirs w (parent_dir (mig_path (filepath db)))"
    and slow: "m \<noteq> max_records (header db)"
      "\<not> (linear_ring (header db) \<and> (m = 0 \<or> m \<ge> total_records (header db)) \<and> db_extra_param_count db = 0)"
    and n: "nparams (header db) + extras db \<le> 64" "num_params (header db) \<noteq> 0" and nn: "n = old_columns db"
    and b: "budget_suffices (header db) n opts (plan_capacity (header db) True m)"
    and e: "new_file_end n (entries_for m (index_stride (header db))) (kept_records (header db) m) \<le> 2 ^ 32"
  obtains db1 log w1 where "tsdb_resize_h (Some db) m opts w = Some (ESP_OK, Some db1, log, w1)" "quiet w1" "readable db1 w1"
    "max_records (header db1) = m" "full_rows (db1, w1) = within (limit m) (full_rows (db, w))"
    "dirs w1 = dirs w" "\<And>q. q \<noteq> filepath db \<Longrightarrow> q \<noteq> mig_path (filepath db) \<Longrightarrow> fs w1 q = fs w q" "fs w1 (mig_path (filepath db)) = None"
    "new_file db w None (migrated_header db w None n m (entries_for m (index_stride (header db)))) (map Some [0..<unat n])
       (kept_records (header db) m) (header db1) (content w1 (filepath db))"
proof -
  let ?h = "header db" and ?cols = "map Some [0..<unat n]"
  have un: "unat n = nparams ?h + extras db" using n(1) by (simp add: nn old_columns_def unat_word_ariths)
  have n': "n \<noteq> 0" "n \<le> 64" using un n by (auto simp: word_le_nat_alt word_unat_eq_iff)
  obtain retain new_max entries where pc: "plan_capacity ?h True m = (retain, new_max, entries)" by (metis prod_cases3)
  note rp = resize_plan [OF pc]
  have k: "unat retain = kept_records ?h m" using rp(1) by (simp add: kept_records_def)
  have R: "unat retain \<le> avail ?h" "new_max = 0 \<or> unat retain \<le> unat new_max" using rp by auto
  have pb: "plan_budget ?h n opts (plan_capacity ?h True m) = Some (retain, new_max, entries)"
    using b pc by (simp add: budget_suffices_def)
  have e': "new_file_end n entries (unat retain) \<le> 2 ^ 32" using e rp(3) k by simp
  have cp: "column_plan db w None 0 = (n, ?cols, db_extra_param_count db = 0)" by (simp add: column_plan_def nn)
  have cl: "length ?cols = unat n" by simp
  obtain db1 log w1 where r: "migrate_engine_locked db None 0 opts True m w = Some (ESP_OK, db1, log, w1)" "quiet w1"
    "readable db1 w1" "max_records (header db1) = new_max"
    "full_rows (db1, w1) = last_n (unat retain) (map (\<lambda>r. (fst r, remap_row ?cols (snd r))) (full_rows (db, w)))"
    "dirs w1 = dirs w" "\<And>q. q \<noteq> filepath db \<Longrightarrow> q \<noteq> mig_path (filepath db) \<Longrightarrow> fs w1 q = fs w q" "fs w1 (mig_path (filepath db)) = None"
    "new_file db w None (migrated_header db w None n new_max entries) ?cols (unat retain) (header db1) (content w1 (filepath db))"
    by (rule migrate_engine_ok [OF q rd p cp _ pb R n' cl e' n(1)]) (use slow(1) in simp_all)
  have run: "tsdb_resize_h (Some db) m opts w = Some (ESP_OK, Some db1, log, w1)"
    using op quiet_lock_open [OF q] slow r(1) by (auto simp: tsdb_resize_h_def Let_def)
  have rows: "full_rows (db1, w1) = within (limit m) (full_rows (db, w))"
    using r(5) rp(1) full_rows_identity [OF un] by (auto simp: limit_def last_n_def min_def)
  show ?thesis by (rule that [OF run r(2,3) _ rows r(6-8)]) (use r(4,9) rp(2,3) k in simp_all)
qed

text \<open>
  C9: Resizing succeeds when nothing fails, the budget suffices and a rewritten file stays below
  4 GB, on the header-only path as on the rewriting one: the new capacity is in force and
  exactly the newest records that fit it are retained, with all their values.
\<close>

theorem resize_keeps_newest:
  assumes "quiet w" "is_open db" "readable db w" "length (filepath db) \<le> 127" "dirs w (parent_dir (mig_path (filepath db)))"
    and "584 \<le> unat (index_offset (header db))" "data_start (header db) < 2 ^ 32"
    and "nparams (header db) + extras db \<le> 64" "num_params (header db) \<noteq> 0"
    and "budget_suffices (header db) (old_columns db) opts (plan_capacity (header db) True m)"
    and "new_file_end (old_columns db) (entries_for m (index_stride (header db))) (avail (header db)) \<le> 2 ^ 32"
  shows "\<exists>db' log w'. tsdb_resize_h (Some db) m opts w = Some (ESP_OK, Some db', log, w') \<and>
    readable db' w' \<and> max_records (header db') = m \<and>
    full_rows (db', w') = within (limit m) (full_rows (db, w))"
proof -
  let ?h = "header db" and ?n = "old_columns db"
  have lock: "tsdb_lock_open w = (None, w)" using assms(1) by (rule quiet_lock_open)
  consider (same) "m = max_records ?h"
    | (fast) "m \<noteq> max_records ?h" "linear_ring ?h" "m = 0 \<or> m \<ge> total_records ?h" "db_extra_param_count db = 0"
    | (slow) "m \<noteq> max_records ?h" "\<not> (linear_ring ?h \<and> (m = 0 \<or> m \<ge> total_records ?h) \<and> db_extra_param_count db = 0)"
    by blast
  then show ?thesis
  proof cases
    case same
    then have "tsdb_resize_h (Some db) m opts w = Some (ESP_OK, Some db, [], w)" using assms(2) lock by (simp add: tsdb_resize_h_def)
    moreover have "within (limit m) (full_rows (db, w)) = full_rows (db, w)"
      using same by (auto simp: limit_def last_n_all avail_def)
    ultimately show ?thesis using same assms(3) by auto
  next
    case fast
    obtain r db' w' where f: "tsdb_fold_header (db\<lparr>header := ?h\<lparr>max_records := m\<rparr>\<rparr>) w = (r, db', w')" by (metis prod_cases3)
    note rl = resize_linear [OF assms(1,3) fast(2-4) assms(6,7) f]
    have "tsdb_resize_h (Some db) m opts w = Some (ESP_OK, Some (db'\<lparr>capacity_adapted := False\<rparr>), [], w')"
      using assms(2) lock fast f rl(1) by (auto simp: tsdb_resize_h_def Let_def)
    then show ?thesis using rl(3-6) by auto
  next
    case slow
    have "kept_records ?h m div unat (blocks_records ?n) \<le> avail ?h div unat (blocks_records ?n)"
      by (intro div_le_mono) (simp add: kept_records_def)
    then have e: "new_file_end ?n (entries_for m (index_stride ?h)) (kept_records ?h m) \<le> 2 ^ 32"
      using assms(11) by (simp add: new_file_end_def)
    show ?thesis by (rule resize_rewrites [OF assms(1-5) slow assms(8,9) refl assms(10) e]) blast
  qed
qed

section \<open>A database of three records\<close>

text \<open>One full ring of three records in one block; its only column has the empty name.\<close>

definition demo_rows :: "row list" where
  "demo_rows = [(100, [7]), (200, [8]), (300, [9])]"

definition demo_rows_block :: bytes where
  "demo_rows_block = set_block_count
     (put_row 4 1 (put_row 4 1 (put_row 4 1 fresh_block 0 (100, [7])) 1 (200, [8])) 2 (300, [9])) 3"

definition demo_full :: tsdb where
  "demo_full = (demo_db 3)\<lparr>header := (demo_header 3)\<lparr>total_records := 3, newest_record_idx := 2,
     oldest_timestamp := 100, newest_timestamp := 300, total_writes := 3\<rparr>\<rparr>"

definition demo_full_disk :: world where
  "demo_full_disk = demo_disk (replicate 1032 0 @ demo_rows_block)"

lemma demo_rows_block:
  "length demo_rows_block = 1024" "TSDB_BLOCK_MAGIC demo_rows_block = BLKT_MAGIC"
  "block_row 4 1 demo_rows_block 0 = (100, [7])" "block_row 4 1 demo_rows_block 1 = (200, [8])"
  "block_row 4 1 demo_rows_block 2 = (300, [9])"
proof -
  have g: "geom 4 1" by (simp add: geom_def)
  show "length demo_rows_block = 1024" "TSDB_BLOCK_MAGIC demo_rows_block = BLKT_MAGIC"
    "block_row 4 1 demo_rows_block 0 = (100, [7])" "block_row 4 1 demo_rows_block 1 = (200, [8])"
    "block_row 4 1 demo_rows_block 2 = (300, [9])"
    using g by (simp_all add: demo_rows_block_def length_set_block length_put_row magic_set_count magic_put_row
        block_row_set_count block_row_put_row)
qed

lemma demo_full_fields:
  "filepath demo_full = ''/a.db''" "db_file demo_full = Some ''/a.db''" "is_open demo_full" "db_extra_param_count demo_full = 0"
  "num_params (header demo_full) = 1" "records_per_block (header demo_full) = 4" "max_records (header demo_full) = 3"
  "total_records (header demo_full) = 3" "oldest_record_idx (header demo_full) = 0" "index_stride (header demo_full) = 4"
  "index_offset (header demo_full) = 1024" "index_entries (header demo_full) = 1" "header_wf (header demo_full)"
  "param_names (header demo_full) = replicate 512 0" "extra_param_count (header demo_full) = 0"
  by (simp_all add: demo_full_def demo_db_def demo_header_def zero_header_def header_wf_def)

lemma demo_full_disk:
  "content demo_full_disk ''/a.db'' = replicate 1032 0 @ demo_rows_block" "quiet demo_full_disk" "dirs demo_full_disk []"
  by (simp_all add: demo_full_disk_def demo_disk_def content_def demo_world_def quiet_def)

lemma demo_full_rows: "readable demo_full demo_full_disk" "full_rows (demo_full, demo_full_disk) = demo_rows"
proof -
  let ?h = "header demo_full" and ?f = "content demo_full_disk ''/a.db''"
  have ds: "data_start ?h = 1032" by (simp add: data_start_def demo_full_fields)
  have b: "slot_block ?h ?f s = demo_rows_block" if "s < 4" for s
    using that demo_rows_block(1) by (simp add: slot_block_def demo_full_fields demo_full_disk block_pos_def ds chunk_append_right chunk_def)
  have "slot_ok ?h ?f s" if "s < 4" for s
    using that b [OF that] demo_rows_block(1,2) by (simp add: slot_ok_def demo_full_fields demo_full_disk block_pos_def ds)
  moreover have a: "avail ?h = 3" by (simp add: avail_def demo_full_fields)
  ultimately have "ring_inv ?h ?f"
    by (simp add: ring_inv_def ring_hdr_def demo_full_fields geom_def ds)
  then show "readable demo_full demo_full_disk"
    by (simp add: readable_def db_inv_def ovf_clear_def demo_full_fields demo_full_disk_def)
  have "[0..<3] = [0, 1, 2 :: nat]" by (simp add: upt_rec)
  then show "full_rows (demo_full, demo_full_disk) = demo_rows"
    using b demo_rows_block(3,4) demo_rows_block(5) [unfolded numeral_2_eq_2]
    by (simp add: full_rows_def a full_row_def extras_at_def slot_row_def pos_slot_def slot_of_def demo_full_fields demo_rows_def Let_def)
qed

lemma demo_mig_path: "length (filepath demo_full) \<le> 127" "dirs demo_full_disk (parent_dir (mig_path (filepath demo_full)))"
  by (simp_all add: demo_full_fields mig_path_def parent_dir_def demo_full_disk)

lemma demo_values:
  "value_named demo_full w [0x61] [x] = 0" "value_named demo_full w [] [x] = x"
proof -
  have "column_name demo_full w 0 = Some []"
    by (simp add: column_name_def tsdb_get_param_name_h_def demo_full_fields cstr_of_def)
  moreover have "unat (old_columns demo_full) = 1" by (simp add: old_columns_def demo_full_fields)
  ultimately show "value_named demo_full w [0x61] [x] = 0" "value_named demo_full w [] [x] = x"
    by (simp_all add: value_named_def column_matches_def)
qed

theorem migrate_schema_by_name_witness:
  "\<exists>db' log w'. tsdb_migrate_schema_h (Some demo_full) (Some [[0x61], []]) 2 None demo_full_disk = Some (ESP_OK, Some db', log, w') \<and>
    column_name db' w' 0 = Some [0x61] \<and> db_rows (db', w') = [(100, [0, 7]), (200, [0, 8]), (300, [0, 9])]"
proof -
  have a: "avail (header demo_full) = 3" by (simp add: avail_def demo_full_fields)
  have "128 * (3 div unat (blocks_records 2)) \<le> 536870655" using div_le_dividend [of 3 "unat (blocks_records 2)"] by linarith
  then have e: "new_file_end 2 (entries_for (max_records (header demo_full)) (index_stride (header demo_full))) 3 \<le> 2 ^ 32"
    by (simp add: new_file_end_def entries_for_def demo_full_fields mig_index_offset_def)
  obtain db' log w' where r: "tsdb_migrate_schema_h (Some demo_full) (Some [[0x61], []]) 2 None demo_full_disk = Some (ESP_OK, Some db', log, w')"
    "\<forall>i < 2. map_option (take (name_width i)) (column_name db' w' i) = Some (take (name_width i) ([[0x61], []] ! i))"
    "db_rows (db', w') = map (\<lambda>r. (fst r, map (\<lambda>s. value_named demo_full demo_full_disk s (snd r)) [[0x61], []])) demo_rows"
    using migrate_schema_by_name [OF demo_full_disk(2) demo_full_fields(3) demo_full_rows(1) demo_mig_path, of 2 "[[0x61], []]" None]
      e a demo_full_rows(2) by (auto simp: demo_full_fields(4,5))
  have "map_option (take 31) (column_name db' w' 0) = Some [0x61]" using r(2) [rule_format, of 0] by (simp add: name_width_def)
  then obtain s where "column_name db' w' 0 = Some s" "take 31 s = [0x61]" by auto
  then have "column_name db' w' 0 = Some [0x61]" using take_eq_Cons [of 31 s "0x61"] by simp
  with r(1,3) demo_values show ?thesis by (auto simp: demo_rows_def)
qed

theorem resize_keeps_newest_witness:
  "\<exists>db' log w'. tsdb_resize_h (Some demo_full) 2 None demo_full_disk = Some (ESP_OK, Some db', log, w') \<and>
    max_records (header db') = 2 \<and> full_rows (db', w') = [(200, [8]), (300, [9])]"
proof -
  have a: "avail (header demo_full) = 3" by (simp add: avail_def demo_full_fields)
  have "old_columns demo_full = 1" by (simp add: old_columns_def demo_full_fields)
  moreover have "128 * (3 div unat (blocks_records 1)) \<le> 536870655" using div_le_dividend [of 3 "unat (blocks_records 1)"] by linarith
  ultimately have e: "new_file_end (old_columns demo_full) (entries_for 2 (index_stride (header demo_full))) 3 \<le> 2 ^ 32"
    by (simp add: new_file_end_def entries_for_def demo_full_fields mig_index_offset_def)
  show ?thesis
    using resize_keeps_newest [OF demo_full_disk(2) demo_full_fields(3) demo_full_rows(1) demo_mig_path, of None 2] e a demo_full_rows(2)
    by (auto simp: demo_full_fields data_start_def limit_def last_n_def demo_rows_def)
qed

section \<open>All or nothing\<close>

text \<open>The process starts again, on a platform where nothing fails any more.\<close>

definition restarted :: "world \<Rightarrow> world" where
  "restarted w = w\<lparr>read_fault := no_faults, io_script := [], heap_script := [], lock_script := []\<rparr>"

lemma restarted [simp]: "quiet (restarted w)" "fs (restarted w) = fs w"
  by (simp_all add: restarted_def quiet_def)

text \<open>The file is a complete database with \<open>n\<close> columns and the given rows.\<close>

definition holds_database :: "u8 \<Rightarrow> row list \<Rightarrow> bytes \<Rightarrow> bool" where
  "holds_database n rows f \<longleftrightarrow>
     (\<exists>h. TSDB_HDR_SIZE \<le> length f \<and> chunk f 0 TSDB_HDR_SIZE = encode_header h \<and> header_wf h \<and> magic h = TSDB_MAGIC \<and>
          num_params h = n \<and> ring_inv h f \<and> retained h f = rows)"

lemma encode_magic: "ld32 (encode_header h) 0 = magic h"
  by (simp add: encode_header_def header_pre_def ld32_append)

lemma new_file_holds:
  assumes nf: "new_file db w names nh cols R fh f" and nh: "nh = migrated_header db w names n new_max entries"
    and R: "R \<le> avail (header db)"
  shows "holds_database n (last_n R (map (\<lambda>r. (fst r, remap_row cols (snd r))) (full_rows (db, w)))) f" "complete_mig f"
proof -
  note nf = nf [unfolded new_file_def]
  note cf = config_part_fields [OF nf [THEN conjunct1, symmetric]]
  have m: "magic fh = TSDB_MAGIC" "num_params fh = n" using cf(1,3) by (simp_all add: nh migrated_header_fields)
  then show "holds_database n (last_n R (map (\<lambda>r. (fst r, remap_row cols (snd r))) (full_rows (db, w)))) f"
    using nf target_rows [OF R] unfolding holds_database_def by (intro exI [of _ fh]) simp
  have "ld32 f 0 = ld32 (chunk f 0 TSDB_HDR_SIZE) 0" by (simp add: ld32_chunk)
  then show "complete_mig f" using nf m(1) by (simp add: complete_mig_def encode_magic)
qed

text \<open>What the engine leaves on the disk, after the recovery of the next start.\<close>

lemma rewritten_settles:
  assumes rw: "rewritten err db w (new_file db w names nh cols R) db' w'" and nh: "nh = migrated_header db w names n new_max entries"
    and R: "R \<le> avail (header db)" and p: "length (filepath db) \<le> 127" "fs w (filepath db) = Some f"
  shows "fs (tsdb_migrate_recover (filepath db) (restarted w')) (filepath db) = Some f \<or>
    (\<exists>g. fs (tsdb_migrate_recover (filepath db) (restarted w')) (filepath db) = Some g \<and>
      holds_database n (last_n R (map (\<lambda>r. (fst r, remap_row cols (snd r))) (full_rows (db, w)))) g)"
proof -
  let ?p = "filepath db"
  have ne: "?p \<noteq> mig_path ?p" using mig_path_apart(1) [OF p(1)] by simp
  note rec = recover_files [of "restarted w'" ?p, simplified, OF p(1)]
  from rw [unfolded rewritten_def Let_def] show ?thesis
  proof (elim disjE exE conjE)
    assume "fs w' ?p = fs w ?p"
    then show ?thesis using rec p(2) ne by simp
  next
    fix fh g
    assume "new_file db w names nh cols R fh g" "fs w' ?p = Some g"
    then show ?thesis using rec ne new_file_holds(1) [OF _ nh R] by auto
  next
    fix fh g
    assume "new_file db w names nh cols R fh g" "fs w' ?p = None" "fs w' (mig_path ?p) = Some g"
    then show ?thesis using rec ne new_file_holds [OF _ nh R] by auto
  qed
qed

text \<open>
  C5: A schema migration that overruns no array is all or nothing with respect to the failures that
  are reported to the code: whichever opens, writes, allocations, removals and renames fail on the
  way, torn writes included, and wherever a crash stops it, after the next start's recovery the
  path holds either the original file, byte for byte, or a complete database with the new columns
  and every retained record. \<open>readable\<close> has the two premises on the platform: every block of the
  source can be read, and data that \<open>fwrite\<close> accepted reaches the file (\<open>sound\<close>). Without the
  first a partial copy is committed (\<open>migration_drops_unreadable\<close>), and the engine checks no
  \<open>fflush\<close>, \<open>fsync\<close> or \<open>fclose\<close> that could tell it of the second.
\<close>

theorem migrate_all_or_nothing:
  assumes "tsdb_migrate_schema_h (Some db) (Some names) n opts w = Some (r, Some db', log, w')"
    and "readable db w" "length (filepath db) \<le> 127" "fs w (filepath db) = Some f" "length names = unat n"
    and "budget_suffices (header db) n opts (plan_capacity (header db) False 0)"
    and "new_file_end n (entries_for (max_records (header db)) (index_stride (header db))) (avail (header db)) \<le> 2 ^ 32"
  shows "fs (tsdb_migrate_recover (filepath db) (restarted w')) (filepath db) = Some f \<or>
    (\<exists>g. fs (tsdb_migrate_recover (filepath db) (restarted w')) (filepath db) = Some g \<and>
      holds_database n (map (\<lambda>r. (fst r, map (\<lambda>s. value_named db w s (snd r)) names)) (full_rows (db, w))) g)"
proof -
  let ?p = "filepath db" and ?cols = "map_columns db w names (unat n)"
  have same: ?thesis if "fs w' ?p = fs w ?p"
    using recover_files [of "restarted w'" ?p] mig_path_apart(1) [OF assms(3)] assms(3,4) that by simp
  obtain l w1 where lk: "tsdb_lock_open w = (l, w1)" by fastforce
  have w1: "fs w1 = fs w" using lk by (auto simp: tsdb_lock_open_def next_lock_def split: list.splits lock_outcome.splits prod.splits)
  have inv: "db_file db = Some ?p" "index_stride (header db) \<noteq> 0"
    using assms(2) by (simp_all add: readable_def db_inv_def ring_inv_def ring_hdr_def)
  have sw: "sound w" using assms(2) by (simp add: readable_def db_inv_def)
  have sw1: "sound w1" using lk sw
    by (auto simp: tsdb_lock_open_def dest: sound_scripts(2) split: lock_outcome.splits prod.splits)
  note rc = readable_cong [OF assms(2), of w1, unfolded w1, OF refl sw1]
  have cols: "map_columns db w1 names (unat n) = ?cols"
    by (simp add: map_columns_def param_name_cong [OF rc(2) sw sw1 inv(1)])
  obtain n' cols' identical where cp: "column_plan db w1 (Some names) n = (n', cols', identical)" by (metis prod_cases3)
  then have n': "n' = n" "cols' = ?cols" by (auto simp: column_plan_def Let_def cols)
  obtain retain new_max entries where pc: "plan_capacity (header db) False 0 = (retain, new_max, entries)" by (metis prod_cases3)
  note fp = full_plan [OF pc]
  have pb: "plan_budget (header db) n opts (plan_capacity (header db) False 0) = Some (retain, new_max, entries)"
    using assms(6) pc by (simp add: budget_suffices_def)
  consider (none) "fs w' ?p = fs w ?p" | (run) "n \<noteq> 0" "n \<le> 64"
    "engine_rewrite db ?p (Some names) n ?cols opts (retain, new_max, entries) w1 = (r, db', log, w')"
    using assms(1) lk w1 cp n' pb inv(1)
    by (auto simp: tsdb_migrate_schema_h_def migrate_engine_locked_def split: if_splits option.splits prod.splits)
  then show ?thesis
  proof cases
    case none
    then show ?thesis by (rule same)
  next
    case run
    define nh where "nh = migrated_header db w1 (Some names) n new_max entries"
    have e: "new_file_end n entries (unat retain) \<le> 2 ^ 32" using assms(7) fp by simp
    have g: "mig_geom nh (unat retain)"
      unfolding nh_def by (rule migrated_geom [OF run(1,2) inv(2) _ e]) (use unat_u32_bound [of retain] in simp)
    have R: "unat retain \<le> avail (header db)" "new_max = 0 \<or> unat retain \<le> unat new_max"
      using fp(1,2) by (auto simp: avail_def)
    have cl: "length ?cols = unat n" by (simp add: map_columns_def)
    note er = engine_rewrite_result(4) [OF rc(1) refl mig_path_apart(1) [OF assms(3)] nh_def g R cl run(3)]
    have "full_rows (db, w1) = full_rows (db, w)" using rc(2) by (simp add: full_rows_def)
    then have rows: "last_n (unat retain) (map (\<lambda>r. (fst r, remap_row ?cols (snd r))) (full_rows (db, w1))) =
        map (\<lambda>r. (fst r, map (\<lambda>s. value_named db w s (snd r)) names)) (full_rows (db, w))"
      using fp(1) assms(5) by (simp add: remap_map_columns last_n_def)
    show ?thesis
      using rewritten_settles [OF er nh_def R(1) assms(3)] assms(4) unfolding w1 rows by blast
  qed
qed

text \<open>The fourth operation of the platform, the write of the new header, is torn.\<close>

theorem migrate_all_or_nothing_witness:
  "\<exists>r db' log w'. tsdb_migrate_schema_h (Some demo_full) (Some [[0x61], []]) 2 None
      (demo_full_disk\<lparr>io_script := [IoOk, IoOk, IoOk, IoFail 100 EIO]\<rparr>) = Some (r, Some db', log, w') \<and>
    (fs (tsdb_migrate_recover ''/a.db'' (restarted w')) ''/a.db'' = Some (replicate 1032 0 @ demo_rows_block) \<or>
     (\<exists>g. fs (tsdb_migrate_recover ''/a.db'' (restarted w')) ''/a.db'' = Some g \<and>
       holds_database 2 [(100, [0, 7]), (200, [0, 8]), (300, [0, 9])] g))"
proof -
  let ?w = "demo_full_disk\<lparr>io_script := [IoOk, IoOk, IoOk, IoFail 100 EIO]\<rparr>"
  have a: "avail (header demo_full) = 3" by (simp add: avail_def demo_full_fields)
  have "128 * (3 div unat (blocks_records 2)) \<le> 536870655" using div_le_dividend [of 3 "unat (blocks_records 2)"] by linarith
  then have e: "new_file_end 2 (entries_for (max_records (header demo_full)) (index_stride (header demo_full))) (avail (header demo_full)) \<le> 2 ^ 32"
    by (simp add: a new_file_end_def entries_for_def demo_full_fields mig_index_offset_def)
  have fsw: "fs ?w (filepath demo_full) = fs demo_full_disk (filepath demo_full)" by simp
  have sw: "sound ?w" by (simp add: sound_def demo_full_disk_def demo_disk_def demo_world_def)
  note rc = readable_cong [OF demo_full_rows(1) fsw sw]
  have rows: "full_rows (demo_full, ?w) = demo_rows" using rc(2) demo_full_rows(2) by (simp add: full_rows_def)
  have f: "fs ?w (filepath demo_full) = Some (replicate 1032 0 @ demo_rows_block)"
    by (simp add: demo_full_fields demo_full_disk_def demo_disk_def)
  obtain r db' log w' where run: "tsdb_migrate_schema_h (Some demo_full) (Some [[0x61], []]) 2 None ?w = Some (r, Some db', log, w')"
    using migrate_schema_returns [of demo_full "Some [[0x61], []]" 2 None ?w] by (auto simp: demo_full_fields)
  have "length [[0x61], [] :: cstr] = unat (2 :: u8)" by simp
  from migrate_all_or_nothing [OF run rc(1) demo_mig_path(1) f this budget_suffices_None e] run rows demo_values
  show ?thesis by (auto simp: demo_full_fields demo_rows_def)
qed

section \<open>The sidecar of the replaced file\<close>

text \<open>A file laid out as this version of the library does it, with the names of a configuration.\<close>

definition current_layout :: "tsdb_header \<Rightarrow> bool" where
  "current_layout h \<longleftrightarrow> index_offset h = mig_index_offset (num_params h) \<and> records_per_block h = blocks_records (num_params h)"

definition configured_names :: "tsdb_header \<Rightarrow> bool" where
  "configured_names h \<longleftrightarrow>
     (\<exists>ns. list_all (\<lambda>s. 0 \<notin> set s) ns \<and> nparams h = length ns \<and> param_names h = fixed_names (Some (map Some ns)) (nparams h))"

lemma name_field_take: "name_field n (take (n - 1) s) = name_field n s"
  by (simp add: name_field_def strncpy_bytes_def min_def)

text \<open>A rewrite with the old columns writes the same names into the header.\<close>

lemma rewritten_names:
  assumes "is_open db" "configured_names (header db)" "nparams (header db) \<le> 64"
  shows "param_names (migrated_header db w None (num_params (header db)) m entries) = param_names (header db)"
proof -
  let ?h = "header db" and ?n = "nparams (header db)"
  obtain ns where ns: "list_all (\<lambda>s. 0 \<notin> set s) ns" "?n = length ns" "param_names ?h = fixed_names (Some (map Some ns)) ?n"
    using assms(2) by (auto simp: configured_names_def)
  let ?f = "\<lambda>i. if i < ?n then name_field 32 (nth_name (map Some ns) i) else replicate 32 0"
  have pn: "param_names ?h = concat (map ?f [0..<16])" using ns(3) by (simp add: fixed_names_def)
  have "name_field 32 (new_name_or_empty db w None i) = name_field 32 (nth_name (map Some ns) i)" if i: "i < 16" "i < ?n" for i
  proof -
    have u: "unat (of_nat i :: u8) = i" using i(1) by (simp add: unat_of_nat)
    then have lt: "of_nat i < num_params ?h" "of_nat i < (16 :: u8)" using i by (simp_all add: word_less_nat_alt)
    have nn: "nth_name (map Some ns) i = ns ! i" "0 \<notin> set (ns ! i)"
      using i(2) ns(1,2) by (simp_all add: nth_name_def list_all_length)
    have "drop (32 * i) (param_names ?h) = ?f i @ concat (map ?f [Suc i..<16])"
      unfolding pn using i(1) by (intro drop_fields) simp_all
    then have "cstr_of (drop (32 * i) (param_names ?h)) = take 31 (ns ! i)"
      using i(2) nn by (simp add: cstr_of_name_field)
    then have "new_name_or_empty db w None i = take 31 (ns ! i)"
      using assms(1) lt u by (simp add: new_name_or_empty_def engine_new_name_def tsdb_get_param_name_h_def)
    then show ?thesis using name_field_take [of 32 "ns ! i"] nn(1) by simp
  qed
  then show ?thesis by (auto simp: migrated_header_def pn intro!: arg_cong [where f = concat] map_cong)
qed

lemma migrated_usable:
  assumes "tsdb_header_is_sane h" "current_layout h" "m \<le> 100000000" "entries_for m (index_stride h) \<le> 0x100000" "header db = h"
  shows "tsdb_header_is_sane (migrated_header db w names (num_params h) m (entries_for m (index_stride h)))"
proof -
  have n: "num_params h \<noteq> 0" "\<not> num_params h > 64" "\<not> (records_per_block h = 0 \<or> records_per_block h > 1016 div (4 + ucast (num_params h) * 2))"
    "index_stride h \<noteq> 0"
    using assms(1) by (auto simp: tsdb_header_is_sane_def Let_def split: if_splits)
  have "unat (num_params h) \<le> 64" using n(2) by (simp add: word_le_nat_alt linorder_not_less)
  then have rs: "ucast (record_bytes (num_params h)) = (4 + ucast (num_params h) * 2 :: u16)"
    using record_bytes_exact [of "num_params h"]
    by (simp add: word_unat_eq_iff unat_word_ariths unsigned_ucast_eq take_bit_nat_eq_self unat_u8_u16 word_le_nat_alt)
  have io: "\<not> (mig_index_offset k < 512 \<or> mig_index_offset k > 0x10000)" for k by (simp add: mig_index_offset_def)
  show ?thesis
    using n assms(2-5) io [of "num_params h"] rs unfolding tsdb_header_is_sane_def Let_def migrated_header_fields
    by (simp add: migrated_header_def zero_header_def current_layout_def not_less)
qed

text \<open>The new file's header is usable and has the geometry of the old one.\<close>

lemma rewritten_header:
  assumes nf: "new_file db w None (migrated_header db w None n m (entries_for m (index_stride h))) cols R fh g" "header db = h" "n = num_params h"
    and h: "tsdb_header_is_sane h" "current_layout h" "configured_names h" "is_open db" "m \<le> 100000000" "R \<le> unat m"
      "entries_for m (index_stride h) \<le> 0x100000"
  shows "judge_header (ESP_OK, Some fh) = HeaderUsable" "num_params fh = num_params h" "records_per_block fh = records_per_block h"
    "index_offset fh = index_offset h" "param_names fh = param_names h" "nrec fh = R"
proof -
  let ?nh = "migrated_header db w None n m (entries_for m (index_stride h))"
  have cfg: "config_part fh = config_part ?nh" and nr: "nrec fh = R" using nf(1) by (simp_all add: new_file_def)
  note cf = config_part_fields [OF cfg [symmetric]]
  have "num_params h \<le> 64" using h(1) by (auto simp: tsdb_header_is_sane_def Let_def split: if_splits)
  then have "nparams h \<le> 64" by (simp add: word_le_nat_alt)
  note names = rewritten_names [OF h(4), unfolded nf(2), OF h(3) this, of w m "entries_for m (index_stride h)", folded nf(3)]
  show "num_params fh = num_params h" "records_per_block fh = records_per_block h" "index_offset fh = index_offset h"
    "param_names fh = param_names h" "nrec fh = R"
    using h(2) nr names unfolding cf migrated_header_fields nf(3) current_layout_def by simp_all
  have "unat (m * 2) = 2 * unat m" using h(5) by (subst unat_mult_no_wrap) (auto simp: word_le_nat_alt)
  then have "counters_pass fh" using nr h(6) cf(7) by (simp add: counters_pass_def word_le_nat_alt migrated_header_fields)
  moreover have "tsdb_header_is_sane ?nh" unfolding nf(3) by (rule migrated_usable [OF h(1,2,5,7) nf(2)])
  ultimately have "tsdb_header_is_sane fh" by (intro sane_config [OF cfg [symmetric]])
  moreover have "magic fh = TSDB_MAGIC" "version fh \<noteq> 99" using cf(1,2) by (simp_all add: migrated_header_fields) (simp add: migrated_header_def)
  ultimately show "judge_header (ESP_OK, Some fh) = HeaderUsable" by (simp add: judge_header_def)
qed

text \<open>An open that finds a sidecar with more records and the same geometry takes its header.\<close>

lemma open_takes_sidecar:
  assumes q: "quiet w" and r: "recoverable cfg n (db, w0)" "quiet w0" and none: "fs w (mig_path (filepath db)) = None"
    and rdh: "tsdb_read_header (Some (filepath db)) w = (ESP_OK, Some fh)" "judge_header (ESP_OK, Some fh) = HeaderUsable"
    and side: "side_inv db w" "stored_header w (filepath db) (param_names fh) = Some (header db)"
    and wins: "sidecar_wins fh (header db)"
  obtains db2 where "tsdb_open_handle cfg (zero_tsdb 0) w = (Opened db2, w)" "header db2 = header db"
proof -
  let ?p = "filepath db"
  note rc = r(1) [unfolded recoverable_def writable_def Let_def prod.case]
  have pool: "pool_available cfg w" using quiet_pool_available [OF r(2) q] rc by simp
  obtain pl where open_: "\<And>db2. adopt_sidecar ((start_db cfg 0 pl ?p)\<lparr>db_file := Some ?p, header := fh\<rparr>) w = (db2, w) \<Longrightarrow>
    config_part (header db2) = config_part (header db) \<Longrightarrow>
    tsdb_open_handle cfg (zero_tsdb 0) w = (Opened (db2\<lparr>filepath := ?p, is_open := True\<rparr>), w)"
    by (rule open_existing_file [OF q _ pool none _ rdh, of "header db" 0]) (use rc in auto)
  let ?db0 = "(start_db cfg 0 pl ?p)\<lparr>db_file := Some ?p, header := fh\<rparr>"
  have fp: "filepath ?db0 = ?p" using rc by (simp add: start_db_def)
  obtain db3 where l0: "tsdb_sidecar_load ?db0 fh w = (ESP_OK, Some (header db), db3, w)" "header db3 = fh"
    by (rule load_after_crash [OF q side(1) fp, of fh]) (use side(2) in auto)
  then have "adopt_sidecar ?db0 w = (db3\<lparr>header := header db, index_stale := True\<rparr>, w)"
    using wins by (simp add: adopt_sidecar_def)
  from open_ [OF this] have "tsdb_open_handle cfg (zero_tsdb 0) w =
      (Opened (db3\<lparr>header := header db, index_stale := True, filepath := ?p, is_open := True\<rparr>), w)" by simp
  then show ?thesis by (rule that) simp
qed

text \<open>
  C34: The rewrite does not remove the sidecar of the file it replaces. When a crash follows a
  successful shrinking resize before the next write, the next open takes the old header from
  the sidecar: the resize is undone in the header, although the file has the new layout.
\<close>

theorem resize_undone_by_crash:
  assumes "recoverable cfg n (db, w)" "counters_pass (header db)" "current_layout (header db)" "configured_names (header db)"
    and "stored_header w (filepath db) (param_names (header db)) = Some (header db)"
    and "0 < m" "unat m < avail (header db)" "m \<le> 100000000" "entries_for m (index_stride (header db)) \<le> 0x100000"
    and "new_file_end (num_params (header db)) (entries_for m (index_stride (header db))) (unat m) \<le> 2 ^ 32"
  shows "\<exists>db1 log w1 db2. tsdb_resize_h (Some db) m None w = Some (ESP_OK, Some db1, log, w1) \<and> max_records (header db1) = m \<and>
    full_rows (db1, w1) = last_n (unat m) (full_rows (db, w)) \<and>
    tsdb_open_handle cfg (zero_tsdb 0) w1 = (Opened db2, w1) \<and> header db2 = header db \<and> max_records (header db2) \<noteq> m"
proof -
  let ?p = "filepath db" and ?h = "header db" and ?n = "num_params (header db)"
  note r = assms(1) [unfolded recoverable_def writable_def Let_def prod.case]
  have q: "quiet w" "is_open db" "db_inv db w" "db_extra_param_count db = 0" "length ?p \<le> 127" and ci: "crash_inv db w"
    using r by auto
  have f: "db_file db = Some ?p" using q(3) by (simp add: db_inv_def)
  obtain h0 where h0: "judge_header (ESP_OK, Some h0) = HeaderUsable" "config_part h0 = config_part ?h"
    by (rule crash_inv_header [OF ci f])
  have sane: "tsdb_header_is_sane ?h" by (rule sane_config [OF h0(2) judge_ok(3) [OF h0(1)] assms(2)])
  have mg: "magic ?h = TSDB_MAGIC" using judge_ok(1) [OF h0(1)] config_part_fields(1) [OF h0(2)] by simp
  have "?n \<noteq> 0" "?n \<le> 64" using sane by (auto simp: tsdb_header_is_sane_def Let_def split: if_splits)
  then have n: "?n \<noteq> 0" "nparams ?h + extras db \<le> 64" using q(4) by (simp_all add: word_le_nat_alt)
  have rd: "readable db w" using q(3,4) by (simp add: readable_def)
  have dir: "dirs w (parent_dir (mig_path ?p))"
    using ci q(5) by (simp add: crash_inv_def side_dirs_def mig_path_def parent_dir_def)
  have oc: "?n = old_columns db" by (simp add: old_columns_def q(4))
  have av: "m \<noteq> max_records ?h" "\<not> m \<ge> total_records ?h" "m \<noteq> 0" "kept_records ?h m = unat m"
    using assms(6,7) by (auto simp: avail_def kept_records_def word_le_nat_alt split: if_splits)
  obtain db1 log w1 where e: "tsdb_resize_h (Some db) m None w = Some (ESP_OK, Some db1, log, w1)" "quiet w1"
    "max_records (header db1) = m" "full_rows (db1, w1) = within (limit m) (full_rows (db, w))"
    "dirs w1 = dirs w" "\<And>q. q \<noteq> ?p \<Longrightarrow> q \<noteq> mig_path ?p \<Longrightarrow> fs w1 q = fs w q" "fs w1 (mig_path ?p) = None"
    "new_file db w None (migrated_header db w None ?n m (entries_for m (index_stride ?h))) (map Some [0..<unat ?n])
       (kept_records ?h m) (header db1) (content w1 ?p)"
    by (rule resize_rewrites [OF q(1,2) rd q(5) dir av(1) _ n(2,1) oc budget_suffices_None]) (use av assms(10) in auto)
  have "kept_records ?h m \<le> unat m" using av(4) by simp
  note fh = rewritten_header [OF e(8) refl refl sane assms(3,4) q(2) assms(8) this assms(9)]
  have read: "tsdb_read_header (Some ?p) w1 = (ESP_OK, Some (header db1))"
    using e(8) quiet_sound [OF e(2)] unfolding new_file_def by (intro read_header_chunk) auto
  have ss: "same_side db w db w1"
    using e(2,5,6) mig_path_apart(2) [OF q(5)] by (auto simp: same_side_def dest: side_file_neq)
  have si: "side_inv db w1" using same_side_inv [OF ss] ci by (simp add: crash_inv_def)
  have st: "stored_header w1 ?p (param_names (header db1)) = Some ?h" using same_side_newest(3) [OF ss] assms(5) fh(5) by simp
  have "sidecar_wins (header db1) ?h"
    using mg sane fh av by (simp add: sidecar_wins_def word_le_nat_alt)
  from open_takes_sidecar [OF e(2) assms(1) q(1) e(7) read fh(1) si st this] obtain db2 where
    "tsdb_open_handle cfg (zero_tsdb 0) w1 = (Opened db2, w1)" "header db2 = ?h" .
  then show ?thesis using e(1,3,4) av(1,3) by (auto simp: limit_def)
qed

lemma demo_config_header:
  "max_records (new_header (demo_config 3)) = 3" "index_stride (new_header (demo_config 3)) = 4"
  "num_params (new_header (demo_config 3)) = 1" "index_offset (new_header (demo_config 3)) = 1024"
  "records_per_block (new_header (demo_config 3)) = blocks_records 1"
  "param_names (new_header (demo_config 3)) = fixed_names (Some [Some [0x74]]) 1"
  "total_records (new_header (demo_config 3)) = 0"
  by (simp_all add: new_header_fields demo_config_def stride_or_default_def)
    (simp_all add: new_header_def config_header_def Let_def zero_header_def)

text \<open>A database that was opened, written three times and not yet folded.\<close>

lemma demo_written:
  obtains db w where "recoverable (demo_config 3) 2 (db, w)" "config_part (header db) = config_part (new_header (demo_config 3))"
    "nrec (header db) = 3" "stored_header w (filepath db) (param_names (header db)) = Some (header db)"
    "db_rows (db, w) = [(10, [1]), (20, [2]), (30, [3])]" "db_extra_param_count db = 0"
proof -
  let ?xs = "[(10, [1]), (20, [2])] :: (u32 \<times> i16 list) list" and ?x = "(30, [3]) :: u32 \<times> i16 list"
  obtain db0 w0 where d: "recoverable (demo_config 3) 5 (db0, w0)" "header db0 = new_header (demo_config 3)"
    "db_rows (db0, w0) = []" "db_extra_param_count db0 = 0"
    by (rule demo_session)
  have fits: "list_all (entry_fits (db0, w0)) (?xs @ [?x])" using d(2,4) by (simp add: entry_fits_def demo_config_header)
  have r: "recoverable (demo_config 3) (length ?xs + 3) (db0, w0)" using d(1) by simp
  obtain db1 w1 where p: "foldl db_put (db0, w0) ?xs = (db1, w1)" "recoverable (demo_config 3) 3 (db1, w1)"
    "config_part (header db1) = config_part (header db0)" "nrec (header db1) = nrec (header db0) + length ?xs"
    using recoverable_puts [OF r] fits by auto
  have r1: "recoverable (demo_config 3) (Suc 2) (db1, w1)" using p(2) by simp
  note rc = r1 [unfolded recoverable_def Let_def prod.case crash_inv_def]
  note c1 = config_part_fields [OF p(3) [symmetric]]
  have f1: "entry_fits (db1, w1) ?x" using rc c1 d(2) by (simp add: entry_fits_def demo_config_header)
  have sq: "sidecar_seq db1 + 1 < 0xFFFFFFFF"
    using rc by (simp add: word_less_nat_alt unat_inc_no_wrap)
  obtain db w where wr: "db_put (db1, w1) ?x = (db, w)" "stored db1 w1 (entry_row (db1, w1) ?x) db w"
    "stored_header w (filepath db1) (param_names (header db1)) = Some (header db)"
    by (rule write_recovers [of 2 db1 w1 30 "[3]"]) (use rc f1 sq that in simp_all)
  have rec: "recoverable (demo_config 3) 2 (db, w)" "config_part (header db) = config_part (header db1)"
    using recoverable_put [OF r1 f1] wr(1) by simp_all
  note c = config_part_fields [OF rec(2) [symmetric]]
  have fp: "filepath db = filepath db1" using wr(2) by (simp add: stored_def same_frame_def)
  have "length (?xs @ [?x]) + 2 = 5" by simp
  then have w0: "writable (length (?xs @ [?x]) + 2) (db0, w0)" using d(1) unfolding recoverable_def Let_def prod.case by metis
  have "foldl db_put (db0, w0) (?xs @ [?x]) = (db, w)" using p(1) wr(1) by simp
  then have rows: "db_rows (db, w) = [(10, [1]), (20, [2]), (30, [3])]"
    using db_queue.puts_rows [OF w0 fits] d(2,3) c1(7) c(7)
    by (simp add: entry_row_def limit_of_def last_n_def demo_config_header)
  show ?thesis
    by (rule that [of db w]) (use rec p(3,4) wr(2,3) c(11) fp rows d(2) in
      \<open>simp_all add: stored_def demo_config_header recoverable_def Let_def\<close>)
qed

theorem resize_undone_by_crash_witness:
  "\<exists>db w db1 log w1 db2. db_rows (db, w) = [(10, [1]), (20, [2]), (30, [3])] \<and>
    tsdb_resize_h (Some db) 2 None w = Some (ESP_OK, Some db1, log, w1) \<and> full_rows (db1, w1) = [(20, [2]), (30, [3])] \<and>
    tsdb_open_handle (demo_config 3) (zero_tsdb 0) w1 = (Opened db2, w1) \<and> max_records (header db2) = 3"
proof -
  obtain db w where d: "recoverable (demo_config 3) 2 (db, w)" "config_part (header db) = config_part (new_header (demo_config 3))"
    "nrec (header db) = 3" "stored_header w (filepath db) (param_names (header db)) = Some (header db)"
    "db_rows (db, w) = [(10, [1]), (20, [2]), (30, [3])]" "db_extra_param_count db = 0"
    by (rule demo_written)
  note c = config_part_fields [OF d(2) [symmetric], unfolded demo_config_header]
  have cp: "counters_pass (header db)" using c(7) d(3) by (simp add: counters_pass_def word_le_nat_alt)
  have cl: "current_layout (header db)" using c by (simp add: current_layout_def mig_index_offset_def)
  have cn: "configured_names (header db)" using c by (simp add: configured_names_def) (intro exI [of _ "[[0x74]]"], simp)
  have av: "avail (header db) = 3" using c(7) d(3) by (simp add: avail_def)
  have fr: "full_rows (db, w) = [(10, [1]), (20, [2]), (30, [3])]" using full_rows_base [OF d(6)] d(5) by simp
  have "128 * (2 div unat (blocks_records 1)) \<le> 536870655" using div_le_dividend [of 2 "unat (blocks_records 1)"] by linarith
  then have e: "new_file_end (num_params (header db)) (entries_for 2 (index_stride (header db))) (unat (2 :: u32)) \<le> 2 ^ 32"
    using c by (simp add: new_file_end_def entries_for_def mig_index_offset_def)
  have en: "entries_for 2 (index_stride (header db)) \<le> 0x100000" using c by (simp add: entries_for_def)
  from resize_undone_by_crash [OF d(1) cp cl cn d(4) _ _ _ en e] obtain db1 log w1 db2 where
    "tsdb_resize_h (Some db) 2 None w = Some (ESP_OK, Some db1, log, w1)" "full_rows (db1, w1) = last_n (unat (2 :: u32)) (full_rows (db, w))"
    "tsdb_open_handle (demo_config 3) (zero_tsdb 0) w1 = (Opened db2, w1)" "header db2 = header db"
    using av by auto
  moreover from this have "full_rows (db1, w1) = [(20, [2]), (30, [3])]" "max_records (header db2) = 3"
    using c(7) fr by (simp_all add: last_n_def)
  ultimately show ?thesis using d(5) by blast
qed

end
