(* ===== verification/Tsdb_Faults.thy ===== *)
theory Tsdb_Faults
  imports Tsdb_Schema
begin

text \<open>
  What the code does when the platform loses data without reporting it: a block that cannot be
  read although it is in the file, and a write whose data the unchecked \<open>fflush\<close>, \<open>fsync\<close> or
  \<open>fclose\<close> after it loses. The properties of the other theories assume a \<open>sound\<close> world, where
  neither happens; the theorems here show what is lost in the others.
\<close>

section \<open>A write whose block cannot be read\<close>

lemma ld16_zeros: "off + 2 \<le> n \<Longrightarrow> ld16 (replicate n 0) off = 0"
  by (simp add: ld16_def chunk_def min_def eval_nat_numeral)

lemma ld16_fresh_zero: "8 \<le> off \<Longrightarrow> off + 2 \<le> 1024 \<Longrightarrow> ld16 fresh_block off = 0"
proof -
  assume o: "8 \<le> off" "off + 2 \<le> 1024"
  have "ld16 (replicate 1024 0) off = 0" using o by (intro ld16_zeros) simp
  then show ?thesis
    using o by (simp add: fresh_block_def set_block_count_def set_block_magic_def st16_def st32_def
        ld16_overlay_disjoint length_overlay)
qed

lemma block_row_fresh:
  assumes "geom n m" "r < n"
  shows "block_row n m fresh_block r = (0, replicate m 0)"
proof -
  have "ld32 fresh_block (ts_off r) = 0"
    using ts_off_bound [OF assms(2)] assms(1) by (intro ld32_fresh_zero) (auto simp: ts_off_def geom_def)
  moreover have "ld16 fresh_block (param_off n q r) = 0" if "q < m" for q
    using param_off_bound [OF assms(1) that assms(2)] param_off_low [of n q r] by (intro ld16_fresh_zero) auto
  ultimately show ?thesis
    by (auto simp: block_row_def TSDB_BLOCK_TS_def TSDB_BLOCK_PARAM_def intro!: nth_equalityI)
qed

lemma overlay_again:
  assumes "length c = length d"
  shows "overlay (overlay f k c) k d = overlay f k d"
proof (rule nth_equalityI)
  show l: "length (overlay (overlay f k c) k d) = length (overlay f k d)" using assms by (auto simp: length_overlay)
  fix i
  assume "i < length (overlay (overlay f k c) k d)"
  then show "overlay (overlay f k c) k d ! i = overlay f k d ! i"
    using assms l by (subst (1 2) nth_overlay) (auto simp: nth_overlay length_overlay split: if_splits)
qed

text \<open>The file whose block of slot \<open>t\<close> is replaced by an empty one, and the rows it then holds.\<close>

definition blanked :: "tsdb_header \<Rightarrow> nat \<Rightarrow> bytes \<Rightarrow> bytes" where
  "blanked h t f = overlay f (block_pos h (t div rpb h)) fresh_block"

lemma block_overlay_slot:
  assumes "length b = 1024" "TSDB_BLOCK_MAGIC b = BLKT_MAGIC" "block_pos h (t div rpb h) + 1024 \<le> 2 ^ 32"
    and g: "g = overlay f (block_pos h (t div rpb h)) b"
  shows "s div rpb h = t div rpb h \<Longrightarrow> slot_ok h g s \<and> slot_row h g s = block_row (rpb h) (nparams h) b (s mod rpb h)"
    "s div rpb h \<noteq> t div rpb h \<Longrightarrow> slot_ok h f s \<Longrightarrow> slot_ok h g s \<and> slot_row h g s = slot_row h f s"
proof -
  assume s: "s div rpb h = t div rpb h"
  have "slot_block h g s = b" using assms(1) by (simp add: slot_block_def s g chunk_overlay_same)
  moreover have "block_pos h (t div rpb h) + 1024 \<le> length g" using assms(1) by (auto simp: g length_overlay)
  ultimately show "slot_ok h g s \<and> slot_row h g s = block_row (rpb h) (nparams h) b (s mod rpb h)"
    using assms(2,3) s by (simp add: slot_ok_def slot_row_def)
next
  assume s: "s div rpb h \<noteq> t div rpb h" "slot_ok h f s"
  have "keeps (\<lambda>i. i < block_pos h (t div rpb h) \<or> block_pos h (t div rpb h) + 1024 \<le> i) f g"
    unfolding g by (rule keeps_mono [OF keeps_overlay]) (use assms(1) in auto)
  moreover have "i < block_pos h (t div rpb h) \<or> block_pos h (t div rpb h) + 1024 \<le> i"
    if "block_pos h (s div rpb h) \<le> i" "i < block_pos h (s div rpb h) + 1024" for i
    using block_pos_apart [OF s(1), of h] that by auto
  ultimately show "slot_ok h g s \<and> slot_row h g s = slot_row h f s"
    using slot_keeps [OF _ s(2)] by blast
qed

lemma blanked_ring:
  assumes "ring_inv h f" "block_pos h (t div rpb h) + 1024 \<le> 2 ^ 32"
  shows "ring_inv h (blanked h t f)"
    "retained h (blanked h t f) =
      map (\<lambda>j. if slot_of h j div rpb h = t div rpb h then (0, replicate (nparams h) 0) else slot_row h f (slot_of h j))
        [nrec h - avail h..<nrec h]"
proof -
  have g: "geom (rpb h) (nparams h)" using assms(1) by (simp add: ring_inv_def ring_hdr_def)
  then have N: "0 < rpb h" by (simp add: geom_def)
  note bs = block_overlay_slot [OF length_fresh_block magic_fresh_block assms(2) blanked_def]
  have ok: "slot_ok h f s" if "s < avail h" for s using assms(1) that by (simp add: ring_inv_def)
  have row: "slot_ok h (blanked h t f) s \<and> slot_row h (blanked h t f) s =
      (if s div rpb h = t div rpb h then (0, replicate (nparams h) 0) else slot_row h f s)" if "s < avail h" for s
    using bs [of s f] ok [OF that] block_row_fresh [OF g] N by auto
  then show "ring_inv h (blanked h t f)" using assms(1) by (simp add: ring_inv_def)
  have "slot_of h j < avail h" if "nrec h - avail h \<le> j" "j < nrec h" for j using that by (intro slot_of_less) auto
  then show "retained h (blanked h t f) =
      map (\<lambda>j. if slot_of h j div rpb h = t div rpb h then (0, replicate (nparams h) 0) else slot_row h f (slot_of h j))
        [nrec h - avail h..<nrec h]"
    using row by (simp add: retained_def)
qed

text \<open>One pass over a file system that reports no failure: the block comes from what could be read.\<close>

lemma unread_write_run:
  assumes w: "io_script w = []" "\<not> has_free_space_cb db" "db_file db = Some p"
    and h: "geom (rpb (header db)) (nparams (header db))" "nparams (header db) \<le> length vals"
    and t: "t = slot_of (header db) (nrec (header db))" "block_pos (header db) (t div rpb (header db)) + 1024 \<le> 2 ^ 32"
    and fault: "read_fault w p (block_pos (header db) (t div rpb (header db))) 1024"
  obtains pl where "write_locked db ts vals w =
    finish_write (evicted db pl) (next_record_idx (header db)) (next_is_eviction (header db)) ts vals
      (put_file w p (overlay (content w p) (block_pos (header db) (t div rpb (header db)))
        (fill_block (header db) fresh_block (t mod rpb (header db)) ts vals)))"
proof -
  let ?h = "header db"
  define db1 where "db1 = db\<lparr>header := evict_header ?h\<rparr>"
  define bn where "bn = next_record_idx ?h div ucast (records_per_block (header db1))"
  define r where "r = unat (ucast (next_record_idx ?h mod ucast (records_per_block (header db1))) :: u16)"
  have g: "records_per_block (header db1) = records_per_block ?h" "num_params (header db1) = num_params ?h"
    "tsdb_calc_block_offset (header db1) = tsdb_calc_block_offset ?h" "db_file db1 = Some p"
    using w(3) by (simp_all add: db1_def evict_header_def tsdb_calc_block_offset_def fun_eq_iff)
  have bn: "unat bn = t div rpb ?h" by (simp add: bn_def g(1) unat_div next_record_idx unat_u16_u32 t(1))
  have pos: "unat (tsdb_calc_block_offset ?h bn) = block_pos ?h (t div rpb ?h)"
    using t(2) bn by (subst calc_block_offset_exact) simp_all
  have "t mod rpb ?h < rpb ?h" "rpb ?h < 65536" using h(1) by (auto simp: geom_def)
  then have "t mod rpb ?h < 65536" by (rule less_trans)
  then have r: "r = t mod rpb ?h" by (simp add: r_def g(1) unat_u32_u16 unat_mod next_record_idx unat_u16_u32 t(1))
  have read: "tsdb_read_block db1 bn w = (ESP_ERR_NOT_FOUND, None)"
    using fault by (simp add: tsdb_read_block_def g pos fread_at_def)
  define blk where "blk = fill_block ?h fresh_block (t mod rpb ?h) ts vals"
  have fb: "fill_block (header db1) (existing_or_new (tsdb_read_block db1 bn w)) r ts vals = blk"
    by (simp add: read existing_or_new_def blk_def r fill_block_def g(1,2))
  have "t mod rpb ?h < rpb ?h" using h(1) by (simp add: geom_def)
  then have lb: "length blk = 1024" unfolding blk_def by (intro fill_block(1) [OF h(1) _ _ h(2)]) simp_all
  obtain pl where pl: "stage_block db1 (write_cache_offset db1) blk = db1\<lparr>pool := pl\<rparr>"
    using stage_block_pool by blast
  let ?w = "put_file w p (overlay (content w p) (block_pos ?h (t div rpb ?h)) blk)"
  have wb: "tsdb_write_block (db1\<lparr>pool := pl\<rparr>) bn blk w = (ESP_OK, ?w)"
    using w(1) g pos lb by (simp add: tsdb_write_block_def fwrite_at_def next_io_def)
  have ev: "evicted db pl = db1\<lparr>pool := pl\<rparr>" by (simp add: evicted_def db1_def)
  have "tsdb_write_attempt db ts vals w =
      Inr (finish_write (evicted db pl) (next_record_idx ?h) (next_is_eviction ?h) ts vals ?w)"
    using pl wb fb unfolding ev tsdb_write_attempt_def Let_def bn_def r_def db1_def by simp
  moreover have "free_space_guard db w = (db, w)" using w(2) by (simp add: free_space_guard_def Let_def)
  ultimately show ?thesis
    by (intro that [of pl]) (simp add: write_locked_def tsdb_write_retry.simps blk_def)
qed

text \<open>
  C38: A write does not report that it could not read its block. When reading the block of the
  next record fails (a read error, a file that another owner has locked) and everything else
  works, \<open>tsdb_write_h\<close> starts an empty block in its place, writes it over the old one and
  returns success: every retained record of that block becomes a row of zeros, the other
  records stay, and the new record is appended. The write-back of a block read without an
  error keeps all of them (C1).
\<close>

theorem unreadable_block_overwritten:
  assumes "quiet w" "db_inv db w" "room db" "is_open db" "\<not> migrating db" "\<not> closing db" "\<not> has_free_space_cb db"
    and "nparams (header db) \<le> length vals" "t = slot_of (header db) (nrec (header db))"
    and "faults (filepath db) (block_pos (header db) (t div rpb (header db))) 1024"
  shows "\<exists>db' w'. tsdb_write_h (Some db) ts (Some vals) (w\<lparr>read_fault := faults\<rparr>) = (ESP_OK, Some db', w') \<and>
    nrec (header db') = nrec (header db) + 1 \<and> max_records (header db') = max_records (header db) \<and>
    db_rows (db', w') = within (limit_of (header db'))
      (map (\<lambda>j. if slot_of (header db) j div rpb (header db) = t div rpb (header db) then (0, replicate (nparams (header db)) 0)
                else slot_row (header db) (content w (filepath db)) (slot_of (header db) j))
        [nrec (header db) - avail (header db)..<nrec (header db)] @ [(ts, take (nparams (header db)) vals)])"
proof -
  let ?h = "header db" and ?p = "filepath db" and ?v = "w\<lparr>read_fault := faults\<rparr>" and ?x = "(ts, take (nparams (header db)) vals)"
  let ?blk = "fill_block ?h fresh_block (t mod rpb ?h) ts vals" and ?pos = "block_pos ?h (t div rpb ?h)"
  have inv: "db_file db = Some ?p" "ring_inv ?h (content w ?p)" "ring_hdr ?h" "nrec ?h + 1 < 2 ^ 32" "?pos + 1024 \<le> 2 ^ 32"
    using assms(2,3,9) by (simp_all add: db_inv_def ring_inv_def room_def Let_def)
  have g: "geom (rpb ?h) (nparams ?h)" using inv(3) by (simp add: ring_hdr_def)
  then have r: "t mod rpb ?h < rpb ?h" by (simp add: geom_def)
  have c: "content ?v ?p = content w ?p" by (simp add: content_def)
  let ?f1 = "overlay (content w ?p) ?pos ?blk" and ?f0 = "blanked ?h t (content w ?p)"
  let ?v1 = "put_file ?v ?p ?f1" and ?w0 = "put_file w ?p ?f0"
  obtain pl where run: "write_locked db ts vals ?v =
      finish_write (evicted db pl) (next_record_idx ?h) (next_is_eviction ?h) ts vals ?v1"
    by (rule unread_write_run [where w = ?v and p = ?p and t = t and ts = ts, OF _ assms(7) inv(1) g assms(8,9) inv(5)])
      (use assms(1,10) c in \<open>simp_all add: quiet_def\<close>)
  obtain e db' w' where fin: "finish_write (evicted db pl) (next_record_idx ?h) (next_is_eviction ?h) ts vals ?v1 = (e, db', w')"
    by (metis prod_cases3)
  note fw = finish_write [OF fin]
  have "tsdb_lock_open ?v = (None, ?v)" using assms(1) by (simp add: tsdb_lock_open_def next_lock_def quiet_def)
  then have wr: "tsdb_write_h (Some db) ts (Some vals) ?v = (ESP_OK, Some db', w')"
    using assms(4-6) run fin fw(1) by (simp add: tsdb_write_h_def)
  note bl = blanked_ring [OF inv(2,5)]
  have i0: "db_inv db ?w0" using assms(2) bl(1) by (simp add: db_inv_def)
  note fb = fill_block [OF g length_fresh_block r assms(8), where ts = ts]
  have "?f1 = overlay ?f0 ?pos ?blk" using fb(1) by (simp add: blanked_def overlay_again)
  note s1 = block_overlay_slot [OF fb(1) fb(2) [unfolded magic_fresh_block] inv(5) this]
    and s0 = block_overlay_slot(1) [OF length_fresh_block magic_fresh_block inv(5) blanked_def, where f = "content w ?p"]
  have "slots_except ?h t (content ?w0 ?p) (content ?v1 ?p)"
  proof (unfold slots_except_def, intro allI impI)
    fix s
    assume s: "s \<noteq> t" "slot_ok ?h (content ?w0 ?p) s"
    show "slot_ok ?h (content ?v1 ?p) s \<and> slot_row ?h (content ?v1 ?p) s = slot_row ?h (content ?w0 ?p) s"
    proof (cases "s div rpb ?h = t div rpb ?h")
      case True
      then have "s mod rpb ?h \<noteq> t mod rpb ?h" using s(1) by (metis div_mult_mod_eq)
      then show ?thesis using s1(1) [OF True] s0 [OF True] fb(3) g by (simp add: geom_def)
    next
      case False
      then show ?thesis using s1(2) s(2) by simp
    qed
  qed
  moreover have "slot_holds ?h (content ?v1 ?p) t ?x" using s1(1) [OF refl] fb(3) r by (simp add: slot_holds_def)
  ultimately have fs: "\<And>s. s < avail ?h \<Longrightarrow> s \<noteq> slot_of ?h (nrec ?h) \<Longrightarrow> slot_ok ?h (content w' ?p) s \<and>
      slot_row ?h (content w' ?p) s = slot_row ?h ?f0 s" "slot_holds ?h (content w' ?p) (slot_of ?h (nrec ?h)) ?x"
    using finish_slots [OF i0 assms(3) _ _ assms(9) fin] assms(9) by auto
  have fr: "same_frame db db'" by (rule same_frame_trans [OF same_frame_evicted fw(2)])
  have k: "total_records (header db') = total_records ?h + 1" "max_records (header db') = max_records ?h"
    "oldest_record_idx (header db') = oldest_record_idx (evict_header ?h)"
    using fw(3-5) by (simp_all add: evicted_def)
  note ra = ring_advance(2) [OF inv(3,4) same_frame_geom [OF fr] k fs]
  have "filepath db' = ?p" using fr by (simp add: same_frame_def)
  then show ?thesis
    using wr k(1,2) inv(4) ra unfolding bl(2) by (simp add: db_rows_def unat_inc_no_wrap)
qed

text \<open>The three records share one block; the write of a fourth keeps none of them.\<close>

theorem unreadable_block_overwritten_witness:
  "\<exists>db' w'. db_rows (demo_full, demo_full_disk) = demo_rows \<and>
    tsdb_write_h (Some demo_full) 400 (Some [5]) (demo_full_disk\<lparr>read_fault := (\<lambda>p off n. off = 1032)\<rparr>) =
      (ESP_OK, Some db', w') \<and>
    db_rows (db', w') = [(0, [0]), (0, [0]), (400, [5])]"
proof -
  let ?h = "header demo_full"
  have inv: "db_inv demo_full demo_full_disk" using demo_full_rows(1) by (simp add: readable_def)
  have open_: "\<not> migrating demo_full" "\<not> closing demo_full" "\<not> has_free_space_cb demo_full"
    by (simp_all add: demo_full_def demo_db_def)
  have h: "nrec ?h = 3" "cap ?h = 3" "nparams ?h = 1" "rpb ?h = 4" "avail ?h = 3" "slot_of ?h 3 = 0"
    by (simp_all add: demo_full_fields avail_def slot_of_def)
  have sl: "slot_of ?h j div 4 = 0" for j
  proof -
    have "slot_of ?h j < 4" by (simp add: slot_of_def demo_full_fields)
    then show ?thesis by simp
  qed
  have ds: "data_start ?h = 1032" by (simp add: data_start_def demo_full_fields)
  have room: "room demo_full" by (simp add: room_def Let_def h ds block_pos_def ovf_room_def demo_full_fields)
  have hyp: "nparams ?h \<le> length [5 :: i16]" "(0 :: nat) = slot_of ?h (nrec ?h)"
    "(\<lambda>p off n. off = 1032) (filepath demo_full) (block_pos ?h (0 div rpb ?h)) (1024 :: nat)"
    by (simp_all add: h ds block_pos_def)
  from unreadable_block_overwritten [where faults = "\<lambda>p off n. off = 1032" and ts = 400,
      OF demo_full_disk(2) inv room demo_full_fields(3) open_ hyp]
  obtain db' w' where r: "tsdb_write_h (Some demo_full) 400 (Some [5]) (demo_full_disk\<lparr>read_fault := (\<lambda>p off n. off = 1032)\<rparr>) =
      (ESP_OK, Some db', w')" "max_records (header db') = max_records ?h"
    "db_rows (db', w') = within (limit_of (header db')) (map (\<lambda>j. (0, [0])) [0..<3] @ [(400, [5])])"
    by (auto simp: h sl)
  have "[0..<3] = [0, 1, 2 :: nat]" by (simp add: upt_rec)
  with r(2,3) have "db_rows (db', w') = [(0, [0]), (0, [0]), (400, [5])]"
    by (simp add: limit_of_def demo_full_fields last_n_def)
  moreover have "db_rows (demo_full, demo_full_disk) = demo_rows"
    using demo_full_rows(2) full_rows_base [OF demo_full_fields(4)] by simp
  ultimately show ?thesis using r(1) by blast
qed

section \<open>A migration whose source cannot be read\<close>

text \<open>A world whose writes, opens and allocations succeed, whatever becomes of its reads.\<close>

definition no_reports :: "world \<Rightarrow> bool" where
  "no_reports w \<longleftrightarrow> io_script w = [] \<and> heap_script w = []"

lemma no_reports_next:
  "no_reports w \<Longrightarrow> next_io w = (IoOk, w)" "no_reports w \<Longrightarrow> malloc_ok w = (True, w)"
  by (simp_all add: no_reports_def next_io_def malloc_ok_def)

lemma no_reports_update [simp]:
  "no_reports (put_file w p f) = no_reports w" "no_reports (w\<lparr>fs := g\<rparr>) = no_reports w"
  by (simp_all add: no_reports_def put_file_def)

lemma no_reports_write: "no_reports w \<Longrightarrow> fwrite_at w p off d = (None, put_file w p (overlay (content w p) off d))"
  by (simp add: fwrite_at_def no_reports_next)

lemma no_reports_write_all:
  "no_reports w \<Longrightarrow> \<exists>w'. write_all p ws w = (True, w') \<and> no_reports w' \<and> (fs w p \<noteq> None \<longrightarrow> fs w' p \<noteq> None) \<and>
     read_fault w' = read_fault w"
proof (induction ws arbitrary: w)
  case (Cons x ws)
  obtain off d where x: "x = (off, d)" by fastforce
  have "no_reports (put_file w p (overlay (content w p) off d))" using Cons.prems by simp
  from Cons.IH [OF this] Cons.prems show ?case by (auto simp: x no_reports_write)
qed simp

lemma unread_record:
  assumes rd: "readable db w" and a: "0 < avail (header db)"
    and fault: "read_fault v (filepath db) (block_pos (header db) (pos_slot (header db) 0 div rpb (header db))) 1024"
  shows "migrate_read_record db (filepath db) 0 c ([], 0xFFFFFFFF) v = None"
proof -
  let ?h = "header db" and ?s = "pos_slot (header db) 0"
  have inv: "ring_inv ?h (content w (filepath db))" "db_file db = Some (filepath db)" using rd by (simp_all add: readable_def db_inv_def)
  let ?sl = "ring_slot ?h (first_slot_of ?h) 0" and ?n = "ucast (records_per_block ?h) :: u32"
  have slot: "(if max_records ?h = 0 then 0 else (oldest_record_idx ?h + 0) mod max_records ?h) = ?sl"
    by (simp add: ring_slot_def first_slot_of_def)
  have "unat ?sl = ?s" using ring_slot_pos [OF inv(1), of 0] by simp
  then have ub: "unat (?sl div ?n) = ?s div rpb ?h" by (simp add: unat_div unat_u16_u32)
  have "avail ?h \<le> nrec ?h" by (simp add: avail_def)
  then have "?s < avail ?h" unfolding pos_slot_def using a by (intro slot_of_less) auto
  then have ok: "slot_ok ?h (content w (filepath db)) ?s" using inv(1) by (simp add: ring_inv_def)
  then have ne: "?sl div ?n \<noteq> 0xFFFFFFFF" using ub by (auto simp: slot_ok_def block_pos_def)
  have "unat (tsdb_calc_block_offset ?h (?sl div ?n)) = block_pos ?h (?s div rpb ?h)"
    using ok ub by (subst calc_block_offset_exact) (auto simp: slot_ok_def)
  then have "tsdb_read_block db (?sl div ?n) v = (ESP_ERR_NOT_FOUND, None)"
    using fault inv(2) by (simp add: tsdb_read_block_def fread_at_def)
  then show ?thesis using ne unfolding migrate_read_record_def Let_def slot by simp
qed

text \<open>
  A migration does not report that it stopped early. When the block of the oldest record cannot
  be read and everything else works, the copy ends before its first record, the header of the
  copy is committed with a record count of zero, the original is removed, and the migration
  returns success with no record left.
\<close>

theorem migration_drops_unreadable:
  assumes "quiet w" "is_open db" "readable db w" "length (filepath db) \<le> 127" "dirs w (parent_dir (mig_path (filepath db)))"
    and "0 < n" "n \<le> 64" "n \<noteq> num_params (header db)" "nparams (header db) + extras db \<le> 64" "0 < avail (header db)"
    and "budget_suffices (header db) n opts (plan_capacity (header db) False 0)"
    and "faults (filepath db) (block_pos (header db) (pos_slot (header db) 0 div rpb (header db))) 1024"
  shows "\<exists>db' log w'. tsdb_migrate_schema_h (Some db) (Some names) n opts (w\<lparr>read_fault := faults\<rparr>) =
      Some (ESP_OK, Some db', log, w') \<and> nrec (header db') = 0 \<and> db_rows (db', w') = [] \<and> fs w' (mig_path (filepath db)) = None"
proof -
  let ?p = "filepath db" and ?mp = "mig_path (filepath db)" and ?h = "header db" and ?v = "w\<lparr>read_fault := faults\<rparr>"
  have f: "db_file db = Some ?p" using assms(3) by (simp add: readable_def db_inv_def)
  have ne: "?mp \<noteq> ?p" by (rule mig_path_apart(1) [OF assms(4)])
  obtain retain new_max entries where pc: "plan_capacity ?h False 0 = (retain, new_max, entries)" by (metis prod_cases3)
  have ret: "unat retain = avail ?h" by (rule full_plan(1) [OF pc])
  then have "retain = retained_count ?h" by (simp add: word_unat_eq_iff retained_count)
  then have skip: "retained_count ?h - retain = 0" by simp
  define v0 where "v0 = snd (unlink_file ?v ?mp)"
  have v0: "no_reports v0" "dirs v0 = dirs w" "read_fault v0 = faults"
    using assms(1) by (simp_all add: v0_def unlink_file_def next_io_def quiet_def no_reports_def)
  define v1 where "v1 = put_file v0 ?mp []"
  have v1: "fopen_trunc v0 ?mp = (True, v1)" "no_reports v1" "read_fault v1 = faults" "fs v1 ?mp \<noteq> None"
    using v0 assms(5) by (simp_all add: fopen_trunc_def no_reports_next v1_def)
  define cols where "cols = map_columns db ?v names (unat n)"
  define nh where "nh = migrated_header db v1 (Some names) n new_max entries"
  obtain v2 where v2: "write_all ?mp (preamble db v1 (Some names) nh) v1 = (True, v2)" "no_reports v2" "fs v2 ?mp \<noteq> None"
    "read_fault v2 = faults"
    using no_reports_write_all [OF v1(2)] v1(3,4) by metis
  have stop: "migrate_read_record db ?p 0 c ([], 0xFFFFFFFF) v2 = None" for c
    by (rule unread_record [OF assms(3,10)]) (use v2(4) assms(12) in simp)
  obtain k where k: "unat (retained_count ?h) = Suc k"
    using assms(10) by (metis gr0_conv_Suc retained_count)
  define fh where "fh = nh\<lparr>oldest_timestamp := 0, newest_timestamp := 0, total_records := 0, total_writes := 0,
    oldest_record_idx := 0, newest_record_idx := 0, total_evictions := 0\<rparr>"
  define v3 where "v3 = put_file v2 ?mp (overlay (content v2 ?mp) 0 (encode_header fh))"
  obtain log where copy: "engine_copy db ?p (Some names) n cols opts (retain, new_max, entries) v1 = (ESP_OK, fh, log, v3)"
    using v2(1) unfolding nh_def
    by (simp add: engine_copy_def Let_def skip k stop commit_copy_def final_header_def no_reports_write [OF v2(2)]
        fh_def v3_def nh_def)
  define v4 where "v4 = v3\<lparr>fs := (fs v3)(?p := None)\<rparr>"
  have v3: "no_reports v3" using v2(2) by (simp add: v3_def)
  then have u: "snd (unlink_file v3 ?p) = v4"
    by (auto simp: unlink_file_def no_reports_next v4_def fun_upd_idem)
  define v5 where "v5 = v4\<lparr>fs := (fs v4)(?p := fs v4 ?mp, ?mp := None)\<rparr>"
  have v5: "no_reports v4" "no_reports v5" "fs v4 ?mp \<noteq> None" "fs v5 ?p \<noteq> None" "fs v5 ?mp = None"
    using v3 ne by (simp_all add: v4_def v5_def v3_def)
  then have swap: "engine_swap db fh v3 = (ESP_OK, adopt_schema db fh, v5)"
    by (simp add: engine_swap_def Let_def u rename_file_def fopen_existing_def no_reports_next v5_def)
  have "malloc_ok v0 = (True, v0)" by (rule no_reports_next(2) [OF v0(1)])
  then have rw: "engine_rewrite db ?p (Some names) n cols opts (retain, new_max, entries) ?v = (ESP_OK, adopt_schema db fh, log, v5)"
    by (simp add: engine_rewrite_def Let_def v0_def [symmetric] v1(1) copy engine_finish_def swap)
  have "plan_budget ?h n opts (plan_capacity ?h False 0) = Some (retain, new_max, entries)"
    using assms(11) pc by (simp add: budget_suffices_def)
  then have "migrate_engine_locked db (Some names) n opts False 0 ?v = Some (ESP_OK, adopt_schema db fh, log, v5)"
    using assms(8) f rw engine_fits [OF assms(9)] by (simp add: migrate_engine_locked_def column_plan_def Let_def cols_def)
  moreover have "tsdb_lock_open ?v = (None, ?v)" using assms(1) by (simp add: tsdb_lock_open_def next_lock_def quiet_def)
  moreover have "n \<noteq> 0" using assms(6) by auto
  ultimately have "tsdb_migrate_schema_h (Some db) (Some names) n opts ?v = Some (ESP_OK, Some (adopt_schema db fh), log, v5)"
    using assms(2,7) by (simp add: tsdb_migrate_schema_h_def not_less)
  moreover have "nrec fh = 0" by (simp add: fh_def)
  ultimately show ?thesis
    using v5(5) by (auto simp: adopt_schema_fields db_rows_def retained_def avail_def)
qed

theorem migration_drops_unreadable_witness:
  "\<exists>db' log w'. db_rows (demo_full, demo_full_disk) = demo_rows \<and>
    tsdb_migrate_schema_h (Some demo_full) (Some [[0x61], []]) 2 None (demo_full_disk\<lparr>read_fault := (\<lambda>p off n. off = 1032)\<rparr>) =
      Some (ESP_OK, Some db', log, w') \<and> db_rows (db', w') = []"
proof -
  have a: "avail (header demo_full) = 3" by (simp add: avail_def demo_full_fields)
  have "block_pos (header demo_full) (pos_slot (header demo_full) 0 div rpb (header demo_full)) = 1032"
    by (simp add: block_pos_def data_start_def demo_full_fields pos_slot_def slot_of_def a)
  with migration_drops_unreadable [where faults = "\<lambda>p off n. off = 1032", OF demo_full_disk(2) demo_full_fields(3) demo_full_rows(1)
      demo_mig_path, of 2 None "[[0x61], []]"]
  have "\<exists>db' log w'. tsdb_migrate_schema_h (Some demo_full) (Some [[0x61], []]) 2 None (demo_full_disk\<lparr>read_fault := (\<lambda>p off n. off = 1032)\<rparr>) =
      Some (ESP_OK, Some db', log, w') \<and> db_rows (db', w') = []"
    by (auto simp: a demo_full_fields)
  moreover have "db_rows (demo_full, demo_full_disk) = demo_rows"
    using demo_full_rows(2) full_rows_base [OF demo_full_fields(4)] by simp
  ultimately show ?thesis by blast
qed

end
