(* ===== verification/Tsdb_Api.thy ===== *)
theory Tsdb_Api
  imports Tsdb_Schema
begin

text \<open>
  The legacy global API: the functions without the suffix \<open>_h\<close> at the end of
  \<open>src/tsdb_core.c\<close>, \<open>src/tsdb_write.c\<close>, \<open>src/tsdb_query.c\<close> and \<open>src/tsdb_migrate.c\<close>. Each
  passes the handle published in \<open>g_default_handle\<close> on; \<open>tsdb_init\<close>, \<open>tsdb_close\<close> and
  \<open>tsdb_delete\<close> publish and unpublish it.

  The calls are the steps of a state machine. Its invariant is that the published handle is
  never the one in the recycler, so that no legacy call works on a struct that the next open
  will reuse; and closing makes progress: a close that timed out can be repeated until it
  succeeds.
\<close>

section \<open>The published handle\<close>

definition default_db :: "tsdb_lib \<Rightarrow> tsdb option" where
  "default_db lib = map_option (\<lambda>a. heap lib ! a) (g_default_handle lib)"

definition store_default :: "tsdb option \<Rightarrow> tsdb_lib \<Rightarrow> tsdb_lib" where
  "store_default dbo lib =
     (case (g_default_handle lib, dbo) of
        (Some a, Some db) \<Rightarrow> put_handle a db lib
      | _ \<Rightarrow> lib)"

text \<open>An operation with the suffix \<open>_h\<close>, called with the published handle.\<close>

definition on_default ::
  "(tsdb option \<Rightarrow> world \<Rightarrow> 'r \<times> tsdb option \<times> world) \<Rightarrow> tsdb_lib \<Rightarrow> world \<Rightarrow> 'r \<times> tsdb_lib \<times> world" where
  "on_default f lib w = (case f (default_db lib) w of (r, dbo, w) \<Rightarrow> (r, store_default dbo lib, w))"

definition tsdb_init :: "tsdb_config option \<Rightarrow> tsdb_lib \<Rightarrow> world \<Rightarrow> esp_err \<times> tsdb_lib \<times> world" where
  "tsdb_init cfg lib w =
     (if (case default_db lib of None \<Rightarrow> False | Some db \<Rightarrow> is_open db) then (ESP_OK, lib, w)
      else
        (case tsdb_open cfg (lib\<lparr>g_default_handle := None\<rparr>) w of
           (p, lib, w) \<Rightarrow> (if p \<noteq> None then ESP_OK else ESP_FAIL, lib\<lparr>g_default_handle := p\<rparr>, w)))"

definition tsdb_close :: "tsdb_lib \<Rightarrow> world \<Rightarrow> esp_err \<times> tsdb_lib \<times> world" where
  "tsdb_close lib w =
     (case g_default_handle lib of
        None \<Rightarrow> (ESP_OK, lib, w)
      | Some a \<Rightarrow>
          (case tsdb_close_h (Some a) (lib\<lparr>g_default_handle := None\<rparr>) w of
             (ret, lib, w) \<Rightarrow> (ret, if ret \<noteq> ESP_OK then lib\<lparr>g_default_handle := Some a\<rparr> else lib, w)))"

definition tsdb_delete :: "tsdb_lib \<Rightarrow> world \<Rightarrow> esp_err \<times> tsdb_lib \<times> world" where
  "tsdb_delete lib w =
     (case g_default_handle lib of
        None \<Rightarrow> (ESP_ERR_INVALID_STATE, lib, w)
      | Some a \<Rightarrow>
          (case tsdb_delete_h (Some a) (lib\<lparr>g_default_handle := None\<rparr>) w of
             (ret, lib, w) \<Rightarrow> (ret, if ret = ESP_ERR_TIMEOUT then lib\<lparr>g_default_handle := Some a\<rparr> else lib, w)))"

definition tsdb_is_initialized :: "tsdb_lib \<Rightarrow> bool" where
  "tsdb_is_initialized lib = tsdb_is_initialized_h (default_db lib)"

definition tsdb_get_stats :: "bool \<Rightarrow> tsdb_lib \<Rightarrow> world \<Rightarrow> esp_err \<times> tsdb_stats option \<times> world" where
  "tsdb_get_stats out lib w = tsdb_get_stats_h (default_db lib) out w"

definition tsdb_clear :: "tsdb_lib \<Rightarrow> world \<Rightarrow> esp_err \<times> tsdb_lib \<times> world" where
  "tsdb_clear = on_default tsdb_clear_h"

section \<open>Writing, querying, migrating\<close>

definition tsdb_write :: "u32 \<Rightarrow> i16 list option \<Rightarrow> tsdb_lib \<Rightarrow> world \<Rightarrow> esp_err \<times> tsdb_lib \<times> world" where
  "tsdb_write ts valso = on_default (\<lambda>dbo. tsdb_write_h dbo ts valso)"

definition tsdb_write_batch ::
  "u32 list option \<Rightarrow> i16 list option list option \<Rightarrow> u32 \<Rightarrow> tsdb_lib \<Rightarrow> world \<Rightarrow> esp_err \<times> tsdb_lib \<times> world" where
  "tsdb_write_batch tso valso count = on_default (\<lambda>dbo. tsdb_write_batch_h dbo tso valso count)"

definition tsdb_query_init ::
  "tsdb_query option \<Rightarrow> u32 \<Rightarrow> u32 \<Rightarrow> u8 list option \<Rightarrow> u8 \<Rightarrow> tsdb_lib \<Rightarrow> world \<Rightarrow> esp_err \<times> tsdb_query option \<times> tsdb_lib \<times> world"
where
  "tsdb_query_init qo t0 t1 idxo n lib w =
     (case tsdb_query_init_h (default_db lib) qo t0 t1 idxo n w of
        (r, dbo, qo, w) \<Rightarrow> (r, qo, store_default dbo lib, w))"

definition tsdb_query_count :: "u32 \<Rightarrow> u32 \<Rightarrow> u32 option \<Rightarrow> tsdb_lib \<Rightarrow> world \<Rightarrow> esp_err \<times> u32 option \<times> tsdb_lib \<times> world" where
  "tsdb_query_count t0 t1 count lib w =
     (case tsdb_query_count_h (default_db lib) t0 t1 count w of
        (r, count, dbo, w) \<Rightarrow> (r, count, store_default dbo lib, w))"

definition tsdb_aggregate ::
  "u32 \<Rightarrow> u32 \<Rightarrow> u8 \<Rightarrow> agg_type \<Rightarrow> u32 option \<Rightarrow> tsdb_lib \<Rightarrow> world \<Rightarrow> esp_err \<times> u32 option \<times> tsdb_lib \<times> world" where
  "tsdb_aggregate t0 t1 idx agg result lib w =
     (case tsdb_aggregate_h (default_db lib) t0 t1 idx agg result w of
        (r, result, dbo, w) \<Rightarrow> (r, result, store_default dbo lib, w))"

text \<open>\<open>None\<close> is the access out of bounds of \<open>tsdb_aggregate_multi_h\<close>.\<close>

definition tsdb_aggregate_multi ::
  "u32 \<Rightarrow> u32 \<Rightarrow> agg_request list option \<Rightarrow> u8 \<Rightarrow> u32 option \<Rightarrow> tsdb_lib \<Rightarrow> world \<Rightarrow>
   (esp_err \<times> agg_request list option \<times> u32 option \<times> tsdb_lib \<times> world) option" where
  "tsdb_aggregate_multi t0 t1 reqso n count lib w =
     map_option (\<lambda>(r, reqso, count, dbo, w). (r, reqso, count, store_default dbo lib, w))
       (tsdb_aggregate_multi_h (default_db lib) t0 t1 reqso n count w)"

definition tsdb_add_extra_params :: "cstr list option \<Rightarrow> u8 \<Rightarrow> tsdb_lib \<Rightarrow> world \<Rightarrow> esp_err \<times> tsdb_lib \<times> world" where
  "tsdb_add_extra_params names count = on_default (\<lambda>dbo. tsdb_add_extra_params_h dbo names count)"

definition tsdb_migrate_overflow :: "cstr list option \<Rightarrow> u8 \<Rightarrow> tsdb_lib \<Rightarrow> world \<Rightarrow> esp_err \<times> tsdb_lib \<times> world" where
  "tsdb_migrate_overflow names new_count = on_default (\<lambda>dbo. tsdb_migrate_overflow_h dbo names new_count)"

definition tsdb_get_total_params :: "tsdb_lib \<Rightarrow> u8" where
  "tsdb_get_total_params lib = tsdb_get_total_params_h (default_db lib)"

definition tsdb_get_param_name :: "u8 \<Rightarrow> tsdb_lib \<Rightarrow> world \<Rightarrow> cstr option" where
  "tsdb_get_param_name index lib w = tsdb_get_param_name_h (default_db lib) index w"

definition tsdb_has_overflow :: "tsdb_lib \<Rightarrow> bool" where
  "tsdb_has_overflow lib = tsdb_has_overflow_h (default_db lib)"

definition tsdb_migrate_schema ::
  "cstr list option \<Rightarrow> u8 \<Rightarrow> tsdb_migrate_opts option \<Rightarrow> tsdb_lib \<Rightarrow> world \<Rightarrow>
   (esp_err \<times> (u32 \<times> u32) list \<times> tsdb_lib \<times> world) option"
where
  "tsdb_migrate_schema names new_count opts lib w =
     map_option (\<lambda>(r, dbo, log, w). (r, log, store_default dbo lib, w))
       (tsdb_migrate_schema_h (default_db lib) names new_count opts w)"

definition tsdb_resize ::
  "u32 \<Rightarrow> tsdb_migrate_opts option \<Rightarrow> tsdb_lib \<Rightarrow> world \<Rightarrow>
   (esp_err \<times> (u32 \<times> u32) list \<times> tsdb_lib \<times> world) option" where
  "tsdb_resize new_max_records opts lib w =
     map_option (\<lambda>(r, dbo, log, w). (r, log, store_default dbo lib, w))
       (tsdb_resize_h (default_db lib) new_max_records opts w)"

section \<open>The calls as steps\<close>

text \<open>
  A program that uses the global API, may also open, close and delete further handles of its
  own, and leaves the published handle to the global API. Any call may fail; the environment
  may change between the calls.
\<close>

inductive api_step :: "tsdb_lib \<times> world \<Rightarrow> tsdb_lib \<times> world \<Rightarrow> bool" where
  api_init: "tsdb_init cfg lib w = (r, lib', w') \<Longrightarrow> api_step (lib, w) (lib', w')"
| api_close: "tsdb_close lib w = (r, lib', w') \<Longrightarrow> api_step (lib, w) (lib', w')"
| api_delete: "tsdb_delete lib w = (r, lib', w') \<Longrightarrow> api_step (lib, w) (lib', w')"
| api_clear: "tsdb_clear lib w = (r, lib', w') \<Longrightarrow> api_step (lib, w) (lib', w')"
| api_write: "tsdb_write ts valso lib w = (r, lib', w') \<Longrightarrow> api_step (lib, w) (lib', w')"
| api_write_batch: "tsdb_write_batch tso vals count lib w = (r, lib', w') \<Longrightarrow> api_step (lib, w) (lib', w')"
| api_query_init: "tsdb_query_init qo t0 t1 idxo n lib w = (r, qo', lib', w') \<Longrightarrow> api_step (lib, w) (lib', w')"
| api_query_count: "tsdb_query_count t0 t1 c lib w = (r, c', lib', w') \<Longrightarrow> api_step (lib, w) (lib', w')"
| api_aggregate: "tsdb_aggregate t0 t1 i agg res lib w = (r, res', lib', w') \<Longrightarrow> api_step (lib, w) (lib', w')"
| api_aggregate_multi: "tsdb_aggregate_multi t0 t1 reqs n c lib w = Some (r, reqs', c', lib', w') \<Longrightarrow> api_step (lib, w) (lib', w')"
| api_add_extra: "tsdb_add_extra_params names k lib w = (r, lib', w') \<Longrightarrow> api_step (lib, w) (lib', w')"
| api_migrate_overflow: "tsdb_migrate_overflow names k lib w = (r, lib', w') \<Longrightarrow> api_step (lib, w) (lib', w')"
| api_migrate_schema: "tsdb_migrate_schema names k opts lib w = Some (r, log, lib', w') \<Longrightarrow> api_step (lib, w) (lib', w')"
| api_resize: "tsdb_resize m opts lib w = Some (r, log, lib', w') \<Longrightarrow> api_step (lib, w) (lib', w')"
| api_open_h: "tsdb_open cfg lib w = (p, lib', w') \<Longrightarrow> api_step (lib, w) (lib', w')"
| api_close_h: "g_default_handle lib \<noteq> Some a \<Longrightarrow> a < length (heap lib) \<Longrightarrow> tsdb_close_h (Some a) lib w = (r, lib', w') \<Longrightarrow>
    api_step (lib, w) (lib', w')"
| api_delete_h: "g_default_handle lib \<noteq> Some a \<Longrightarrow> a < length (heap lib) \<Longrightarrow> tsdb_delete_h (Some a) lib w = (r, lib', w') \<Longrightarrow>
    api_step (lib, w) (lib', w')"
| api_env: "api_step (lib, w) (lib, w')"

definition api_inv :: "tsdb_lib \<Rightarrow> bool" where
  "api_inv lib \<longleftrightarrow> lib_inv lib \<and>
     (\<forall>a. g_default_handle lib = Some a \<longrightarrow> a < length (heap lib) \<and> s_recycled_handle lib \<noteq> Some a)"

lemma api_inv_unpublish: "api_inv lib \<Longrightarrow> api_inv (lib\<lparr>g_default_handle := None\<rparr>)"
  by (simp add: api_inv_def lib_inv_def split: option.splits)

lemma store_default_inv: "api_inv lib \<Longrightarrow> api_inv (store_default dbo lib)"
  by (auto simp: api_inv_def lib_inv_def store_default_def put_handle_def nth_list_update split: option.splits)

lemma on_default_inv: "api_inv lib \<Longrightarrow> on_default f lib w = (r, lib', w') \<Longrightarrow> api_inv lib'"
  by (auto simp: on_default_def store_default_inv split: prod.splits)

lemmas operation_defs = tsdb_clear_def tsdb_write_def tsdb_write_batch_def tsdb_add_extra_params_def tsdb_migrate_overflow_def
lemmas result_defs = tsdb_query_init_def tsdb_query_count_def tsdb_aggregate_def tsdb_aggregate_multi_def
  tsdb_migrate_schema_def tsdb_resize_def

text \<open>The published pointer itself is only touched by \<open>tsdb_init\<close>, \<open>tsdb_close\<close> and \<open>tsdb_delete\<close>.\<close>

lemma retire_default [simp]: "g_default_handle (tsdb_retire_handle a lib) = g_default_handle lib"
  by (simp add: tsdb_retire_handle_def split: option.split)

lemma put_handle_fields [simp]:
  "g_default_handle (put_handle a db lib) = g_default_handle lib" "s_recycled_handle (put_handle a db lib) = s_recycled_handle lib"
  "length (heap (put_handle a db lib)) = length (heap lib)"
  by (simp_all add: put_handle_def)

lemma open_default:
  assumes "tsdb_open cfg lib w = (p, lib', w')"
  shows "g_default_handle lib' = g_default_handle lib"
  using assms
  by (auto simp: tsdb_open_def tsdb_acquire_handle_def put_handle_def tsdb_retire_handle_def
      split: option.splits if_splits prod.splits bool.splits open_step.splits)

text \<open>Where the handle of an open comes from: the recycler or new memory; on failure it is parked.\<close>

lemma open_handle_source:
  assumes "tsdb_open cfg lib w = (p, lib', w')" "lib_inv lib"
  shows "p = Some a \<Longrightarrow> a < length (heap lib') \<and> s_recycled_handle lib' = None"
    "s_recycled_handle lib' = Some b \<Longrightarrow> s_recycled_handle lib = Some b \<or> b = length (heap lib)"
  using assms
  by (auto simp: tsdb_open_def tsdb_acquire_handle_def put_handle_def tsdb_retire_handle_def lib_inv_def
      split: option.splits if_splits prod.splits bool.splits open_step.splits)

lemma close_effect:
  assumes "lib_inv lib" "a < length (heap lib)" "tsdb_close_h (Some a) lib w = (r, lib', w')"
  shows "lib_inv lib'" "length (heap lib') = length (heap lib)" "g_default_handle lib' = g_default_handle lib"
    "r = ESP_ERR_TIMEOUT \<and> s_recycled_handle lib' = s_recycled_handle lib \<or> r = ESP_OK \<and> \<not> is_open (heap lib' ! a)"
    "s_recycled_handle lib' = Some b \<Longrightarrow> s_recycled_handle lib = Some b \<or> b = a"
proof -
  show "lib_inv lib'" using close_inv [OF assms] by simp
  from assms(3) show "length (heap lib') = length (heap lib)" "g_default_handle lib' = g_default_handle lib"
    "r = ESP_ERR_TIMEOUT \<and> s_recycled_handle lib' = s_recycled_handle lib \<or> r = ESP_OK \<and> \<not> is_open (heap lib' ! a)"
    "s_recycled_handle lib' = Some b \<Longrightarrow> s_recycled_handle lib = Some b \<or> b = a"
    using assms(2) by (cases rule: close_cases; auto simp: put_handle_def tsdb_retire_handle_def split: option.splits)+
qed

lemma delete_effect:
  assumes "lib_inv lib" "a < length (heap lib)" "tsdb_delete_h (Some a) lib w = (r, lib', w')"
  shows "lib_inv lib'" "length (heap lib') = length (heap lib)" "g_default_handle lib' = g_default_handle lib"
    "r = ESP_ERR_TIMEOUT \<Longrightarrow> s_recycled_handle lib' = s_recycled_handle lib"
    "s_recycled_handle lib' = Some b \<Longrightarrow> s_recycled_handle lib = Some b \<or> b = a"
proof -
  obtain cret lib1 w1 where c: "tsdb_close_h (Some a) lib w = (cret, lib1, w1)" by (metis prod_cases3)
  note ce = close_effect [OF assms(1,2) c]
  have e: "(lib' = lib \<and> r = ESP_ERR_INVALID_STATE) \<or> (lib' = lib1 \<and> (r = ESP_ERR_TIMEOUT \<longrightarrow> cret = ESP_ERR_TIMEOUT))"
    using assms(3) c by (auto simp: tsdb_delete_h_def split: if_splits prod.splits)
  show "lib_inv lib'" "length (heap lib') = length (heap lib)" "g_default_handle lib' = g_default_handle lib"
    "r = ESP_ERR_TIMEOUT \<Longrightarrow> s_recycled_handle lib' = s_recycled_handle lib"
    "s_recycled_handle lib' = Some b \<Longrightarrow> s_recycled_handle lib = Some b \<or> b = a"
    using e ce assms(1) by auto
qed

lemma open_api_inv:
  assumes "api_inv lib" "tsdb_open cfg lib w = (p, lib', w')"
  shows "api_inv lib'"
proof -
  have li: "lib_inv lib" using assms(1) by (simp add: api_inv_def)
  have adv: "lib_inv lib'" "length (heap lib) \<le> length (heap lib')"
    using open_inv [OF li assms(2)] by (simp_all add: lib_advances_def)
  note src = open_handle_source(2) [OF assms(2) li] and d = open_default [OF assms(2)]
  show ?thesis using assms(1) adv src d by (fastforce simp: api_inv_def)
qed

lemma init_api_inv:
  assumes "api_inv lib" "tsdb_init cfg lib w = (r, lib', w')"
  shows "api_inv lib'"
proof (cases "case default_db lib of None \<Rightarrow> False | Some db \<Rightarrow> is_open db")
  case True
  with assms show ?thesis by (simp add: tsdb_init_def)
next
  case False
  obtain p lib1 w1 where o1: "tsdb_open cfg (lib\<lparr>g_default_handle := None\<rparr>) w = (p, lib1, w1)" by (metis prod_cases3)
  note u = api_inv_unpublish [OF assms(1)]
  have li: "lib_inv (lib\<lparr>g_default_handle := None\<rparr>)" using u by (simp add: api_inv_def)
  have l1: "lib_inv lib1" using open_api_inv [OF u o1] by (simp add: api_inv_def)
  have "lib' = lib1\<lparr>g_default_handle := p\<rparr>" using assms(2) False o1 by (simp add: tsdb_init_def)
  with l1 open_handle_source(1) [OF o1 li] show ?thesis by (auto simp: api_inv_def lib_inv_def split: option.splits)
qed

lemma close_api_inv:
  assumes "api_inv lib" "tsdb_close lib w = (r, lib', w')"
  shows "api_inv lib'"
proof (cases "g_default_handle lib")
  case None
  with assms show ?thesis by (simp add: tsdb_close_def)
next
  case (Some a)
  obtain r1 lib1 w1 where c: "tsdb_close_h (Some a) (lib\<lparr>g_default_handle := None\<rparr>) w = (r1, lib1, w1)" by (metis prod_cases3)
  have li: "lib_inv (lib\<lparr>g_default_handle := None\<rparr>)" "a < length (heap (lib\<lparr>g_default_handle := None\<rparr>))" "s_recycled_handle lib \<noteq> Some a"
    using api_inv_unpublish [OF assms(1)] assms(1) Some by (simp_all add: api_inv_def)
  note ce = close_effect [OF li(1,2) c]
  have "lib' = (if r1 \<noteq> ESP_OK then lib1\<lparr>g_default_handle := Some a\<rparr> else lib1)"
    using assms(2) Some c by (auto simp: tsdb_close_def)
  with ce(1-4) li(2,3) show ?thesis by (auto simp: api_inv_def lib_inv_def split: option.splits)
qed

lemma delete_api_inv:
  assumes "api_inv lib" "tsdb_delete lib w = (r, lib', w')"
  shows "api_inv lib'"
proof (cases "g_default_handle lib")
  case None
  with assms show ?thesis by (simp add: tsdb_delete_def)
next
  case (Some a)
  obtain r1 lib1 w1 where c: "tsdb_delete_h (Some a) (lib\<lparr>g_default_handle := None\<rparr>) w = (r1, lib1, w1)" by (metis prod_cases3)
  have li: "lib_inv (lib\<lparr>g_default_handle := None\<rparr>)" "a < length (heap (lib\<lparr>g_default_handle := None\<rparr>))" "s_recycled_handle lib \<noteq> Some a"
    using api_inv_unpublish [OF assms(1)] assms(1) Some by (simp_all add: api_inv_def)
  note de = delete_effect [OF li(1,2) c]
  have "lib' = (if r1 = ESP_ERR_TIMEOUT then lib1\<lparr>g_default_handle := Some a\<rparr> else lib1)"
    using assms(2) Some c by (auto simp: tsdb_delete_def)
  with de(1-4) li(2,3) show ?thesis by (auto simp: api_inv_def lib_inv_def split: option.splits)
qed

lemma other_close_inv:
  assumes "api_inv lib" "g_default_handle lib \<noteq> Some a" "lib_inv lib'" "length (heap lib') = length (heap lib)"
    and "g_default_handle lib' = g_default_handle lib"
    and "\<And>b. s_recycled_handle lib' = Some b \<Longrightarrow> s_recycled_handle lib = Some b \<or> b = a"
  shows "api_inv lib'"
  using assms by (fastforce simp: api_inv_def)

lemma api_step_inv:
  assumes "api_step (lib, w) (lib', w')" "api_inv lib"
  shows "api_inv lib'"
proof -
  have li: "lib_inv lib" using assms(2) by (simp add: api_inv_def)
  from assms(1) show ?thesis
  proof (cases rule: api_step.cases)
    case (api_close_h a r)
    note ce = close_effect [OF li api_close_h(2,3)]
    show ?thesis by (rule other_close_inv [OF assms(2) api_close_h(1) ce(1-3,5)])
  next
    case (api_delete_h a r)
    note de = delete_effect [OF li api_delete_h(2,3)]
    show ?thesis by (rule other_close_inv [OF assms(2) api_delete_h(1) de(1-3,5)])
  qed (use assms(2) in \<open>auto simp: operation_defs result_defs intro: init_api_inv close_api_inv delete_api_inv open_api_inv
      on_default_inv store_default_inv split: prod.splits\<close>)
qed

section \<open>Properties of the published handle\<close>

text \<open>
  C12: In every state a program can reach through the global API, whatever fails, the published
  handle is a struct of the heap and not the one in the recycler: neither the next
  \<open>tsdb_init\<close> nor any other open reuses it while global calls still go through it.
\<close>

theorem published_handle_not_recycled:
  assumes "api_step\<^sup>*\<^sup>* (lib_start, w0) (lib, w)" "g_default_handle lib = Some a"
  shows "a < length (heap lib) \<and> s_recycled_handle lib \<noteq> Some a"
proof -
  have "api_inv (fst s)" if "api_step\<^sup>*\<^sup>* (lib_start, w0) s" for s
    using that
  proof (induction rule: rtranclp_induct)
    case base
    then show ?case by (simp add: api_inv_def lib_inv_def lib_start_def)
  next
    case (step s t)
    then show ?case using api_step_inv [of "fst s" "snd s" "fst t" "snd t"] by simp
  qed
  from this [OF assms(1)] assms(2) show ?thesis by (simp add: api_inv_def)
qed

lemma demo_init:
  obtains lib w where "tsdb_init (Some (demo_config 3)) lib_start empty_world = (ESP_OK, lib, w)" "g_default_handle lib = Some 0"
    "is_open (heap lib ! 0)" "length (heap lib) = 1"
proof -
  obtain db w where d: "tsdb_open_handle (demo_config 3) (zero_tsdb 0) empty_world = (Opened db, w)"
    "recoverable (demo_config 3) 5 (db, w)" "config_ok (demo_config 3)"
    by (rule demo_session)
  have q: "quiet w" "is_open db" using d(2) by (auto simp: recoverable_def Let_def writable_def)
  have "tsdb_open (Some (demo_config 3)) (lib_start\<lparr>g_default_handle := None\<rparr>) empty_world =
      (Some 0, \<lparr> heap = [db], s_recycled_handle = None, g_default_handle = None \<rparr>, snd (tsdb_lock w))"
    using d(1,3) q(1) by (simp add: tsdb_open_def tsdb_acquire_handle_def lib_start_def put_handle_def quiet_next demo_fresh)
  then show ?thesis
    using q(2) by (intro that) (auto simp: tsdb_init_def default_db_def lib_start_def)
qed

theorem published_handle_not_recycled_witness:
  "\<exists>lib w. api_step\<^sup>*\<^sup>* (lib_start, empty_world) (lib, w) \<and> g_default_handle lib = Some 0 \<and>
    0 < length (heap lib) \<and> s_recycled_handle lib \<noteq> Some 0"
proof -
  obtain lib w where d: "tsdb_init (Some (demo_config 3)) lib_start empty_world = (ESP_OK, lib, w)" "g_default_handle lib = Some 0"
    by (rule demo_init)
  have "api_step\<^sup>*\<^sup>* (lib_start, empty_world) (lib, w)" using api_init [OF d(1)] by (rule r_into_rtranclp)
  from published_handle_not_recycled [OF this d(2)] this d(2) show ?thesis by blast
qed

section \<open>Closing makes progress\<close>

text \<open>The caller repeats a close that did not succeed, at most \<open>n\<close> times.\<close>

fun close_retrying :: "nat \<Rightarrow> tsdb_lib \<Rightarrow> world \<Rightarrow> (tsdb_lib \<times> world) option" where
  "close_retrying 0 lib w = None"
| "close_retrying (Suc n) lib w =
     (case tsdb_close lib w of
        (r, lib, w) \<Rightarrow> if r = ESP_OK then Some (lib, w) else close_retrying n lib w)"

lemma close_timeout:
  assumes "g_default_handle lib = Some a" "a < length (heap lib)" "lock_script w = LockTimeout # ls"
  shows "tsdb_close lib w = (ESP_ERR_TIMEOUT, lib\<lparr>heap := (heap lib)[a := (heap lib ! a)\<lparr>closing := False\<rparr>]\<rparr>, w\<lparr>lock_script := ls\<rparr>)"
  using assms by (simp add: tsdb_close_def tsdb_close_h_def tsdb_lock_def next_lock_def put_handle_def Let_def)

lemma close_granted:
  assumes "g_default_handle lib = Some a" "a < length (heap lib)" "lock_script w = [] \<or> hd (lock_script w) \<noteq> LockTimeout"
  obtains lib' w' where "tsdb_close lib w = (ESP_OK, lib', w')" "g_default_handle lib' = None" "\<not> is_open (heap lib' ! a)"
proof -
  obtain r lib1 w1 where c: "tsdb_close_h (Some a) (lib\<lparr>g_default_handle := None\<rparr>) w = (r, lib1, w1)" by (metis prod_cases3)
  have "fst (tsdb_lock w)"
    using assms(3) by (auto simp: tsdb_lock_def next_lock_def split: list.splits)
  then have r: "r = ESP_OK" using c by (auto simp: tsdb_close_h_def Let_def split: prod.splits bool.splits if_splits)
  from c have "g_default_handle lib1 = None \<and> \<not> is_open (heap lib1 ! a)"
    using r assms(2) by (cases rule: close_cases) (auto simp: put_handle_def)
  with r c assms(1) show ?thesis by (intro that [of lib1 w1]) (simp_all add: tsdb_close_def)
qed

lemma close_retrying_ends:
  assumes "g_default_handle lib = Some a" "a < length (heap lib)"
  shows "\<exists>lib' w'. close_retrying (length (lock_script w) + 1) lib w = Some (lib', w') \<and>
    g_default_handle lib' = None \<and> \<not> is_open (heap lib' ! a)"
  using assms
proof (induction "length (lock_script w)" arbitrary: lib w rule: less_induct)
  case less
  show ?case
  proof (cases "lock_script w = [] \<or> hd (lock_script w) \<noteq> LockTimeout")
    case True
    obtain lib' w' where "tsdb_close lib w = (ESP_OK, lib', w')" "g_default_handle lib' = None" "\<not> is_open (heap lib' ! a)"
      by (rule close_granted [OF less.prems True])
    then show ?thesis by simp
  next
    case False
    then obtain ls where ls: "lock_script w = LockTimeout # ls" by (cases "lock_script w") auto
    let ?lib = "lib\<lparr>heap := (heap lib)[a := (heap lib ! a)\<lparr>closing := False\<rparr>]\<rparr>" and ?w = "w\<lparr>lock_script := ls\<rparr>"
    have "\<exists>lib' w'. close_retrying (length (lock_script ?w) + 1) ?lib ?w = Some (lib', w') \<and>
        g_default_handle lib' = None \<and> \<not> is_open (heap lib' ! a)"
      using less.prems ls by (intro less.hyps) simp_all
    then show ?thesis using close_timeout [OF less.prems ls] ls by simp
  qed
qed

text \<open>
  C30: A close that times out on the lock reports it and leaves the handle published, open as
  before and no longer marked as closing, every other field of it and every other handle
  unchanged and no file touched, so that it can be repeated. However long the lock stays busy,
  as soon as it is granted once the close succeeds: repeated once more than there are timeouts
  it always ends, with the handle closed and nothing published.
\<close>

theorem close_eventually_succeeds:
  assumes "g_default_handle lib = Some a" "a < length (heap lib)"
  shows "(\<forall>ls. lock_script w = LockTimeout # ls \<longrightarrow>
      (\<exists>lib'. tsdb_close lib w = (ESP_ERR_TIMEOUT, lib', w\<lparr>lock_script := ls\<rparr>) \<and>
        g_default_handle lib' = Some a \<and> is_open (heap lib' ! a) = is_open (heap lib ! a) \<and> \<not> closing (heap lib' ! a) \<and>
        heap lib' = (heap lib)[a := (heap lib ! a)\<lparr>closing := False\<rparr>] \<and> s_recycled_handle lib' = s_recycled_handle lib)) \<and>
    (\<exists>lib' w'. close_retrying (length (lock_script w) + 1) lib w = Some (lib', w') \<and>
      g_default_handle lib' = None \<and> \<not> is_open (heap lib' ! a))"
  using close_timeout [OF assms, of w] close_retrying_ends [OF assms, of w] assms by simp

theorem close_eventually_succeeds_witness:
  "\<exists>lib w lib1 lib' w'. tsdb_init (Some (demo_config 3)) lib_start empty_world = (ESP_OK, lib, w) \<and> is_open (heap lib ! 0) \<and>
    tsdb_close lib (w\<lparr>lock_script := [LockTimeout, LockTimeout]\<rparr>) = (ESP_ERR_TIMEOUT, lib1, w\<lparr>lock_script := [LockTimeout]\<rparr>) \<and>
    is_open (heap lib1 ! 0) \<and> g_default_handle lib1 = Some 0 \<and>
    close_retrying 3 lib (w\<lparr>lock_script := [LockTimeout, LockTimeout]\<rparr>) = Some (lib', w') \<and> \<not> is_open (heap lib' ! 0)"
proof -
  obtain lib w where d: "tsdb_init (Some (demo_config 3)) lib_start empty_world = (ESP_OK, lib, w)" "g_default_handle lib = Some 0"
    "is_open (heap lib ! 0)" "length (heap lib) = 1"
    by (rule demo_init)
  let ?w = "w\<lparr>lock_script := [LockTimeout, LockTimeout]\<rparr>"
  have l: "0 < length (heap lib)" "length (lock_script ?w) + 1 = 3" using d(4) by simp_all
  note c = close_eventually_succeeds [OF d(2) l(1), of ?w]
  obtain lib1 where "tsdb_close lib ?w = (ESP_ERR_TIMEOUT, lib1, w\<lparr>lock_script := [LockTimeout]\<rparr>)"
    "is_open (heap lib1 ! 0)" "g_default_handle lib1 = Some 0"
    using c d(3) by auto
  moreover obtain lib' w' where "close_retrying 3 lib ?w = Some (lib', w')" "\<not> is_open (heap lib' ! 0)"
    using c l(2) by metis
  ultimately show ?thesis using d(1,3) by blast
qed

end
