(* ===== verification/Tsdb_Session.thy ===== *)
theory Tsdb_Session
  imports Tsdb_Api
begin

text \<open>
  Sessions: a database is opened, written and queried through the operations of several
  components in turn. The queries rely on the buffer pool that \<open>tsdb_open\<close> allocated and
  partitioned (\<open>src/tsdb_buffer.c\<close>, \<open>src/tsdb_core.c\<close>), and which writes and earlier queries
  have used since. The lemmas show that opening establishes what they rely on and that every
  write and query keeps it, so that what a session wrote is what its queries return.
\<close>

section \<open>The pool of an open handle\<close>

definition pool_ready :: "tsdb \<Rightarrow> bool" where
  "pool_ready db \<longleftrightarrow> pool_wf (pool db) \<and> 3072 \<le> unat (total_size (pool db)) \<and>
     read_buffer_offset db = 0 \<and> write_cache_offset db = 1024 \<and> query_buffer_offset db = 2048"

lemma pool_ready_query: "pool_ready db \<Longrightarrow> query_pool_ok db"
  by (simp add: pool_ready_def query_pool_ok_def)

lemma pool_ready_frame [simp]:
  "pool_ready (db\<lparr>header := h\<rparr>) = pool_ready db" "pool_ready (db\<lparr>db_file := p\<rparr>) = pool_ready db"
  "pool_ready (db\<lparr>index_stale := b\<rparr>) = pool_ready db" "pool_ready (db\<lparr>in_file_header_stale := b\<rparr>) = pool_ready db"
  "pool_ready (db\<lparr>sidecar_seq := n1, sidecar_slot := s1, legacy_slot := s2, legacy_seq := n2, legacy_mirrored := b, side_dir_ready := c\<rparr>) =
   pool_ready db"
  by (simp_all add: pool_ready_def)

lemma stage_ready:
  assumes "pool_ready db" "unat off + length blk \<le> 3072"
  shows "pool_ready (stage_block db off blk)"
proof -
  have fit: "pool_wf (pool db)" "unat off + length blk \<le> unat (total_size (pool db))" using assms by (auto simp: pool_ready_def)
  have "tsdb_buffer_write (Some (pool db)) off blk = Some (pool_wr (pool db) (unat off) blk)"
    by (simp add: pool_wr_def tsdb_buffer_write_def)
  with pool_wr_mem [OF fit] assms(1) show ?thesis
    by (auto simp: stage_block_def pool_ready_def split: option.splits)
qed

text \<open>Opening establishes it for every pool of at least three blocks whose page count does not wrap.\<close>

definition pool_large :: "tsdb_config \<Rightarrow> bool" where
  "pool_large cfg \<longleftrightarrow> 3072 \<le> unat (buffer_pool_size cfg) \<and>
     (use_paged_allocation cfg \<longrightarrow>
      unat (buffer_pool_size cfg) + unat (if cfg_page_size cfg > 0 then cfg_page_size cfg else 2048) \<le> 2 ^ 32)"

lemma start_ready:
  assumes "tsdb_alloc_buffer_pool (Some zero_pool) (buffer_pool_size cfg) (use_paged_allocation cfg)
    (cfg_page_size cfg) (cfg_alloc_strategy cfg) w = (ESP_OK, Some pl, w')" "pool_large cfg"
  shows "pool_ready (start_db cfg g pl p)"
  using alloc_buffer_pool_wf [OF assms(1)] assms(2)
  by (auto simp: pool_large_def pool_ready_def start_db_def partition_pool_def)

lemma opened_ready:
  assumes "quiet w" "fresh_path cfg w" "pool_available cfg w" "pool_large cfg"
    and "tsdb_open_handle cfg (zero_tsdb g) w = (Opened db, w')"
  shows "pool_ready db"
proof -
  obtain p where p: "cfg_filepath cfg = Some p" "fs w p = None" "fs w (mig_path p) = None" "dirs w (parent_dir p)"
    using assms(2) by (auto simp: fresh_path_def split: option.splits)
  obtain pl where o: "tsdb_open_handle cfg (zero_tsdb g) w = finish_open p (open_file cfg p (start_db cfg g pl p) w)"
    and al: "tsdb_alloc_buffer_pool (Some zero_pool) (buffer_pool_size cfg) (use_paged_allocation cfg)
      (cfg_page_size cfg) (cfg_alloc_strategy cfg) w = (ESP_OK, Some pl, w)"
    using quiet_open_handle [OF assms(1) p(1) assms(3) p(3)] by metis
  obtain w2 where c: "create_file cfg p (start_db cfg g pl p) w =
      (Opened ((start_db cfg g pl p)\<lparr>db_file := Some p, sidecar_seq := 0, header := new_header cfg\<rparr>), w2)"
    using quiet_create [OF assms(1) p(4)] by metis
  have "db = (start_db cfg g pl p)\<lparr>db_file := Some p, sidecar_seq := 0, header := new_header cfg, filepath := take 127 p, is_open := True\<rparr>"
    using o c assms(1,5) p(2) by (simp add: open_file_def quiet_fopen finish_open_def start_db_def)
  then show ?thesis using start_ready [OF al assms(4), of g p] by (simp add: pool_ready_def)
qed

section \<open>Writes keep the pool\<close>

lemma advance_ready:
  assumes "pool_ready db"
  shows "pool_ready (advance_header db ri ev ts w)"
proof -
  let ?h = "(header db)\<lparr>total_records := total_records (header db) + 1, total_writes := total_writes (header db) + 1,
      newest_record_idx := ri, newest_timestamp := ts\<rparr>"
  let ?db = "db\<lparr>header := ?h\<rparr>"
  let ?n = "oldest_record_idx ?h div ucast (records_per_block ?h)"
  have p: "pool_ready ?db" using assms by simp
  obtain e bo where rd: "tsdb_read_block ?db ?n w = (e, bo)" by fastforce
  have s: "pool_ready (stage_block ?db (read_buffer_offset ?db) b)" if "bo = Some b" for b
    using p read_block_length rd that by (intro stage_ready) (auto simp: pool_ready_def)
  have "pool_ready (case (e, bo) of
      (ESP_OK, Some b) \<Rightarrow> (stage_block ?db (read_buffer_offset ?db) b)\<lparr>header := ?h\<lparr>oldest_timestamp := TSDB_BLOCK_TS b off\<rparr>\<rparr>
    | _ \<Rightarrow> ?db)" for off
    using p s by (auto split: esp_err.split option.split)
  then show ?thesis
    using p unfolding advance_header_def Let_def rd by (simp only: pool_ready_frame split: if_split) simp
qed

lemma finish_ready:
  assumes "finish_write db ri ev ts vals w = (r, db', w')" "pool_ready db"
  shows "pool_ready db'"
proof -
  let ?w = "write_overflow db vals w"
  let ?db = "mark_index (advance_header db ri ev ts ?w) ri"
  obtain e db1 where sw: "tsdb_sidecar_write ?db ?w = (e, db1, w')" and d: "db' = db1\<lparr>in_file_header_stale := True\<rparr>"
    using assms(1) by (auto simp: finish_write_def Let_def split: prod.splits)
  have "pool_ready ?db" using advance_ready [OF assms(2)] by (simp add: mark_index_def Let_def)
  note p = this
  have "pool_ready db1" by (rule sidecar_write_db [OF sw]) (use p in simp)
  then show ?thesis by (simp add: d)
qed

lemma write_ready:
  assumes "writable (Suc n) (db, w)" "\<not> has_free_space_cb db" "entry_fits (db, w) x" "pool_ready db" "db_put (db, w) x = (db', w')"
  shows "pool_ready db'"
proof -
  have v: "quiet w" "db_inv db w" "is_open db" "\<not> migrating db" "\<not> closing db" using assms(1) by (simp_all add: writable_def)
  have f: "db_file db = Some (filepath db)" "geom (rpb (header db)) (nparams (header db))"
    using v(2) by (simp_all add: db_inv_def ring_inv_def ring_hdr_def)
  have len: "nparams (header db) \<le> length (snd x)" using assms(3) by (simp add: entry_fits_def)
  obtain pl d ww where run: "write_locked db (fst x) (snd x) w =
      finish_write (evicted db pl) (next_record_idx (header db)) (next_is_eviction (header db)) (fst x) (snd x) ww"
    and d: "length d = 1024" "pl = pool (stage_block db (write_cache_offset db) d)"
    using quiet_write_run [OF v(1) assms(2) f(1), of "fst x" "snd x"] f(2) len by metis
  obtain r db2 w2 where fin: "write_locked db (fst x) (snd x) w = (r, db2, w2)" by (metis prod_cases3)
  have "tsdb_write_h (Some db) (fst x) (Some (snd x)) w = (r, Some db2, w2)"
    using write_h_open [of db w] v fin by simp
  then have "db' = db2" using assms(5) by (simp add: db_put_def)
  moreover have wc: "write_cache_offset db = 1024" using assms(4) by (simp add: pool_ready_def)
  have "pool_ready (stage_block db 1024 d)" using assms(4) d(1) by (intro stage_ready) simp_all
  then have "pool_ready (evicted db pl)" by (simp add: d(2) wc pool_ready_def evicted_def)
  then have "pool_ready db2" by (rule finish_ready [OF fin [unfolded run]])
  ultimately show ?thesis by simp
qed

lemma writes_ready:
  "recoverable cfg (length xs + n) (db, w) \<Longrightarrow> list_all (entry_fits (db, w)) xs \<Longrightarrow> pool_ready db \<Longrightarrow>
   pool_ready (fst (foldl db_put (db, w) xs))"
proof (induction xs arbitrary: db w)
  case (Cons x xs)
  have r: "recoverable cfg (Suc (length xs + n)) (db, w)" "entry_fits (db, w) x" using Cons.prems by simp_all
  have wr: "writable (Suc (length xs + n)) (db, w)" "\<not> has_free_space_cb db" using r(1) by (simp_all add: recoverable_def Let_def)
  obtain db1 w1 where p: "db_put (db, w) x = (db1, w1)" by fastforce
  have "list_all (entry_fits (db1, w1)) xs" using db_queue.put_fits [OF wr(1) r(2)] p Cons.prems(2) by simp
  with Cons.IH [of db1 w1] recoverable_put [OF r] write_ready [OF wr r(2) Cons.prems(3) p] p show ?case by simp
qed simp

section \<open>Queries keep the pool\<close>

lemma load_ready:
  assumes "load_query_block db q n w = (r, db', q')" "pool_ready db"
  shows "pool_ready db'"
proof -
  have "pool_ready (stage_block db (query_buffer_offset db) b)" if "tsdb_read_block db n w = (e, Some b)" for e b
    using assms(2) read_block_length [OF that] by (intro stage_ready) (simp_all add: pool_ready_def)
  with assms show ?thesis
    by (auto simp: load_query_block_def split: prod.splits esp_err.splits option.splits if_splits)
qed

lemma ensure_ready:
  assumes "ensure_loaded db q w = (r, db', q')" "pool_ready db"
  shows "pool_ready db'"
  using assms by (auto simp: ensure_loaded_def dest: load_ready split: if_splits prod.splits)

lemma next_ready: "next_loop db q w = (r, x, db', q') \<Longrightarrow> pool_ready db \<Longrightarrow> pool_ready db'"
proof (induction db q rule: next_loop_induct [where w = w])
  case (1 db q)
  obtain e db1 q1 where l: "ensure_loaded db q w = (e, db1, q1)" by (metis prod_cases3)
  have "pool_ready db1" by (rule ensure_ready [OF l 1(3)])
  with 1(1) [of db1 q1] 1(2,3) l show ?case
    by (subst (asm) next_loop.simps) (auto simp: Let_def split: if_splits)
qed

lemma fold_ready: "query_fold f a db q w = (b, db', q') \<Longrightarrow> pool_ready db \<Longrightarrow> pool_ready db'"
proof (induction f a db q w rule: query_fold.induct)
  case (1 f a db q w)
  obtain e x db1 q1 where n: "next_loop db q w = (e, x, db1, q1)" by (metis prod_cases4)
  have "pool_ready db1" by (rule next_ready [OF n 1(3)])
  with 1(1) 1(2) n show ?case
    by (subst (asm) query_fold.simps) (auto split: esp_err.splits option.splits)
qed

lemma seek_ready: "pool_ready db \<Longrightarrow> pool_ready (fst (snd (seek_loop db q first lo hi w)))"
proof (induction db q first lo hi w rule: seek_loop.induct)
  case (1 db q first lo hi w)
  let ?mid = "lo + (hi - lo) div 2"
  let ?s = "ring_slot (q_header q) first ?mid" and ?n = "ucast (records_per_block (q_header q)) :: u32"
  obtain e db1 q1 where l: "load_query_block db q (?s div ?n) w = (e, db1, q1)" by (metis prod_cases3)
  have p: "pool_ready db1" by (rule load_ready [OF l 1(3)])
  have eq: "seek_loop db q first lo hi w =
      (if lo < hi then
         if e \<noteq> ESP_OK then (0, db1, q1)
         else if TSDB_BLOCK_TS (query_block db1 q1) (unat (?s mod ?n)) = 0 then (0, db1, q1)
         else if TSDB_BLOCK_TS (query_block db1 q1) (unat (?s mod ?n)) < start_time q1 then seek_loop db1 q1 first (?mid + 1) hi w
         else seek_loop db1 q1 first lo ?mid w
       else (lo, db, q))"
    by (subst seek_loop.simps) (simp add: Let_def l)
  show ?case
    unfolding eq using p 1(3) 1(1) [OF _ refl refl refl l [symmetric]] 1(2) [OF _ refl refl refl l [symmetric]]
    by simp
qed

lemma query_init_ready:
  assumes "tsdb_query_init_h (Some db) qo t0 t1 idxo n w = (r, Some db', qo', w')" "pool_ready db"
  shows "pool_ready db'"
proof -
  have "pool_ready d" if "start_walk db q ww = (d, q')" for d q q' ww
    using that assms(2)
    by (auto simp: start_walk_def Let_def tsdb_seek_start_def dest!: arg_cong [where f = "\<lambda>x. pool_ready (fst (snd x))"] simp: seek_ready split: if_splits prod.splits)
  with assms show ?thesis
    by (auto simp: tsdb_query_init_h_def split: option.splits if_splits prod.splits)
qed

section \<open>What a session wrote is what it reads\<close>

definition session :: "tsdb_config \<Rightarrow> nat \<Rightarrow> tsdb \<Rightarrow> world \<Rightarrow> bool" where
  "session cfg n db w \<longleftrightarrow> recoverable cfg n (db, w) \<and> pool_ready db"

lemma recoverable_pool: "recoverable cfg n (db\<lparr>pool := pl\<rparr>, w) = recoverable cfg n (db, w)"
  by (cases db) (simp only: recoverable_def writable_def crash_inv_def db_inv_def ovf_clear_def room_for_def side_inv_def
      side_dirs_def Let_def prod.case tsdb.update_convs tsdb.select_convs)

lemma session_open:
  assumes "quiet w" "admissible cfg" "fresh_path cfg w" "pool_available cfg w" "pool_large cfg" "\<not> cfg_free_space_cb cfg" "fits_file cfg n"
  obtains db w' where "tsdb_open_handle cfg (zero_tsdb g) w = (Opened db, w')" "session cfg n db w'"
    "db_rows (db, w') = []" "header db = new_header cfg" "db_extra_param_count db = 0"
    "\<forall>q. q \<noteq> filepath db \<longrightarrow> q \<notin> side_files (filepath db) \<longrightarrow> fs w' q = fs w q"
proof -
  obtain p where p: "cfg_filepath cfg = Some p" "fs w p = None" "fs w (mig_path p) = None" "dirs w (parent_dir p)" "length p \<le> 127"
    using assms(3) by (auto simp: fresh_path_def split: option.splits)
  obtain db w' where o: "tsdb_open_handle cfg (zero_tsdb g) w = (Opened db, w')" "recoverable cfg n (db, w')"
    "db_rows (db, w') = []" "header db = new_header cfg" "db_extra_param_count db = 0"
    by (rule open_recoverable [OF assms(1-4,6,7)])
  have "\<forall>q. q \<noteq> filepath db \<longrightarrow> q \<notin> side_files (filepath db) \<longrightarrow> fs w' q = fs w q"
    using open_new_file [OF assms(1,2) p(1) assms(4) p(2-5), of g] o(1) by auto
  with o opened_ready [OF assms(1,3-5) o(1)] show ?thesis by (intro that) (simp_all add: session_def)
qed

lemma session_writes:
  assumes "session cfg (length xs + n) db w" "list_all (entry_fits (db, w)) xs" "foldl db_put (db, w) xs = (db', w')"
  shows "session cfg n db' w'" "config_part (header db') = config_part (header db)"
    "db_rows (db', w') = within (limit_of (header db)) (db_rows (db, w) @ map (entry_row (db, w)) xs)"
    "nrec (header db') = nrec (header db) + length xs"
proof -
  have r: "recoverable cfg (length xs + n) (db, w)" "pool_ready db" using assms(1) by (simp_all add: session_def)
  have w: "writable (length xs + n) (db, w)" using r(1) by (simp add: recoverable_def Let_def)
  note p = recoverable_puts [OF r(1) assms(2)]
  show "session cfg n db' w'" using p writes_ready [OF r(1) assms(2) r(2)] assms(3) by (simp add: session_def)
  show c: "config_part (header db') = config_part (header db)" "nrec (header db') = nrec (header db) + length xs"
    using p assms(3) by auto
  show "db_rows (db', w') = within (limit_of (header db)) (db_rows (db, w) @ map (entry_row (db, w)) xs)"
    using db_queue.puts_rows [OF w assms(2)] assms(3) config_part_fields(7) [OF c(1) [symmetric]] by (simp add: limit_of_def)
qed

text \<open>A query that is initialised and drained leaves a handle for the next one.\<close>

lemma session_query:
  assumes "session cfg n db w" "ascending db w" "t0 \<le> t1" "idxo \<noteq> None \<longrightarrow> unat m \<le> TSDB_MAX_PARAMS"
  obtains db1 q pl q' where "tsdb_query_init_h (Some db) (Some zero_query) t0 t1 idxo m w = (ESP_OK, Some db1, Some q, w)"
    "query_fold f a db1 q w =
      (foldl (\<lambda>a r. f a (fst r) (snd r)) a (filter (in_window t0 t1) (records db (base_query db t0 t1 idxo m) w)), db\<lparr>pool := pl\<rparr>, q')"
    "session cfg n (db\<lparr>pool := pl\<rparr>) w"
proof -
  have r: "recoverable cfg n (db, w)" "pool_ready db" using assms(1) by (simp_all add: session_def)
  have wr: "writable n (db, w)" "db_inv db w" using r(1) by (simp_all add: recoverable_def writable_def Let_def)
  obtain db1 q where i: "tsdb_query_init_h (Some db) (Some zero_query) t0 t1 idxo m w = (ESP_OK, Some db1, Some q, w)"
    by (rule quiet_query_init [OF wr(1) assms(3,4)])
  obtain pl q' where f: "query_fold f a db1 q w =
      (foldl (\<lambda>a r. f a (fst r) (snd r)) a (filter (in_window t0 t1) (records db (base_query db t0 t1 idxo m) w)), db\<lparr>pool := pl\<rparr>, q')"
    using query_fold_window [OF i wr(2) pool_ready_query [OF r(2)] assms(2), of f a] by auto
  have "pool_ready (db\<lparr>pool := pl\<rparr>)" by (rule fold_ready [OF f query_init_ready [OF i r(2)]])
  with r(1) have "session cfg n (db\<lparr>pool := pl\<rparr>) w" by (simp add: session_def recoverable_pool)
  with i f show ?thesis by (rule that)
qed

text \<open>So does an aggregation, which initialises and drains a query of its own.\<close>

lemma aggregate_ready:
  assumes "tsdb_aggregate_h (Some db) t0 t1 p agg (Some r0) w = (r, x, Some db', w')" "pool_ready db"
  shows "pool_ready db'"
proof -
  obtain e dbo qo w1 where i: "tsdb_query_init_h (Some db) (Some zero_query) t0 t1 (Some [p]) 1 w = (e, dbo, qo, w1)"
    by (metis prod_cases4)
  have p1: "pool_ready db1" if "dbo = Some db1" for db1 using query_init_ready i that assms(2) by metis
  have "pool_ready db2"
    if "query_fold (\<lambda>(a, count) ts vals. (acc_step count a (hd vals), count + 1)) (acc_init, 0) db1 q w1 = (b, db2, q')"
      "dbo = Some db1" for b db1 q db2 q'
    by (rule fold_ready [OF that(1) p1 [OF that(2)]])
  with assms i p1 show ?thesis
    by (auto simp: tsdb_aggregate_h_def split: if_splits prod.splits esp_err.splits option.splits)
qed

lemma session_aggregate:
  assumes "session cfg n db w" "ascending db w" "t0 \<le> t1" "p < num_params (header db)"
  obtains r x pl where "tsdb_aggregate_h (Some db) t0 t1 p agg (Some r0) w = (r, x, Some (db\<lparr>pool := pl\<rparr>), w)"
    "session cfg n (db\<lparr>pool := pl\<rparr>) w"
proof -
  have r: "recoverable cfg n (db, w)" "pool_ready db" using assms(1) by (simp_all add: session_def)
  have wr: "writable n (db, w)" using r(1) by (simp add: recoverable_def Let_def)
  obtain res x pl where a: "tsdb_aggregate_h (Some db) t0 t1 p agg (Some r0) w = (res, x, Some (db\<lparr>pool := pl\<rparr>), w)"
    using aggregate_run [OF wr pool_ready_query [OF r(2)] assms(2-4), of agg r0]
    by (auto simp: Let_def split: if_splits option.splits)
  have "session cfg n (db\<lparr>pool := pl\<rparr>) w"
    using r(1) aggregate_ready [OF a r(2)] by (simp add: session_def recoverable_pool)
  with a show ?thesis by (rule that)
qed

lemma session_multi:
  assumes "session cfg n db w" "ascending db w" "t0 \<le> t1"
    and "length reqs = unat m" "0 < m" "unat m \<le> TSDB_MAX_PARAMS" "list_all (\<lambda>r. param_index r < num_params (header db)) reqs"
  obtains reqs' pl where "tsdb_aggregate_multi_h (Some db) t0 t1 (Some reqs) m (Some c) w =
    Some (ESP_OK, reqs', Some (of_nat (length (filter (in_window t0 t1) (db_rows (db, w))))), Some (db\<lparr>pool := pl\<rparr>), w)"
    "recoverable cfg n (db\<lparr>pool := pl\<rparr>, w)"
proof -
  have r: "recoverable cfg n (db, w)" "pool_ready db" using assms(1) by (simp_all add: session_def)
  have wr: "writable n (db, w)" using r(1) by (simp add: recoverable_def Let_def)
  from aggregate_multi_run [OF wr pool_ready_query [OF r(2)] assms(2-7), of "Some c"] r(1) show ?thesis
    by (auto simp: recoverable_pool intro: that)
qed

text \<open>
  C3: What is written is what is read: on a fresh path, in a world without failures, opening,
  writing a batch and querying all succeed, and the query returns exactly the written
  records inside the window, the last ones that the capacity keeps, in the order they were
  written, for every geometry, capacity and buffer layout the configuration allows.
\<close>

theorem written_is_queried:
  assumes "quiet w" "admissible cfg" "fresh_path cfg w" "pool_available cfg w" "pool_large cfg" "\<not> cfg_free_space_cb cfg"
    and "fits_file cfg (length xs)" "xs \<noteq> []" "list_all (\<lambda>x. length (snd x) = unat (cfg_num_params cfg)) xs"
    and "sorted (map fst (within (limit_of (new_header cfg)) xs))" "t0 \<le> t1"
  shows "\<exists>db w1 db1 w2 db2 q. tsdb_open_handle cfg (zero_tsdb g) w = (Opened db, w1) \<and>
    tsdb_write_batch_h (Some db) (Some (map fst xs)) (Some (map (Some \<circ> snd) xs)) (of_nat (length xs)) w1 =
      (ESP_OK, Some db1, w2) \<and>
    tsdb_query_init_h (Some db1) (Some zero_query) t0 t1 None 0 w2 = (ESP_OK, Some db2, Some q, w2) \<and>
    fst (query_fold (\<lambda>acc ts vals. acc @ [(ts, vals)]) [] db2 q w2) =
      filter (in_window t0 t1) (within (limit_of (new_header cfg)) xs)"
proof -
  obtain db w1 where o: "tsdb_open_handle cfg (zero_tsdb g) w = (Opened db, w1)" "session cfg (length xs + 0) db w1"
    "db_rows (db, w1) = []" "header db = new_header cfg" "db_extra_param_count db = 0"
    by (rule session_open [OF assms(1-6), of "length xs + 0" g]) (use assms(7) in simp_all)
  have np: "nparams (header db) = unat (cfg_num_params cfg)" using o(4) by (simp add: new_header_fields)
  have fits: "list_all (entry_fits (db, w1)) xs" using assms(9) np o(5) by (simp add: entry_fits_def list_all_iff)
  have rows: "map (entry_row (db, w1)) xs = xs"
    using assms(9) np by (intro map_idI) (auto simp: entry_row_def list_all_iff)
  have wr: "writable (length xs + 0) (db, w1)" using o(2) by (simp add: session_def recoverable_def Let_def)
  obtain db1 w2 where f: "foldl db_put (db, w1) xs = (db1, w2)" by fastforce
  have b: "tsdb_write_batch_h (Some db) (Some (map fst xs)) (Some (map (Some \<circ> snd) xs)) (of_nat (length xs)) w1 =
      (ESP_OK, Some db1, w2)"
    using write_batch_foldl [OF wr fits assms(8) refl] f by simp
  note s = session_writes [OF o(2) fits f]
  have r: "db_rows (db1, w2) = within (limit_of (new_header cfg)) xs" using s(3) rows o(3,4) by simp
  have asc: "ascending db1 w2" using assms(10) r by (simp add: ascending_def db_rows_def)
  have "nparams (header db1) \<le> TSDB_MAX_PARAMS"
    using config_part_fields(3) [OF s(2)] np assms(2) by (simp add: admissible_def config_ok_def word_le_nat_alt)
  moreover have "db_extra_param_count db1 = 0" using s(1) by (simp add: session_def recoverable_def Let_def)
  ultimately have all: "records db1 (base_query db1 t0 t1 None 0) w2 = db_rows (db1, w2)" by (intro records_all)
  obtain db2 q pl q' where q: "tsdb_query_init_h (Some db1) (Some zero_query) t0 t1 None 0 w2 = (ESP_OK, Some db2, Some q, w2)"
    "query_fold (\<lambda>acc ts vals. acc @ [(ts, vals)]) [] db2 q w2 =
      (foldl (\<lambda>a r. a @ [(fst r, snd r)]) [] (filter (in_window t0 t1) (records db1 (base_query db1 t0 t1 None 0) w2)), db1\<lparr>pool := pl\<rparr>, q')"
    by (rule session_query [OF s(1) asc assms(11), of None 0 "\<lambda>acc ts vals. acc @ [(ts, vals)]" "[]"]) simp_all
  have "fst (query_fold (\<lambda>acc ts vals. acc @ [(ts, vals)]) [] db2 q w2) = filter (in_window t0 t1) (within (limit_of (new_header cfg)) xs)"
    unfolding q(2) all r by (simp add: foldl_collect)
  with o(1) b q(1) show ?thesis by blast
qed

theorem written_is_queried_witness:
  "\<exists>db w1 db1 w2 db2 q. tsdb_open_handle (demo_config 3) (zero_tsdb 0) empty_world = (Opened db, w1) \<and>
    tsdb_write_batch_h (Some db) (Some [10, 20, 30, 40]) (Some [Some [1], Some [2], Some [3], Some [4]]) 4 w1 =
      (ESP_OK, Some db1, w2) \<and>
    tsdb_query_init_h (Some db1) (Some zero_query) 20 30 None 0 w2 = (ESP_OK, Some db2, Some q, w2) \<and>
    fst (query_fold (\<lambda>acc ts vals. acc @ [(ts, vals)]) [] db2 q w2) = [(20, [2]), (30, [3])]"
proof -
  let ?xs = "[(10, [1]), (20, [2]), (30, [3]), (40, [4])] :: (u32 \<times> i16 list) list"
  have m: "limit_of (new_header (demo_config 3)) = Some 3"
    by (simp add: limit_of_def new_header_fields) (simp add: demo_config_def)
  have pl: "pool_large (demo_config 3)" by (simp add: pool_large_def demo_config_def)
  have cb: "\<not> cfg_free_space_cb (demo_config 3)" by (simp add: demo_config_def)
  have ff: "fits_file (demo_config 3) (length ?xs)" by (rule demo_fits_file) simp
  have len: "list_all (\<lambda>x. length (snd x) = unat (cfg_num_params (demo_config 3))) ?xs" by (simp add: demo_config_def)
  have keep: "within (limit_of (new_header (demo_config 3))) ?xs = [(20, [2]), (30, [3]), (40, [4])]"
    by (simp add: m last_n_def)
  have srt: "sorted (map fst (within (limit_of (new_header (demo_config 3))) ?xs))" unfolding keep by simp
  have ad: "admissible (demo_config 3)" by (rule demo_config_admissible) simp
  have win: "(20 :: u32) \<le> 30" by simp
  show ?thesis
    using written_is_queried [OF demo_fresh(1) ad demo_fresh(2) demo_available [OF demo_fresh(1)] pl cb ff _ len srt win, of 0]
    unfolding keep by simp
qed

end
