(* ===== verification/Tsdb_Benchmark.thy ===== *)
theory Tsdb_Benchmark
  imports Tsdb_Session
begin

text \<open>
  The on-device benchmark (\<open>src/tsdb_benchmark.c\<close>): a client of the global API that creates a
  database of its own, writes, queries and aggregates it, adds overflow columns when there are
  enough records, and removes it. Its calls are those of \<open>Tsdb_Api\<close> in the order of the code.

  \<open>now k\<close> is the \<open>k\<close>-th value that \<open>esp_timer_get_time()\<close> returns and \<open>fdiv a n\<close> the bits of
  the single precision quotient \<open>(float)a / n\<close>; both are parameters. The count of clock reads
  is passed along as \<open>t\<close>. The logging is left out.
\<close>

section \<open>The results\<close>

type_synonym f32 = "32 word" \<comment> \<open>the bits of a \<open>float\<close>\<close>

record bench_results =
  writes_count :: u32
  write_total_us :: u32
  write_min_us :: u32
  write_max_us :: u32
  write_avg_us :: f32
  query_records :: u32
  query_total_us :: u32
  query_per_record_us :: f32
  single_param_records :: u32
  single_param_total_us :: u32
  single_param_per_record_us :: f32
  agg_records :: u32
  agg_total_us :: u32
  multi_agg_records :: u32
  multi_agg_total_us :: u32
  overflow_writes_count :: u32
  overflow_write_total_us :: u32
  overflow_write_avg_us :: f32
  overflow_query_records :: u32
  overflow_query_total_us :: u32
  overflow_query_per_record_us :: f32
  br_file_size_bytes :: u32
  br_num_params :: u8
  br_extra_params :: u8

definition zero_results :: bench_results where
  "zero_results = \<lparr> writes_count = 0, write_total_us = 0, write_min_us = 0, write_max_us = 0, write_avg_us = 0,
     query_records = 0, query_total_us = 0, query_per_record_us = 0,
     single_param_records = 0, single_param_total_us = 0, single_param_per_record_us = 0,
     agg_records = 0, agg_total_us = 0, multi_agg_records = 0, multi_agg_total_us = 0,
     overflow_writes_count = 0, overflow_write_total_us = 0, overflow_write_avg_us = 0,
     overflow_query_records = 0, overflow_query_total_us = 0, overflow_query_per_record_us = 0,
     br_file_size_bytes = 0, br_num_params = 0, br_extra_params = 0 \<rparr>"

section \<open>The database of the benchmark\<close>

definition bench_path :: path where
  "bench_path = ''/littlefs/bench.tsdb''"

text \<open>\<open>snprintf("P%d", i)\<close> for \<open>i < 16\<close>.\<close>

definition bench_name :: "nat \<Rightarrow> bytes" where
  "bench_name i = 0x50 # (if i < 10 then [0x30 + of_nat i] else [0x31, 0x30 + of_nat (i - 10)])"

definition bench_config :: "u32 \<Rightarrow> u8 \<Rightarrow> tsdb_config" where
  "bench_config num_records np = \<lparr> cfg_filepath = Some bench_path, cfg_num_params = np,
     cfg_param_names = Some (map (Some \<circ> bench_name) [0..<unat np]),
     cfg_max_records = num_records + 100, cfg_index_stride = 380, buffer_pool_size = 10 * 1024,
     cfg_alloc_strategy = TSDB_ALLOC_AUTO, use_paged_allocation = True, cfg_page_size = 2048,
     cfg_free_space_cb = False, cfg_min_free_bytes = 0 \<rparr>"

section \<open>Writing\<close>

definition base_ts :: u32 where "base_ts = 1700000000"

definition bench_row :: "u8 \<Rightarrow> u32 \<Rightarrow> i16 list" where
  "bench_row np i = map (\<lambda>p. ucast ((i * 7 + of_nat p * 13) mod 10000)) [0..<unat np]"

record write_times =
  wt_total :: u64
  wt_min :: u32
  wt_max :: u32

text \<open>The two clock reads around an operation, and what a write adds to the statistics.\<close>

definition elapsed :: "(nat \<Rightarrow> u64) \<Rightarrow> nat \<Rightarrow> u64" where
  "elapsed now t = now (t + 1) - now t"

definition add_time :: "u64 \<Rightarrow> write_times \<Rightarrow> write_times" where
  "add_time e wt =
     (let us = ucast e :: u32
      in \<lparr> wt_total = wt_total wt + ucast us,
           wt_min = (if us < wt_min wt then us else wt_min wt),
           wt_max = (if us > wt_max wt then us else wt_max wt) \<rparr>)"

text \<open>The write loop with \<open>n\<close> iterations left, the next one being \<open>i\<close>.\<close>

fun bench_writes ::
  "(nat \<Rightarrow> u64) \<Rightarrow> u8 \<Rightarrow> nat \<Rightarrow> u32 \<Rightarrow> write_times \<Rightarrow> nat \<Rightarrow> tsdb_lib \<Rightarrow> world \<Rightarrow>
   esp_err \<times> write_times \<times> nat \<times> tsdb_lib \<times> world" where
  "bench_writes now np 0 i wt t lib w = (ESP_OK, wt, t, lib, w)"
| "bench_writes now np (Suc n) i wt t lib w =
     (case tsdb_write (base_ts + i * 300) (Some (bench_row np i)) lib w of
        (ret, lib, w) \<Rightarrow>
          if ret \<noteq> ESP_OK then (ret, wt, t + 2, lib, w)
          else bench_writes now np n (i + 1) (add_time (elapsed now t) wt) (t + 2) lib w)"

section \<open>Querying and aggregating\<close>

text \<open>One query that is drained and closed: the count, the time, and the query struct.\<close>

definition bench_query ::
  "(nat \<Rightarrow> u64) \<Rightarrow> tsdb_query option \<Rightarrow> u32 \<Rightarrow> u32 \<Rightarrow> u8 list option \<Rightarrow> u8 \<Rightarrow> nat \<Rightarrow> tsdb_lib \<Rightarrow> world \<Rightarrow>
   u32 \<times> u64 \<times> tsdb_query option \<times> nat \<times> tsdb_lib \<times> world" where
  "bench_query now qo t0 t1 idxo n t lib w =
     (case tsdb_query_init qo t0 t1 idxo n lib w of
        (ret, qo, lib, w) \<Rightarrow>
          (case (ret, qo, default_db lib) of
             (ESP_OK, Some q, Some db) \<Rightarrow>
               (case query_fold (\<lambda>c ts vals. c + 1) 0 db q w of
                  (count, db, q) \<Rightarrow>
                    (count, elapsed now t, tsdb_query_close (Some q), t + 2, store_default (Some db) lib, w))
           | _ \<Rightarrow> (0, elapsed now t, qo, t + 2, lib, w)))"

definition per_record :: "(u64 \<Rightarrow> u32 \<Rightarrow> f32) \<Rightarrow> u64 \<Rightarrow> u32 \<Rightarrow> f32" where
  "per_record fdiv e count = (if count > 0 then fdiv e count else 0)"

definition bench_aggs :: "u8 \<Rightarrow> u8" where
  "bench_aggs np = (if np < 8 then np else 8)"

definition bench_requests :: "u8 \<Rightarrow> agg_request list" where
  "bench_requests np =
     map (\<lambda>i. \<lparr> param_index = of_nat i mod np, agg_kind = (if i mod 2 = 0 then TSDB_AGG_AVG else TSDB_AGG_MAX),
               agg_result = 0 \<rparr>)
       [0..<unat (bench_aggs np)]"

text \<open>
  The four read benchmarks. The query struct on the stack is written by \<open>tsdb_query_init\<close>
  before it is read. \<open>None\<close> is the access out of bounds of \<open>tsdb_aggregate_multi_h\<close>.
\<close>

definition bench_reads ::
  "(nat \<Rightarrow> u64) \<Rightarrow> (u64 \<Rightarrow> u32 \<Rightarrow> f32) \<Rightarrow> u32 \<Rightarrow> u8 \<Rightarrow> bench_results \<Rightarrow> nat \<Rightarrow> tsdb_lib \<Rightarrow> world \<Rightarrow>
   (bench_results \<times> tsdb_query option \<times> nat \<times> tsdb_lib \<times> world) option" where
  "bench_reads now fdiv num_records np res t lib w =
     (let t0 = base_ts; t1 = base_ts + num_records * 300
      in case bench_query now (Some zero_query) t0 t1 None 0 t lib w of
           (count, e, qo, t, lib, w) \<Rightarrow>
             (let res = res\<lparr>query_records := count, query_total_us := ucast e,
                  query_per_record_us := per_record fdiv e count\<rparr>
              in case bench_query now qo t0 t1 (Some [0]) 1 t lib w of
                   (count, e, qo, t, lib, w) \<Rightarrow>
                     (let res = res\<lparr>single_param_records := count, single_param_total_us := ucast e,
                          single_param_per_record_us := per_record fdiv e count\<rparr>
                      in case tsdb_aggregate t0 t1 0 TSDB_AGG_AVG (Some 0) lib w of
                           (ret, result, lib, w) \<Rightarrow>
                             (let res = res\<lparr>agg_records := num_records, agg_total_us := ucast (elapsed now t)\<rparr>
                              in case tsdb_aggregate_multi t0 t1 (Some (bench_requests np)) (bench_aggs np) (Some 0) lib w of
                                   None \<Rightarrow> None
                                 | Some (ret, reqs, count, lib, w) \<Rightarrow>
                                     Some (res\<lparr>multi_agg_records := (case count of Some c \<Rightarrow> c | None \<Rightarrow> 0),
                                             multi_agg_total_us := ucast (elapsed now (t + 2))\<rparr>,
                                           qo, t + 4, lib, w)))))"

section \<open>Overflow columns\<close>

definition bench_overflow_row :: "u8 \<Rightarrow> u32 \<Rightarrow> i16 list" where
  "bench_overflow_row np i =
     map (\<lambda>p. ucast ((i * 11 + of_nat p * 17) mod 10000)) [0..<unat np] @ [ucast (i * 3), ucast (i * 5), ucast (i * 7)]"

text \<open>The loop ends at the first write that fails; its time is counted.\<close>

fun bench_overflow_writes ::
  "(nat \<Rightarrow> u64) \<Rightarrow> u8 \<Rightarrow> u32 \<Rightarrow> nat \<Rightarrow> u32 \<Rightarrow> u64 \<Rightarrow> nat \<Rightarrow> tsdb_lib \<Rightarrow> world \<Rightarrow> u64 \<times> nat \<times> tsdb_lib \<times> world" where
  "bench_overflow_writes now np t1 0 i sum_us t lib w = (sum_us, t, lib, w)"
| "bench_overflow_writes now np t1 (Suc n) i sum_us t lib w =
     (case tsdb_write (t1 + i * 300) (Some (bench_overflow_row np i)) lib w of
        (ret, lib, w) \<Rightarrow>
          (let sum_us = sum_us + elapsed now t
           in if ret \<noteq> ESP_OK then (sum_us, t + 2, lib, w)
              else bench_overflow_writes now np t1 n (i + 1) sum_us (t + 2) lib w))"

definition bench_overflow ::
  "(nat \<Rightarrow> u64) \<Rightarrow> (u64 \<Rightarrow> u32 \<Rightarrow> f32) \<Rightarrow> u32 \<Rightarrow> u8 \<Rightarrow> bench_results \<Rightarrow> tsdb_query option \<Rightarrow> nat \<Rightarrow> tsdb_lib \<Rightarrow> world \<Rightarrow>
   bench_results \<times> tsdb_lib \<times> world" where
  "bench_overflow now fdiv num_records np res qo t lib w =
     (if num_records < 100 then (res, lib, w)
      else
        (case tsdb_add_extra_params (Some [[0x58, 0x30], [0x58, 0x31], [0x58, 0x32]]) 3 lib w of
           (ret, lib, w) \<Rightarrow>
             if ret \<noteq> ESP_OK then (res, lib, w)
             else
               (let t1 = base_ts + num_records * 300; writes = num_records div 10
                in case bench_overflow_writes now np t1 (unat writes) 0 0 t lib w of
                     (sum_us, t, lib, w) \<Rightarrow>
                       (case bench_query now qo t1 (t1 + writes * 300) (Some [0, np, np + 1]) 3 t lib w of
                          (count, e, qo, t, lib, w) \<Rightarrow>
                            (res\<lparr>br_extra_params := 3, overflow_writes_count := writes,
                               overflow_write_total_us := ucast sum_us,
                               overflow_write_avg_us := per_record fdiv sum_us writes,
                               overflow_query_records := count, overflow_query_total_us := ucast e,
                               overflow_query_per_record_us := per_record fdiv e count\<rparr>, lib, w)))))"

section \<open>The benchmark\<close>

definition bench_cleanup :: "tsdb_lib \<Rightarrow> world \<Rightarrow> tsdb_lib \<times> world" where
  "bench_cleanup lib w = (case tsdb_close lib w of (_, lib, w) \<Rightarrow> (lib, snd (unlink_file w bench_path)))"

text \<open>After the writes: the read and overflow benchmarks, the file size, and the cleanup.\<close>

definition bench_measure ::
  "(nat \<Rightarrow> u64) \<Rightarrow> (u64 \<Rightarrow> u32 \<Rightarrow> f32) \<Rightarrow> u32 \<Rightarrow> u8 \<Rightarrow> bench_results \<Rightarrow> nat \<Rightarrow> tsdb_lib \<Rightarrow> world \<Rightarrow>
   (bench_results \<times> tsdb_lib \<times> world) option" where
  "bench_measure now fdiv num_records np res t lib w =
     (case bench_reads now fdiv num_records np res t lib w of
        None \<Rightarrow> None
      | Some (res, qo, t, lib, w) \<Rightarrow>
          (case bench_overflow now fdiv num_records np res qo t lib w of
             (res, lib, w) \<Rightarrow>
               (case stat_size w bench_path of
                  (bytes, w) \<Rightarrow>
                    (let res = (case bytes of None \<Rightarrow> res | Some n \<Rightarrow> res\<lparr>br_file_size_bytes := of_nat n\<rparr>)
                     in case bench_cleanup lib w of (lib, w) \<Rightarrow> Some (res, lib, w)))))"

definition tsdb_run_benchmark ::
  "(nat \<Rightarrow> u64) \<Rightarrow> (u64 \<Rightarrow> u32 \<Rightarrow> f32) \<Rightarrow> u32 \<Rightarrow> u8 \<Rightarrow> bench_results option \<Rightarrow> tsdb_lib \<Rightarrow> world \<Rightarrow>
   (esp_err \<times> bench_results option \<times> tsdb_lib \<times> world) option" where
  "tsdb_run_benchmark now fdiv num_records np results lib w =
     (if results = None \<or> num_records = 0 \<or> np = 0 \<or> np > 16
      then Some (ESP_ERR_INVALID_ARG, results, lib, w)
      else
        (let res = zero_results\<lparr>br_num_params := np\<rparr>;
             (lib, w) = (if tsdb_is_initialized lib then snd (tsdb_close lib w) else (lib, w));
             w = snd (unlink_file w bench_path)
         in case tsdb_init (Some (bench_config num_records np)) lib w of
              (ret, lib, w) \<Rightarrow>
                if ret \<noteq> ESP_OK then Some (ret, Some res, lib, w)
                else
                  (case bench_writes now np (unat num_records) 0
                          \<lparr> wt_total = 0, wt_min = 0xFFFFFFFF, wt_max = 0 \<rparr> 0 lib w of
                     (ret, wt, t, lib, w) \<Rightarrow>
                       if ret \<noteq> ESP_OK
                       then (case bench_cleanup lib w of (lib, w) \<Rightarrow> Some (ret, Some res, lib, w))
                       else map_option (\<lambda>(res, lib, w). (ESP_OK, Some res, lib, w))
                              (bench_measure now fdiv num_records np
                                 (res\<lparr>writes_count := num_records, write_total_us := ucast (wt_total wt),
                                    write_min_us := wt_min wt, write_max_us := wt_max wt,
                                    write_avg_us := fdiv (wt_total wt) num_records\<rparr>) t lib w))))"

section \<open>The benchmark's handle\<close>

text \<open>The published handle of the running benchmark; the recycler is empty.\<close>

definition published :: "nat \<Rightarrow> tsdb \<Rightarrow> tsdb_lib \<Rightarrow> bool" where
  "published a db lib \<longleftrightarrow>
     g_default_handle lib = Some a \<and> s_recycled_handle lib = None \<and> a < length (heap lib) \<and> heap lib ! a = db"

lemma published_default: "published a db lib \<Longrightarrow> default_db lib = Some db"
  by (simp add: published_def default_db_def)

lemma published_store: "published a db lib \<Longrightarrow> published a db' (store_default (Some db') lib)"
  by (simp add: published_def store_default_def)

lemma bench_capacity:
  assumes "num_records < 100"
  shows "unat num_records < 100" "unat (num_records + 100) = unat num_records + 100"
    "unat (entries_for (num_records + 100) (stride_or_default 380)) \<le> 2"
proof -
  show n: "unat num_records < 100" "unat (num_records + 100) = unat num_records + 100"
    using assms by (simp_all add: word_less_nat_alt unat_add_no_wrap)
  then have "unat ((num_records + 100) div 380) \<le> 1" by (simp add: unat_div)
  then have "unat ((num_records + 100) div 380 + 1) \<le> 2" by (subst unat_add_no_wrap) simp_all
  moreover have "num_records + 100 > 0" using n(2) by (simp add: word_less_nat_alt)
  ultimately show "unat (entries_for (num_records + 100) (stride_or_default 380)) \<le> 2"
    by (simp add: entries_for_def stride_or_default_def)
qed

lemma bench_config_admissible:
  assumes "num_records < 100" "1 \<le> np" "np \<le> 16"
  shows "admissible (bench_config num_records np)"
proof -
  have "np \<noteq> 0" "np \<le> 64" using assms(2,3) by (auto simp: word_le_nat_alt)
  with bench_capacity [OF assms(1)] show ?thesis
    by (simp add: admissible_def config_ok_def bench_config_def word_le_nat_alt)
qed

text \<open>\<open>tsdb_init\<close> on a fresh path publishes an empty database, in a recycled handle or a new one.\<close>

lemma init_session:
  assumes "quiet w" "admissible cfg" "fresh_path cfg w" "pool_available cfg w" "pool_large cfg" "\<not> cfg_free_space_cb cfg" "fits_file cfg n"
    and "lib_inv lib" "g_default_handle lib = None"
  obtains a db lib' w' where "tsdb_init (Some cfg) lib w = (ESP_OK, lib', w')" "published a db lib'" "session cfg n db w'"
    "db_rows (db, w') = []" "header db = new_header cfg" "db_extra_param_count db = 0"
    "\<forall>q. q \<noteq> filepath db \<longrightarrow> q \<notin> side_files (filepath db) \<longrightarrow> fs w' q = fs w q"
proof -
  let ?lib = "lib\<lparr>g_default_handle := None\<rparr>"
  obtain a g lib1 where ac: "tsdb_acquire_handle ?lib w = (Some a, lib1, w)" "heap lib1 ! a = zero_tsdb g" "a < length (heap lib1)"
    "s_recycled_handle lib1 = None"
    using assms(1,8) that
    by (cases "s_recycled_handle lib") (auto simp: tsdb_acquire_handle_def quiet_next lib_inv_def put_handle_def)
  obtain db w' where o: "tsdb_open_handle cfg (zero_tsdb g) w = (Opened db, w')" "session cfg n db w'"
    "db_rows (db, w') = []" "header db = new_header cfg" "db_extra_param_count db = 0"
    "\<forall>q. q \<noteq> filepath db \<longrightarrow> q \<notin> side_files (filepath db) \<longrightarrow> fs w' q = fs w q"
    by (rule session_open [OF assms(1-7)])
  have ok: "config_ok cfg" "quiet w'"
    using assms(2) o(2) by (auto simp: admissible_def session_def recoverable_def Let_def writable_def)
  have "tsdb_open (Some cfg) ?lib w = (Some a, put_handle a db lib1, w')"
    using ac(1,2) o(1) ok by (simp add: tsdb_open_def)
  then have "tsdb_init (Some cfg) lib w = (ESP_OK, (put_handle a db lib1)\<lparr>g_default_handle := Some a\<rparr>, w')"
    using assms(9) by (simp add: tsdb_init_def default_db_def)
  moreover have "published a db ((put_handle a db lib1)\<lparr>g_default_handle := Some a\<rparr>)"
    using ac(3,4) by (simp add: published_def put_handle_def)
  ultimately show ?thesis using o by (intro that)
qed

section \<open>Its writes\<close>

definition bench_entry :: "u8 \<Rightarrow> u32 \<Rightarrow> u32 \<times> i16 list" where
  "bench_entry np i = (base_ts + i * 300, bench_row np i)"

definition bench_entries :: "u8 \<Rightarrow> u32 \<Rightarrow> nat \<Rightarrow> (u32 \<times> i16 list) list" where
  "bench_entries np i n = map (\<lambda>k. bench_entry np (i + of_nat k)) [0..<n]"

lemma bench_entries_Suc: "bench_entries np i (Suc n) = bench_entry np i # bench_entries np (i + 1) n"
  by (simp add: bench_entries_def upt_conv_Cons map_Suc_upt [symmetric] add.assoc del: upt_Suc map_Suc_upt)

text \<open>The loop is the fold of the writes: every one of them succeeds.\<close>

lemma bench_writes_fold:
  assumes "published a db lib" "writable (n + k) (db, w)" "list_all (entry_fits (db, w)) (bench_entries np i n)"
  shows "\<exists>wt' t' lib' db' w'. bench_writes now np n i wt t lib w = (ESP_OK, wt', t', lib', w') \<and>
    foldl db_put (db, w) (bench_entries np i n) = (db', w') \<and> published a db' lib'"
  using assms
proof (induction n arbitrary: db w lib i wt t)
  case 0
  then show ?case by (simp add: bench_entries_def)
next
  case (Suc n)
  let ?x = "bench_entry np i"
  have wr: "writable (Suc (n + k)) (db, w)" "entry_fits (db, w) ?x" using Suc.prems(2,3) by (simp_all add: bench_entries_Suc)
  obtain db1 w1 where p: "tsdb_write_h (Some db) (fst ?x) (Some (snd ?x)) w = (ESP_OK, Some db1, w1)"
    "db_put (db, w) ?x = (db1, w1)" "writable (n + k) (db1, w1)"
    using db_put_stored [OF wr] by metis
  let ?lib = "store_default (Some db1) lib"
  have wl: "tsdb_write (base_ts + i * 300) (Some (bench_row np i)) lib w = (ESP_OK, ?lib, w1)"
    using p(1) published_default [OF Suc.prems(1)] by (simp add: tsdb_write_def on_default_def bench_entry_def)
  have "list_all (entry_fits (db1, w1)) (bench_entries np (i + 1) n)"
    using db_queue.put_fits [OF wr] p(2) Suc.prems(3) by (simp add: bench_entries_Suc)
  from Suc.IH [OF published_store [OF Suc.prems(1)] p(3) this, of "add_time (elapsed now t) wt" "t + 2"] show ?case
    by (simp add: wl p(2) bench_entries_Suc)
qed

section \<open>Its queries and aggregations\<close>

text \<open>What the read benchmarks rely on, and what they count.\<close>

definition readable :: "tsdb_config \<Rightarrow> nat \<Rightarrow> u8 \<Rightarrow> u32 \<Rightarrow> u32 \<Rightarrow> tsdb \<Rightarrow> world \<Rightarrow> bool" where
  "readable cfg n np t0 t1 db w \<longleftrightarrow> session cfg n db w \<and> ascending db w \<and> t0 \<le> t1 \<and>
     num_params (header db) = np \<and> 1 \<le> np \<and> np \<le> 16"

definition seen :: "u32 \<Rightarrow> u32 \<Rightarrow> tsdb \<Rightarrow> world \<Rightarrow> nat" where
  "seen t0 t1 db w = length (filter (in_window t0 t1) (db_rows (db, w)))"

lemma seen_pool [simp]: "seen t0 t1 (db\<lparr>pool := pl\<rparr>) w = seen t0 t1 db w"
  by (simp add: seen_def db_rows_def)

lemma readable_pool: "readable cfg n np t0 t1 db w \<Longrightarrow> session cfg n (db\<lparr>pool := pl\<rparr>) w \<Longrightarrow> readable cfg n np t0 t1 (db\<lparr>pool := pl\<rparr>) w"
  by (simp add: readable_def ascending_def db_rows_def)

lemma readable_params:
  assumes "readable cfg n np t0 t1 db w"
  shows "db_extra_param_count db = 0" "nparams (header db) \<le> TSDB_MAX_PARAMS" "0 < num_params (header db)"
  using assms by (auto simp: readable_def session_def recoverable_def Let_def word_le_nat_alt word_less_nat_alt)

lemma bench_query_run:
  assumes "published a db lib" "readable cfg n np t0 t1 db w" "idxo = None \<and> m = 0 \<or> idxo = Some [0] \<and> m = 1"
  obtains e t' lib' pl where
    "bench_query now (Some zero_query) t0 t1 idxo m t lib w = (of_nat (seen t0 t1 db w), e, Some zero_query, t', lib', w)"
    "published a (db\<lparr>pool := pl\<rparr>) lib'" "readable cfg n np t0 t1 (db\<lparr>pool := pl\<rparr>) w"
proof -
  have r: "session cfg n db w" "ascending db w" "t0 \<le> t1" using assms(2) by (simp_all add: readable_def)
  note np = readable_params [OF assms(2)]
  have m: "idxo \<noteq> None \<longrightarrow> unat m \<le> TSDB_MAX_PARAMS" using assms(3) by auto
  have c: "length (filter (in_window t0 t1) (records db (base_query db t0 t1 idxo m) w)) = seen t0 t1 db w"
    using assms(3)
  proof
    assume "idxo = None \<and> m = 0"
    then show ?thesis using assms(2) records_all [OF np(1,2), of t0 t1 0 w] by (simp add: seen_def)
  next
    assume i: "idxo = Some [0] \<and> m = 1"
    have "records db (base_query db t0 t1 idxo m) w = map (\<lambda>r. (fst r, [snd r ! 0])) (db_rows (db, w))"
      using i np(3) records_given [of db "[0]" 1 t0 t1 w] by simp
    then have "length (filter (in_window t0 t1) (records db (base_query db t0 t1 idxo m) w)) =
        length (filter (in_window t0 t1) (db_rows (db, w)))"
      by (simp only: filter_map length_map o_def fst_conv)
    then show ?thesis by (simp add: seen_def)
  qed
  obtain db1 q pl q' where q: "tsdb_query_init_h (Some db) (Some zero_query) t0 t1 idxo m w = (ESP_OK, Some db1, Some q, w)"
    "query_fold (\<lambda>c ts vals. c + 1) 0 db1 q w = (of_nat (seen t0 t1 db w) :: u32, db\<lparr>pool := pl\<rparr>, q')"
    "session cfg n (db\<lparr>pool := pl\<rparr>) w"
    by (rule session_query [OF r m, where f = "\<lambda>c ts vals. c + 1" and a = "0 :: u32", unfolded foldl_count c add_0])
  let ?lib = "store_default (Some db1) lib"
  have p1: "published a db1 ?lib" by (rule published_store [OF assms(1)])
  show ?thesis
  proof (rule that)
    show "bench_query now (Some zero_query) t0 t1 idxo m t lib w =
        (of_nat (seen t0 t1 db w), elapsed now t, Some zero_query, t + 2, store_default (Some (db\<lparr>pool := pl\<rparr>)) ?lib, w)"
      using q(1,2) published_default [OF assms(1)] published_default [OF p1]
      by (simp add: bench_query_def tsdb_query_init_def tsdb_query_close_def)
    show "published a (db\<lparr>pool := pl\<rparr>) (store_default (Some (db\<lparr>pool := pl\<rparr>)) ?lib)" by (rule published_store [OF p1])
    show "readable cfg n np t0 t1 (db\<lparr>pool := pl\<rparr>) w" by (rule readable_pool [OF assms(2) q(3)])
  qed
qed

lemma bench_aggregate_run:
  assumes "published a db lib" "readable cfg n np t0 t1 db w"
  obtains r x lib' pl where "tsdb_aggregate t0 t1 0 agg (Some r0) lib w = (r, x, lib', w)"
    "published a (db\<lparr>pool := pl\<rparr>) lib'" "readable cfg n np t0 t1 (db\<lparr>pool := pl\<rparr>) w"
proof -
  have r: "session cfg n db w" "ascending db w" "t0 \<le> t1" using assms(2) by (simp_all add: readable_def)
  obtain e x pl where g: "tsdb_aggregate_h (Some db) t0 t1 0 agg (Some r0) w = (e, x, Some (db\<lparr>pool := pl\<rparr>), w)"
    "session cfg n (db\<lparr>pool := pl\<rparr>) w"
    by (rule session_aggregate [OF r readable_params(3) [OF assms(2)]])
  then show ?thesis
    using published_default [OF assms(1)] published_store [OF assms(1)] readable_pool [OF assms(2) g(2)]
    by (intro that) (simp_all add: tsdb_aggregate_def)
qed

lemma bench_requests_valid:
  assumes "1 \<le> np"
  shows "length (bench_requests np) = unat (bench_aggs np)" "0 < bench_aggs np" "unat (bench_aggs np) \<le> TSDB_MAX_PARAMS"
    "list_all (\<lambda>r. param_index r < np) (bench_requests np)"
proof -
  have n: "0 < unat (bench_aggs np)" "unat (bench_aggs np) \<le> 8" "0 < np"
    using assms by (auto simp: bench_aggs_def word_less_nat_alt word_le_nat_alt)
  then show "length (bench_requests np) = unat (bench_aggs np)" "0 < bench_aggs np" "unat (bench_aggs np) \<le> TSDB_MAX_PARAMS"
    by (auto simp: bench_requests_def word_less_nat_alt)
  show "list_all (\<lambda>r. param_index r < np) (bench_requests np)"
    using word_mod_less_divisor [OF n(3)] by (simp add: bench_requests_def list_all_iff)
qed

lemma bench_multi_run:
  assumes "published a db lib" "readable cfg n np t0 t1 db w"
  obtains reqs lib' pl where "tsdb_aggregate_multi t0 t1 (Some (bench_requests np)) (bench_aggs np) (Some c) lib w =
      Some (ESP_OK, reqs, Some (of_nat (seen t0 t1 db w)), lib', w)"
    "published a (db\<lparr>pool := pl\<rparr>) lib'" "recoverable cfg n (db\<lparr>pool := pl\<rparr>, w)"
proof -
  have r: "session cfg n db w" "ascending db w" "t0 \<le> t1" "num_params (header db) = np" "1 \<le> np" using assms(2) by (simp_all add: readable_def)
  note v = bench_requests_valid [OF r(5)]
  obtain reqs pl where m: "tsdb_aggregate_multi_h (Some db) t0 t1 (Some (bench_requests np)) (bench_aggs np) (Some c) w =
      Some (ESP_OK, reqs, Some (of_nat (length (filter (in_window t0 t1) (db_rows (db, w))))), Some (db\<lparr>pool := pl\<rparr>), w)"
    "recoverable cfg n (db\<lparr>pool := pl\<rparr>, w)"
    by (rule session_multi [OF r(1-3) v(1-3), unfolded r(4), OF v(4)])
  then show ?thesis
    using published_default [OF assms(1)] published_store [OF assms(1)]
    by (intro that) (simp_all add: tsdb_aggregate_multi_def seen_def)
qed

text \<open>All four read benchmarks count every record.\<close>

lemma bench_reads_run:
  assumes "published a db lib" "readable cfg n np base_ts (base_ts + num_records * 300) db w"
  obtains res' t' lib' pl where "bench_reads now fdiv num_records np res t lib w = Some (res', Some zero_query, t', lib', w)"
    "published a (db\<lparr>pool := pl\<rparr>) lib'" "recoverable cfg n (db\<lparr>pool := pl\<rparr>, w)" "writes_count res' = writes_count res"
    "query_records res' = of_nat (seen base_ts (base_ts + num_records * 300) db w)" "single_param_records res' = of_nat (seen base_ts (base_ts + num_records * 300) db w)"
    "multi_agg_records res' = of_nat (seen base_ts (base_ts + num_records * 300) db w)"
proof -
  let ?t1 = "base_ts + num_records * 300" and ?c = "of_nat (seen base_ts (base_ts + num_records * 300) db w) :: u32"
  obtain e1 t1 lib1 pl1 where q1: "bench_query now (Some zero_query) base_ts ?t1 None 0 t lib w = (?c, e1, Some zero_query, t1, lib1, w)"
    "published a (db\<lparr>pool := pl1\<rparr>) lib1" "readable cfg n np base_ts ?t1 (db\<lparr>pool := pl1\<rparr>) w"
    by (rule bench_query_run [OF assms, of None 0]) simp_all
  obtain e2 t2 lib2 pl2 where q2: "bench_query now (Some zero_query) base_ts ?t1 (Some [0]) 1 t1 lib1 w = (?c, e2, Some zero_query, t2, lib2, w)"
    "published a (db\<lparr>pool := pl2\<rparr>) lib2" "readable cfg n np base_ts ?t1 (db\<lparr>pool := pl2\<rparr>) w"
    by (rule bench_query_run [OF q1(2,3), of "Some [0]" 1]) simp_all
  obtain r x lib3 pl3 where g: "tsdb_aggregate base_ts ?t1 0 TSDB_AGG_AVG (Some 0) lib2 w = (r, x, lib3, w)"
    "published a (db\<lparr>pool := pl3\<rparr>) lib3" "readable cfg n np base_ts ?t1 (db\<lparr>pool := pl3\<rparr>) w"
    by (rule bench_aggregate_run [OF q2(2,3)]) simp_all
  obtain reqs lib4 pl4 where m: "tsdb_aggregate_multi base_ts ?t1 (Some (bench_requests np)) (bench_aggs np) (Some 0) lib3 w =
      Some (ESP_OK, reqs, Some ?c, lib4, w)"
    "published a (db\<lparr>pool := pl4\<rparr>) lib4" "recoverable cfg n (db\<lparr>pool := pl4\<rparr>, w)"
    by (rule bench_multi_run [OF g(2,3)]) simp_all
  let ?res = "res\<lparr>query_records := ?c, query_total_us := ucast e1, query_per_record_us := per_record fdiv e1 ?c,
      single_param_records := ?c, single_param_total_us := ucast e2, single_param_per_record_us := per_record fdiv e2 ?c,
      agg_records := num_records, agg_total_us := ucast (elapsed now t2),
      multi_agg_records := ?c, multi_agg_total_us := ucast (elapsed now (t2 + 2))\<rparr>"
  have "bench_reads now fdiv num_records np res t lib w = Some (?res, Some zero_query, t2 + 4, lib4, w)"
    by (simp add: bench_reads_def Let_def q1(1) q2(1) g(1) m(1))
  then show ?thesis by (rule that [OF _ m(2,3)]) simp_all
qed

section \<open>The records the benchmark writes\<close>

lemma bench_ts:
  assumes "k \<le> 100"
  shows "unat (base_ts + of_nat k * 300) = 1700000000 + 300 * k"
proof -
  have "unat (of_nat k * 300 :: u32) = 300 * k" using assms by (subst unat_mult_no_wrap) (simp_all add: unat_of_nat)
  then show ?thesis using assms by (subst unat_add_no_wrap) (simp_all add: base_ts_def)
qed

lemma bench_ts_pos: "k \<le> 100 \<Longrightarrow> base_ts + of_nat k * 300 \<noteq> 0"
  using bench_ts [of k] by (metis add_is_0 unat_0 zero_neq_numeral)

lemma bench_entries_shape:
  assumes "n < 100"
  shows "length (bench_entries np 0 n) = n" "sorted (map fst (bench_entries np 0 n))"
    "filter (in_window base_ts (base_ts + of_nat n * 300)) (bench_entries np 0 n) = bench_entries np 0 n"
    "list_all (\<lambda>x. length (snd x) = unat np) (bench_entries np 0 n)"
proof -
  show "length (bench_entries np 0 n) = n" by (simp add: bench_entries_def)
  show "sorted (map fst (bench_entries np 0 n))"
    using assms bench_ts
    by (auto simp: bench_entries_def bench_entry_def sorted_iff_nth_mono word_le_nat_alt)
  show "filter (in_window base_ts (base_ts + of_nat n * 300)) (bench_entries np 0 n) = bench_entries np 0 n"
    using assms bench_ts bench_ts [of 0] bench_ts_pos
    by (auto simp: bench_entries_def bench_entry_def filter_id_conv word_le_nat_alt)
  show "list_all (\<lambda>x. length (snd x) = unat np) (bench_entries np 0 n)"
    by (simp add: bench_entries_def bench_entry_def bench_row_def list_all_iff)
qed

lemma bench_header:
  assumes "np \<le> 16"
  shows "max_records (new_header (bench_config num_records np)) = num_records + 100"
    "index_offset (new_header (bench_config num_records np)) = 1024"
    "index_entries (new_header (bench_config num_records np)) = entries_for (num_records + 100) (stride_or_default 380)"
  using assms by (simp_all add: new_header_fields bench_config_def not_less)

lemma bench_fits_file:
  assumes "num_records < 100" "np \<le> 16"
  shows "fits_file (bench_config num_records np) (unat num_records)"
proof -
  note n = bench_capacity [OF assms(1)]
  let ?r = "rpb (new_header (bench_config num_records np))"
  have "(99 + unat num_records) div ?r \<le> 198"
    using div_le_dividend [of "99 + unat num_records" ?r] n(1) by linarith
  moreover have "num_records + 100 \<noteq> 0" using n(2) by auto
  ultimately show ?thesis
    using n unfolding fits_file_def Let_def block_pos_def data_start_def bench_header [OF assms(2)]
    by simp
qed

section \<open>The whole benchmark\<close>

text \<open>The benchmark's file before it starts may exist or not; it is removed first.\<close>

lemma unlink_fresh:
  assumes "quiet w"
  shows "quiet (snd (unlink_file w p))" "fs (snd (unlink_file w p)) p = None" "dirs (snd (unlink_file w p)) = dirs w"
    "q \<noteq> p \<Longrightarrow> fs (snd (unlink_file w p)) q = fs w q"
  using assms by (auto simp: unlink_file_def quiet_next quiet_fs)

lemma bench_cleanup_run:
  assumes "published a db lib" "recoverable cfg n (db, w)" "counters_pass (header db)" "modern_layout (header db)"
  obtains lib' w' where "bench_cleanup lib w = (lib', w')" "g_default_handle lib' = None" "fs w' bench_path = None"
    "\<forall>q \<in> side_files (filepath db). fs w' q = None"
    "filepath db \<noteq> bench_path \<longrightarrow> db_rows (heap lib' ! a, w') = db_rows (db, w)"
proof -
  let ?lib = "lib\<lparr>g_default_handle := None\<rparr>"
  have l: "a < length (heap ?lib)" "heap ?lib ! a = db" "s_recycled_handle ?lib = None" "g_default_handle lib = Some a"
    using assms(1) by (simp_all add: published_def)
  obtain lib1 w1 db1 where c: "tsdb_close_h (Some a) ?lib w = (ESP_OK, lib1, w1)" "recoverable cfg n (db1, w1)"
    "\<forall>q \<in> side_files (filepath db). fs w1 q = None" "g_default_handle lib1 = None"
    "db_rows (heap lib1 ! a, w1) = db_rows (db, w)" "filepath (heap lib1 ! a) = filepath db"
    by (rule quiet_close [OF assms(2-4) l(1-3)]) simp
  have q: "quiet w1" using c(2) by (auto simp: recoverable_def Let_def writable_def)
  let ?w = "snd (unlink_file w1 bench_path)"
  show ?thesis
  proof (rule that)
    show "bench_cleanup lib w = (lib1, ?w)" using l(4) c(1) by (simp add: bench_cleanup_def tsdb_close_def)
    show "g_default_handle lib1 = None" "fs ?w bench_path = None" using c(4) unlink_fresh(2) [OF q] by simp_all
    show "\<forall>q \<in> side_files (filepath db). fs ?w q = None"
      using c(3) unlink_fresh(2,4) [OF q, where p = bench_path] by (metis (full_types))
    show "filepath db \<noteq> bench_path \<longrightarrow> db_rows (heap lib1 ! a, ?w) = db_rows (db, w)"
      using c(5,6) unlink_fresh(4) [OF q, of "filepath db" bench_path] by (simp add: db_rows_def content_def)
  qed
qed

lemma bench_geometry:
  assumes "num_records < 100" "np \<le> 16" "config_part (header db) = config_part (new_header (bench_config num_records np))"
    and "nrec (header db) = unat num_records"
  shows "counters_pass (header db)" "modern_layout (header db)"
proof -
  note n = bench_capacity [OF assms(1)]
  note c = config_part_fields [OF assms(3) [symmetric], unfolded bench_header [OF assms(2)]]
  have "unat ((num_records + 100) * 2) = 2 * unat (num_records + 100)" using n by (subst unat_mult_no_wrap) simp_all
  then show "counters_pass (header db)" using assms(4) n unfolding counters_pass_def c word_le_nat_alt by simp
  show "modern_layout (header db)" using n(3) unfolding modern_layout_def data_start_def c by simp
qed

lemma bench_measure_run:
  assumes "published a db lib" "readable cfg n np base_ts (base_ts + num_records * 300) db w"
    and "counters_pass (header db)" "modern_layout (header db)" "num_records < 100"
  obtains res' lib' w' where "bench_measure now fdiv num_records np res t lib w = Some (res', lib', w')"
    "writes_count res' = writes_count res" "query_records res' = of_nat (seen base_ts (base_ts + num_records * 300) db w)"
    "single_param_records res' = of_nat (seen base_ts (base_ts + num_records * 300) db w)"
    "multi_agg_records res' = of_nat (seen base_ts (base_ts + num_records * 300) db w)"
    "g_default_handle lib' = None" "fs w' bench_path = None" "\<forall>q \<in> side_files (filepath db). fs w' q = None"
    "filepath db \<noteq> bench_path \<longrightarrow> db_rows (heap lib' ! a, w') = db_rows (db, w)"
proof -
  have q: "quiet w" using assms(2) by (auto simp: readable_def session_def recoverable_def Let_def writable_def)
  let ?c = "of_nat (seen base_ts (base_ts + num_records * 300) db w) :: u32"
  obtain res1 t1 lib1 pl where r: "bench_reads now fdiv num_records np res t lib w = Some (res1, Some zero_query, t1, lib1, w)"
    "published a (db\<lparr>pool := pl\<rparr>) lib1" "recoverable cfg n (db\<lparr>pool := pl\<rparr>, w)" "writes_count res1 = writes_count res"
    "query_records res1 = ?c" "single_param_records res1 = ?c" "multi_agg_records res1 = ?c"
    by (rule bench_reads_run [OF assms(1,2)])
  obtain lib2 w2 where c: "bench_cleanup lib1 w = (lib2, w2)" "g_default_handle lib2 = None" "fs w2 bench_path = None"
    "\<forall>q \<in> side_files (filepath db). fs w2 q = None"
    "filepath db \<noteq> bench_path \<longrightarrow> db_rows (heap lib2 ! a, w2) = db_rows (db, w)"
    by (rule bench_cleanup_run [OF r(2,3)]) (simp_all add: assms(3,4) db_rows_def)
  let ?res = "case map_option length (fs w bench_path) of None \<Rightarrow> res1 | Some n \<Rightarrow> res1\<lparr>br_file_size_bytes := of_nat n\<rparr>"
  have "bench_measure now fdiv num_records np res t lib w = Some (?res, lib2, w2)"
    using assms(5) q by (simp add: bench_measure_def r(1) bench_overflow_def stat_size_def quiet_next c(1))
  then show ?thesis by (rule that) (use c(2-5) r(4-7) in \<open>auto split: option.splits\<close>)
qed

text \<open>What the writes leave behind, in whatever database is published.\<close>

lemma bench_written:
  assumes "session cfg (unat num_records) db w" "num_params (header db) = np" "num_records < 100" "1 \<le> np" "np \<le> 16"
    and "published a db lib"
    and "sorted (map fst (within (limit_of (header db)) (db_rows (db, w) @ bench_entries np 0 (unat num_records))))"
  obtains wt' t' lib' db' w' where "bench_writes now np (unat num_records) 0 wt t lib w = (ESP_OK, wt', t', lib', w')"
    "published a db' lib'" "readable cfg 0 np base_ts (base_ts + num_records * 300) db' w'"
    "db_rows (db', w') = within (limit_of (header db)) (db_rows (db, w) @ bench_entries np 0 (unat num_records))"
    "config_part (header db') = config_part (header db)" "nrec (header db') = nrec (header db) + unat num_records"
    "filepath db' = filepath db"
proof -
  let ?xs = "bench_entries np 0 (unat num_records)"
  note n = bench_capacity [OF assms(3)]
  note x = bench_entries_shape [OF n(1), of np]
  have e: "db_extra_param_count db = 0" and wr: "writable (unat num_records + 0) (db, w)"
    using assms(1) by (simp_all add: session_def recoverable_def Let_def)
  have fits: "list_all (entry_fits (db, w)) ?xs" using x(4) assms(2) e by (simp add: entry_fits_def list_all_iff)
  have rows: "map (entry_row (db, w)) ?xs = ?xs"
    using x(4) assms(2) by (intro map_idI) (auto simp: entry_row_def list_all_iff)
  have s: "session cfg (length ?xs + 0) db w" using assms(1) x(1) by simp
  obtain wt' t' lib' db' w' where run: "bench_writes now np (unat num_records) 0 wt t lib w = (ESP_OK, wt', t', lib', w')"
    "foldl db_put (db, w) ?xs = (db', w')" "published a db' lib'"
    using bench_writes_fold [OF assms(6) wr fits, of now wt t] by blast
  note w = session_writes [OF s fits run(2)]
  have r: "db_rows (db', w') = within (limit_of (header db)) (db_rows (db, w) @ ?xs)" using w(3) rows by simp
  have "base_ts \<le> base_ts + num_records * 300"
    using bench_ts [of "unat num_records"] bench_ts [of 0] n(1) by (simp add: word_le_nat_alt)
  moreover have "num_params (header db') = np" using config_part_fields(3) [OF w(2)] assms(2) by simp
  moreover have "ascending db' w'" using assms(7) r by (simp add: ascending_def db_rows_def)
  ultimately have rd: "readable cfg 0 np base_ts (base_ts + num_records * 300) db' w'"
    using w(1) assms(4,5) by (simp add: readable_def)
  have "nrec (header db') = nrec (header db) + unat num_records" using w(4) x(1) by simp
  note nr = this
  have "filepath db' = filepath db"
    using w(1) assms(1) by (simp add: session_def recoverable_def Let_def)
  then show ?thesis by (rule that [OF run(1,3) rd r w(2) nr])
qed

lemma bench_available:
  assumes "quiet w"
  shows "pool_available (bench_config num_records np) w"
proof -
  have "fst (alloc_pages caps n i pl w) = ESP_OK" for caps n i pl
    using quiet_alloc_pages [OF assms, of caps n i pl] by auto
  then show ?thesis
    by (simp add: pool_available_def tsdb_alloc_buffer_pool_def Let_def bench_config_def case_prod_beta)
qed

text \<open>
  C31: The benchmark measures what it says and cleans up after itself: for up to 99 records (the
  runs without overflow columns) and 1 to 16 parameters, in a world without failures, it
  succeeds; the full query, the query of a single parameter and the aggregation each
  saw exactly the records it wrote; at the end nothing is published, and neither its file nor
  a sidecar of it is left, whether or not a file of an earlier run was there.
\<close>

theorem benchmark_sees_its_writes:
  assumes "quiet w" "lib_inv lib" "g_default_handle lib = None" "dirs w ''/littlefs''" "fs w (mig_path bench_path) = None"
    and "0 < num_records" "num_records < 100" "1 \<le> np" "np \<le> 16"
  shows "\<exists>res lib' w'. tsdb_run_benchmark now fdiv num_records np (Some res0) lib w = Some (ESP_OK, Some res, lib', w') \<and>
    writes_count res = num_records \<and> query_records res = num_records \<and> single_param_records res = num_records \<and>
    multi_agg_records res = num_records \<and> g_default_handle lib' = None \<and> fs w' bench_path = None \<and>
    (\<forall>q \<in> side_files bench_path. fs w' q = None)"
proof -
  let ?cfg = "bench_config num_records np" and ?w = "snd (unlink_file w bench_path)"
  have cf: "cfg_filepath ?cfg = Some bench_path" "\<not> cfg_free_space_cb ?cfg" "pool_large ?cfg"
    by (simp_all add: bench_config_def pool_large_def)
  note u = unlink_fresh(1-3) [OF assms(1), of bench_path] unlink_fresh(4) [OF assms(1), of "mig_path bench_path" bench_path]
  have "fresh_path ?cfg ?w"
    using u(2-4) assms(4,5) by (simp add: fresh_path_def cf(1)) (simp add: bench_path_def mig_path_def parent_dir_def)
  note fr = this and ad = bench_config_admissible [OF assms(7-9)] and ff = bench_fits_file [OF assms(7,9)]
  obtain a db lib1 w1 where i: "tsdb_init (Some ?cfg) lib ?w = (ESP_OK, lib1, w1)" "published a db lib1"
    "session ?cfg (unat num_records) db w1" "db_rows (db, w1) = []" "header db = new_header ?cfg" "db_extra_param_count db = 0"
    by (rule init_session [OF u(1) ad fr bench_available [OF u(1)] cf(3,2) ff assms(2,3)])
  let ?wt = "\<lparr> wt_total = 0, wt_min = 0xFFFFFFFF, wt_max = 0 \<rparr>"
  note x = bench_entries_shape [OF bench_capacity(1) [OF assms(7)], of np]
  have lim: "within (limit_of (header db)) (db_rows (db, w1) @ bench_entries np 0 (unat num_records)) = bench_entries np 0 (unat num_records)"
    using bench_capacity(2) [OF assms(7)] x(1) unfolding i(4,5) limit_of_def bench_header [OF assms(9)]
    by (auto simp: last_n_def word_less_nat_alt)
  have np: "num_params (header db) = np" using i(5) by (simp add: new_header_fields bench_config_def)
  obtain wt t lib2 db2 w2 where b: "bench_writes now np (unat num_records) 0 ?wt 0 lib1 w1 = (ESP_OK, wt, t, lib2, w2)"
    "published a db2 lib2" "readable ?cfg 0 np base_ts (base_ts + num_records * 300) db2 w2"
    "db_rows (db2, w2) = bench_entries np 0 (unat num_records)" "config_part (header db2) = config_part (header db)"
    "nrec (header db2) = nrec (header db) + unat num_records" "filepath db2 = filepath db"
    by (rule bench_written [OF i(3) np assms(7-9) i(2), unfolded lim, OF x(2)])
  have fp: "filepath db2 = bench_path"
    using b(3) cf(1) by (simp add: readable_def session_def recoverable_def Let_def)
  have n2: "nrec (header db2) = unat num_records" using b(6) i(5) by (simp add: new_header_fields)
  have seen: "seen base_ts (base_ts + num_records * 300) db2 w2 = unat num_records" using x(1,3) b(4) by (simp add: seen_def)
  let ?res = "zero_results\<lparr>br_num_params := np, writes_count := num_records, write_total_us := ucast (wt_total wt),
      write_min_us := wt_min wt, write_max_us := wt_max wt, write_avg_us := fdiv (wt_total wt) num_records\<rparr>"
  obtain res' lib' w' where m: "bench_measure now fdiv num_records np ?res t lib2 w2 = Some (res', lib', w')"
    "writes_count res' = writes_count ?res" "query_records res' = num_records" "single_param_records res' = num_records"
    "multi_agg_records res' = num_records" "g_default_handle lib' = None" "fs w' bench_path = None"
    "\<forall>q \<in> side_files bench_path. fs w' q = None"
    by (rule bench_measure_run [OF b(2,3) bench_geometry [OF assms(7,9) b(5) [unfolded i(5)] n2] assms(7), of now fdiv ?res t,
        unfolded seen fp]) simp_all
  have "num_records \<noteq> 0" "np \<noteq> 0" "\<not> np > 16" using assms(6,8,9) by auto
  then have "tsdb_run_benchmark now fdiv num_records np (Some res0) lib w = Some (ESP_OK, Some res', lib', w')"
    using assms(3) i(1) b(1) m(1)
    by (simp add: tsdb_run_benchmark_def tsdb_is_initialized_def tsdb_is_initialized_h_def default_db_def Let_def)
  with m(2-8) show ?thesis by simp
qed

theorem benchmark_sees_its_writes_witness:
  "\<exists>res lib' w'. tsdb_run_benchmark (\<lambda>k. of_nat k) (\<lambda>a n. 0) 5 2 (Some zero_results) lib_start
      (empty_world\<lparr>dirs := (\<lambda>d. d = ''/littlefs''), fs := [bench_path \<mapsto> [1, 2, 3]]\<rparr>) = Some (ESP_OK, Some res, lib', w') \<and>
    query_records res = 5 \<and> multi_agg_records res = 5 \<and> fs w' bench_path = None"
proof -
  let ?w = "empty_world\<lparr>dirs := (\<lambda>d. d = ''/littlefs''), fs := [bench_path \<mapsto> [1, 2, 3]]\<rparr>"
  have w: "quiet ?w" "dirs ?w ''/littlefs''" "fs ?w (mig_path bench_path) = None"
    by (simp_all add: quiet_def empty_world_def) (simp add: bench_path_def mig_path_def)
  have l: "lib_inv lib_start" "g_default_handle lib_start = None" by (simp_all add: lib_inv_def lib_start_def)
  show ?thesis
    using benchmark_sees_its_writes [OF w(1) l w(2,3), of 5 2 "\<lambda>k. of_nat k" "\<lambda>a n. 0" zero_results] by auto
qed

section \<open>A benchmark that could not close the open database\<close>

lemma busy_close:
  assumes "published a db lib" "session cfg n db (w\<lparr>lock_script := []\<rparr>)" "lock_script w = [LockTimeout]" "fs w bench_path = None"
  shows "tsdb_is_initialized lib" "tsdb_close lib w = (ESP_ERR_TIMEOUT, lib, w\<lparr>lock_script := []\<rparr>)"
    "snd (unlink_file (w\<lparr>lock_script := []\<rparr>) bench_path) = w\<lparr>lock_script := []\<rparr>"
    "tsdb_init cfg' lib (w\<lparr>lock_script := []\<rparr>) = (ESP_OK, lib, w\<lparr>lock_script := []\<rparr>)"
proof -
  have v: "quiet (w\<lparr>lock_script := []\<rparr>)" "is_open db" "\<not> closing db"
    using assms(2) by (simp_all add: session_def recoverable_def Let_def writable_def)
  have l: "g_default_handle lib = Some a" "a < length (heap lib)" "heap lib ! a = db" using assms(1) by (simp_all add: published_def)
  have "db\<lparr>closing := False\<rparr> = db" using v(3) by (cases db) simp
  then have "(heap lib)[a := (heap lib ! a)\<lparr>closing := False\<rparr>] = heap lib" using l(3) by (metis list_update_id)
  then show "tsdb_close lib w = (ESP_ERR_TIMEOUT, lib, w\<lparr>lock_script := []\<rparr>)"
    using close_timeout [OF l(1,2) assms(3)] by simp
  show "tsdb_is_initialized lib" "tsdb_init cfg' lib (w\<lparr>lock_script := []\<rparr>) = (ESP_OK, lib, w\<lparr>lock_script := []\<rparr>)"
    using v(2) published_default [OF assms(1)] by (simp_all add: tsdb_is_initialized_def tsdb_is_initialized_h_def tsdb_init_def)
  show "snd (unlink_file (w\<lparr>lock_script := []\<rparr>) bench_path) = w\<lparr>lock_script := []\<rparr>"
    using v(1) assms(4) by (simp add: unlink_file_def quiet_next)
qed

text \<open>
  C35: The benchmark does not look at the result of the \<open>tsdb_close\<close> it starts with. When that
  call times out on the lock, the application's database is still published, \<open>tsdb_init\<close>
  returns \<open>ESP_OK\<close> without opening anything, and the benchmark reports success after writing
  its synthetic records behind those of the application, where they push out the oldest
  ones of a full ring.
\<close>

theorem benchmark_writes_into_open_database:
  assumes "published a db lib" "session cfg (unat num_records) db (w\<lparr>lock_script := []\<rparr>)" "lock_script w = [LockTimeout]"
    and "fs w bench_path = None" "filepath db \<noteq> bench_path" "num_params (header db) = np" "1 \<le> np" "np \<le> 16"
    and "0 < num_records" "num_records < 100" "modern_layout (header db)"
    and "max_records (header db) = 0 \<or> nrec (header db) + unat num_records \<le> 2 * cap (header db) \<and> cap (header db) < 2 ^ 31"
    and "sorted (map fst (within (limit_of (header db)) (db_rows (db, w) @ bench_entries np 0 (unat num_records))))"
  shows "\<exists>res lib' w'. tsdb_run_benchmark now fdiv num_records np (Some res0) lib w = Some (ESP_OK, Some res, lib', w') \<and>
    db_rows (heap lib' ! a, w') = within (limit_of (header db)) (db_rows (db, w) @ bench_entries np 0 (unat num_records))"
proof -
  let ?w = "w\<lparr>lock_script := []\<rparr>" and ?wt = "\<lparr> wt_total = 0, wt_min = 0xFFFFFFFF, wt_max = 0 \<rparr>"
  note busy = busy_close [OF assms(1-4)]
  have rows: "db_rows (db, ?w) = db_rows (db, w)" by (simp add: db_rows_def content_def)
  obtain wt t lib2 db2 w2 where b: "bench_writes now np (unat num_records) 0 ?wt 0 lib ?w = (ESP_OK, wt, t, lib2, w2)"
    "published a db2 lib2" "readable cfg 0 np base_ts (base_ts + num_records * 300) db2 w2"
    "db_rows (db2, w2) = within (limit_of (header db)) (db_rows (db, w) @ bench_entries np 0 (unat num_records))"
    "config_part (header db2) = config_part (header db)" "nrec (header db2) = nrec (header db) + unat num_records"
    "filepath db2 = filepath db"
    by (rule bench_written [OF assms(2,6,10,7,8,1), unfolded rows, OF assms(13)])
  note c = config_part_fields [OF b(5) [symmetric]]
  have "max_records (header db2) = 0 \<or> nrec (header db2) \<le> 2 * cap (header db2) \<and> cap (header db2) < 2 ^ 31"
    using assms(12) b(6) c by auto
  then have cp: "counters_pass (header db2)"
    by (auto simp: counters_pass_def word_le_nat_alt unat_mult_no_wrap mult.commute)
  have ml: "modern_layout (header db2)" using assms(11) c by (simp add: modern_layout_def data_start_def)
  let ?res = "zero_results\<lparr>br_num_params := np, writes_count := num_records, write_total_us := ucast (wt_total wt),
      write_min_us := wt_min wt, write_max_us := wt_max wt, write_avg_us := fdiv (wt_total wt) num_records\<rparr>"
  obtain res' lib' w' where m: "bench_measure now fdiv num_records np ?res t lib2 w2 = Some (res', lib', w')"
    "filepath db2 \<noteq> bench_path \<longrightarrow> db_rows (heap lib' ! a, w') = db_rows (db2, w2)"
    by (rule bench_measure_run [OF b(2,3) cp ml assms(10)])
  have "num_records \<noteq> 0" "np \<noteq> 0" "\<not> np > 16" using assms(7-9) by auto
  then have "tsdb_run_benchmark now fdiv num_records np (Some res0) lib w = Some (ESP_OK, Some res', lib', w')"
    using busy b(1) m(1) by (simp add: tsdb_run_benchmark_def Let_def)
  with m(2) b(4,7) assms(5) show ?thesis by simp
qed

theorem benchmark_writes_into_open_database_witness:
  "\<exists>a db lib w res lib' w'. tsdb_init (Some (demo_config 3)) lib_start empty_world = (ESP_OK, lib, w) \<and>
    published a db lib \<and> filepath db = ''/a.db'' \<and> db_rows (db, w) = [] \<and>
    tsdb_run_benchmark (\<lambda>k. of_nat k) (\<lambda>a n. 0) 2 1 (Some zero_results) lib (w\<lparr>lock_script := [LockTimeout]\<rparr>) =
      Some (ESP_OK, Some res, lib', w') \<and>
    db_rows (heap lib' ! a, w') = [(1700000000, [0]), (1700000300, [7])]"
proof -
  let ?cfg = "demo_config 3"
  have ad: "admissible ?cfg" by (rule demo_config_admissible) simp
  have cf: "pool_large ?cfg" "\<not> cfg_free_space_cb ?cfg" "fits_file ?cfg (unat (2 :: u32))" "cfg_filepath ?cfg = Some ''/a.db''"
    by (simp_all add: pool_large_def demo_config_def demo_fits_file [of 2, unfolded demo_config_def])
  have l: "lib_inv lib_start" "g_default_handle lib_start = None" by (simp_all add: lib_inv_def lib_start_def)
  obtain a db lib w where i: "tsdb_init (Some ?cfg) lib_start empty_world = (ESP_OK, lib, w)" "published a db lib"
    "session ?cfg (unat (2 :: u32)) db w" "db_rows (db, w) = []" "header db = new_header ?cfg"
    "\<forall>q. q \<noteq> filepath db \<longrightarrow> q \<notin> side_files (filepath db) \<longrightarrow> fs w q = fs empty_world q"
    by (rule init_session [OF demo_fresh(1) ad demo_fresh(2) demo_available [OF demo_fresh(1)] cf(1-3) l])
  have fp: "filepath db = ''/a.db''" and q: "w\<lparr>lock_script := []\<rparr> = w"
    using i(3) cf(4) by (auto simp: session_def recoverable_def Let_def writable_def quiet_def)
  let ?w = "w\<lparr>lock_script := [LockTimeout]\<rparr>"
  have w: "?w\<lparr>lock_script := []\<rparr> = w" "db_rows (db, ?w) = []" using q i(4) by (simp_all add: db_rows_def content_def)
  have "bench_path \<noteq> ''/a.db''" "bench_path \<notin> side_files ''/a.db''"
    by (simp_all add: bench_path_def side_files_def tsdb_side_path_def tsdb_legacy_path_def slot_digit_def)
  then have nb: "fs ?w bench_path = None" "filepath db \<noteq> bench_path" using i(6) fp by (simp_all add: empty_world_def)
  have lim: "limit_of (new_header ?cfg) = Some 3" by (simp add: limit_of_def new_header_fields) (simp add: demo_config_def)
  have ents: "bench_entries 1 0 2 = [(1700000000, [0]), (1700000300, [7])]"
    by (simp add: bench_entries_def bench_entry_def bench_row_def base_ts_def upt_rec)
  have h: "num_params (header db) = 1" "modern_layout (header db)" "cap (header db) = 3" "nrec (header db) = 0"
    unfolding i(5) modern_layout_def data_start_def new_header_fields
    by (simp_all add: demo_config_def entries_for_def stride_or_default_def)
  have keep: "within (limit_of (header db)) (db_rows (db, ?w) @ bench_entries 1 0 (unat (2 :: u32))) = [(1700000000, [0]), (1700000300, [7])]"
    by (simp add: w(2) ents i(5) lim last_n_def)
  have s: "session ?cfg (unat (2 :: u32)) db (?w\<lparr>lock_script := []\<rparr>)" using i(3) w(1) by simp
  have "\<exists>res lib' w'. tsdb_run_benchmark (\<lambda>k. of_nat k) (\<lambda>a n. 0) 2 1 (Some zero_results) lib ?w = Some (ESP_OK, Some res, lib', w') \<and>
      db_rows (heap lib' ! a, w') = [(1700000000, [0]), (1700000300, [7])]"
    by (rule benchmark_writes_into_open_database [OF i(2) s _ nb h(1), unfolded keep]) (simp_all add: h(2-4))
  with i(1,2,4) fp show ?thesis by blast
qed

end
