(* ===== verification/Host_Device.thy ===== *)
theory Host_Device
  imports Prelude
begin

text \<open>
  The lower half of the host test harness (\<open>src/host_test/lfs/lfs_stdio.c\<close>): a RAM block
  device with NOR flash semantics, the counters of its traffic, and their attribution to
  phases and to the root directory's metadata pairs.

  The file system between the device and the stdio layer is littlefs, which is not part of
  the repository. It reaches the device through the callbacks of \<open>struct lfs_config\<close> and the
  harness through the hook that \<open>instrument_lfs.py\<close> inserts, and through nothing else. A call
  of littlefs is therefore a value of type \<open>bd\<close>: the tree of the requests it makes, each
  continued by the answer. \<open>run_bd\<close> serves them with the harness's callbacks.
\<close>

section \<open>Counters and phases\<close>

text \<open>
  All fields of \<open>hfs_counters_t\<close> are \<open>uint64_t\<close>, and the test program adds and subtracts them
  as an array of \<open>uint64_t\<close>: the struct is a function from its fields.
\<close>

datatype hook_kind =
    LFS_H_COMMIT
  | LFS_H_COMPACT
  | LFS_H_SPLIT
  | LFS_H_FS_SIZE
  | LFS_H_ALLOC_SCAN

datatype counter =
    Reads | ReadBytes | Progs | ProgBytes | Erases
  | Ev hook_kind
  | RootCommits | RootCompacts | RootSplits

type_synonym hfs_counters = "counter \<Rightarrow> u64"

record hfs_phase =
  phase_name :: string
  phase_c :: hfs_counters
  phase_calls :: u64

definition HFS_MAX_PHASES :: nat where
  "HFS_MAX_PHASES = 32"

definition no_counters :: hfs_counters where
  "no_counters = (\<lambda>_. 0)"

definition zero_phase :: hfs_phase where
  "zero_phase = \<lparr>phase_name = [], phase_c = no_counters, phase_calls = 0\<rparr>"

section \<open>The harness\<close>

text \<open>
  \<open>hfs_config_t\<close>, the part of \<open>struct lfs_config\<close> that \<open>fill_cfg\<close> sets (the callbacks are
  always those below), and the globals of the file. A phase index of \<open>-1\<close> is \<open>None\<close>; the
  root pairs are the first \<open>g_nroot\<close> entries of the array; \<open>g_lfs\<close> is littlefs' own state.
\<close>

record hfs_config =
  hc_read_size :: u32
  hc_prog_size :: u32
  hc_cache_size :: u32
  hc_lookahead_size :: u32
  hc_block_size :: u32
  hc_block_count :: u32
  hc_block_cycles :: u32
  hc_metadata_max :: u32
  hc_inline_max :: u32
  hc_name_max :: u32
  hc_mtime :: bool
  hc_stdio_buf :: u64

record lfs_config =
  lc_read_size :: u32
  lc_prog_size :: u32
  lc_block_size :: u32
  lc_block_count :: u32
  lc_block_cycles :: u32
  lc_cache_size :: u32
  lc_lookahead_size :: u32
  lc_metadata_max :: u32
  lc_inline_max :: u32
  lc_name_max :: u32

record 'l hfs =
  hfs_ctr :: hfs_counters
  hfs_counting :: bool
  hfs_phases :: "hfs_phase list"
  hfs_nphases :: nat
  g_phase :: "nat option"
  g_root_pairs :: "(u32 \<times> u32) list"
  g_lfs :: 'l
  g_cfg :: lfs_config
  g_hcfg :: hfs_config
  g_ram :: bytes
  g_mounted :: bool

subsection \<open>Phases\<close>

fun phase_search :: "string \<Rightarrow> hfs_phase list \<Rightarrow> nat \<Rightarrow> nat option" where
  "phase_search name [] i = None"
| "phase_search name (p # ps) i =
     (if phase_name p = name then Some i else phase_search name ps (Suc i))"

definition phase_index :: "string \<Rightarrow> ('l, 'm) hfs_scheme \<Rightarrow> nat option \<times> ('l, 'm) hfs_scheme" where
  "phase_index name h =
     (case phase_search name (take (hfs_nphases h) (hfs_phases h)) 0 of
        Some i \<Rightarrow> (Some i, h)
      | None \<Rightarrow>
          if hfs_nphases h \<ge> HFS_MAX_PHASES then (None, h)
          else (Some (hfs_nphases h),
            h\<lparr>hfs_phases := (hfs_phases h)[hfs_nphases h :=
                 (hfs_phases h ! hfs_nphases h)\<lparr>phase_name := take 31 name\<rparr>],
              hfs_nphases := hfs_nphases h + 1\<rparr>))"

definition hfs_reset_phases :: "('l, 'm) hfs_scheme \<Rightarrow> ('l, 'm) hfs_scheme" where
  "hfs_reset_phases h =
     h\<lparr>hfs_phases := replicate HFS_MAX_PHASES zero_phase, hfs_nphases := 0\<rparr>"

text \<open>\<open>strstr(p, s) != NULL\<close>\<close>

fun strstr :: "string \<Rightarrow> string \<Rightarrow> bool" where
  "strstr [] s = (s = [])"
| "strstr (c # p) s = (take (length s) (c # p) = s \<or> strstr p s)"

definition path_class :: "string \<Rightarrow> string" where
  "path_class p =
     (if strstr p ''.tsdb.h'' \<or> strstr p ''.tsdb.d'' then ''side''
      else if length p \<ge> 5 \<and> drop (length p - 5) p = ''.tsdb'' then ''data''
      else if strstr p ''.mig'' then ''mig''
      else ''other'')"

definition phase_begin :: "string \<Rightarrow> string \<Rightarrow> ('l, 'm) hfs_scheme \<Rightarrow>
    nat option \<times> ('l, 'm) hfs_scheme" where
  "phase_begin op path h =
     (case phase_index (take 31 (op @ '':'' @ path_class path)) h of
        (g, h1) \<Rightarrow>
          (g_phase h,
           case g of
             None \<Rightarrow> h1\<lparr>g_phase := None\<rparr>
           | Some i \<Rightarrow>
               if hfs_counting h1
               then h1\<lparr>g_phase := Some i,
                  hfs_phases := (hfs_phases h1)[i :=
                    (hfs_phases h1 ! i)\<lparr>phase_calls := phase_calls (hfs_phases h1 ! i) + 1\<rparr>]\<rparr>
               else h1\<lparr>g_phase := Some i\<rparr>))"

definition phase_end :: "nat option \<Rightarrow> ('l, 'm) hfs_scheme \<Rightarrow> ('l, 'm) hfs_scheme" where
  "phase_end prev h = h\<lparr>g_phase := prev\<rparr>"

subsection \<open>Counting\<close>

definition BUMP :: "counter \<Rightarrow> u64 \<Rightarrow> ('l, 'm) hfs_scheme \<Rightarrow> ('l, 'm) hfs_scheme" where
  "BUMP f n h =
     (if hfs_counting h
      then (let h1 = h\<lparr>hfs_ctr := (hfs_ctr h)(f := hfs_ctr h f + n)\<rparr>
            in case g_phase h1 of
                 None \<Rightarrow> h1
               | Some i \<Rightarrow>
                   (let p = hfs_phases h1 ! i
                    in h1\<lparr>hfs_phases := (hfs_phases h1)[i :=
                            p\<lparr>phase_c := (phase_c p)(f := phase_c p f + n)\<rparr>]\<rparr>))
      else h)"

fun is_root_pair :: "(u32 \<times> u32) option \<Rightarrow> (u32 \<times> u32) list \<Rightarrow> bool" where
  "is_root_pair None roots = False"
| "is_root_pair (Some pair) [] = False"
| "is_root_pair (Some pair) (r # roots) =
     ((fst pair = fst r \<and> snd pair = snd r) \<or> (fst pair = snd r \<and> snd pair = fst r) \<or>
      is_root_pair (Some pair) roots)"

definition lfs_harness_hook :: "hook_kind \<Rightarrow> (u32 \<times> u32) option \<Rightarrow>
    ('l, 'm) hfs_scheme \<Rightarrow> ('l, 'm) hfs_scheme" where
  "lfs_harness_hook kind pair h =
     (let h1 = BUMP (Ev kind) 1 h
      in if is_root_pair pair (g_root_pairs h1)
         then (let h2 = (if kind = LFS_H_COMMIT then BUMP RootCommits 1 h1 else h1);
                   h3 = (if kind = LFS_H_COMPACT then BUMP RootCompacts 1 h2 else h2)
               in if kind = LFS_H_SPLIT then BUMP RootSplits 1 h3 else h3)
         else h1)"

section \<open>The block device\<close>

text \<open>
  \<open>g_ram + (size_t) b * c->block_size + off\<close>: \<open>size_t\<close> has 64 bits on the host, so the address
  of a 32-bit block number in blocks of a 32-bit size does not wrap. littlefs addresses bytes
  inside the device only.
\<close>

definition bd_addr :: "lfs_config \<Rightarrow> u32 \<Rightarrow> u32 \<Rightarrow> nat" where
  "bd_addr c b off = unat b * unat (lc_block_size c) + unat off"

definition bd_read :: "u32 \<Rightarrow> u32 \<Rightarrow> u32 \<Rightarrow> ('l, 'm) hfs_scheme \<Rightarrow>
    bytes \<times> ('l, 'm) hfs_scheme" where
  "bd_read b off sz h =
     (let buf = chunk (g_ram h) (bd_addr (g_cfg h) b off) (unat sz)
      in (buf, BUMP ReadBytes (ucast sz) (BUMP Reads 1 h)))"

text \<open>\<open>dst[i] &= buf[i]\<close> for every byte: programming flash can only clear bits.\<close>

definition and_at :: "bytes \<Rightarrow> nat \<Rightarrow> bytes \<Rightarrow> bytes" where
  "and_at r a d =
     take a r @ map2 (\<lambda>x y. x AND y) (drop a r) d @ drop (a + length d) r"

definition bd_prog :: "u32 \<Rightarrow> u32 \<Rightarrow> bytes \<Rightarrow> ('l, 'm) hfs_scheme \<Rightarrow> ('l, 'm) hfs_scheme" where
  "bd_prog b off d h =
     BUMP ProgBytes (word_of_nat (length d)) (BUMP Progs 1
       (h\<lparr>g_ram := and_at (g_ram h) (bd_addr (g_cfg h) b off) d\<rparr>))"

definition bd_erase :: "u32 \<Rightarrow> ('l, 'm) hfs_scheme \<Rightarrow> ('l, 'm) hfs_scheme" where
  "bd_erase b h =
     BUMP Erases 1
       (h\<lparr>g_ram := overlay (g_ram h) (bd_addr (g_cfg h) b 0)
                    (replicate (unat (lc_block_size (g_cfg h))) 0xFF)\<rparr>)"

definition bd_sync :: "('l, 'm) hfs_scheme \<Rightarrow> ('l, 'm) hfs_scheme" where
  "bd_sync h = h"

text \<open>The requests of a littlefs call. Every callback returns 0.\<close>

datatype 'r bd =
    BdRet 'r
  | BdRead u32 u32 u32 "bytes \<Rightarrow> 'r bd"
  | BdProg u32 u32 bytes "'r bd"
  | BdErase u32 "'r bd"
  | BdSync "'r bd"
  | BdHook hook_kind "(u32 \<times> u32) option" "'r bd"

primrec run_bd :: "'r bd \<Rightarrow> ('l, 'm) hfs_scheme \<Rightarrow> 'r \<times> ('l, 'm) hfs_scheme" where
  "run_bd (BdRet r) h = (r, h)"
| "run_bd (BdRead b off sz k) h = run_bd (k (fst (bd_read b off sz h))) (snd (bd_read b off sz h))"
| "run_bd (BdProg b off d k) h = run_bd k (bd_prog b off d h)"
| "run_bd (BdErase b k) h = run_bd k (bd_erase b h)"
| "run_bd (BdSync k) h = run_bd k (bd_sync h)"
| "run_bd (BdHook kind pair k) h = run_bd k (lfs_harness_hook kind pair h)"

text \<open>A littlefs function also reads and updates its own state \<open>g_lfs\<close>.\<close>

definition lfs_call :: "('l \<Rightarrow> ('r \<times> 'l) bd) \<Rightarrow> ('l, 'm) hfs_scheme \<Rightarrow>
    'r \<times> ('l, 'm) hfs_scheme" where
  "lfs_call f h =
     (case run_bd (f (g_lfs h)) h of ((r, l), h') \<Rightarrow> (r, h'\<lparr>g_lfs := l\<rparr>))"

section \<open>Refreshing the root pairs\<close>

text \<open>
  The functions of littlefs the harness calls, as parameters. \<open>lfs_t\<close> owns the open files
  and directories; the harness names a file by the address of its \<open>hfs_file_t\<close>. An error is
  one of littlefs' negative codes.
\<close>

datatype lfs_error =
    LFS_ERR_NOENT | LFS_ERR_EXIST | LFS_ERR_NOSPC | LFS_ERR_ISDIR | LFS_ERR_NOTDIR
  | LFS_ERR_NOTEMPTY | LFS_ERR_NAMETOOLONG | LFS_ERR_NOMEM | LFS_ERR_INVAL
  | LFS_ERR_OTHER int

datatype lfs_access = LFS_O_RDONLY | LFS_O_WRONLY | LFS_O_RDWR

record lfs_flags =
  lfs_access :: lfs_access
  lfs_creat :: bool
  lfs_trunc :: bool
  lfs_append :: bool

datatype lfs_whence = LFS_SEEK_SET | LFS_SEEK_CUR | LFS_SEEK_END

text \<open>
  \<open>lfs_dir_read\<close> fills \<open>info\<close> and returns a positive number while there are entries;
  \<open>lfs_dir_pair\<close> is the field \<open>d.m.pair\<close> of an open directory. A file is opened with a buffer
  and, when times are kept, with one attribute: the harness' 8-byte time, which littlefs fills
  from the disk at open and stores at sync and close.
\<close>

record 'l littlefs =
  lfs_format :: "lfs_config \<Rightarrow> 'l \<Rightarrow> (lfs_error option \<times> 'l) bd"
  lfs_mount :: "lfs_config \<Rightarrow> 'l \<Rightarrow> (lfs_error option \<times> 'l) bd"
  lfs_unmount :: "'l \<Rightarrow> (unit \<times> 'l) bd"
  lfs_dir_open :: "string \<Rightarrow> 'l \<Rightarrow> (lfs_error option \<times> 'l) bd"
  lfs_dir_pair :: "'l \<Rightarrow> u32 \<times> u32"
  lfs_dir_read :: "'l \<Rightarrow> (int \<times> 'l) bd"
  lfs_dir_close :: "'l \<Rightarrow> (unit \<times> 'l) bd"
  lfs_file_opencfg :: "nat \<Rightarrow> string \<Rightarrow> lfs_flags \<Rightarrow> u64 option \<Rightarrow> 'l \<Rightarrow>
    ((lfs_error option \<times> u64) \<times> 'l) bd"
  lfs_file_sync :: "nat \<Rightarrow> u64 option \<Rightarrow> 'l \<Rightarrow> (lfs_error option \<times> 'l) bd"
  lfs_file_close :: "nat \<Rightarrow> u64 option \<Rightarrow> 'l \<Rightarrow> (lfs_error option \<times> 'l) bd"
  lfs_file_read :: "nat \<Rightarrow> nat \<Rightarrow> 'l \<Rightarrow> ((lfs_error + bytes) \<times> 'l) bd"
  lfs_file_write :: "nat \<Rightarrow> bytes \<Rightarrow> 'l \<Rightarrow> ((lfs_error + nat) \<times> 'l) bd"
  lfs_file_seek :: "nat \<Rightarrow> int \<Rightarrow> lfs_whence \<Rightarrow> 'l \<Rightarrow> ((lfs_error + nat) \<times> 'l) bd"
  lfs_remove :: "string \<Rightarrow> 'l \<Rightarrow> (lfs_error option \<times> 'l) bd"
  lfs_rename :: "string \<Rightarrow> string \<Rightarrow> 'l \<Rightarrow> (lfs_error option \<times> 'l) bd"
  lfs_mkdir :: "string \<Rightarrow> 'l \<Rightarrow> (lfs_error option \<times> 'l) bd"
  lfs_stat :: "string \<Rightarrow> 'l \<Rightarrow> ((lfs_error + (bool \<times> u32)) \<times> 'l) bd"

definition note_root_pair :: "u32 \<times> u32 \<Rightarrow> ('l, 'm) hfs_scheme \<Rightarrow> ('l, 'm) hfs_scheme" where
  "note_root_pair pair h =
     (if \<not> is_root_pair (Some pair) (g_root_pairs h) \<and> length (g_root_pairs h) < 32
      then h\<lparr>g_root_pairs := g_root_pairs h @ [pair]\<rparr> else h)"

text \<open>
  The loop over the root directory ends when littlefs reports the end of the directory, so
  it is a partial function of littlefs' answers: \<open>None\<close> is a loop that does not end.
\<close>

partial_function (option) root_pair_loop ::
    "'l littlefs \<Rightarrow> ('l, 'm) hfs_scheme \<Rightarrow> ('l, 'm) hfs_scheme option" where
  "root_pair_loop L h =
     (let h1 = note_root_pair (lfs_dir_pair L (g_lfs h)) h;
          (r, h2) = lfs_call (lfs_dir_read L) h1
      in if r > 0 then root_pair_loop L h2 else Some h2)"

definition hfs_refresh_root_pairs :: "'l littlefs \<Rightarrow> ('l, 'm) hfs_scheme \<Rightarrow>
    ('l, 'm) hfs_scheme option" where
  "hfs_refresh_root_pairs L h =
     (let was = hfs_counting h;
          h1 = h\<lparr>hfs_counting := False, g_root_pairs := []\<rparr>
      in case lfs_call (lfs_dir_open L ''/'') h1 of
           (None, h2) \<Rightarrow>
             (case root_pair_loop L h2 of
                None \<Rightarrow> None
              | Some h3 \<Rightarrow>
                  Some ((snd (lfs_call (lfs_dir_close L) h3))\<lparr>hfs_counting := was\<rparr>))
         | (Some e, h2) \<Rightarrow> Some (h2\<lparr>hfs_counting := was\<rparr>))"

section \<open>Mounting\<close>

definition hfs_default_config :: hfs_config where
  "hfs_default_config =
     \<lparr>hc_read_size = 128, hc_prog_size = 128, hc_cache_size = 512, hc_lookahead_size = 128,
      hc_block_size = 4096, hc_block_count = 864, hc_block_cycles = 512,
      hc_metadata_max = 0, hc_inline_max = 0, hc_name_max = 0,
      hc_mtime = True, hc_stdio_buf = 128\<rparr>"

definition fill_cfg :: "('l, 'm) hfs_scheme \<Rightarrow> ('l, 'm) hfs_scheme" where
  "fill_cfg h =
     h\<lparr>g_cfg :=
        \<lparr>lc_read_size = hc_read_size (g_hcfg h), lc_prog_size = hc_prog_size (g_hcfg h),
         lc_block_size = hc_block_size (g_hcfg h), lc_block_count = hc_block_count (g_hcfg h),
         lc_block_cycles = hc_block_cycles (g_hcfg h), lc_cache_size = hc_cache_size (g_hcfg h),
         lc_lookahead_size = hc_lookahead_size (g_hcfg h),
         lc_metadata_max = hc_metadata_max (g_hcfg h), lc_inline_max = hc_inline_max (g_hcfg h),
         lc_name_max = hc_name_max (g_hcfg h)\<rparr>\<rparr>"

definition hfs_unmount :: "'l littlefs \<Rightarrow> ('l, 'm) hfs_scheme \<Rightarrow> ('l, 'm) hfs_scheme" where
  "hfs_unmount L h =
     (if g_mounted h then snd (lfs_call (lfs_unmount L) h) else h)\<lparr>g_mounted := False\<rparr>"

definition hfs_format_and_mount :: "'l littlefs \<Rightarrow> hfs_config \<Rightarrow> ('l, 'm) hfs_scheme \<Rightarrow>
    (lfs_error option \<times> ('l, 'm) hfs_scheme) option" where
  "hfs_format_and_mount L cfg h =
     (let h1 = (if g_mounted h then hfs_unmount L h else h);
          h2 = h1\<lparr>g_hcfg := cfg,
                 g_ram := replicate (unat (hc_block_size cfg) * unat (hc_block_count cfg)) 0xFF\<rparr>;
          h3 = fill_cfg h2
      in case lfs_call (lfs_format L (g_cfg h3)) h3 of
           (Some err, h4) \<Rightarrow> Some (Some err, h4)
         | (None, h4) \<Rightarrow>
             (case lfs_call (lfs_mount L (g_cfg h4)) h4 of
                (err, h5) \<Rightarrow>
                  map_option (Pair err)
                    (hfs_refresh_root_pairs L
                       (h5\<lparr>g_mounted := (err = None), hfs_ctr := no_counters\<rparr>))))"

definition hfs_remount :: "'l littlefs \<Rightarrow> ('l, 'm) hfs_scheme \<Rightarrow>
    (lfs_error option \<times> ('l, 'm) hfs_scheme) option" where
  "hfs_remount L h =
     (let h1 = hfs_unmount L h
      in case lfs_call (lfs_mount L (g_cfg h1)) h1 of
           (err, h2) \<Rightarrow>
             map_option (Pair err) (hfs_refresh_root_pairs L (h2\<lparr>g_mounted := (err = None)\<rparr>)))"

section \<open>What a littlefs call can do to the harness\<close>

text \<open>
  Whatever littlefs is, a call of it changes the harness through \<open>BUMP\<close>, the RAM and its own
  state only. A relation between states that these three keep is kept by every call.
\<close>

locale device_relation =
  fixes rel :: "('l, 'm) hfs_scheme \<Rightarrow> ('l, 'm) hfs_scheme \<Rightarrow> bool"
  assumes rel_refl: "rel h h"
    and rel_trans: "rel h h' \<Longrightarrow> rel h' h'' \<Longrightarrow> rel h h''"
    and rel_bump: "rel h (BUMP f n h)"
    and rel_ram: "rel h (h\<lparr>g_ram := r\<rparr>)"
    and rel_lfs: "rel h (h\<lparr>g_lfs := l\<rparr>)"
begin

lemma rel_hook: "rel h (lfs_harness_hook kind pair h)"
  unfolding lfs_harness_hook_def Let_def
  by (auto intro: rel_bump rel_trans[OF rel_bump rel_bump] simp del: is_root_pair.simps)

lemma rel_run: "rel h (snd (run_bd t h))"
proof (induction t arbitrary: h)
  case (BdRead b off sz k)
  have "rel h (snd (bd_read b off sz h))"
    by (auto simp: bd_read_def intro: rel_trans[OF rel_bump rel_bump])
  with BdRead.IH show ?case by (auto intro: rel_trans)
next
  case (BdProg b off d k)
  have "rel h (bd_prog b off d h)"
    unfolding bd_prog_def by (rule rel_trans[OF rel_ram rel_trans[OF rel_bump rel_bump]])
  with BdProg.IH show ?case by (auto intro: rel_trans)
next
  case (BdErase b k)
  have "rel h (bd_erase b h)"
    unfolding bd_erase_def by (rule rel_trans[OF rel_ram rel_bump])
  with BdErase.IH show ?case by (auto intro: rel_trans)
next
  case (BdHook kind pair k)
  then show ?case by (auto intro: rel_trans[OF rel_hook])
qed (simp_all add: rel_refl bd_sync_def)

lemma rel_call: "rel h (snd (lfs_call f h))"
proof -
  obtain r l h' where run: "run_bd (f (g_lfs h)) h = ((r, l), h')"
    by (metis prod.exhaust)
  with rel_run[of h "f (g_lfs h)"] have "rel h h'" by simp
  with run show ?thesis by (simp add: lfs_call_def rel_trans[OF _ rel_lfs])
qed

end

text \<open>The frame: a call leaves the names of the phases and all other state alone.\<close>

definition same_control :: "('l, 'm) hfs_scheme \<Rightarrow> ('l, 'm) hfs_scheme \<Rightarrow> bool" where
  "same_control h h' \<longleftrightarrow>
     hfs_counting h' = hfs_counting h \<and> hfs_nphases h' = hfs_nphases h \<and>
     g_phase h' = g_phase h \<and> g_root_pairs h' = g_root_pairs h \<and> g_cfg h' = g_cfg h \<and>
     g_hcfg h' = g_hcfg h \<and> g_mounted h' = g_mounted h \<and> hfs.more h' = hfs.more h \<and>
     map phase_name (hfs_phases h') = map phase_name (hfs_phases h) \<and>
     map phase_calls (hfs_phases h') = map phase_calls (hfs_phases h)"

lemma map_update_same:
  "(i < length ps \<Longrightarrow> g (f (ps ! i)) = g (ps ! i)) \<Longrightarrow> map g (ps[i := f (ps ! i)]) = map g ps"
  by (cases "i < length ps") (auto simp: map_update list_update_same_conv list_update_beyond)

interpretation frame: device_relation same_control
proof
  fix h :: "('l, 'm) hfs_scheme" and f n
  show "same_control h (BUMP f n h)"
    by (auto simp: same_control_def BUMP_def Let_def map_update_same
        split: option.splits intro!: map_update_same)
qed (auto simp: same_control_def)

text \<open>Mounting and refreshing keep the phase table and everything above the device.\<close>

definition same_above :: "('l, 'm) hfs_scheme \<Rightarrow> ('l, 'm) hfs_scheme \<Rightarrow> bool" where
  "same_above h h' \<longleftrightarrow>
     hfs.more h' = hfs.more h \<and> hfs_nphases h' = hfs_nphases h \<and> g_phase h' = g_phase h \<and>
     length (hfs_phases h') = length (hfs_phases h) \<and>
     (length (g_root_pairs h) \<le> 32 \<longrightarrow> length (g_root_pairs h') \<le> 32)"

lemma same_above_trans: "same_above h h' \<Longrightarrow> same_above h' h'' \<Longrightarrow> same_above h h''"
  by (simp add: same_above_def)

lemma same_above_call: "same_above h (snd (lfs_call f h))"
  using frame.rel_call[of h f]
  by (auto simp: same_control_def same_above_def dest: map_eq_imp_length_eq)

lemma same_above_note: "same_above h (note_root_pair pair h)"
  by (auto simp: same_above_def note_root_pair_def)

lemma root_pair_loop_above:
  assumes "root_pair_loop L h = Some h'"
  shows "same_above h h'"
proof (rule root_pair_loop.raw_induct[where P = "\<lambda>L h h'. same_above h h'", OF _ assms])
  fix loop and L :: "'a littlefs" and h h' :: "('a, 'b) hfs_scheme"
  assume IH: "\<And>L h h'. loop L h = Some h' \<Longrightarrow> same_above h h'"
    and body: "(let h1 = note_root_pair (lfs_dir_pair L (g_lfs h)) h;
        (r, h2) = lfs_call (lfs_dir_read L) h1 in if r > 0 then loop L h2 else Some h2) = Some h'"
  let ?h1 = "note_root_pair (lfs_dir_pair L (g_lfs h)) h"
  let ?h2 = "snd (lfs_call (lfs_dir_read L) ?h1)"
  have "same_above h ?h2"
    by (rule same_above_trans[OF same_above_note same_above_call])
  moreover from body have "loop L ?h2 = Some h' \<or> h' = ?h2"
    by (auto simp: Let_def split: prod.splits if_splits)
  ultimately show "same_above h h'"
    by (auto intro: same_above_trans[OF _ IH])
qed

text \<open>
  The loop ends for every littlefs whose directories end: some measure of its state decreases
  with every entry read.
\<close>

lemma root_pair_loop_returns:
  assumes dec: "\<And>h :: ('l, 'm) hfs_scheme. fst (lfs_call (lfs_dir_read L) h) > 0 \<Longrightarrow>
      m (g_lfs (snd (lfs_call (lfs_dir_read L) h))) < (m (g_lfs h) :: nat)"
  shows "\<exists>h'. root_pair_loop L (h :: ('l, 'm) hfs_scheme) = Some h'"
proof (induction "m (g_lfs h)" arbitrary: h rule: less_induct)
  case less
  let ?h1 = "note_root_pair (lfs_dir_pair L (g_lfs h)) h"
  have "g_lfs ?h1 = g_lfs h" by (simp add: note_root_pair_def)
  with less dec[of ?h1] show ?case
    by (subst root_pair_loop.simps) (auto simp: Let_def split: prod.split)
qed

lemma refresh_above:
  assumes "hfs_refresh_root_pairs L h = Some h'"
  shows "same_above h h' \<and> hfs_counting h' = hfs_counting h"
proof -
  let ?h1 = "h\<lparr>hfs_counting := False, g_root_pairs := []\<rparr>"
  obtain r h2 where o: "lfs_call (lfs_dir_open L ''/'') ?h1 = (r, h2)" by fastforce
  have h2: "same_above ?h1 h2" using same_above_call[of ?h1] o by (metis snd_conv)
  have fin: "same_above ?h1 g \<Longrightarrow> same_above h (g\<lparr>hfs_counting := b\<rparr>)" for g b
    by (simp add: same_above_def)
  show ?thesis
  proof (cases r)
    case None
    with assms o obtain h3 where h3: "root_pair_loop L h2 = Some h3"
      and h': "h' = (snd (lfs_call (lfs_dir_close L) h3))\<lparr>hfs_counting := hfs_counting h\<rparr>"
      by (auto simp: hfs_refresh_root_pairs_def Let_def split: option.splits)
    have "same_above ?h1 (snd (lfs_call (lfs_dir_close L) h3))"
      by (rule same_above_trans[OF same_above_trans[OF h2 root_pair_loop_above[OF h3]]
            same_above_call])
    with fin h' show ?thesis by simp
  next
    case (Some e)
    with assms o fin[OF h2] show ?thesis by (auto simp: hfs_refresh_root_pairs_def Let_def)
  qed
qed

lemma unmount_above: "same_above h (hfs_unmount L h)"
  using same_above_call[of h "lfs_unmount L"] by (simp add: hfs_unmount_def same_above_def)

lemma remount_above:
  assumes "hfs_remount L h = Some (r, h')"
  shows "same_above h h'"
proof -
  let ?h1 = "hfs_unmount L h"
  obtain err h2 where m: "lfs_call (lfs_mount L (g_cfg ?h1)) ?h1 = (err, h2)" by fastforce
  with assms have "hfs_refresh_root_pairs L (h2\<lparr>g_mounted := (err = None)\<rparr>) = Some h'"
    by (auto simp: hfs_remount_def Let_def)
  from refresh_above[OF this] have "same_above h2 h'" by (simp add: same_above_def)
  moreover have "same_above ?h1 h2"
    using same_above_call[of ?h1 "lfs_mount L (g_cfg ?h1)"] m by simp
  ultimately show ?thesis
    by (metis same_above_trans unmount_above)
qed

lemma format_above:
  assumes "hfs_format_and_mount L cfg h = Some (r, h')"
  shows "same_above h h'"
proof -
  let ?h3 = "fill_cfg ((if g_mounted h then hfs_unmount L h else h)\<lparr>g_hcfg := cfg,
      g_ram := replicate (unat (hc_block_size cfg) * unat (hc_block_count cfg)) 0xFF\<rparr>)"
  have h3: "same_above h ?h3"
    using unmount_above[of h L] by (simp add: fill_cfg_def same_above_def)
  obtain e4 h4 where f: "lfs_call (lfs_format L (g_cfg ?h3)) ?h3 = (e4, h4)" by fastforce
  obtain e5 h5 where m: "lfs_call (lfs_mount L (g_cfg h4)) h4 = (e5, h5)" by fastforce
  from same_above_call[of ?h3 "lfs_format L (g_cfg ?h3)"] f h3 have h4: "same_above h h4"
    by (auto intro: same_above_trans)
  with same_above_call[of h4 "lfs_mount L (g_cfg h4)"] m have h5: "same_above h h5"
    by (auto intro: same_above_trans)
  show ?thesis
  proof (cases e4)
    case (Some e)
    with assms f h4 show ?thesis by (simp add: hfs_format_and_mount_def Let_def)
  next
    case None
    with assms f m have "hfs_refresh_root_pairs L
        (h5\<lparr>g_mounted := (e5 = None), hfs_ctr := no_counters\<rparr>) = Some h'"
      by (auto simp: hfs_format_and_mount_def Let_def)
    from refresh_above[OF this] h5 show ?thesis by (simp add: same_above_def)
  qed
qed

text \<open>
  The account: the traffic that no phase has, modulo \<open>2 ^ 64\<close> per counter. It is unchanged
  as long as nothing is counted or a phase is active.
\<close>

definition unattributed :: "('l, 'm) hfs_scheme \<Rightarrow> counter \<Rightarrow> u64" where
  "unattributed h f = hfs_ctr h f - (\<Sum>p\<leftarrow>hfs_phases h. phase_c p f)"

definition attributing :: "('l, 'm) hfs_scheme \<Rightarrow> bool" where
  "attributing h \<longleftrightarrow>
     (hfs_counting h \<longrightarrow> (\<exists>i. g_phase h = Some i \<and> i < length (hfs_phases h)))"

definition accounted :: "('l, 'm) hfs_scheme \<Rightarrow> ('l, 'm) hfs_scheme \<Rightarrow> bool" where
  "accounted h h' \<longleftrightarrow>
     (attributing h \<longrightarrow> attributing h' \<and> unattributed h' = unattributed h)"

lemma sum_list_update_word:
  "i < length xs \<Longrightarrow> sum_list (xs[i := x]) = sum_list xs + (x - xs ! i)" for x :: u64
  by (induction xs arbitrary: i) (auto split: nat.splits simp: algebra_simps)

lemma unattributed_BUMP: "attributing h \<Longrightarrow> unattributed (BUMP f n h) = unattributed h"
  by (auto simp: fun_eq_iff unattributed_def attributing_def BUMP_def Let_def map_update
      sum_list_update_word)

interpretation account: device_relation accounted
proof
  fix h :: "('l, 'm) hfs_scheme" and f n
  show "accounted h (BUMP f n h)"
    by (auto simp: accounted_def unattributed_BUMP)
      (auto simp: attributing_def BUMP_def Let_def)
qed (auto simp: accounted_def attributing_def unattributed_def)

section \<open>NOR flash\<close>

lemma length_and_at: "length (and_at r a d) = length r" if "a + length d \<le> length r"
  using that by (simp add: and_at_def)

lemma chunk_and_at: "a + length d \<le> length r \<Longrightarrow>
   chunk (and_at r a d) a (length d) = map2 (\<lambda>x y. x AND y) (chunk r a (length d)) d"
  by (simp add: chunk_def and_at_def take_map take_zip)

lemma nth_and_at:
  assumes "a + length d \<le> length r" and "i < length r"
  shows "and_at r a d ! i = (if a \<le> i \<and> i < a + length d then r ! i AND d ! (i - a) else r ! i)"
  using assms by (auto simp: and_at_def nth_append min_def)

lemma chunk_and_at_disjoint:
  assumes "a + length d \<le> length r" and "b + n \<le> a \<or> a + length d \<le> b"
  shows "chunk (and_at r a d) b n = chunk r b n"
  using assms by (intro nth_equalityI) (auto simp: length_chunk length_and_at nth_chunk nth_and_at)

lemma unat_len: "n < 2 ^ 32 \<Longrightarrow> unat (word_of_nat n :: u32) = n"
  by (simp add: unsigned_of_nat take_bit_nat_eq_self)

lemma block_in_device:
  "unat b < bc \<Longrightarrow> m \<le> bs \<Longrightarrow> unat (b :: u32) * bs + m \<le> bc * bs"
  using mult_le_mono1[of "Suc (unat b)" bc bs] by simp

lemma blocks_disjoint:
  assumes "b \<noteq> (b' :: u32)" and "m \<le> bs" and "m' \<le> bs"
  shows "unat b * bs + m \<le> unat b' * bs \<or> unat b' * bs + m' \<le> unat b * bs"
proof -
  from assms(1) have "unat b \<noteq> unat b'" by (metis unsigned_word_eqI)
  then consider "Suc (unat b) \<le> unat b'" | "Suc (unat b') \<le> unat b" by linarith
  then show ?thesis
  proof cases
    case 1
    with mult_le_mono1[OF 1, of bs] assms(2) show ?thesis by simp
  next
    case 2
    with mult_le_mono1[OF 2, of bs] assms(3) show ?thesis by simp
  qed
qed

text \<open>The device as the client sees it: what a read of it returns.\<close>

definition device_ok :: "('l, 'm) hfs_scheme \<Rightarrow> bool" where
  "device_ok h \<longleftrightarrow>
     length (g_ram h) = unat (lc_block_count (g_cfg h)) * unat (lc_block_size (g_cfg h))"

lemma ram_BUMP [simp]: "g_ram (BUMP f n h) = g_ram h" "g_cfg (BUMP f n h) = g_cfg h"
  by (auto simp: BUMP_def Let_def split: option.splits)

lemma prog_reads_and:
  assumes "device_ok h" and "unat b < unat (lc_block_count (g_cfg h))"
    and "unat off + length d \<le> unat (lc_block_size (g_cfg h))" and "length d < 2 ^ 32"
  shows "fst (bd_read b off (word_of_nat (length d)) (bd_prog b off d h)) =
    map2 (\<lambda>x y. x AND y) (fst (bd_read b off (word_of_nat (length d)) h)) d"
  using assms block_in_device[of b _ "unat off + length d"]
  by (simp add: bd_read_def bd_prog_def bd_addr_def device_ok_def unat_len chunk_and_at
      add.assoc)

lemma erased_block_takes_data:
  assumes "device_ok h" and "unat b < unat (lc_block_count (g_cfg h))"
    and "unat off + length d \<le> unat (lc_block_size (g_cfg h))" and "length d < 2 ^ 32"
  shows "fst (bd_read b off (word_of_nat (length d)) (bd_prog b off d (bd_erase b h))) = d"
proof -
  let ?bs = "unat (lc_block_size (g_cfg h))"
  let ?a = "unat b * ?bs"
  have dev: "device_ok (bd_erase b h)"
    using assms(1) block_in_device[OF assms(2), of ?bs ?bs]
    by (auto simp: device_ok_def bd_erase_def bd_addr_def length_overlay)
  have "fst (bd_read b off (word_of_nat (length d)) (bd_erase b h)) = replicate (length d) 0xFF"
  proof (cases "d = []")
    case True
    then show ?thesis by (simp add: bd_read_def chunk_def)
  next
    case False
    with assms(3) show ?thesis
      using chunk_overlay_inside[of "unat off" "length d" "replicate ?bs 0xFF" "g_ram h" ?a] assms(4)
      by (simp add: bd_read_def bd_erase_def bd_addr_def unat_len)
        (simp add: chunk_def min_def)
  qed
  moreover have "map2 (\<lambda>x y. x AND y) (replicate (length d) (0xFF :: u8)) d = d"
  proof (rule nth_equalityI)
    have "(0xFF :: u8) = - 1" by simp
    then show "map2 (\<lambda>x y. x AND y) (replicate (length d) (0xFF :: u8)) d ! i = d ! i"
      if "i < length (map2 (\<lambda>x y. x AND y) (replicate (length d) (0xFF :: u8)) d)" for i
      using that by (simp only: length_map length_zip length_replicate min.idem nth_map nth_zip
          nth_replicate) simp
  qed simp
  ultimately show ?thesis
    using prog_reads_and[OF dev, of b off d] assms(2,3,4) by (simp add: bd_erase_def)
qed

end
