(* ===== verification/Host_Stdio.thy ===== *)
theory Host_Stdio
  imports Host_Device
begin

text \<open>
  The upper half of the host test harness (\<open>src/host_test/lfs/lfs_stdio.c\<close>): the wrapped
  \<open>fopen\<close>, \<open>fileno\<close>, \<open>fsync\<close>, \<open>unlink\<close>, \<open>rename\<close>, \<open>mkdir\<close>, \<open>rmdir\<close> and \<open>stat\<close>, which send paths
  below the mount point to littlefs and all others to the C library, and the cookie functions
  behind the \<open>FILE\<close>s they return.

  A wrapper returns \<open>Libc\<close> where the code calls the C library's own function with the same
  arguments. Addresses of \<open>hfs_file_t\<close> objects are numbers, \<open>heap_files\<close> holds the live ones,
  and the \<open>FILE\<close> that \<open>fopencookie\<close> makes for a cookie has the cookie's number; addresses are
  not reused. \<open>cookie_script\<close> lists how the next calls of \<open>fopencookie\<close> end (empty: they
  succeed).
\<close>

section \<open>State\<close>

record hfs_file =
  hf_attrs :: bool \<comment> \<open>\<open>fcfg.attr_count = 1\<close>, the attribute being the time\<close>
  hf_mtime :: u64
  hf_path :: string
  hf_fd :: int
  hf_fp :: "nat option"
  hf_writable :: bool

datatype host_errno =
    Enoent | Eexist | Enospc | Eisdir | Enotdir | Enotempty | Enametoolong | Enomem
  | Einval | Eio | Emfile | Exdev

record 'l host = "'l hfs" +
  g_files :: "nat option list"
  heap_files :: "nat \<Rightarrow> hfs_file option"
  next_addr :: nat
  fp_buf :: "nat \<Rightarrow> u64 option" \<comment> \<open>the buffer size given to \<open>setvbuf\<close>\<close>
  host_errno :: "host_errno option"
  host_time :: u64
  cookie_script :: "bool list"

datatype 'a vfs = Libc | Lfs 'a

definition HFS_MAX_FILES :: nat where
  "HFS_MAX_FILES = 16"

definition HFS_FD_BASE :: int where
  "HFS_FD_BASE = 0x4000"

definition HFS_MOUNT :: string where
  "HFS_MOUNT = ''/littlefs''"

definition no_file :: hfs_file where
  "no_file = \<lparr>hf_attrs = False, hf_mtime = 0, hf_path = [], hf_fd = 0, hf_fp = None,
     hf_writable = False\<rparr>"

definition file_at :: "'l host \<Rightarrow> nat \<Rightarrow> hfs_file" where
  "file_at h a = (case heap_files h a of Some f \<Rightarrow> f | None \<Rightarrow> no_file)"

definition put_hfile :: "nat \<Rightarrow> hfs_file \<Rightarrow> 'l host \<Rightarrow> 'l host" where
  "put_hfile a f h = h\<lparr>heap_files := (heap_files h)(a \<mapsto> f)\<rparr>"

definition free_hfile :: "nat \<Rightarrow> 'l host \<Rightarrow> 'l host" where
  "free_hfile a h = h\<lparr>heap_files := (heap_files h)(a := None)\<rparr>"

text \<open>The attribute littlefs was given for the file, if any.\<close>

definition attr_time :: "'l host \<Rightarrow> nat \<Rightarrow> u64 option" where
  "attr_time h a = (if hf_attrs (file_at h a) then Some (hf_mtime (file_at h a)) else None)"

section \<open>Paths and errors\<close>

definition lfs_path :: "string \<Rightarrow> string option" where
  "lfs_path p =
     (let n = length HFS_MOUNT
      in if take n p = HFS_MOUNT \<and> (drop n p = [] \<or> hd (drop n p) = CHR ''/'')
         then Some (if drop n p \<noteq> [] then drop n p else ''/'') else None)"

fun lfs_to_errno :: "lfs_error \<Rightarrow> host_errno" where
  "lfs_to_errno LFS_ERR_NOENT = Enoent"
| "lfs_to_errno LFS_ERR_EXIST = Eexist"
| "lfs_to_errno LFS_ERR_NOSPC = Enospc"
| "lfs_to_errno LFS_ERR_ISDIR = Eisdir"
| "lfs_to_errno LFS_ERR_NOTDIR = Enotdir"
| "lfs_to_errno LFS_ERR_NOTEMPTY = Enotempty"
| "lfs_to_errno LFS_ERR_NAMETOOLONG = Enametoolong"
| "lfs_to_errno LFS_ERR_NOMEM = Enomem"
| "lfs_to_errno LFS_ERR_INVAL = Einval"
| "lfs_to_errno (LFS_ERR_OTHER e) = Eio"

definition set_errno :: "host_errno \<Rightarrow> 'l host \<Rightarrow> 'l host" where
  "set_errno e h = h\<lparr>host_errno := Some e\<rparr>"

text \<open>
  The pattern of every call: a phase around one littlefs function, then \<open>errno\<close> from its
  error.
\<close>

definition in_phase :: "string \<Rightarrow> string \<Rightarrow> ('l host \<Rightarrow> 'r \<times> 'l host) \<Rightarrow> 'l host \<Rightarrow>
    'r \<times> 'l host" where
  "in_phase op path body h =
     (case phase_begin op path h of
        (prev, h1) \<Rightarrow> (case body h1 of (r, h2) \<Rightarrow> (r, phase_end prev h2)))"

definition status :: "lfs_error option \<times> 'l host \<Rightarrow> bool \<times> 'l host" where
  "status r =
     (case r of (None, h) \<Rightarrow> (True, h) | (Some e, h) \<Rightarrow> (False, set_errno (lfs_to_errno e) h))"

section \<open>The cookie functions\<close>

text \<open>\<open>if (g_hcfg.mtime && h->writable) h->mtime = (int64_t) time(NULL);\<close>\<close>

definition stamp_time :: "nat \<Rightarrow> 'l host \<Rightarrow> 'l host" where
  "stamp_time a h =
     (if hc_mtime (g_hcfg h) \<and> hf_writable (file_at h a)
      then put_hfile a ((file_at h a)\<lparr>hf_mtime := host_time h\<rparr>) h else h)"

definition esp_sync :: "'l littlefs \<Rightarrow> nat \<Rightarrow> 'l host \<Rightarrow> lfs_error option \<times> 'l host" where
  "esp_sync L a h =
     (let h1 = stamp_time a h in lfs_call (lfs_file_sync L a (attr_time h1 a)) h1)"

definition ck_read :: "'l littlefs \<Rightarrow> nat \<Rightarrow> nat \<Rightarrow> 'l host \<Rightarrow> bytes option \<times> 'l host" where
  "ck_read L a sz h =
     (case in_phase ''read'' (hf_path (file_at h a)) (lfs_call (lfs_file_read L a sz)) h of
        (Inl e, h1) \<Rightarrow> (None, set_errno (lfs_to_errno e) h1)
      | (Inr d, h1) \<Rightarrow> (Some d, h1))"

definition ck_write :: "'l littlefs \<Rightarrow> nat \<Rightarrow> bytes \<Rightarrow> 'l host \<Rightarrow> nat \<times> 'l host" where
  "ck_write L a buf h =
     (case in_phase ''write'' (hf_path (file_at h a)) (lfs_call (lfs_file_write L a buf)) h of
        (Inl e, h1) \<Rightarrow> (0, set_errno (lfs_to_errno e) h1)
      | (Inr n, h1) \<Rightarrow> (n, h1))"

datatype seek_whence = SEEK_SET | SEEK_CUR | SEEK_END

fun lfs_seek_of :: "seek_whence \<Rightarrow> lfs_whence" where
  "lfs_seek_of SEEK_SET = LFS_SEEK_SET"
| "lfs_seek_of SEEK_CUR = LFS_SEEK_CUR"
| "lfs_seek_of SEEK_END = LFS_SEEK_END"

text \<open>The 64-bit offset is cast to \<open>lfs_soff_t\<close>, a signed 32-bit number.\<close>

definition ck_seek :: "'l littlefs \<Rightarrow> nat \<Rightarrow> 64 word \<Rightarrow> seek_whence \<Rightarrow> 'l host \<Rightarrow>
    64 word option \<times> 'l host" where
  "ck_seek L a pos whence h =
     (case in_phase ''seek'' (hf_path (file_at h a))
             (lfs_call (lfs_file_seek L a (sint (ucast pos :: 32 word)) (lfs_seek_of whence))) h of
        (Inl e, h1) \<Rightarrow> (None, set_errno (lfs_to_errno e) h1)
      | (Inr r, h1) \<Rightarrow> (Some (word_of_nat r), h1))"

definition close_body :: "'l littlefs \<Rightarrow> nat \<Rightarrow> 'l host \<Rightarrow> lfs_error option \<times> 'l host" where
  "close_body L a h =
     (let h1 = stamp_time a h in lfs_call (lfs_file_close L a (attr_time h1 a)) h1)"

definition clear_slot :: "nat \<Rightarrow> 'l host \<Rightarrow> 'l host" where
  "clear_slot a h =
     h\<lparr>g_files := (g_files h)[nat (hf_fd (file_at h a) - HFS_FD_BASE) := None]\<rparr>"

definition ck_close :: "'l littlefs \<Rightarrow> nat \<Rightarrow> 'l host \<Rightarrow> bool \<times> 'l host" where
  "ck_close L a h =
     (case in_phase ''close'' (hf_path (file_at h a)) (close_body L a) h of
        (r, h1) \<Rightarrow> status (r, free_hfile a (clear_slot a h1)))"

section \<open>The wrapped functions\<close>

definition lfs_open_flags :: "string \<Rightarrow> lfs_flags option" where
  "lfs_open_flags mode =
     (let plus = CHR ''+'' \<in> set mode;
          wr = (if plus then LFS_O_RDWR else LFS_O_WRONLY)
      in case mode of
           [] \<Rightarrow> None
         | c # _ \<Rightarrow>
             if c = CHR ''r'' then
               Some \<lparr>lfs_access = (if plus then LFS_O_RDWR else LFS_O_RDONLY),
                     lfs_creat = False, lfs_trunc = False, lfs_append = False\<rparr>
             else if c = CHR ''w'' then
               Some \<lparr>lfs_access = wr, lfs_creat = True, lfs_trunc = True, lfs_append = False\<rparr>
             else if c = CHR ''a'' then
               Some \<lparr>lfs_access = wr, lfs_creat = True, lfs_trunc = False, lfs_append = True\<rparr>
             else None)"

fun free_slot :: "nat option list \<Rightarrow> nat \<Rightarrow> nat option" where
  "free_slot [] i = None"
| "free_slot (None # gs) i = Some i"
| "free_slot (Some a # gs) i = free_slot gs (Suc i)"

text \<open>\<open>calloc\<close> and the fields set before the file is opened\<close>

definition new_hfile :: "string \<Rightarrow> lfs_flags \<Rightarrow> 'l host \<Rightarrow> nat \<times> 'l host" where
  "new_hfile path flags h =
     (let a = next_addr h
      in (a, put_hfile a
            (no_file\<lparr>hf_path := take 191 path, hf_attrs := hc_mtime (g_hcfg h),
               hf_writable := (lfs_access flags \<noteq> LFS_O_RDONLY)\<rparr>)
            (h\<lparr>next_addr := a + 1\<rparr>)))"

definition open_body :: "'l littlefs \<Rightarrow> nat \<Rightarrow> string \<Rightarrow> lfs_flags \<Rightarrow> 'l host \<Rightarrow>
    lfs_error option \<times> 'l host" where
  "open_body L a lp flags h =
     (case lfs_call (lfs_file_opencfg L a lp flags (attr_time h a)) h of
        ((err, t), h1) \<Rightarrow>
          (let f = file_at h1 a;
               h2 = (if hf_attrs f then put_hfile a (f\<lparr>hf_mtime := t\<rparr>) h1 else h1)
           in (err, if err = None \<and> hf_writable f then snd (esp_sync L a h2) else h2)))"

definition next_cookie :: "'l host \<Rightarrow> bool \<times> 'l host" where
  "next_cookie h =
     (case cookie_script h of [] \<Rightarrow> (True, h) | b # bs \<Rightarrow> (b, h\<lparr>cookie_script := bs\<rparr>))"

definition wrap_fopen :: "'l littlefs \<Rightarrow> string \<Rightarrow> string \<Rightarrow> 'l host \<Rightarrow>
    nat option vfs \<times> 'l host" where
  "wrap_fopen L path mode h =
     (case lfs_path path of
        None \<Rightarrow> (Libc, h)
      | Some lp \<Rightarrow>
          (case lfs_open_flags mode of
             None \<Rightarrow> (Lfs None, set_errno Einval h)
           | Some flags \<Rightarrow>
               (case free_slot (g_files h) 0 of
                  None \<Rightarrow> (Lfs None, set_errno Emfile h)
                | Some slot \<Rightarrow>
                    (case new_hfile path flags h of
                       (a, h1) \<Rightarrow>
                         (case in_phase ''open'' path (open_body L a lp flags) h1 of
                            (Some e, h2) \<Rightarrow>
                              (Lfs None, set_errno (lfs_to_errno e) (free_hfile a h2))
                          | (None, h2) \<Rightarrow>
                              (case next_cookie h2 of
                                 (False, h3) \<Rightarrow>
                                   (Lfs None, free_hfile a
                                      (snd (lfs_call (lfs_file_close L a (attr_time h3 a)) h3)))
                               | (True, h3) \<Rightarrow>
                                   (Lfs (Some a),
                                    (put_hfile a
                                       ((file_at h3 a)\<lparr>hf_fd := HFS_FD_BASE + int slot,
                                          hf_fp := Some a\<rparr>) h3)
                                    \<lparr>fp_buf := (fp_buf h3)(a :=
                                        if hc_stdio_buf (g_hcfg h3) > 0
                                        then Some (hc_stdio_buf (g_hcfg h3)) else None),
                                     g_files := (g_files h3)[slot := Some a]\<rparr>)))))))"

fun fileno_search :: "nat option list \<Rightarrow> nat \<Rightarrow> 'l host \<Rightarrow> int vfs" where
  "fileno_search [] fp h = Libc"
| "fileno_search (g # gs) fp h =
     (case g of
        Some a \<Rightarrow> if hf_fp (file_at h a) = Some fp then Lfs (hf_fd (file_at h a))
                  else fileno_search gs fp h
      | None \<Rightarrow> fileno_search gs fp h)"

definition wrap_fileno :: "nat \<Rightarrow> 'l host \<Rightarrow> int vfs" where
  "wrap_fileno fp h = fileno_search (g_files h) fp h"

definition fsync_file :: "'l littlefs \<Rightarrow> nat \<Rightarrow> 'l host \<Rightarrow> bool \<times> 'l host" where
  "fsync_file L a h =
     status (in_phase ''fsync'' (hf_path (file_at h a)) (esp_sync L a) h)"

definition wrap_fsync :: "'l littlefs \<Rightarrow> int \<Rightarrow> 'l host \<Rightarrow> bool vfs \<times> 'l host" where
  "wrap_fsync L fd h =
     (let i = fd - HFS_FD_BASE
      in if i < 0 \<or> i \<ge> int HFS_MAX_FILES then (Libc, h)
         else case g_files h ! nat i of
                None \<Rightarrow> (Libc, h)
              | Some a \<Rightarrow> (case fsync_file L a h of (ok, h1) \<Rightarrow> (Lfs ok, h1)))"

text \<open>A path function: one littlefs call in a phase of its own.\<close>

definition path_call :: "string \<Rightarrow> string \<Rightarrow> (string \<Rightarrow> 'l \<Rightarrow> (lfs_error option \<times> 'l) bd) \<Rightarrow>
    'l host \<Rightarrow> bool vfs \<times> 'l host" where
  "path_call op path f h =
     (case lfs_path path of
        None \<Rightarrow> (Libc, h)
      | Some lp \<Rightarrow>
          (case status (in_phase op path (lfs_call (f lp)) h) of (ok, h1) \<Rightarrow> (Lfs ok, h1)))"

definition wrap_unlink :: "'l littlefs \<Rightarrow> string \<Rightarrow> 'l host \<Rightarrow> bool vfs \<times> 'l host" where
  "wrap_unlink L path = path_call ''unlink'' path (lfs_remove L)"

definition wrap_mkdir :: "'l littlefs \<Rightarrow> string \<Rightarrow> 'l host \<Rightarrow> bool vfs \<times> 'l host" where
  "wrap_mkdir L path = path_call ''mkdir'' path (lfs_mkdir L)"

definition wrap_rmdir :: "'l littlefs \<Rightarrow> string \<Rightarrow> 'l host \<Rightarrow> bool vfs \<times> 'l host" where
  "wrap_rmdir L path = path_call ''rmdir'' path (lfs_remove L)"

definition wrap_rename :: "'l littlefs \<Rightarrow> string \<Rightarrow> string \<Rightarrow> 'l host \<Rightarrow>
    bool vfs \<times> 'l host" where
  "wrap_rename L a b h =
     (case (lfs_path a, lfs_path b) of
        (None, None) \<Rightarrow> (Libc, h)
      | (Some la, Some lb) \<Rightarrow>
          (case status (in_phase ''rename'' b (lfs_call (lfs_rename L la lb)) h) of
             (ok, h1) \<Rightarrow> (Lfs ok, h1))
      | _ \<Rightarrow> (Lfs False, set_errno Exdev h))"

record host_stat =
  st_size :: u32
  st_mode :: nat
  st_blksize :: u32

definition wrap_stat :: "'l littlefs \<Rightarrow> string \<Rightarrow> 'l host \<Rightarrow> host_stat option vfs \<times> 'l host" where
  "wrap_stat L path h =
     (case lfs_path path of
        None \<Rightarrow> (Libc, h)
      | Some lp \<Rightarrow>
          (case in_phase ''stat'' path (lfs_call (lfs_stat L lp)) h of
             (Inl e, h1) \<Rightarrow> (Lfs None, set_errno (lfs_to_errno e) h1)
           | (Inr (is_dir, sz), h1) \<Rightarrow>
               (Lfs (Some \<lparr>st_size = sz,
                  st_mode = (if is_dir then 0x4000 + 0x1FF else 0x8000 + 0x1B6),
                  st_blksize = lc_block_size (g_cfg h1)\<rparr>), h1)))"

section \<open>Writing a whole file\<close>

text \<open>
  \<open>fwrite\<close> hands full buffers to the cookie and keeps the rest until \<open>fclose\<close>. How it cuts
  the data is the C library's choice, a parameter \<open>split\<close>: the pieces written at once and the
  pieces left for the close.
\<close>

fun write_pieces :: "'l littlefs \<Rightarrow> nat \<Rightarrow> bytes list \<Rightarrow> 'l host \<Rightarrow> nat \<times> 'l host" where
  "write_pieces L a [] h = (0, h)"
| "write_pieces L a (d # ds) h =
     (case ck_write L a d h of
        (n, h1) \<Rightarrow>
          if n = length d
          then (case write_pieces L a ds h1 of (m, h2) \<Rightarrow> (n + m, h2))
          else (n, h1))"

type_synonym stdio_split = "u64 option \<Rightarrow> bytes \<Rightarrow> bytes list \<times> bytes list"

definition stdio_fwrite :: "'l littlefs \<Rightarrow> stdio_split \<Rightarrow> nat \<Rightarrow> bytes \<Rightarrow> 'l host \<Rightarrow>
    nat \<times> 'l host" where
  "stdio_fwrite L split a d h =
     (case split (fp_buf h a) d of
        (now, rest) \<Rightarrow>
          (case write_pieces L a now h of
             (n, h1) \<Rightarrow>
               (if n = sum_list (map length now) then length d else min n (length d - 1), h1)))"

definition stdio_fclose :: "'l littlefs \<Rightarrow> bytes list \<Rightarrow> nat \<Rightarrow> 'l host \<Rightarrow> bool \<times> 'l host" where
  "stdio_fclose L rest a h =
     (case write_pieces L a rest h of
        (n, h1) \<Rightarrow>
          (case ck_close L a h1 of
             (ok, h2) \<Rightarrow> (ok \<and> n = sum_list (map length rest), h2)))"

definition hfs_write_file :: "'l littlefs \<Rightarrow> stdio_split \<Rightarrow> string \<Rightarrow> bytes \<Rightarrow> 'l host \<Rightarrow>
    bool vfs \<times> 'l host" where
  "hfs_write_file L split path d h =
     (case wrap_fopen L path ''wb'' h of
        (Lfs (Some a), h1) \<Rightarrow>
          (case stdio_fwrite L split a d h1 of
             (n, h2) \<Rightarrow>
               (Lfs (n = length d),
                snd (stdio_fclose L (snd (split (fp_buf h1 a) d)) a h2)))
      | (Lfs None, h1) \<Rightarrow> (Lfs False, h1)
      | (Libc, h1) \<Rightarrow> (Libc, h1))"

section \<open>Frames\<close>

text \<open>
  The fields of \<open>host\<close> are not littlefs' business, and a phase changes only the phase table.
\<close>

named_theorems host_frame \<open>what the calls leave alone\<close>

lemma more_fields:
  assumes "hfs.more (h' :: 'l host) = hfs.more h"
  shows "g_files h' = g_files h" "heap_files h' = heap_files h" "next_addr h' = next_addr h"
    "fp_buf h' = fp_buf h" "host_time h' = host_time h" "cookie_script h' = cookie_script h"
  using assms by (cases h; cases h'; simp)+

lemma more_lfs_call [host_frame]: "hfs.more (snd (lfs_call f h)) = hfs.more h"
  using frame.rel_call[of h f] by (simp add: same_control_def)

lemma more_phase [host_frame]:
  "hfs.more (snd (phase_begin op path h)) = hfs.more h"
  "hfs.more (phase_end prev h) = hfs.more h"
  by (auto simp: phase_begin_def phase_index_def phase_end_def split: option.splits)

lemmas call_fields [host_frame] = more_fields[OF more_lfs_call]
lemmas begin_fields [host_frame] = more_fields[OF more_phase(1)]
lemmas end_fields [host_frame] = more_fields[OF more_phase(2)]

lemma file_at_frame [host_frame]:
  "file_at (snd (lfs_call f h)) a = file_at h a"
  "file_at (snd (phase_begin op path h)) a = file_at h a"
  "file_at (phase_end prev h) a = file_at h a"
  by (simp_all add: file_at_def host_frame)

section \<open>The table of open files\<close>

definition slot_ok :: "'l host \<Rightarrow> nat \<Rightarrow> nat \<Rightarrow> bool" where
  "slot_ok h i a \<longleftrightarrow> a < next_addr h \<and>
     (\<exists>f. heap_files h a = Some f \<and> hf_fd f = HFS_FD_BASE + int i \<and> hf_fp f = Some a)"

definition table_ok :: "'l host \<Rightarrow> bool" where
  "table_ok h \<longleftrightarrow> length (g_files h) = HFS_MAX_FILES \<and>
     (\<forall>i a. i < HFS_MAX_FILES \<longrightarrow> g_files h ! i = Some a \<longrightarrow> slot_ok h i a)"

definition is_open :: "'l host \<Rightarrow> nat \<Rightarrow> bool" where
  "is_open h a \<longleftrightarrow> Some a \<in> set (g_files h)"

lemma table_ok_cong:
  assumes "hfs.more h' = hfs.more h"
  shows "table_ok h' = table_ok h"
  by (simp add: table_ok_def slot_ok_def more_fields[OF assms])

lemma table_ok_frame [host_frame]:
  "table_ok (snd (lfs_call f h)) = table_ok h"
  "table_ok (snd (phase_begin op path h)) = table_ok h"
  "table_ok (phase_end prev h) = table_ok h"
  by (rule table_ok_cong, rule host_frame)+

lemma table_ok_set_errno [host_frame]: "table_ok (set_errno e h) = table_ok h"
  by (simp add: table_ok_def slot_ok_def set_errno_def)

lemma table_ok_status [host_frame]: "table_ok (snd (status r)) = table_ok (snd r)"
  by (auto simp: status_def host_frame split: prod.splits option.splits)

lemma in_phase_snd:
  "snd (in_phase op path body h) =
     phase_end (fst (phase_begin op path h)) (snd (body (snd (phase_begin op path h))))"
  by (simp add: in_phase_def split: prod.split)

lemma table_ok_in_phase [host_frame]:
  "(\<And>h1. table_ok h1 \<Longrightarrow> table_ok (snd (body h1))) \<Longrightarrow> table_ok h \<Longrightarrow>
   table_ok (snd (in_phase op path body h))"
  by (simp add: in_phase_snd host_frame)

lemma slot_ok_at:
  "table_ok h \<Longrightarrow> i < HFS_MAX_FILES \<Longrightarrow> g_files h ! i = Some a \<Longrightarrow> slot_ok h i a"
  by (simp add: table_ok_def)

lemma table_slot:
  assumes "table_ok h" and "i < HFS_MAX_FILES" and "g_files h ! i = Some a"
  shows "a < next_addr h" "heap_files h a = Some (file_at h a)"
    "hf_fd (file_at h a) = HFS_FD_BASE + int i" "hf_fp (file_at h a) = Some a"
  using slot_ok_at[OF assms] by (auto simp: slot_ok_def file_at_def)

lemma slots_distinct:
  "table_ok h \<Longrightarrow> i < HFS_MAX_FILES \<Longrightarrow> j < HFS_MAX_FILES \<Longrightarrow>
   g_files h ! i = Some a \<Longrightarrow> g_files h ! j = Some a \<Longrightarrow> i = j"
  using table_slot(3)[of h i a] table_slot(3)[of h j a] by simp

lemma table_okI:
  assumes "length (g_files h) = HFS_MAX_FILES"
    and "\<And>i a. i < HFS_MAX_FILES \<Longrightarrow> g_files h ! i = Some a \<Longrightarrow> slot_ok h i a"
  shows "table_ok h"
  using assms by (simp add: table_ok_def)

lemma table_ok_put_time:
  assumes "table_ok h"
  shows "table_ok (put_hfile a ((file_at h a)\<lparr>hf_mtime := t\<rparr>) h)"
proof (rule table_okI)
  fix i b
  assume i: "i < HFS_MAX_FILES" "g_files (put_hfile a ((file_at h a)\<lparr>hf_mtime := t\<rparr>) h) ! i = Some b"
  then have "g_files h ! i = Some b" by (simp add: put_hfile_def)
  from table_slot[OF assms i(1) this]
  show "slot_ok (put_hfile a ((file_at h a)\<lparr>hf_mtime := t\<rparr>) h) i b"
    by (cases "b = a") (auto simp: slot_ok_def put_hfile_def)
qed (use assms in \<open>simp add: table_ok_def put_hfile_def\<close>)

lemma table_ok_stamp_time [host_frame]: "table_ok h \<Longrightarrow> table_ok (stamp_time a h)"
  by (simp add: stamp_time_def table_ok_put_time)

lemma table_ok_esp_sync [host_frame]: "table_ok h \<Longrightarrow> table_ok (snd (esp_sync L a h))"
  by (simp add: esp_sync_def Let_def host_frame)

lemma table_ok_close_body [host_frame]: "table_ok h \<Longrightarrow> table_ok (snd (close_body L a h))"
  by (simp add: close_body_def Let_def host_frame)

lemma g_files_stamp_time [host_frame]: "g_files (stamp_time a h) = g_files h"
  by (simp add: stamp_time_def put_hfile_def)

lemma is_open_slot:
  assumes "table_ok h" and "is_open h a"
  obtains i where "i < HFS_MAX_FILES" "g_files h ! i = Some a"
  using assms by (auto simp: is_open_def in_set_conv_nth table_ok_def)

lemma table_ok_close_slot:
  assumes ok: "table_ok h" and op: "is_open h a"
  shows "table_ok (free_hfile a (clear_slot a h))"
proof (rule table_okI)
  from is_open_slot[OF ok op] obtain i where i: "i < HFS_MAX_FILES" "g_files h ! i = Some a" .
  then have cs: "g_files (free_hfile a (clear_slot a h)) = (g_files h)[i := None]"
    by (simp add: free_hfile_def clear_slot_def table_slot[OF ok])
  then show "length (g_files (free_hfile a (clear_slot a h))) = HFS_MAX_FILES"
    using ok by (simp add: table_ok_def)
  fix j b
  assume j: "j < HFS_MAX_FILES" and b: "g_files (free_hfile a (clear_slot a h)) ! j = Some b"
  then have b': "g_files h ! j = Some b"
    using ok i(1) by (cases "i = j") (auto simp: cs table_ok_def)
  have "b \<noteq> a"
    using b slots_distinct[OF ok j i(1) _ i(2)] b' ok j by (auto simp: cs table_ok_def)
  then show "slot_ok (free_hfile a (clear_slot a h)) j b"
    using slot_ok_at[OF ok j b'] by (simp add: slot_ok_def free_hfile_def clear_slot_def)
qed

lemma table_ok_ck_close:
  assumes ok: "table_ok h" and op: "is_open h a"
  shows "table_ok (snd (ck_close L a h))"
proof -
  let ?h = "snd (in_phase ''close'' (hf_path (file_at h a)) (close_body L a) h)"
  have "table_ok ?h"
    by (rule table_ok_in_phase[OF _ ok]) (rule host_frame)
  moreover have "is_open ?h a"
    using op by (simp add: is_open_def in_phase_snd close_body_def Let_def host_frame)
  ultimately show ?thesis
    by (simp add: ck_close_def host_frame table_ok_close_slot split: prod.split)
      (metis snd_conv table_ok_close_slot)
qed

lemma free_slot_spec:
  "free_slot gs i = Some s \<Longrightarrow> i \<le> s \<and> s < i + length gs \<and> gs ! (s - i) = None \<and>
     (\<forall>j < s - i. gs ! j \<noteq> None)"
proof (induction gs i rule: free_slot.induct)
  case (3 a gs i)
  then have IH: "Suc i \<le> s" "s < Suc i + length gs" "gs ! (s - Suc i) = None"
      "\<forall>j < s - Suc i. gs ! j \<noteq> None" by simp_all
  from IH(1) have "s - i = Suc (s - Suc i)" by simp
  with IH show ?case by (auto simp: less_Suc_eq_0_disj)
qed auto

lemma free_slot_full: "free_slot gs i = None \<longleftrightarrow> None \<notin> set gs"
  by (induction gs i rule: free_slot.induct) auto

lemma table_ok_free_new:
  assumes ok: "table_ok h" and new: "\<not> is_open h a"
  shows "table_ok (free_hfile a h)"
proof (rule table_okI)
  fix i b
  assume i: "i < HFS_MAX_FILES" "g_files (free_hfile a h) ! i = Some b"
  then have b: "g_files h ! i = Some b" by (simp add: free_hfile_def)
  with new ok i(1) have "b \<noteq> a" by (auto simp: is_open_def table_ok_def in_set_conv_nth)
  then show "slot_ok (free_hfile a h) i b"
    using slot_ok_at[OF ok i(1) b] by (simp add: slot_ok_def free_hfile_def)
qed (use ok in \<open>simp add: table_ok_def free_hfile_def\<close>)

lemma table_ok_new_hfile:
  assumes ok: "table_ok h" and new: "new_hfile path flags h = (a, h')"
  shows "table_ok h'" "\<not> is_open h' a" "a < next_addr h'" "g_files h' = g_files h"
proof -
  note d = new[unfolded new_hfile_def Let_def put_hfile_def]
  show files: "g_files h' = g_files h" and "a < next_addr h'"
    using d by auto
  have old: "slot_ok h' i b \<and> b \<noteq> a" if i: "i < HFS_MAX_FILES" "g_files h ! i = Some b" for i b
    using slot_ok_at[OF ok i] d by (auto simp: slot_ok_def)
  show "table_ok h'"
  proof (rule table_okI)
    show "length (g_files h') = HFS_MAX_FILES" using ok by (simp add: files table_ok_def)
  qed (use old in \<open>simp add: files\<close>)
  from old ok show "\<not> is_open h' a"
    by (auto simp: is_open_def files in_set_conv_nth table_ok_def)
qed

text \<open>Opening and syncing keep the table; \<open>same_table\<close> also fixes the next address.\<close>

definition same_table :: "'l host \<Rightarrow> 'l host \<Rightarrow> bool" where
  "same_table h h' \<longleftrightarrow> g_files h' = g_files h \<and> next_addr h' = next_addr h \<and>
     (table_ok h \<longrightarrow> table_ok h')"

lemma same_table_trans: "same_table h h' \<Longrightarrow> same_table h' h'' \<Longrightarrow> same_table h h''"
  by (simp add: same_table_def)

lemma same_table_call: "same_table h (snd (lfs_call f h))"
  by (simp add: same_table_def host_frame)

lemma same_table_put_time: "same_table h (put_hfile a ((file_at h a)\<lparr>hf_mtime := t\<rparr>) h)"
  by (auto simp: same_table_def table_ok_put_time) (simp_all add: put_hfile_def)

lemma same_table_stamp: "same_table h (stamp_time a h)"
  unfolding stamp_time_def using same_table_put_time[of h a "host_time h"]
  by (auto simp: same_table_def)

lemma same_table_sync: "same_table h (snd (esp_sync L a h))"
  unfolding esp_sync_def Let_def by (rule same_table_trans[OF same_table_stamp same_table_call])

lemma same_table_in_phase:
  assumes "\<And>h1. same_table h1 (snd (body h1))"
  shows "same_table h (snd (in_phase op path body h))"
  using assms[of "snd (phase_begin op path h)"]
  by (simp add: same_table_def in_phase_snd host_frame)

lemma same_table_open_body: "same_table h (snd (open_body L a lp flags h))"
proof -
  obtain err t h1 where c: "lfs_call (lfs_file_opencfg L a lp flags (attr_time h a)) h = ((err, t), h1)"
    by (metis prod.exhaust)
  let ?h2 = "if hf_attrs (file_at h1 a) then put_hfile a ((file_at h1 a)\<lparr>hf_mtime := t\<rparr>) h1 else h1"
  have "same_table h h1" using same_table_call[of h] c by (metis snd_conv)
  moreover have "same_table h1 ?h2"
    using same_table_put_time[of h1] by (auto simp: same_table_def)
  ultimately have "same_table h ?h2" by (rule same_table_trans)
  with same_table_sync[of ?h2 L a] show ?thesis
    by (auto simp: open_body_def c Let_def intro: same_table_trans)
qed

lemma same_table_cookie: "same_table h (snd (next_cookie h))"
  by (auto simp: same_table_def next_cookie_def table_ok_def slot_ok_def split: list.splits)

lemma table_ok_install:
  assumes ok: "table_ok h" and s: "s < HFS_MAX_FILES" and a: "a < next_addr h" "\<not> is_open h a"
    and gs: "gs = (g_files h)[s := Some a]"
  shows "table_ok ((put_hfile a (f\<lparr>hf_fd := HFS_FD_BASE + int s, hf_fp := Some a\<rparr>) h)
    \<lparr>fp_buf := u, g_files := gs\<rparr>)" (is "table_ok ?h")
proof (rule table_okI)
  fix i b
  assume i: "i < HFS_MAX_FILES" and b: "g_files ?h ! i = Some b"
  show "slot_ok ?h i b"
  proof (cases "i = s")
    case True
    with b gs s ok have "b = a" by (simp add: table_ok_def)
    with True a(1) show ?thesis by (simp add: slot_ok_def put_hfile_def)
  next
    case False
    with b gs have old: "g_files h ! i = Some b" by simp
    with a(2) ok i have "b \<noteq> a" by (auto simp: is_open_def table_ok_def in_set_conv_nth)
    with slot_ok_at[OF ok i old] show ?thesis by (simp add: slot_ok_def put_hfile_def)
  qed
qed (use ok in \<open>simp add: table_ok_def gs\<close>)

text \<open>The ways \<open>fopen\<close> ends: the C library's, refused, failed in littlefs, without a cookie, open.\<close>

lemma wrap_fopen_cases:
  assumes fo: "wrap_fopen L path mode h = (r, h')"
  obtains (libc) "r = Libc" "h' = h"
  | (refused) e where "r = Lfs None" "h' = set_errno e h"
  | (failed) flags lp a h1 e h2 where "new_hfile path flags h = (a, h1)"
      "in_phase ''open'' path (open_body L a lp flags) h1 = (Some e, h2)"
      "r = Lfs None" "h' = set_errno (lfs_to_errno e) (free_hfile a h2)"
  | (no_cookie) flags lp a h1 h2 h3 where "new_hfile path flags h = (a, h1)"
      "in_phase ''open'' path (open_body L a lp flags) h1 = (None, h2)" "next_cookie h2 = (False, h3)"
      "r = Lfs None" "h' = free_hfile a (snd (lfs_call (lfs_file_close L a (attr_time h3 a)) h3))"
  | (opened) flags lp a h1 h2 h3 s u where "new_hfile path flags h = (a, h1)"
      "in_phase ''open'' path (open_body L a lp flags) h1 = (None, h2)" "next_cookie h2 = (True, h3)"
      "free_slot (g_files h) 0 = Some s" "r = Lfs (Some a)"
      "h' = (put_hfile a ((file_at h3 a)\<lparr>hf_fd := HFS_FD_BASE + int s, hf_fp := Some a\<rparr>) h3)
         \<lparr>fp_buf := u, g_files := (g_files h3)[s := Some a]\<rparr>"
proof (cases "lfs_path path = None \<or> lfs_open_flags mode = None \<or> free_slot (g_files h) 0 = None")
  case True
  with fo libc refused show thesis by (auto simp: wrap_fopen_def split: option.splits)
next
  case False
  then obtain lp flags s where
    d: "lfs_path path = Some lp" "lfs_open_flags mode = Some flags" "free_slot (g_files h) 0 = Some s"
    by auto
  obtain a h1 where n: "new_hfile path flags h = (a, h1)" by fastforce
  obtain eo h2 where o2: "in_phase ''open'' path (open_body L a lp flags) h1 = (eo, h2)" by fastforce
  obtain b h3 where o3: "next_cookie h2 = (b, h3)" by fastforce
  show thesis
    by (cases eo; cases b) (use fo d n o2 o3 failed no_cookie opened in \<open>auto simp: wrap_fopen_def\<close>)
qed

text \<open>Until the file is entered, the table and the fresh address are as they were.\<close>

lemma opening_table:
  assumes ok: "table_ok h" and n: "new_hfile path flags h = (a, h1)"
    and o2: "in_phase ''open'' path (open_body L a lp flags) h1 = (eo, h2)"
  shows "table_ok h2" "g_files h2 = g_files h" "a < next_addr h2" "\<not> is_open h a"
proof -
  have "same_table h1 h2"
    using same_table_in_phase[of "open_body L a lp flags" h1 "''open''" path]
    by (simp add: o2 same_table_open_body)
  with table_ok_new_hfile[OF ok n]
  show "table_ok h2" "g_files h2 = g_files h" "a < next_addr h2" "\<not> is_open h a"
    by (auto simp: same_table_def is_open_def)
qed

lemma freed_table:
  assumes "table_ok h2" "g_files h2 = g_files h" "\<not> is_open h a" "same_table h2 g"
  shows "table_ok (free_hfile a g) \<and> g_files (free_hfile a g) = g_files h"
  using assms table_ok_free_new[of g a]
  by (auto simp: same_table_def is_open_def) (simp add: free_hfile_def)

lemma g_files_set_errno [host_frame]: "g_files (set_errno e h) = g_files h"
  by (simp add: set_errno_def)

lemma wrap_fopen_table:
  assumes ok: "table_ok h" and fo: "wrap_fopen L path mode h = (r, h')"
  shows "table_ok h' \<and>
    (case r of
       Lfs (Some a) \<Rightarrow> (\<exists>s. free_slot (g_files h) 0 = Some s \<and> g_files h' = (g_files h)[s := Some a] \<and>
          \<not> is_open h a)
     | _ \<Rightarrow> g_files h' = g_files h)"
  using fo
proof (cases rule: wrap_fopen_cases)
  case (failed flags lp a h1 e h2)
  note op = opening_table[OF ok failed(1,2)]
  show ?thesis
    using failed(3,4) freed_table[OF op(1,2,4), of h2] by (simp add: host_frame same_table_def)
next
  case (no_cookie flags lp a h1 h2 h3)
  note op = opening_table[OF ok no_cookie(1,2)]
  have "same_table h2 h3" using same_table_cookie[of h2] no_cookie(3) by simp
  from freed_table[OF op(1,2,4) same_table_trans[OF this same_table_call]]
  show ?thesis using no_cookie(4,5) by simp
next
  case (opened flags lp a h1 h2 h3 s u)
  note op = opening_table[OF ok opened(1,2)]
  have st: "same_table h2 h3" using same_table_cookie[of h2] opened(3) by simp
  have "s < HFS_MAX_FILES" using free_slot_spec[OF opened(4)] ok by (auto simp: table_ok_def)
  then have "table_ok h'"
    using op st by (auto simp: opened(6) same_table_def is_open_def intro!: table_ok_install)
  then show ?thesis using op st opened(4-6) by (simp add: same_table_def)
qed (use ok in \<open>simp_all add: host_frame\<close>)

section \<open>The harness as a state machine\<close>

text \<open>
  \<open>stdio_call\<close> is a call by the C library's stdio or by the program; cookie functions are
  called for open files only. \<open>host_step\<close> adds the steps by which the test drives the harness.
\<close>

inductive stdio_call :: "'l littlefs \<Rightarrow> 'l host \<Rightarrow> 'l host \<Rightarrow> bool" for L where
  call_fopen: "stdio_call L h (snd (wrap_fopen L path mode h))"
| call_read: "is_open h a \<Longrightarrow> stdio_call L h (snd (ck_read L a n h))"
| call_write: "is_open h a \<Longrightarrow> stdio_call L h (snd (ck_write L a d h))"
| call_seek: "is_open h a \<Longrightarrow> stdio_call L h (snd (ck_seek L a pos whence h))"
| call_close: "is_open h a \<Longrightarrow> stdio_call L h (snd (ck_close L a h))"
| call_fsync: "stdio_call L h (snd (wrap_fsync L fd h))"
| call_unlink: "stdio_call L h (snd (wrap_unlink L path h))"
| call_rename: "stdio_call L h (snd (wrap_rename L path path' h))"
| call_mkdir: "stdio_call L h (snd (wrap_mkdir L path h))"
| call_rmdir: "stdio_call L h (snd (wrap_rmdir L path h))"
| call_stat: "stdio_call L h (snd (wrap_stat L path h))"

inductive host_step :: "'l littlefs \<Rightarrow> 'l host \<Rightarrow> 'l host \<Rightarrow> bool" for L where
  step_call: "stdio_call L h h' \<Longrightarrow> host_step L h h'"
| step_format: "hfs_format_and_mount L cfg h = Some (r, h') \<Longrightarrow> host_step L h h'"
| step_remount: "hfs_remount L h = Some (r, h') \<Longrightarrow> host_step L h h'"
| step_unmount: "host_step L h (hfs_unmount L h)"
| step_refresh: "hfs_refresh_root_pairs L h = Some h' \<Longrightarrow> host_step L h h'"
| step_reset: "host_step L h (hfs_reset_phases h)"
| step_counting: "host_step L h (h\<lparr>hfs_counting := b\<rparr>)"
| step_clock: "host_step L h (h\<lparr>host_time := t\<rparr>)"

text \<open>The static initial values; littlefs' state, the clock and the cookies are arbitrary.\<close>

definition host_start :: "'l host \<Rightarrow> bool" where
  "host_start h \<longleftrightarrow>
     hfs_ctr h = no_counters \<and> hfs_counting h \<and> hfs_nphases h = 0 \<and>
     hfs_phases h = replicate HFS_MAX_PHASES zero_phase \<and> g_phase h = None \<and>
     g_root_pairs h = [] \<and> g_ram h = [] \<and> \<not> g_mounted h \<and> host_errno h = None \<and>
     g_files h = replicate HFS_MAX_FILES None \<and> heap_files h = Map.empty"

inductive host_reachable :: "'l littlefs \<Rightarrow> 'l host \<Rightarrow> bool" for L where
  reach_start: "host_start h \<Longrightarrow> host_reachable L h"
| reach_step: "host_reachable L h \<Longrightarrow> host_step L h h' \<Longrightarrow> host_reachable L h'"

inductive_cases stdio_callE: "stdio_call L h h'"
inductive_cases host_stepE: "host_step L h h'"

lemma table_ok_cookie_call [host_frame]:
  "table_ok h \<Longrightarrow> table_ok (snd (in_phase op path (lfs_call f) h))"
  by (rule table_ok_in_phase) (simp_all add: host_frame)

lemma table_ok_cookies:
  assumes "table_ok h"
  shows "table_ok (snd (ck_read L a n h))" "table_ok (snd (ck_write L a d h))"
    "table_ok (snd (ck_seek L a pos whence h))" "table_ok (snd (wrap_stat L path h))"
    "table_ok (snd (path_call op path g h))"
  using table_ok_cookie_call[OF assms] assms
  by (auto simp: ck_read_def ck_write_def ck_seek_def wrap_stat_def path_call_def host_frame
      split: prod.splits sum.splits option.splits) (metis host_frame snd_conv)+

lemma table_ok_fsync_file: "table_ok h \<Longrightarrow> table_ok (snd (fsync_file L a h))"
  by (simp add: fsync_file_def host_frame table_ok_in_phase)

lemma table_ok_fsync: "table_ok h \<Longrightarrow> table_ok (snd (wrap_fsync L fd h))"
  using table_ok_fsync_file[of h L]
  by (auto simp: wrap_fsync_def Let_def split: option.splits prod.splits) (metis snd_conv)

lemma table_ok_rename: "table_ok h \<Longrightarrow> table_ok (snd (wrap_rename L path path' h))"
  using table_ok_status[of "in_phase ''rename'' path' (lfs_call (lfs_rename L _ _)) h"]
  by (auto simp: wrap_rename_def host_frame split: option.splits prod.splits) (metis host_frame snd_conv)

lemma table_ok_stdio_call: "stdio_call L h h' \<Longrightarrow> table_ok h \<Longrightarrow> table_ok h'"
proof (induction rule: stdio_call.induct)
  case (call_fopen h path mode)
  then show ?case using wrap_fopen_table[of h L path mode] by (metis prod.collapse)
qed (simp_all add: table_ok_cookies table_ok_ck_close table_ok_fsync table_ok_rename
    wrap_unlink_def wrap_mkdir_def wrap_rmdir_def)

definition phases_ok :: "'l host \<Rightarrow> bool" where
  "phases_ok h \<longleftrightarrow> length (hfs_phases h) = HFS_MAX_PHASES \<and> hfs_nphases h \<le> HFS_MAX_PHASES"

lemma table_ok_above: "same_above h h' \<Longrightarrow> table_ok h \<Longrightarrow> table_ok h'"
  using table_ok_cong[of h' h] by (simp add: same_above_def)

lemma table_ok_start: "host_start h \<Longrightarrow> table_ok h"
  by (auto simp: host_start_def intro: table_okI)

lemma table_ok_control:
  "table_ok (hfs_reset_phases h) = table_ok h" "table_ok (h\<lparr>hfs_counting := b\<rparr>) = table_ok h"
  "table_ok (h\<lparr>host_time := t\<rparr>) = table_ok h"
  by (simp_all add: table_ok_def slot_ok_def hfs_reset_phases_def)

lemmas table_ok_mounting =
  table_ok_above[OF format_above] table_ok_above[OF remount_above]
  table_ok_above[OF unmount_above] table_ok_above[OF conjunct1[OF refresh_above]]

lemma table_ok_step: "host_step L h h' \<Longrightarrow> table_ok h \<Longrightarrow> table_ok h'"
  by (elim host_stepE) (auto simp: table_ok_control intro: table_ok_stdio_call table_ok_mounting)

lemma table_ok_reachable: "host_reachable L h \<Longrightarrow> table_ok h"
  by (induction rule: host_reachable.induct) (auto intro: table_ok_start table_ok_step)

lemma fileno_search_hit:
  "i < length gs \<Longrightarrow> gs ! i = Some a \<Longrightarrow> hf_fp (file_at h a) = Some a \<Longrightarrow>
   (\<And>b. Some b \<in> set gs \<Longrightarrow> hf_fp (file_at h b) = Some b) \<Longrightarrow>
   fileno_search gs a h = Lfs (hf_fd (file_at h a))"
proof (induction gs arbitrary: i)
  case (Cons g gs)
  then show ?case by (cases i) (auto split: option.splits)
qed simp

section \<open>Attribution of the traffic\<close>

named_theorems account_simps \<open>steps that leave the account alone\<close>

lemma unattributed_cong:
  assumes "hfs_ctr h' = hfs_ctr h" and "map phase_c (hfs_phases h') = map phase_c (hfs_phases h)"
  shows "unattributed h' = unattributed h"
proof -
  have "map (\<lambda>p. phase_c p f) (hfs_phases h') = map (\<lambda>p. phase_c p f) (hfs_phases h)" for f
    using arg_cong[OF assms(2), of "map (\<lambda>c. c f)"] by (simp add: comp_def)
  with assms(1) show ?thesis by (simp add: unattributed_def fun_eq_iff)
qed

lemma phase_search_range: "phase_search n ps i = Some k \<Longrightarrow> i \<le> k \<and> k < i + length ps"
  by (induction n ps i rule: phase_search.induct) (auto split: if_splits)

definition room :: "'l host \<Rightarrow> bool" where
  "room h \<longleftrightarrow> length (hfs_phases h) = HFS_MAX_PHASES \<and> hfs_nphases h < HFS_MAX_PHASES"

lemma phase_index_room:
  assumes "room h"
  obtains i h' where "phase_index n h = (Some i, h')" "i < HFS_MAX_PHASES"
    "hfs_ctr h' = hfs_ctr h" "map phase_c (hfs_phases h') = map phase_c (hfs_phases h)"
proof (cases "phase_search n (take (hfs_nphases h) (hfs_phases h)) 0")
  case None
  let ?ps = "(hfs_phases h)[hfs_nphases h :=
      (hfs_phases h ! hfs_nphases h)\<lparr>phase_name := take 31 n\<rparr>]"
  have "map phase_c ?ps = map phase_c (hfs_phases h)" by (rule map_update_same) simp
  with None assms that show thesis by (auto simp: phase_index_def room_def)
next
  case (Some i)
  with assms that phase_search_range[OF Some] show thesis
    by (auto simp: phase_index_def room_def)
qed

lemma phase_begin_room:
  assumes "room h"
  shows "attributing (snd (phase_begin op path h)) \<and>
    unattributed (snd (phase_begin op path h)) = unattributed h"
proof -
  obtain i h1 where i: "phase_index (take 31 (op @ '':'' @ path_class path)) h = (Some i, h1)"
    "i < HFS_MAX_PHASES" and c: "hfs_ctr h1 = hfs_ctr h"
    "map phase_c (hfs_phases h1) = map phase_c (hfs_phases h)"
    using phase_index_room[OF assms] .
  let ?h = "snd (phase_begin op path h)"
  have len: "length (hfs_phases h1) = HFS_MAX_PHASES"
    using map_eq_imp_length_eq[OF c(2)] assms by (simp add: room_def)
  have "map phase_c (hfs_phases ?h) = map phase_c (hfs_phases h1)"
    unfolding phase_begin_def i(1) by (auto intro!: map_update_same)
  moreover have "hfs_ctr ?h = hfs_ctr h1" unfolding phase_begin_def i(1) by auto
  ultimately have "unattributed ?h = unattributed h"
    using c by (intro unattributed_cong) simp_all
  moreover have "attributing ?h"
    using i(2) len unfolding phase_begin_def i(1) by (auto simp: attributing_def)
  ultimately show ?thesis by simp
qed

lemma account_steps [account_simps]:
  "unattributed (set_errno e h) = unattributed h"
  "unattributed (put_hfile a f h) = unattributed h"
  "unattributed (free_hfile a h) = unattributed h"
  "unattributed (clear_slot a h) = unattributed h"
  "unattributed (snd (next_cookie h)) = unattributed h"
  "unattributed (phase_end prev h) = unattributed h"
  "unattributed (h\<lparr>fp_buf := u, g_files := gs\<rparr>) = unattributed h"
  by (auto simp: phase_end_def set_errno_def put_hfile_def free_hfile_def clear_slot_def next_cookie_def
      unattributed_def split: list.split)

lemma in_phase_account:
  assumes "room h" and "\<And>h1. accounted h1 (snd (body h1))"
  shows "unattributed (snd (in_phase op path body h)) = unattributed h"
  using phase_begin_room[OF assms(1), of op path] assms(2)
  by (simp add: in_phase_snd accounted_def account_simps)

lemma account_status [account_simps]: "unattributed (snd (status r)) = unattributed (snd r)"
  by (auto simp: status_def account_simps split: prod.splits option.splits)

lemma accounted_put: "accounted h (put_hfile a f h)"
  by (simp add: accounted_def account_simps) (simp add: attributing_def put_hfile_def)

lemma accounted_stamp: "accounted h (stamp_time a h)"
  by (simp add: stamp_time_def accounted_put account.rel_refl)

lemma accounted_sync: "accounted h (snd (esp_sync L a h))"
  unfolding esp_sync_def Let_def by (rule account.rel_trans[OF accounted_stamp account.rel_call])

lemma accounted_close: "accounted h (snd (close_body L a h))"
  unfolding close_body_def Let_def by (rule account.rel_trans[OF accounted_stamp account.rel_call])

lemma accounted_open: "accounted h (snd (open_body L a lp flags h))"
proof -
  obtain err t h1 where c: "lfs_call (lfs_file_opencfg L a lp flags (attr_time h a)) h = ((err, t), h1)"
    by (metis prod.exhaust)
  let ?h2 = "if hf_attrs (file_at h1 a) then put_hfile a ((file_at h1 a)\<lparr>hf_mtime := t\<rparr>) h1 else h1"
  have "accounted h h1" using account.rel_call[of h] c by (metis snd_conv)
  moreover have "accounted h1 ?h2" by (simp add: accounted_put account.rel_refl)
  ultimately have "accounted h ?h2" by (rule account.rel_trans)
  with account.rel_trans[OF this accounted_sync] show ?thesis
    by (auto simp: open_body_def c Let_def)
qed

lemmas phase_account =
  in_phase_account[OF _ account.rel_call] in_phase_account[OF _ accounted_sync]
  in_phase_account[OF _ accounted_close] in_phase_account[OF _ accounted_open]

lemma cookies_sync: "cookie_script (snd (esp_sync L a h)) = cookie_script h"
  by (simp add: esp_sync_def Let_def host_frame) (simp add: stamp_time_def put_hfile_def)

lemma cookies_open:
  "cookie_script (snd (in_phase op path (open_body L a lp flags) h)) = cookie_script h"
proof -
  have "cookie_script (snd (open_body L a lp flags h1)) = cookie_script h1" for h1
    using call_fields(6)[of "lfs_file_opencfg L a lp flags (attr_time h1 a)" h1]
    by (auto simp: open_body_def Let_def cookies_sync put_hfile_def split: prod.split)
  then show ?thesis by (simp add: in_phase_snd host_frame)
qed

lemma account_fopen:
  assumes rm: "room h" and ck: "cookie_script h = [] \<or> hd (cookie_script h)"
  shows "unattributed (snd (wrap_fopen L path mode h)) = unattributed h"
proof -
  obtain r h' where fo: "wrap_fopen L path mode h = (r, h')" by fastforce
  have op: "unattributed h2 = unattributed h \<and> cookie_script h2 = cookie_script h"
    if "new_hfile path flags h = (a, h1)"
      "in_phase ''open'' path (open_body L a lp flags) h1 = (eo, h2)" for flags lp a h1 eo h2
  proof -
    from that(1) rm have "room h1" "unattributed h1 = unattributed h" "cookie_script h1 = cookie_script h"
      by (auto simp: new_hfile_def Let_def put_hfile_def room_def unattributed_def)
    with in_phase_account[of h1 "open_body L a lp flags" "''open''" path] that(2)
      cookies_open[of "''open''" path L a lp flags h1]
    show ?thesis by (simp add: accounted_open)
  qed
  have "unattributed h' = unattributed h"
    using fo
  proof (cases rule: wrap_fopen_cases)
    case (no_cookie flags lp a h1 h2 h3)
    with op[OF no_cookie(1,2)] ck show ?thesis
      by (cases "cookie_script h") (auto simp: next_cookie_def)
  next
    case (opened flags lp a h1 h2 h3 s u)
    with op[OF opened(1,2)] account_steps(5)[of h2] show ?thesis by (simp add: account_simps)
  qed (auto simp: account_simps dest: op)
  with fo show ?thesis by simp
qed

lemma account_calls:
  assumes "room h"
  shows "unattributed (snd (ck_read L a n h)) = unattributed h"
    "unattributed (snd (ck_write L a d h)) = unattributed h"
    "unattributed (snd (ck_seek L a pos whence h)) = unattributed h"
    "unattributed (snd (ck_close L a h)) = unattributed h"
    "unattributed (snd (fsync_file L a h)) = unattributed h"
    "unattributed (snd (path_call op path g h)) = unattributed h"
    "unattributed (snd (wrap_rename L path path' h)) = unattributed h"
    "unattributed (snd (wrap_stat L path h)) = unattributed h"
proof -
  note ph = in_phase_account[OF assms]
  have call: "unattributed h' = unattributed h"
    if "in_phase op path (lfs_call f) h = (r, h')" for op path f r h'
    using ph[of "lfs_call f" op path] account.rel_call that by (metis snd_conv)
  show "unattributed (snd (ck_read L a n h)) = unattributed h"
    "unattributed (snd (ck_write L a d h)) = unattributed h"
    "unattributed (snd (ck_seek L a pos whence h)) = unattributed h"
    "unattributed (snd (wrap_stat L path h)) = unattributed h"
    by (auto simp: ck_read_def ck_write_def ck_seek_def wrap_stat_def account_simps dest: call
        split: prod.split sum.split option.split)
  show "unattributed (snd (ck_close L a h)) = unattributed h"
    using ph[of "close_body L a"] by (auto simp: ck_close_def account_simps accounted_close
        split: prod.split) (metis snd_conv accounted_close)
  show "unattributed (snd (fsync_file L a h)) = unattributed h"
    using ph[of "esp_sync L a"] by (simp add: fsync_file_def account_simps accounted_sync)
  have st: "unattributed (snd (status (in_phase op path (lfs_call f) h))) = unattributed h"
    for op path f
    by (simp add: account_simps ph[OF account.rel_call])
  show "unattributed (snd (path_call op path g h)) = unattributed h"
    using st by (simp add: path_call_def case_prod_beta split: option.split)
  show "unattributed (snd (wrap_rename L path path' h)) = unattributed h"
    using st by (simp add: wrap_rename_def account_simps case_prod_beta split: option.split)
qed

lemma account_fsync:
  "room h \<Longrightarrow> unattributed (snd (wrap_fsync L fd h)) = unattributed h"
  using account_calls(5)[of h L]
  by (simp add: wrap_fsync_def Let_def case_prod_beta split: option.split)

text \<open>
  With a full table, traffic under a new name is counted in the total alone. The calls have
  eleven names and the paths four classes, so the 32 phases need not suffice.
\<close>

lemma full_table_unattributed:
  assumes "hfs_counting h" and "g_phase h = None"
  shows "unattributed (BUMP f n h) f = unattributed h f + n"
  using assms by (simp add: BUMP_def unattributed_def Let_def)

text \<open>
  \<open>hfs_write_file\<close> looks at the count of \<open>fwrite\<close> only. Data that fits the stdio buffer is
  written by \<open>fclose\<close>, whose result is dropped, so the file is reported written even when
  littlefs refuses it (no space, say).
\<close>

lemma write_file_ignores_close:
  assumes "wrap_fopen L path ''wb'' h = (Lfs (Some a), h1)" and "split (fp_buf h1 a) d = ([], rest)"
  shows "fst (hfs_write_file L split path d h) = Lfs True"
  using assms by (simp add: hfs_write_file_def stdio_fwrite_def)

section \<open>A concrete run\<close>

text \<open>A file system that commits at every sync and close and programs what is written.\<close>

definition demo_lfs :: "unit littlefs" where
  "demo_lfs =
     \<lparr>lfs_format = (\<lambda>c l. BdErase 0 (BdRet (None, l))),
      lfs_mount = (\<lambda>c l. BdRead 0 0 16 (\<lambda>d. BdRet (None, l))),
      lfs_unmount = (\<lambda>l. BdRet ((), l)),
      lfs_dir_open = (\<lambda>p l. BdRet (None, l)),
      lfs_dir_pair = (\<lambda>l. (0, 1)),
      lfs_dir_read = (\<lambda>l. BdRet (0, l)),
      lfs_dir_close = (\<lambda>l. BdRet ((), l)),
      lfs_file_opencfg = (\<lambda>a p f t l. BdRead 0 0 16 (\<lambda>d. BdRet ((None, 0), l))),
      lfs_file_sync = (\<lambda>a t l. BdHook LFS_H_COMMIT (Some (0, 1)) (BdRet (None, l))),
      lfs_file_close = (\<lambda>a t l. BdHook LFS_H_COMMIT (Some (0, 1)) (BdRet (None, l))),
      lfs_file_read = (\<lambda>a n l. BdRet (Inr [], l)),
      lfs_file_write = (\<lambda>a d l. BdProg 0 0 d (BdRet (Inr (length d), l))),
      lfs_file_seek = (\<lambda>a i w l. BdRet (Inr 0, l)),
      lfs_remove = (\<lambda>p l. BdRet (None, l)),
      lfs_rename = (\<lambda>p q l. BdRet (None, l)),
      lfs_mkdir = (\<lambda>p l. BdRet (None, l)),
      lfs_stat = (\<lambda>p l. BdRet (Inl LFS_ERR_NOENT, l))\<rparr>"

definition demo_start :: "unit host" where
  "demo_start =
     \<lparr>hfs_ctr = no_counters, hfs_counting = True,
      hfs_phases = replicate HFS_MAX_PHASES zero_phase, hfs_nphases = 0, g_phase = None,
      g_root_pairs = [], g_lfs = (),
      g_cfg = \<lparr>lc_read_size = 0, lc_prog_size = 0, lc_block_size = 0, lc_block_count = 0,
        lc_block_cycles = 0, lc_cache_size = 0, lc_lookahead_size = 0, lc_metadata_max = 0,
        lc_inline_max = 0, lc_name_max = 0\<rparr>,
      g_hcfg = hfs_default_config, g_ram = [], g_mounted = False,
      g_files = replicate HFS_MAX_FILES None, heap_files = Map.empty, next_addr = 0,
      fp_buf = (\<lambda>_. None), host_errno = None, host_time = 7, cookie_script = []\<rparr>"

definition demo_open :: "unit host" where
  "demo_open = snd (wrap_fopen demo_lfs ''/littlefs/a.tsdb'' ''w+b'' demo_start)"

lemma demo_start_ok: "host_start demo_start"
  by (simp add: host_start_def demo_start_def)

lemma demo_open_reachable: "host_reachable demo_lfs demo_open"
  unfolding demo_open_def
  by (rule reach_step[OF reach_start[OF demo_start_ok] step_call[OF call_fopen]])

lemma demo_open_state:
  "g_files demo_open ! 0 = Some 0" "length (g_files demo_open) = 16"
  "length (hfs_phases demo_open) = 32" "hfs_nphases demo_open = 1" "cookie_script demo_open = []"
  by code_simp+

section \<open>Properties\<close>

text \<open>
  C39: Every open \<open>FILE\<close> has a descriptor of its own: in every reachable state of the
  harness, \<open>fileno\<close> of the \<open>FILE\<close> in slot \<open>i\<close> is \<open>0x4000 + i\<close>, no other slot holds it, and
  \<open>fsync\<close> of that descriptor syncs this very file.
\<close>

theorem stdio_descriptors_sound:
  assumes reach: "host_reachable L h" and i: "i < 16" and a: "g_files h ! i = Some a"
  shows "wrap_fileno a h = Lfs (0x4000 + int i) \<and>
    (\<forall>j<16. g_files h ! j = Some a \<longrightarrow> j = i) \<and>
    wrap_fsync L (0x4000 + int i) h = (Lfs (fst (fsync_file L a h)), snd (fsync_file L a h))"
proof -
  note ok = table_ok_reachable[OF reach]
  have i': "i < HFS_MAX_FILES" using i by (simp add: HFS_MAX_FILES_def)
  have fp: "hf_fp (file_at h b) = Some b" if "Some b \<in> set (g_files h)" for b
    using that ok table_slot(4)[OF ok] by (auto simp: in_set_conv_nth table_ok_def)
  have "wrap_fileno a h = Lfs (hf_fd (file_at h a))"
    unfolding wrap_fileno_def
    using i' ok a fp table_slot(4)[OF ok i' a] by (intro fileno_search_hit) (auto simp: table_ok_def)
  moreover have "\<forall>j<16. g_files h ! j = Some a \<longrightarrow> j = i"
    using slots_distinct[OF ok _ i' _ a] by (simp add: HFS_MAX_FILES_def)
  moreover have "wrap_fsync L (0x4000 + int i) h =
      (Lfs (fst (fsync_file L a h)), snd (fsync_file L a h))"
    using i by (simp add: wrap_fsync_def HFS_FD_BASE_def HFS_MAX_FILES_def Let_def a case_prod_beta)
  ultimately show ?thesis
    using table_slot(3)[OF ok i' a] by (simp only: HFS_FD_BASE_def simp_thms)
qed

theorem stdio_descriptors_sound_witness:
  "wrap_fileno 0 demo_open = Lfs 0x4000 \<and>
   wrap_fsync demo_lfs 0x4000 demo_open =
     (Lfs (fst (fsync_file demo_lfs 0 demo_open)), snd (fsync_file demo_lfs 0 demo_open))"
  using stdio_descriptors_sound[OF demo_open_reachable, of 0 0] demo_open_state(1) by simp

text \<open>
  When \<open>fopencookie\<close> fails, \<open>fopen\<close> closes the littlefs file after it has ended its phase: the
  commit of that close is counted in no phase.
\<close>

lemma failed_cookie_unattributed:
  "unattributed demo_start (Ev LFS_H_COMMIT) = 0"
  "unattributed (snd (wrap_fopen demo_lfs ''/littlefs/a.tsdb'' ''w+b'' (demo_start\<lparr>cookie_script := [False]\<rparr>))) (Ev LFS_H_COMMIT) = 1"
  by code_simp+

text \<open>
  C40: The phase table accounts for the traffic of stdio: as long as the table has room for a
  name, a call of stdio in which \<open>fopencookie\<close> does not fail changes no counter of the traffic
  that no phase has, whatever littlefs does during the call. A call of \<open>fopen\<close> whose
  \<open>fopencookie\<close> fails is excluded: it closes the file after the end of its phase
  (\<open>failed_cookie_unattributed\<close>).
\<close>

theorem stdio_traffic_attributed:
  assumes call: "stdio_call L h h'" and table: "length (hfs_phases h) = 32" "hfs_nphases h < 32"
    and cookie: "cookie_script h = [] \<or> hd (cookie_script h)"
  shows "unattributed h' = unattributed h"
proof -
  have "room h" using table by (simp add: room_def HFS_MAX_PHASES_def)
  with call cookie show ?thesis
    by (elim stdio_callE)
      (simp_all add: account_calls account_fsync account_fopen wrap_unlink_def wrap_mkdir_def
        wrap_rmdir_def)
qed

theorem stdio_traffic_attributed_witness:
  "unattributed (snd (ck_write demo_lfs 0 [1, 2, 3] demo_open)) = unattributed demo_open"
proof -
  have "is_open demo_open 0"
    using demo_open_state(1,2) by (metis is_open_def nth_mem zero_less_numeral)
  then have "stdio_call demo_lfs demo_open (snd (ck_write demo_lfs 0 [1, 2, 3] demo_open))"
    by (rule call_write)
  from stdio_traffic_attributed[OF this] demo_open_state show ?thesis by simp
qed

end
