(* ===== verification/Spec2Isabelle.thy ===== *)
theory Spec2Isabelle
  imports Tsdb_Index Tsdb_Repair Tsdb_Faults Tsdb_Benchmark Host_Stdio
begin

text \<open>
  A verification library for the time series database \<open>esp_tsdb\<close>.

  \<^bold>\<open>The program.\<close> \<open>esp_tsdb\<close> stores records of a 32-bit timestamp and up to 64 signed 16-bit
  parameters in one file on an embedded device. The file has a packed header of 584 bytes, a
  sparse time index, and a data region of 1024-byte blocks that store their records
  column-wise; with a capacity set, the data region is a ring in which the oldest record is
  evicted. So that the header at offset 0 need not be rewritten for every record, the current
  header goes into small alternating sidecar files and is folded back into the file on close,
  sync, clear and fast resize. Further columns can be added in an overflow region at the end
  of the file, and a schema migration rewrites the whole file through a sibling
  \<open><path>.mig\<close>. Each database is a handle with its own lock; closed handles are parked in a
  recycler, and a legacy API works on one published default handle.

  \<^bold>\<open>Theories and the code they model.\<close>

  \<^item> \<open>Prelude\<close>, \<open>Platform\<close>: machine integers, byte buffers, and the world outside the
    repository (files, heap, lock, free-space callback) with scripts that say which of the next
    operations fail. Every other theory is about the repository's code.
  \<^item> \<open>Tsdb_Format\<close> (\<open>src/include/esp_tsdb.h\<close>, \<open>src/src/tsdb_internal.h\<close>): \<open>tsdb_header_t\<close> as a
    record, its packed image, \<open>tsdb_header_is_sane\<close>, block offsets; \<open>Tsdb_Block\<close>: the block
    access macros.
  \<^item> \<open>Tsdb_Buffer\<close> (\<open>src/src/tsdb_buffer.c\<close>): the pool, contiguous or paged.
  \<^item> \<open>Tsdb_Handle\<close> (\<open>struct tsdb_s\<close>, the lock macro, header and block I/O);
    \<open>Tsdb_Ring\<close>: the list of retained records that a header and a file stand for. This is the
    abstract state that the properties of all other components speak about.
  \<^item> \<open>Tsdb_Write\<close> (\<open>src/src/tsdb_write.c\<close>): \<open>tsdb_write_h\<close> with the free-space guard, eviction,
    the retry after \<open>ENOSPC\<close>, overflow values, and the header update; \<open>tsdb_write_batch_h\<close>.
  \<^item> \<open>Tsdb_Sidecar\<close>, \<open>Tsdb_Durability\<close> (\<open>src/src/tsdb_core.c\<close>): the slots, their CRC, choice of
    the newest valid one; what survives failed and torn writes.
  \<^item> \<open>Tsdb_Query\<close> (\<open>src/src/tsdb_query.c\<close>): start seek, iteration, count and aggregation;
    \<open>Tsdb_Index\<close> (\<open>src/src/tsdb_index.c\<close>): the binary search on the index.
  \<^item> \<open>Tsdb_Open\<close>, \<open>Tsdb_Recovery\<close>, \<open>Tsdb_Repair\<close> (\<open>tsdb_open\<close> and its helpers in
    \<open>src/src/tsdb_core.c\<close>, \<open>tsdb_migrate_recover\<close> in \<open>src/src/tsdb_migrate.c\<close>): creating a file,
    judging a header, adopting a sidecar, reconstruction from the blocks, conversion of layout
    V2, an interrupted migration.
  \<^item> \<open>Tsdb_Fold\<close>, \<open>Tsdb_Lifecycle\<close>, \<open>Tsdb_Recycler\<close> (\<open>src/src/tsdb_core.c\<close>): the fold with the
    index rebuild; open, close, delete, sync, clear, statistics; the recycler as a state machine.
  \<^item> \<open>Tsdb_Overflow\<close> (\<open>src/src/tsdb_core.c\<close>): extra parameters and parameter names.
  \<^item> \<open>Tsdb_Migrate\<close>, \<open>Tsdb_Schema\<close> (\<open>src/src/tsdb_migrate.c\<close>): the migration engine, schema
    migration and resize, and what they promise; \<open>Tsdb_Faults\<close>: what a write and a migration do
    when a block cannot be read.
  \<^item> \<open>Tsdb_Api\<close>: the legacy API as a state machine; \<open>Tsdb_Session\<close>: open, write and query in turn,
    with the buffer pool they share.
  \<^item> \<open>Tsdb_Benchmark\<close> (\<open>src/src/tsdb_benchmark.c\<close>): a client of the legacy API.
  \<^item> \<open>Host_Device\<close>, \<open>Host_Stdio\<close> (\<open>src/host_test/lfs/lfs_stdio.c\<close>): the stdio layer by which the
    cost of the library's I/O is measured on a host: a RAM device with NOR semantics and traffic
    counters below littlefs, the wrapped file functions above it. It is independent of the
    other theories.

  \<^bold>\<open>State and operations.\<close> A handle is the record \<open>tsdb\<close> with the fields of \<open>struct tsdb_s\<close>, the
  library's globals are the record \<open>tsdb_lib\<close> (the allocated handles, the recycler, the
  published handle), and the outside is the record \<open>world\<close>. An operation takes what it works on
  and returns its \<open>esp_err\<close> and the updated state; NULL pointers are \<open>None\<close>. Long C functions are
  split at their comments into one definition per phase (\<open>tsdb_write_h\<close> into guard, position,
  block, header; the migration engine into columns, plan, copy, swap), composed in the order of
  the code. Machine integers keep their width, so every wrap-around of the code is one of the
  model.

  \<^bold>\<open>Interfaces.\<close> \<open>row_store\<close> (a block is a table of rows, \<open>Tsdb_Block\<close>) and \<open>flat_memory\<close> (a
  pool is a byte array, \<open>Tsdb_Buffer\<close>) are the contracts of the two memory layouts.
  \<open>record_queue\<close> (\<open>Tsdb_Write\<close>) says that a put appends one row to a list cut to a limit; it is
  interpreted by \<open>tsdb_write_h\<close> on the retained records (\<open>db_queue\<close>) and on the values in the
  overflow region (\<open>extra_log\<close>). \<open>durable_queue\<close> (\<open>Tsdb_Recovery\<close>) extends it by a crash
  followed by a reopen that changes nothing, and is interpreted by \<open>tsdb_open_handle\<close>.
  \<open>device_relation\<close> (\<open>Host_Device\<close>) is what a littlefs call can do to the harness; it is interpreted
  by the frame and by the account of the attributed traffic.

  \<^bold>\<open>What the lemmas show.\<close>

  \<^item> Writing refines a bounded queue of records, for every pattern of reported failures that a
    successful write survives; a failed write damages at most the oldest record.
  \<^item> Queries, counts and aggregates are the window of that list, filtered, selected and folded
    with 32-bit arithmetic; the start seek is the number of older records.
  \<^item> A sidecar write is atomic under failures as long as its bookkeeping is right, a damaged slot
    is refused, and without failures writes followed by crashes and reopens lose nothing within
    twice the capacity.
  \<^item> Without failures fold, close, sync and clear leave a self-contained file, and closing and
    reopening is a round trip within twice the capacity; a task that slept through a close is turned away; the recycled handle is closed
    and never published; a close that timed out leaves the handle as it was and can be repeated until
    it succeeds.
  \<^item> Overflow replacement and schema migration are migrations by name: a value follows its
    column's name, a new column is zero, and the newest records stay. A migration in
    which any reported operation fails, or that a crash stops, leaves the old file or the complete
    new one.
  \<^item> What a session wrote is what its queries return, from opening a fresh path on; the
    benchmark sees exactly its own writes and leaves nothing behind.
  \<^item> In the host stdio layer an erased block takes the data programmed into it, every open file
    has a descriptor of its own, and traffic is attributed to a phase as long as one is free.
  \<^item> Where the code does not keep such a promise, a theorem states the behaviour it has: the
    sidecar refused after the second wrap, two failed sidecar writes, a resize or a clear undone
    by a crash, the overflow region overwritten by a growing ring, more than 64 aggregation
    requests, an acknowledged write without a stored header, an eviction without a write, a
    write that zeroes a block it could not read, a migration that drops records it could not
    read, a reconstruction that misses the first block, a benchmark that writes into the
    application's database because it ignores that it could not close it, and a failed \<open>fopen\<close> of
    the harness whose traffic no phase has.

  \<^bold>\<open>Bounds, loops and termination.\<close> Loops are structural recursions on a number or a list, or
  functions with a termination proof by a measure: the walk over the pages of the pool, the
  binary searches, the query iterator (bounded by the ring slots not yet consumed). The
  harness' loop over the root directory is a partial function that ends when littlefs'
  directories do (\<open>root_pair_loop_returns\<close>). There is no fuel in the model of the code.
  \<open>close_retrying\<close> in \<open>Tsdb_Api\<close> repeats a close as an application would; its bound is the number of scripted lock outcomes plus one, after which the lock is
  free. Hypotheses of the form \<open>\<dots> < 2 ^ 32\<close> say that file offsets and counters do not wrap, which
  the code does not check.

  \<^bold>\<open>The world.\<close> A read fails when its range leaves the file, or when the set \<open>read_fault\<close> of the
  world says so for this path, offset and length. The next opens, writes, removals, renamings
  and checked flushes take their outcomes from a script: success; failure, where a write leaves
  any prefix of its data; or \<open>IoLost\<close>, where the call reports success and the data is lost by the
  unchecked \<open>fflush\<close>, \<open>fsync\<close> or \<open>fclose\<close> after it. So these unchecked calls have no operation of
  their own: what they can lose is part of the outcome of the write before them. A world is
  \<open>sound\<close> when no read inside a file fails and no accepted data is lost; every other failure is
  possible and shows in a result. It is \<open>quiet\<close> when nothing fails at all. The theorems about records
  under failures assume a \<open>sound\<close> world (it is a part of \<open>db_inv\<close> and of \<open>readable\<close>);
  \<open>Tsdb_Faults\<close> shows what happens when a read fails. A sidecar write leaves the old header or the
  new one in every world.
  A crash is the loss of all handles with the files as they are. The lock is modelled by the
  outcome of taking it, so an operation runs alone once it has the lock; the interleavings
  between lock requests are the steps of \<open>Tsdb_Recycler\<close> and \<open>Tsdb_Api\<close>. The heap, the lock and
  the callback may refuse at any time. The progress callback of a migration appears as the list
  of its calls.

  \<^bold>\<open>Parameters.\<close> The benchmark takes the clock (\<open>esp_timer_get_time\<close>) and the single precision
  quotient of its averages as arguments; its properties hold for every such function. They are
  about runs of fewer than 100 records, which do not add overflow columns. littlefs is a record
  of functions; each returns the tree of its requests to the block device, so the properties of
  the harness hold for whatever it does between call and return. How the C library cuts data
  into buffers is a parameter of \<open>hfs_write_file\<close>.

  \<^bold>\<open>Not modelled.\<close> The test programs and shims in \<open>src/host_test\<close>, logging, the alignment of
  memory, and what a file system loses of unsynced data in a power failure.
  A store beyond an array ends the model of a function with the result \<open>None\<close>, because C gives it no
  meaning: in \<open>tsdb_aggregate_multi_h\<close> with more than 64 requests or distinct parameters, and in the
  migration engine for a database with more than 64 columns, which \<open>tsdb_migrate_overflow_h\<close>
  admits. A query without a selection stores beyond \<open>param_indices\<close> for such a database: the store
  to element 64 hits \<open>num_params_to_fetch\<close> and is modelled, those behind it hit fields that
  \<open>tsdb_query_init_h\<close> assigns afterwards, and what lies behind the struct is not modelled. The
  theorems about queries assume at most 64 columns.
\<close>

end
